(* ===== verification/Prelude.thy ===== *)
theory Prelude
  imports Complex_Main "HOL-Library.Word" "HOL-Library.Multiset" "HOL-Library.While_Combinator"
begin

text \<open>
  Shared vocabulary of the development: the machine integer types of the C++ sources,
  the facts about powers of two, masks and shifts that every index computation uses, the
  list and multiset lemmas shared by the component theories, and the model of one
  \<^verbatim>\<open>compare_exchange_weak\<close> under interference from other threads.
\<close>

unbundle bit_operations_syntax

named_theorems word_to_nat \<open>rules that move a word expression to the naturals\<close>
named_theorems header_simps \<open>projections of packed words\<close>

type_synonym u8 = "8 word"
type_synonym u32 = "32 word"
type_synonym u64 = "64 word"

section \<open>Words read as naturals\<close>

lemma unat_and_mask [word_to_nat]: "unat (w AND mask n :: 'a::len word) = unat w mod 2 ^ n"
  by (metis take_bit_eq_mask take_bit_eq_mod unsigned_take_bit_eq)

lemma unat_drop_bit [word_to_nat]: "unat (drop_bit n w :: 'a::len word) = unat w div 2 ^ n"
  by (subst unat_drop_bit_eq) (simp only: drop_bit_eq_div)

lemma unat_add_small [word_to_nat]:
  "unat a + unat b < 2 ^ LENGTH('a) \<Longrightarrow> unat (a + b :: 'a::len word) = unat a + unat b"
  by (simp add: unat_word_ariths)

lemma unat_suc_small [word_to_nat]:
  assumes "Suc (unat a) < 2 ^ LENGTH('a)"
  shows "unat (a + 1 :: 'a::len word) = Suc (unat a)"
proof -
  have "unat a + unat (1 :: 'a word) < 2 ^ LENGTH('a)" using assms by simp
  from unat_add_small [OF this] show ?thesis by simp
qed

lemma unat_sub_le [word_to_nat]: "unat b \<le> unat a \<Longrightarrow> unat (a - b :: 'a::len word) = unat a - unat b"
  by (simp add: unat_sub_if')

lemma word_eq_unat: "a = b \<longleftrightarrow> unat a = unat b"
  by (simp add: word_unat_eq_iff)

lemma unat_of_nat_small [word_to_nat]:
  "n < 2 ^ LENGTH('a) \<Longrightarrow> unat (of_nat n :: 'a::len word) = n"
  by (simp add: unat_of_nat take_bit_eq_mod)

lemma word_eq_of_nat:
  "n < 2 ^ LENGTH('a) \<Longrightarrow> (w :: 'a::len word) = of_nat n \<longleftrightarrow> unat w = n"
  by (simp add: word_eq_unat unat_of_nat_small)

lemma unat_pow2 [word_to_nat]:
  assumes "k < LENGTH('a)" shows "unat (2 ^ k :: 'a::len word) = 2 ^ k"
  using unat_of_nat_small [of "2 ^ k", where 'a = 'a] assms by simp

lemma unat_lt: "unat (w :: 'a::len word) < 2 ^ LENGTH('a)"
  by (rule unsigned_less)

lemma word_bits_eq:
  "(a :: 'a::len word) = b \<longleftrightarrow> (\<forall>n < LENGTH('a). bit a n \<longleftrightarrow> bit b n)"
  by (auto intro: bit_word_eqI)

lemma pow2_minus_1_mask: "(2 ^ k - 1 :: 'a::len word) = mask k"
  by (simp add: mask_eq_exp_minus_1)

section \<open>Powers of two\<close>

definition is_pow2 :: "nat \<Rightarrow> bool" where
  "is_pow2 n \<longleftrightarrow> (\<exists>k. n = 2 ^ k)"

lemma is_pow2_pos: "is_pow2 n \<Longrightarrow> 0 < n"
  by (auto simp: is_pow2_def)

lemma is_pow2_I [intro]: "is_pow2 (2 ^ k)"
  by (auto simp: is_pow2_def)

section \<open>Lists\<close>

lemma takeWhile_all_then: 
  "(\<forall>x \<in> set xs. P x) \<Longrightarrow> takeWhile P (xs @ ys) = xs @ takeWhile P ys"
  by (induction xs) auto

lemma sum_list_update_nat:
  fixes xs :: "nat list"
  assumes "i < length xs"
  shows "sum_list (xs[i := v]) + xs ! i = sum_list xs + v"
  using assms by (induction xs arbitrary: i) (auto split: nat.splits)

lemma list_update_split:
  "i < length xs \<Longrightarrow> xs[i := v] = take i xs @ v # drop (Suc i) xs"
  by (rule upd_conv_take_nth_drop)

lemma concat_map_eq:
  "(\<And>x. x \<in> set xs \<Longrightarrow> f x = g x) \<Longrightarrow> concat (map f xs) = concat (map g xs)"
  by (induction xs) auto

lemma sum_list_map_eq:
  "(\<And>x. x \<in> set xs \<Longrightarrow> f x = g x) \<Longrightarrow> sum_list (map f xs) = sum_list (map g xs)"
  by (induction xs) auto

lemma concat_map_last:
  "xs \<noteq> [] \<Longrightarrow> concat (map f xs) = concat (map f (butlast xs)) @ f (last xs)"
  by (induction xs) auto

lemma mset_filter_update:
  assumes "i < length xs"
  shows "mset (filter P (xs[i := v])) + mset (filter P [xs ! i]) = mset (filter P xs) + mset (filter P [v])"
proof -
  have "mset (filter P xs) = mset (filter P (take i xs)) + mset (filter P [xs ! i]) + mset (filter P (drop (Suc i) xs))"
    by (subst id_take_nth_drop [OF assms]) simp
  moreover have "mset (filter P (xs[i := v])) = mset (filter P (take i xs)) + mset (filter P [v]) + mset (filter P (drop (Suc i) xs))"
    by (subst list_update_split [OF assms]) simp
  ultimately show ?thesis by (simp only: ac_simps)
qed

section \<open>Rotations\<close>

text \<open>Two numbers with the same remainder are at least the modulus apart.\<close>

lemma mod_gap: "(a :: nat) < b \<Longrightarrow> a mod c = b mod c \<Longrightarrow> a + c \<le> b"
proof -
  assume ab: "a < b" and eq: "a mod c = b mod c"
  then obtain d where d: "b - a = c * d" using mod_eq_dvd_iff_nat [of a b c] by (auto simp: dvd_def)
  then have "d \<noteq> 0" using ab by (intro notI) simp
  then have "c \<le> c * d" by (cases d) simp_all
  then show ?thesis using d ab by linarith
qed

text \<open>A scan of all positions may start anywhere.\<close>

lemma rotation_covers:
  fixes n r :: nat
  assumes "0 < n"
  shows "(\<forall>i < n. P ((i + r) mod n)) \<longleftrightarrow> (\<forall>i < n. P i)"
proof
  assume all: "\<forall>i < n. P ((i + r) mod n)"
  show "\<forall>i < n. P i"
  proof (intro allI impI)
    fix i assume i: "i < n"
    let ?j = "(i + (n - r mod n)) mod n"
    have "(?j + r) mod n = (i + (n - r mod n) + r mod n) mod n" by (simp add: mod_simps)
    also have "i + (n - r mod n) + r mod n = i + n" using mod_less_divisor [OF assms, of r] by linarith
    also have "(i + n) mod n = i" using i by simp
    finally show "P i" using all assms by (metis mod_less_divisor)
  qed
qed (use assms in auto)

end
