(* ===== verification/Atomic_Bitset.thy ===== *)
theory Atomic_Bitset
  imports Prelude
begin

text \<open>
  \<^verbatim>\<open>atomic_bitset.h\<close> and \<^verbatim>\<open>atomic_bitset_no_epoch.h\<close>: bits of one window spread over
  units, each unit a 64-bit atomic with a 32-bit epoch above up to 32 payload bits
  (respectively a bare payload without an epoch).

  Every retry loop of these files runs a \<^verbatim>\<open>compare_exchange_weak\<close> until it succeeds or the
  awaited condition is gone. Other threads act between the attempts: the loops take an
  interference script, one event for each attempt. \<open>Spurious\<close> is a spurious failure,
  \<open>Write v\<close> says that the cell holds \<open>v\<close> when the attempt is made. An attempt after the
  end of the script runs undisturbed. Since the failed attempt loads the cell into the
  expected value, expected value and cell agree before every attempt, so one variable
  (\<open>eb\<close>, the name of the source) stands for both. Results carry the value that the last
  attempt saw and the value it left.

  The payload type \<^verbatim>\<open>ARR_TYPE\<close> is the word type \<open>'a\<close>, passed as \<open>TYPE('a)\<close>; the static
  assertion of the source is \<open>LENGTH('a) \<le> 32\<close>.
\<close>

datatype claim_value = ZERO | ONE

datatype claim_mode = READ_WRITE | READ_ONLY

datatype 'c interf = Spurious | Write 'c

fun seen :: "'c \<Rightarrow> 'c interf \<Rightarrow> 'c" where
  "seen c Spurious = c"
| "seen c (Write v) = v"

section \<open>Units with an epoch\<close>

definition get_epoch :: "u64 \<Rightarrow> u64" where
  "get_epoch epoch_and_bits = drop_bit 32 epoch_and_bits"

definition get_bits :: "u64 \<Rightarrow> u64" where
  "get_bits epoch_and_bits = epoch_and_bits AND 0xffffffff"

definition make_unit :: "u64 \<Rightarrow> u64" where
  "make_unit epoch = push_bit 32 epoch"

text \<open>The value \<^verbatim>\<open>set_bit_atomic\<close> tries to store over \<open>eb\<close>.\<close>

definition set_bit_test :: "bool \<Rightarrow> nat \<Rightarrow> u64 \<Rightarrow> u64 \<Rightarrow> u64" where
  "set_bit_test SET index epoch eb =
     (let stencil = push_bit index 1 in
      if SET then eb OR stencil
      else let test = eb AND NOT stencil in
        if get_bits test = 0 then make_unit (epoch + 1) else test)"

fun set_bit_atomic :: "bool \<Rightarrow> nat \<Rightarrow> u64 \<Rightarrow> u64 \<Rightarrow> u64 interf list \<Rightarrow> u64 \<times> u64" where
  "set_bit_atomic SET index epoch eb [] =
     (if get_epoch eb \<noteq> epoch then (eb, eb) else (eb, set_bit_test SET index epoch eb))"
| "set_bit_atomic SET index epoch eb (ev # es) =
     (if get_epoch eb \<noteq> epoch then (eb, eb)
      else if ev \<noteq> Spurious \<and> seen eb ev = eb then (eb, set_bit_test SET index epoch eb)
      else set_bit_atomic SET index epoch (seen eb ev) es)"

text \<open>\<^verbatim>\<open>std::countr_zero\<close> and \<^verbatim>\<open>std::countr_one\<close>.\<close>

definition countr_zero :: "'a::len word \<Rightarrow> nat" where
  "countr_zero w = length (takeWhile (\<lambda>n. \<not> bit w n) [0..<LENGTH('a)])"

definition countr_one :: "'a::len word \<Rightarrow> nat" where
  "countr_one w = length (takeWhile (\<lambda>n. bit w n) [0..<LENGTH('a)])"

text \<open>The search of \<^verbatim>\<open>claim_bit_singular\<close>: rotate, count, rotate the index back.\<close>

definition scan_index :: "claim_value \<Rightarrow> nat \<Rightarrow> 'a::len word \<Rightarrow> nat option" where
  "scan_index VALUE initial_rot raw =
     (let rotated = word_rotr initial_rot raw;
          counted = (if VALUE = ONE then countr_zero rotated else countr_one rotated)
      in if counted = LENGTH('a) then None else Some ((initial_rot + counted) mod LENGTH('a)))"

definition claim_test :: "claim_value \<Rightarrow> nat \<Rightarrow> 'a::len word \<Rightarrow> 'a word" where
  "claim_test VALUE index raw =
     (if VALUE = ONE then raw AND NOT (push_bit index 1) else raw OR push_bit index 1)"

definition claim_desired :: "'a::len itself \<Rightarrow> claim_value \<Rightarrow> nat \<Rightarrow> u64 \<Rightarrow> u64 \<Rightarrow> u64" where
  "claim_desired _ VALUE index epoch eb =
     (let test = claim_test VALUE index (ucast eb :: 'a word) in
      if VALUE = ONE \<and> test = 0 then make_unit (epoch + 1) else make_unit epoch OR ucast test)"

text \<open>
  The inner retry loop for one index; when the bit was taken meanwhile, the outer loop
  scans again.
\<close>

primrec claim_try :: "'a::len itself \<Rightarrow> claim_value \<Rightarrow> nat \<Rightarrow> u64 \<Rightarrow> nat \<Rightarrow> u64 \<Rightarrow> u64 interf list
    \<Rightarrow> nat option \<times> u64 \<times> u64" where
  "claim_try T VALUE initial_rot epoch index eb [] =
     (Some index, eb, claim_desired T VALUE index epoch eb)"
| "claim_try T VALUE initial_rot epoch index eb (ev # es) =
     (let eb' = seen eb ev; raw = (ucast eb' :: 'a word) in
      if ev \<noteq> Spurious \<and> eb' = eb then (Some index, eb, claim_desired T VALUE index epoch eb)
      else if get_epoch eb' \<noteq> epoch then (None, eb', eb')
      else if claim_test VALUE index raw = raw then
        (case scan_index VALUE initial_rot raw of
           None \<Rightarrow> (None, eb', eb')
         | Some index' \<Rightarrow> claim_try T VALUE initial_rot epoch index' eb' es)
      else claim_try T VALUE initial_rot epoch index eb' es)"

definition claim_bit_singular :: "'a::len itself \<Rightarrow> claim_value \<Rightarrow> claim_mode \<Rightarrow> nat \<Rightarrow> u64 \<Rightarrow> u64
    \<Rightarrow> u64 interf list \<Rightarrow> nat option \<times> u64 \<times> u64" where
  "claim_bit_singular T VALUE MODE initial_rot epoch eb es =
     (if get_epoch eb \<noteq> epoch then (None, eb, eb)
      else case scan_index VALUE initial_rot (ucast eb :: 'a word) of
        None \<Rightarrow> (None, eb, eb)
      | Some index \<Rightarrow>
          (case MODE of READ_ONLY \<Rightarrow> (Some index, eb, eb)
           | READ_WRITE \<Rightarrow> claim_try T VALUE initial_rot epoch index eb es))"

section \<open>Units without an epoch\<close>

definition ne_set_bit_atomic :: "bool \<Rightarrow> nat \<Rightarrow> 'a::len word \<Rightarrow> 'a word" where
  "ne_set_bit_atomic SET index bits =
     (let mask = push_bit index 1 in if SET then bits OR mask else bits AND NOT mask)"

primrec ne_claim_try :: "claim_value \<Rightarrow> nat \<Rightarrow> nat \<Rightarrow> 'a::len word \<Rightarrow> 'a word interf list
    \<Rightarrow> nat option \<times> 'a word \<times> 'a word" where
  "ne_claim_try VALUE initial_rot index raw [] = (Some index, raw, claim_test VALUE index raw)"
| "ne_claim_try VALUE initial_rot index raw (ev # es) =
     (let raw' = seen raw ev in
      if ev \<noteq> Spurious \<and> raw' = raw then (Some index, raw, claim_test VALUE index raw)
      else if claim_test VALUE index raw' = raw' then
        (case scan_index VALUE initial_rot raw' of
           None \<Rightarrow> (None, raw', raw')
         | Some index' \<Rightarrow> ne_claim_try VALUE initial_rot index' raw' es)
      else ne_claim_try VALUE initial_rot index raw' es)"

definition ne_claim_bit_singular :: "claim_value \<Rightarrow> claim_mode \<Rightarrow> nat \<Rightarrow> 'a::len word
    \<Rightarrow> 'a word interf list \<Rightarrow> nat option \<times> 'a word \<times> 'a word" where
  "ne_claim_bit_singular VALUE MODE initial_rot raw es =
     (case scan_index VALUE initial_rot raw of
        None \<Rightarrow> (None, raw, raw)
      | Some index \<Rightarrow>
          (case MODE of READ_ONLY \<Rightarrow> (Some index, raw, raw)
           | READ_WRITE \<Rightarrow> ne_claim_try VALUE initial_rot index raw es))"

section \<open>The bitsets\<close>

record atomic_bitset =
  bs_units_per_window :: nat
  bs_units_per_window_mod_mask :: nat
  bs_data :: "u64 list"

record 'w ne_bitset =
  ne_units_per_window :: nat
  ne_units_per_window_mod_mask :: nat
  ne_data :: "'w list"

definition atomic_bitset_new :: "'a::len itself \<Rightarrow> nat \<Rightarrow> nat \<Rightarrow> atomic_bitset" where
  "atomic_bitset_new _ window_count blocks_per_window =
     (let units = blocks_per_window div LENGTH('a) in
      \<lparr>bs_units_per_window = units, bs_units_per_window_mod_mask = units - 1,
       bs_data = replicate (window_count * units) 0\<rparr>)"

definition ne_bitset_new :: "nat \<Rightarrow> nat \<Rightarrow> 'a::len word ne_bitset" where
  "ne_bitset_new window_count blocks_per_window =
     (let units = blocks_per_window div LENGTH('a) in
      \<lparr>ne_units_per_window = units, ne_units_per_window_mod_mask = units - 1,
       ne_data = replicate (window_count * units) 0\<rparr>)"

definition bs_set :: "'a::len itself \<Rightarrow> nat \<Rightarrow> nat \<Rightarrow> u64 \<Rightarrow> u64 interf list \<Rightarrow> atomic_bitset
    \<Rightarrow> atomic_bitset" where
  "bs_set _ window_index index epoch es s =
     (let u = window_index * bs_units_per_window s + index div LENGTH('a) in
      s\<lparr>bs_data := (bs_data s)[u := snd (set_bit_atomic True (index mod LENGTH('a)) epoch (bs_data s ! u) es)]\<rparr>)"

definition bs_reset :: "'a::len itself \<Rightarrow> nat \<Rightarrow> nat \<Rightarrow> u64 \<Rightarrow> u64 interf list \<Rightarrow> atomic_bitset
    \<Rightarrow> atomic_bitset" where
  "bs_reset _ window_index index epoch es s =
     (let u = window_index * bs_units_per_window s + index div LENGTH('a) in
      s\<lparr>bs_data := (bs_data s)[u := snd (set_bit_atomic False (index mod LENGTH('a)) epoch (bs_data s ! u) es)]\<rparr>)"

definition bs_test :: "'a::len itself \<Rightarrow> nat \<Rightarrow> nat \<Rightarrow> atomic_bitset \<Rightarrow> bool" where
  "bs_test _ window_index index s \<longleftrightarrow>
     bs_data s ! (window_index * bs_units_per_window s + index div LENGTH('a))
       AND push_bit (index mod LENGTH('a)) 1 \<noteq> 0"

text \<open>The loop of \<^verbatim>\<open>any\<close>, with \<open>n\<close> units left to look at.\<close>

fun bs_any_from :: "nat \<Rightarrow> nat \<Rightarrow> u64 \<Rightarrow> nat \<Rightarrow> atomic_bitset \<Rightarrow> bool" where
  "bs_any_from window_index i epoch 0 s = False"
| "bs_any_from window_index i epoch (Suc n) s =
     (let eb = bs_data s ! (window_index * bs_units_per_window s + i) in
      if get_epoch eb = epoch \<and> get_bits eb \<noteq> 0 then True
      else bs_any_from window_index (Suc i) epoch n s)"

definition bs_any :: "nat \<Rightarrow> u64 \<Rightarrow> atomic_bitset \<Rightarrow> bool" where
  "bs_any window_index epoch s = bs_any_from window_index 0 epoch (bs_units_per_window s) s"

text \<open>\<^verbatim>\<open>set_epoch_if_empty\<close>: one strong compare-exchange for each unit of the window.\<close>

fun set_epoch_from :: "nat \<Rightarrow> nat \<Rightarrow> u64 \<Rightarrow> nat \<Rightarrow> atomic_bitset \<Rightarrow> atomic_bitset" where
  "set_epoch_from window_index i epoch 0 s = s"
| "set_epoch_from window_index i epoch (Suc n) s =
     (let u = window_index * bs_units_per_window s + i;
          s' = (if bs_data s ! u = make_unit epoch
                then s\<lparr>bs_data := (bs_data s)[u := make_unit (epoch + 1)]\<rparr> else s)
      in set_epoch_from window_index (Suc i) epoch n s')"

definition set_epoch_if_empty :: "nat \<Rightarrow> u64 \<Rightarrow> atomic_bitset \<Rightarrow> atomic_bitset" where
  "set_epoch_if_empty window_index epoch s =
     set_epoch_from window_index 0 epoch (bs_units_per_window s) s"

text \<open>
  The loop of \<^verbatim>\<open>claim_bit\<close> over the units, from the unit of the starting bit and cyclically
  on; \<open>env i\<close> is the interference at the \<open>i\<close>-th unit visited.
\<close>

fun claim_bit_from :: "'a::len itself \<Rightarrow> claim_value \<Rightarrow> claim_mode \<Rightarrow> nat \<Rightarrow> nat \<Rightarrow> nat \<Rightarrow> u64
    \<Rightarrow> (nat \<Rightarrow> u64 interf list) \<Rightarrow> nat \<Rightarrow> nat \<Rightarrow> atomic_bitset \<Rightarrow> nat option \<times> atomic_bitset" where
  "claim_bit_from T VALUE MODE window_index off initial_rot epoch env i 0 s = (None, s)"
| "claim_bit_from T VALUE MODE window_index off initial_rot epoch env i (Suc n) s =
     (let index = (i + off) AND bs_units_per_window_mod_mask s;
          u = window_index * bs_units_per_window s + index;
          (ret, _, eb) = claim_bit_singular T VALUE MODE initial_rot epoch (bs_data s ! u) (env i);
          s' = s\<lparr>bs_data := (bs_data s)[u := eb]\<rparr>
      in case ret of Some r \<Rightarrow> (Some (r + index * LENGTH('a)), s')
         | None \<Rightarrow> claim_bit_from T VALUE MODE window_index off initial_rot epoch env (Suc i) n s')"

definition claim_bit :: "'a::len itself \<Rightarrow> claim_value \<Rightarrow> claim_mode \<Rightarrow> nat \<Rightarrow> nat \<Rightarrow> u64
    \<Rightarrow> (nat \<Rightarrow> u64 interf list) \<Rightarrow> atomic_bitset \<Rightarrow> nat option \<times> atomic_bitset" where
  "claim_bit T VALUE MODE window_index starting_bit epoch env s =
     claim_bit_from T VALUE MODE window_index (starting_bit div LENGTH('a))
       (starting_bit mod LENGTH('a)) epoch env 0 (bs_units_per_window s) s"

definition ne_set :: "nat \<Rightarrow> nat \<Rightarrow> 'a::len word ne_bitset \<Rightarrow> 'a word ne_bitset" where
  "ne_set window_index index s =
     (let u = window_index * ne_units_per_window s + index div LENGTH('a) in
      s\<lparr>ne_data := (ne_data s)[u := ne_set_bit_atomic True (index mod LENGTH('a)) (ne_data s ! u)]\<rparr>)"

definition ne_reset :: "nat \<Rightarrow> nat \<Rightarrow> 'a::len word ne_bitset \<Rightarrow> 'a word ne_bitset" where
  "ne_reset window_index index s =
     (let u = window_index * ne_units_per_window s + index div LENGTH('a) in
      s\<lparr>ne_data := (ne_data s)[u := ne_set_bit_atomic False (index mod LENGTH('a)) (ne_data s ! u)]\<rparr>)"

fun ne_claim_bit_from :: "claim_value \<Rightarrow> claim_mode \<Rightarrow> nat \<Rightarrow> nat \<Rightarrow> nat
    \<Rightarrow> (nat \<Rightarrow> 'a word interf list) \<Rightarrow> nat \<Rightarrow> nat \<Rightarrow> 'a::len word ne_bitset \<Rightarrow> nat option \<times> 'a word ne_bitset" where
  "ne_claim_bit_from VALUE MODE window_index off initial_rot env i 0 s = (None, s)"
| "ne_claim_bit_from VALUE MODE window_index off initial_rot env i (Suc n) s =
     (let index = (i + off) AND ne_units_per_window_mod_mask s;
          u = window_index * ne_units_per_window s + index;
          (ret, _, bits) = ne_claim_bit_singular VALUE MODE initial_rot (ne_data s ! u) (env i);
          s' = s\<lparr>ne_data := (ne_data s)[u := bits]\<rparr>
      in case ret of Some r \<Rightarrow> (Some (r + index * LENGTH('a)), s')
         | None \<Rightarrow> ne_claim_bit_from VALUE MODE window_index off initial_rot env (Suc i) n s')"

definition ne_claim_bit :: "claim_value \<Rightarrow> claim_mode \<Rightarrow> nat \<Rightarrow> nat
    \<Rightarrow> (nat \<Rightarrow> 'a word interf list) \<Rightarrow> 'a::len word ne_bitset \<Rightarrow> nat option \<times> 'a word ne_bitset" where
  "ne_claim_bit VALUE MODE window_index starting_bit env s =
     ne_claim_bit_from VALUE MODE window_index (starting_bit div LENGTH('a))
       (starting_bit mod LENGTH('a)) env 0 (ne_units_per_window s) s"

end
