(* ===== verification/Bitset_Laws.thy ===== *)
theory Bitset_Laws
  imports Atomic_Bitset
begin

text \<open>
  The laws of the bitsets: what a scan finds, what a claim changes and when it fails,
  under every interference script; then the same for a whole window when no other thread
  interferes, the form in which the block based queue uses them.
\<close>

section \<open>Scanning\<close>

definition wanted :: "claim_value \<Rightarrow> bool \<Rightarrow> bool" where
  "wanted VALUE b \<longleftrightarrow> (b \<longleftrightarrow> VALUE = ONE)"

lemma wanted_simps [simp]: "wanted ONE b \<longleftrightarrow> b" "wanted ZERO b \<longleftrightarrow> \<not> b"
  by (auto simp: wanted_def)

lemma length_takeWhile_upt:
  "length (takeWhile P [0..<n]) = n \<longleftrightarrow> (\<forall>i < n. P i)"
  "length (takeWhile P [0..<n]) \<noteq> n \<Longrightarrow>
     length (takeWhile P [0..<n]) < n \<and> \<not> P (length (takeWhile P [0..<n]))"
proof -
  show *: "length (takeWhile P [0..<n]) = n \<longleftrightarrow> (\<forall>i < n. P i)"
    by (metis atLeastLessThan_iff diff_zero le0 length_upt set_upt takeWhile_eq_all_conv
        takeWhile_eq_take take_all_iff order_refl)
  show "length (takeWhile P [0..<n]) \<noteq> n \<Longrightarrow>
     length (takeWhile P [0..<n]) < n \<and> \<not> P (length (takeWhile P [0..<n]))"
    using length_takeWhile_le [of P "[0..<n]"] nth_length_takeWhile [of P "[0..<n]"]
    by fastforce
qed

lemma scan_index_Some:
  assumes "scan_index VALUE rot (raw :: 'a::len word) = Some i"
  shows "i < LENGTH('a) \<and> wanted VALUE (bit raw i)"
proof -
  let ?P = "\<lambda>n. \<not> wanted VALUE (bit (word_rotr rot raw) n)"
  let ?c = "length (takeWhile ?P [0..<LENGTH('a)])"
  have "?c \<noteq> LENGTH('a)" and i: "i = (rot + ?c) mod LENGTH('a)"
    using assms by (cases VALUE; auto simp: scan_index_def countr_zero_def countr_one_def Let_def
        split: if_splits)+
  then have "?c < LENGTH('a)" "\<not> ?P ?c" using length_takeWhile_upt(2) by blast+
  then show ?thesis by (simp add: i bit_word_rotr_iff add.commute)
qed

lemma scan_index_None:
  "scan_index VALUE rot (raw :: 'a::len word) = None \<longleftrightarrow>
    (\<forall>i < LENGTH('a). \<not> wanted VALUE (bit raw i))"
proof -
  let ?P = "\<lambda>n. \<not> wanted VALUE (bit (word_rotr rot raw) n)"
  have "scan_index VALUE rot raw = None \<longleftrightarrow> length (takeWhile ?P [0..<LENGTH('a)]) = LENGTH('a)"
    by (cases VALUE) (auto simp: scan_index_def countr_zero_def countr_one_def Let_def)
  also have "\<dots> \<longleftrightarrow> (\<forall>i < LENGTH('a). ?P i)" by (rule length_takeWhile_upt(1))
  also have "\<dots> \<longleftrightarrow> (\<forall>i < LENGTH('a). \<not> wanted VALUE (bit raw ((i + rot) mod LENGTH('a))))"
    by (auto simp: bit_word_rotr_iff)
  also have "\<dots> \<longleftrightarrow> (\<forall>i < LENGTH('a). \<not> wanted VALUE (bit raw i))"
    by (rule rotation_covers [of "LENGTH('a)" "\<lambda>i. \<not> wanted VALUE (bit raw i)"]) simp
  finally show ?thesis .
qed

lemma claim_test_same:
  assumes "i < LENGTH('a)"
  shows "claim_test VALUE i (raw :: 'a::len word) = raw \<longleftrightarrow> \<not> wanted VALUE (bit raw i)"
  using assms
  by (cases VALUE) (auto simp: claim_test_def word_bits_eq bit_simps)

section \<open>Packing of a unit\<close>

lemma bit_get_epoch: "bit (get_epoch u) n \<longleftrightarrow> bit u (n + 32)"
  by (simp add: get_epoch_def bit_drop_bit_eq add.commute)

lemma get_bits_take: "get_bits u = take_bit 32 u"
proof -
  have "(0xffffffff :: u64) = mask 32" by (simp add: mask_eq_exp_minus_1)
  then show ?thesis by (simp add: get_bits_def take_bit_eq_mask)
qed

lemma bit_get_bits: "bit (get_bits u) n \<longleftrightarrow> n < 32 \<and> bit u n"
  by (simp add: get_bits_take bit_take_bit_iff)

lemma bit_make_unit: "bit (make_unit e) n \<longleftrightarrow> 32 \<le> n \<and> n < 64 \<and> bit e (n - 32)"
  by (auto simp: make_unit_def bit_push_bit_iff)

lemma bit_u64_less: "bit (w :: u64) n \<Longrightarrow> n < 64"
  using bit_imp_le_length by fastforce

lemma bit_high_less: "bit (w :: u64) (n + 32) \<Longrightarrow> n < 32"
  by (drule bit_u64_less) simp

lemma unit_eq_iff: "u = v \<longleftrightarrow> get_epoch u = get_epoch v \<and> get_bits u = get_bits v"
proof
  assume *: "get_epoch u = get_epoch v \<and> get_bits u = get_bits v"
  show "u = v"
  proof (rule bit_eqI)
    fix n
    show "bit u n \<longleftrightarrow> bit v n"
    proof (cases "n < 32")
      case True
      then show ?thesis using * bit_get_bits [of u n] bit_get_bits [of v n] by auto
    next
      case False
      then obtain m where "n = m + 32" by (metis le_add_diff_inverse2 not_less)
      then show ?thesis using * bit_get_epoch [of u m] bit_get_epoch [of v m] by auto
    qed
  qed
qed simp

definition small_epoch :: "u64 \<Rightarrow> bool" where
  "small_epoch e \<longleftrightarrow> unat e < 2 ^ 32"

lemma small_epoch_bit: "small_epoch e \<Longrightarrow> bit e n \<Longrightarrow> n < 32"
proof -
  assume "small_epoch e" and b: "bit e n"
  then have "take_bit 32 (unat e) = unat e" by (simp add: small_epoch_def take_bit_nat_eq_self)
  then have "take_bit 32 e = e" by (metis unsigned_take_bit_eq word_eq_unat)
  with b show ?thesis by (metis bit_take_bit_iff)
qed

lemma small_epoch_get [simp]: "small_epoch (get_epoch u)"
proof -
  have "unat u div 2 ^ 32 < 2 ^ 32"
    using unat_lt [of u] by (simp add: less_mult_imp_div_less)
  then show ?thesis by (simp add: small_epoch_def get_epoch_def unat_drop_bit)
qed

lemma get_epoch_unit:
  assumes "small_epoch e" and "\<forall>n. bit b n \<longrightarrow> n < 32"
  shows "get_epoch (make_unit e OR b) = e" and "get_bits (make_unit e OR b) = b"
  using small_epoch_bit [OF assms(1)] assms(2)
  by (auto intro!: bit_eqI simp: bit_get_epoch bit_get_bits bit_or_iff bit_make_unit)

lemma get_epoch_make [simp]: "small_epoch e \<Longrightarrow> get_epoch (make_unit e) = e"
  and get_bits_make [simp]: "get_bits (make_unit e) = 0"
  using get_epoch_unit(1) [of e 0]
  by (auto intro!: bit_eqI simp: bit_get_bits bit_make_unit)

text \<open>The claimed bits of a unit, and units whose payload fits \<^verbatim>\<open>ARR_TYPE\<close>.\<close>

definition ubits :: "u64 \<Rightarrow> nat set" where
  "ubits u = {n. n < 32 \<and> bit u n}"

definition unit_wf :: "'a::len itself \<Rightarrow> u64 \<Rightarrow> bool" where
  "unit_wf _ u \<longleftrightarrow> (\<forall>n \<in> ubits u. n < LENGTH('a))"

lemma ubits_get_bits: "n \<in> ubits u \<longleftrightarrow> bit (get_bits u) n"
  by (simp add: ubits_def bit_get_bits)

lemma ubits_eq: "get_bits u = get_bits v \<longleftrightarrow> ubits u = ubits v"
proof
  assume *: "ubits u = ubits v"
  show "get_bits u = get_bits v"
    by (rule bit_eqI) (simp add: ubits_get_bits [symmetric] *)
qed (auto simp: ubits_get_bits)

lemma ubits_empty: "get_bits u = 0 \<longleftrightarrow> ubits u = {}"
proof -
  have "get_bits 0 = 0" "ubits 0 = {}" by (simp_all add: get_bits_def ubits_def)
  then show ?thesis using ubits_eq [of u 0] by simp
qed

lemma unit_eq_ubits: "u = v \<longleftrightarrow> get_epoch u = get_epoch v \<and> ubits u = ubits v"
  using unit_eq_iff [of u v] ubits_eq [of u v] by blast

lemma ubits_make [simp]: "ubits (make_unit e) = {}"
  using ubits_empty [of "make_unit e"] by simp

lemma ubits_raw: "LENGTH('a::len) \<le> 32 \<Longrightarrow> n < LENGTH('a) \<Longrightarrow>
   bit (ucast u :: 'a word) n \<longleftrightarrow> n \<in> ubits u"
  by (auto simp: ubits_def bit_ucast_iff)

lemma ubits_finite [simp]: "finite (ubits u)"
  by (simp add: ubits_def)

lemma unit_wf_make [simp]: "unit_wf T (make_unit e)"
  by (simp add: unit_wf_def)

section \<open>What a claim stores\<close>

lemma claim_desired_unit:
  fixes T :: "'a::len itself"
  assumes len: "LENGTH('a) \<le> 32" and i: "i < LENGTH('a)" and wf: "unit_wf T b"
    and e: "small_epoch e" "get_epoch b = e" and se: "small_epoch (e + 1)"
  shows "VALUE = ZERO \<Longrightarrow> get_epoch (claim_desired T VALUE i e b) = e
      \<and> ubits (claim_desired T VALUE i e b) = insert i (ubits b)"
    and "VALUE = ONE \<Longrightarrow> ubits b \<noteq> {i} \<Longrightarrow> ubits b \<noteq> {} \<Longrightarrow> get_epoch (claim_desired T VALUE i e b) = e
      \<and> ubits (claim_desired T VALUE i e b) = ubits b - {i}"
    and "VALUE = ONE \<Longrightarrow> ubits b = {i} \<Longrightarrow> claim_desired T VALUE i e b = make_unit (e + 1)"
proof -
  define t where "t = claim_test VALUE i (ucast b :: 'a word)"
  have bit_t: "bit (ucast t :: u64) n \<longleftrightarrow> n < LENGTH('a) \<and>
      (if VALUE = ONE then n \<in> ubits b \<and> n \<noteq> i else n \<in> ubits b \<or> n = i)" for n
    using i len
    by (cases VALUE) (auto simp: t_def claim_test_def bit_simps ubits_def)
  have wf': "n < LENGTH('a)" if "n \<in> ubits b" for n using wf that by (auto simp: unit_wf_def)
  have small: "\<forall>n. bit (ucast t :: u64) n \<longrightarrow> n < 32" using bit_t len by auto
  have u: "get_epoch (make_unit e OR ucast t) = e"
      "ubits (make_unit e OR ucast t) = {n. bit (ucast t :: u64) n}"
    using get_epoch_unit [OF e(1) small] small
    by (auto simp: ubits_def) (metis bit_get_bits)+
  have zero: "t = 0 \<longleftrightarrow> (\<forall>n. \<not> bit (ucast t :: u64) n)"
    using len by (auto simp: bit_eq_iff bit_ucast_iff dest: bit_imp_le_length)
  have desired: "claim_desired T VALUE i e b =
      (if VALUE = ONE \<and> t = 0 then make_unit (e + 1) else make_unit e OR ucast t)"
    unfolding claim_desired_def t_def Let_def by (rule refl)
  show "VALUE = ZERO \<Longrightarrow> get_epoch (claim_desired T VALUE i e b) = e
      \<and> ubits (claim_desired T VALUE i e b) = insert i (ubits b)"
    using desired u bit_t i wf' by auto
  show "VALUE = ONE \<Longrightarrow> ubits b \<noteq> {i} \<Longrightarrow> ubits b \<noteq> {} \<Longrightarrow> get_epoch (claim_desired T VALUE i e b) = e
      \<and> ubits (claim_desired T VALUE i e b) = ubits b - {i}"
    using desired u bit_t wf' zero by auto
  show "VALUE = ONE \<Longrightarrow> ubits b = {i} \<Longrightarrow> claim_desired T VALUE i e b = make_unit (e + 1)"
    using desired bit_t zero by auto
qed

lemma set_bit_test_unit:
  assumes i: "i < 32" and e: "get_epoch b = e" and se: "small_epoch (e + 1)"
  shows "get_epoch (set_bit_test True i e b) = e" "ubits (set_bit_test True i e b) = insert i (ubits b)"
    and "ubits b - {i} \<noteq> {} \<Longrightarrow> get_epoch (set_bit_test False i e b) = e
      \<and> ubits (set_bit_test False i e b) = ubits b - {i}"
    and "ubits b - {i} = {} \<Longrightarrow> set_bit_test False i e b = make_unit (e + 1)"
proof -
  have off: "get_epoch (b AND NOT (push_bit i 1)) = e" "ubits (b AND NOT (push_bit i 1)) = ubits b - {i}"
    using i e by (auto intro!: bit_eqI simp: ubits_def bit_get_epoch bit_simps dest: bit_high_less)
  show "get_epoch (set_bit_test True i e b) = e" "ubits (set_bit_test True i e b) = insert i (ubits b)"
    using i e by (auto intro!: bit_eqI simp: set_bit_test_def Let_def ubits_def bit_get_epoch bit_simps)
  show "ubits b - {i} \<noteq> {} \<Longrightarrow> get_epoch (set_bit_test False i e b) = e
      \<and> ubits (set_bit_test False i e b) = ubits b - {i}"
    and "ubits b - {i} = {} \<Longrightarrow> set_bit_test False i e b = make_unit (e + 1)"
    using off by (simp_all add: set_bit_test_def Let_def ubits_empty)
qed

section \<open>Claims under interference\<close>

lemma claim_try_Some:
  fixes T :: "'a::len itself"
  assumes "claim_try T VALUE rot epoch idx eb es = (Some i, b, a)"
    and "get_epoch eb = epoch" and "idx < LENGTH('a)" and "wanted VALUE (bit (ucast eb :: 'a word) idx)"
  shows "i < LENGTH('a) \<and> get_epoch b = epoch \<and> wanted VALUE (bit (ucast b :: 'a word) i)
    \<and> a = claim_desired T VALUE i epoch b \<and> (b = eb \<or> Write b \<in> set es)"
  using assms
proof (induction es arbitrary: idx eb)
  case (Cons ev es)
  let ?eb = "seen eb ev"
  show ?case
  proof (cases "ev \<noteq> Spurious \<and> ?eb = eb")
    case True
    then show ?thesis using Cons.prems by (auto simp: Let_def)
  next
    case False
    have ep: "get_epoch ?eb = epoch" using Cons.prems False by (auto simp: Let_def split: if_splits)
    obtain idx' where next_try: "claim_try T VALUE rot epoch idx' ?eb es = (Some i, b, a)"
      "idx' < LENGTH('a)" "wanted VALUE (bit (ucast ?eb :: 'a word) idx')"
      using Cons.prems False ep claim_test_same [OF Cons.prems(3), of VALUE "ucast ?eb"]
      by (auto simp: Let_def split: if_splits option.splits dest: scan_index_Some)
    have "?eb = eb \<or> ev = Write ?eb" by (cases ev) auto
    with Cons.IH [OF next_try(1) ep next_try(2,3)] show ?thesis by auto
  qed
qed auto

lemma claim_try_None:
  fixes T :: "'a::len itself"
  assumes "claim_try T VALUE rot epoch idx eb es = (None, b, a)"
  shows "a = b \<and> (get_epoch b \<noteq> epoch \<or> (\<forall>i < LENGTH('a). \<not> wanted VALUE (bit (ucast b :: 'a word) i)))"
  using assms
proof (induction es arbitrary: idx eb)
  case (Cons ev es)
  then show ?case
    by (auto simp: Let_def scan_index_None split: if_splits option.splits)
qed auto

lemma claim_bit_singular_Some:
  fixes T :: "'a::len itself"
  assumes "claim_bit_singular T VALUE READ_WRITE rot epoch eb es = (Some i, b, a)"
  shows "i < LENGTH('a) \<and> get_epoch b = epoch \<and> wanted VALUE (bit (ucast b :: 'a word) i)
    \<and> a = claim_desired T VALUE i epoch b \<and> (b = eb \<or> Write b \<in> set es)"
  using assms
  by (auto simp: claim_bit_singular_def split: if_splits option.splits
      dest: scan_index_Some claim_try_Some)

lemma claim_bit_singular_read:
  fixes T :: "'a::len itself"
  assumes "claim_bit_singular T VALUE READ_ONLY rot epoch eb es = (Some i, b, a)"
  shows "i < LENGTH('a) \<and> get_epoch eb = epoch \<and> wanted VALUE (bit (ucast eb :: 'a word) i)
    \<and> a = eb \<and> b = eb"
  using assms
  by (auto simp: claim_bit_singular_def split: if_splits option.splits dest: scan_index_Some)

lemma claim_bit_singular_None:
  fixes T :: "'a::len itself"
  assumes "claim_bit_singular T VALUE MODE rot epoch eb es = (None, b, a)"
  shows "a = b \<and> (get_epoch b \<noteq> epoch \<or> (\<forall>i < LENGTH('a). \<not> wanted VALUE (bit (ucast b :: 'a word) i)))"
  using assms
  by (auto simp: claim_bit_singular_def scan_index_None
      split: if_splits option.splits claim_mode.splits dest: claim_try_None)

text \<open>Without interference a claim fails only where there is nothing to claim.\<close>

lemma claim_bit_singular_quiet:
  fixes T :: "'a::len itself"
  shows "claim_bit_singular T VALUE MODE rot epoch eb [] =
    (if get_epoch eb \<noteq> epoch then (None, eb, eb)
     else case scan_index VALUE rot (ucast eb :: 'a word) of None \<Rightarrow> (None, eb, eb)
       | Some i \<Rightarrow> (Some i, eb, if MODE = READ_ONLY then eb else claim_desired T VALUE i epoch eb))"
  by (auto simp: claim_bit_singular_def split: option.splits claim_mode.splits)

lemma set_bit_atomic_result:
  assumes "set_bit_atomic SET i epoch eb es = (b, a)"
  shows "(b = eb \<or> Write b \<in> set es) \<and>
    (if get_epoch b = epoch then a = set_bit_test SET i epoch b else a = b)"
  using assms
proof (induction es arbitrary: eb)
  case (Cons ev es)
  show ?case
  proof (cases "get_epoch eb = epoch \<and> (ev = Spurious \<or> seen eb ev \<noteq> eb)")
    case True
    then have "set_bit_atomic SET i epoch (seen eb ev) es = (b, a)" using Cons.prems by auto
    from Cons.IH [OF this] show ?thesis by (cases ev) auto
  next
    case False
    then show ?thesis using Cons.prems by (auto split: if_splits)
  qed
qed (auto split: if_splits)

section \<open>Whole windows without interference\<close>

text \<open>The unit \<open>i\<close> of a window, and the shape of a bitset of \<open>wc\<close> windows.\<close>

definition bunit :: "atomic_bitset \<Rightarrow> nat \<Rightarrow> nat \<Rightarrow> u64" where
  "bunit s w i = bs_data s ! (w * bs_units_per_window s + i)"

definition bs_shape :: "'a::len itself \<Rightarrow> nat \<Rightarrow> nat \<Rightarrow> atomic_bitset \<Rightarrow> bool" where
  "bs_shape T wc units s \<longleftrightarrow> LENGTH('a) \<le> 32 \<and> is_pow2 units \<and> bs_units_per_window s = units
     \<and> bs_units_per_window_mod_mask s = units - 1 \<and> length (bs_data s) = wc * units
     \<and> (\<forall>u \<in> set (bs_data s). unit_wf T u)"

definition ne_unit :: "'w ne_bitset \<Rightarrow> nat \<Rightarrow> nat \<Rightarrow> 'w" where
  "ne_unit s w i = ne_data s ! (w * ne_units_per_window s + i)"

definition ne_shape :: "nat \<Rightarrow> nat \<Rightarrow> 'w ne_bitset \<Rightarrow> bool" where
  "ne_shape wc units s \<longleftrightarrow> is_pow2 units \<and> ne_units_per_window s = units
     \<and> ne_units_per_window_mod_mask s = units - 1 \<and> length (ne_data s) = wc * units"

lemma nat_and_pow2: "is_pow2 n \<Longrightarrow> x AND (n - 1) = x mod n"
  by (auto simp: is_pow2_def take_bit_eq_mod [symmetric] take_bit_eq_mask mask_eq_exp_minus_1)

lemma window_index_less:
  assumes "w < wc" and "i < (units :: nat)"
  shows "w * units + i < wc * units"
proof -
  have "w * units + i < Suc w * units" using assms by simp
  also have "\<dots> \<le> wc * units" using assms by (intro mult_le_mono1) simp
  finally show ?thesis .
qed

lemma window_index_eq:
  assumes "i < (units :: nat)" and "j < units"
  shows "w * units + i = v * units + j \<longleftrightarrow> w = v \<and> i = j"
proof
  assume eq: "w * units + i = v * units + j"
  have "(w * units + i) div units = w" "(v * units + j) div units = v"
    "(w * units + i) mod units = i" "(v * units + j) mod units = j"
    using assms by (simp_all add: div_mult_self3)
  with eq show "w = v \<and> i = j" by metis
qed simp

lemma bunit_update:
  assumes "bs_shape T wc units s" and "w < wc" and "i < units" and "v < wc" and "j < units"
  shows "bunit (s\<lparr>bs_data := (bs_data s)[w * units + i := x]\<rparr>) v j =
    (if v = w \<and> j = i then x else bunit s v j)"
  using assms window_index_less [of w wc i units] window_index_eq [of i units j w v]
  by (auto simp: bunit_def bs_shape_def nth_list_update)

lemma ne_unit_update:
  assumes "ne_shape wc units s" and "w < wc" and "i < units" and "v < wc" and "j < units"
  shows "ne_unit (s\<lparr>ne_data := (ne_data s)[w * units + i := x]\<rparr>) v j =
    (if v = w \<and> j = i then x else ne_unit s v j)"
  using assms window_index_less [of w wc i units] window_index_eq [of i units j w v]
  by (auto simp: ne_unit_def ne_shape_def nth_list_update)

lemma bs_shape_update:
  assumes "bs_shape T wc units s" and "unit_wf T x"
  shows "bs_shape T wc units (s\<lparr>bs_data := (bs_data s)[u := x]\<rparr>)"
  using assms set_update_subset_insert [of "bs_data s" u x] by (auto simp: bs_shape_def)

lemma bunit_wf: "bs_shape T wc units s \<Longrightarrow> w < wc \<Longrightarrow> i < units \<Longrightarrow> unit_wf T (bunit s w i)"
  using window_index_less [of w wc i units] by (auto simp: bs_shape_def bunit_def)

lemma ball_upto_Suc:
  "(\<forall>j \<in> {i..<i + Suc n}. P j) \<longleftrightarrow> P i \<and> (\<forall>j \<in> {Suc i..<Suc i + n}. P j)"
proof -
  have "{i..<i + Suc n} = insert i {Suc i..<Suc i + n}" by auto
  then show ?thesis by simp
qed

text \<open>One claim over a window: the unit it was made in, or no unit at all.\<close>

lemma claim_bit_from_quiet:
  fixes T :: "'a::len itself"
  assumes shape: "bs_shape T wc units s" and w: "w < wc"
    and res: "claim_bit_from T V M w off rot e (\<lambda>_. []) i n s = (r, s')"
  shows "case r of
      None \<Rightarrow> s' = s \<and> (\<forall>j \<in> {i..<i + n}. get_epoch (bunit s w ((j + off) mod units)) = e \<longrightarrow>
        (\<forall>m < LENGTH('a). \<not> wanted V (m \<in> ubits (bunit s w ((j + off) mod units)))))
    | Some b \<Rightarrow> \<exists>k m. k < units \<and> m < LENGTH('a) \<and> b = m + k * LENGTH('a)
        \<and> get_epoch (bunit s w k) = e \<and> wanted V (m \<in> ubits (bunit s w k))
        \<and> s' = s\<lparr>bs_data := (bs_data s)[w * units + k :=
             if M = READ_ONLY then bunit s w k else claim_desired T V m e (bunit s w k)]\<rparr>"
  using res
proof (induction n arbitrary: i)
  case (Suc n)
  let ?k = "(i + off) mod units" and ?u = "bunit s w ((i + off) mod units)"
  have len: "LENGTH('a) \<le> 32" and units: "bs_units_per_window s = units" "is_pow2 units"
    and idx: "(i + off) AND bs_units_per_window_mod_mask s = ?k"
    using shape by (auto simp: bs_shape_def nat_and_pow2 [unfolded One_nat_def])
  have k: "?k < units" using is_pow2_pos [OF units(2)] by simp
  have u: "bs_data s ! (w * units + ?k) = ?u" by (simp add: bunit_def units)
  have same: "s\<lparr>bs_data := (bs_data s)[w * units + ?k := ?u]\<rparr> = s"
    by (metis list_update_id atomic_bitset.surjective atomic_bitset.update_convs(3) u)
  have raw: "m < LENGTH('a) \<Longrightarrow> bit (ucast ?u :: 'a word) m \<longleftrightarrow> m \<in> ubits ?u" for m
    by (rule ubits_raw [OF len])
  show ?case
  proof (cases "fst (claim_bit_singular T V M rot e ?u [])")
    case None
    then have none: "get_epoch ?u = e \<longrightarrow> (\<forall>m < LENGTH('a). \<not> wanted V (m \<in> ubits ?u))"
      using raw by (auto simp: claim_bit_singular_quiet scan_index_None split: if_splits option.splits)
    have "claim_bit_from T V M w off rot e (\<lambda>_. []) (Suc i) n s = (r, s')"
      using Suc.prems None
      by (auto simp: Let_def idx units u claim_bit_singular_quiet same split: if_splits option.splits)
    note IH = Suc.IH [OF this]
    show ?thesis
    proof (cases r)
      case None
      then show ?thesis using none IH unfolding ball_upto_Suc by simp
    qed (use IH in simp)
  next
    case (Some m)
    then have m: "get_epoch ?u = e" "scan_index V rot (ucast ?u :: 'a word) = Some m"
      by (auto simp: claim_bit_singular_quiet split: if_splits option.splits)
    then have "r = Some (m + ?k * LENGTH('a))"
      "s' = s\<lparr>bs_data := (bs_data s)[w * units + ?k :=
             if M = READ_ONLY then ?u else claim_desired T V m e ?u]\<rparr>"
      using Suc.prems by (auto simp: Let_def idx units u claim_bit_singular_quiet)
    moreover have "m < LENGTH('a) \<and> wanted V (m \<in> ubits ?u)"
      using scan_index_Some [OF m(2)] raw by auto
    ultimately show ?thesis using m(1) k by auto
  qed
qed auto

lemma mod_cover:
  "0 < (n::nat) \<Longrightarrow> (\<forall>j \<in> {0..<0 + n}. P ((j + off) mod n)) \<longleftrightarrow> (\<forall>i < n. P i)"
  using rotation_covers [of n P off] by auto

lemma claim_bit_quiet_None:
  fixes T :: "'a::len itself"
  assumes shape: "bs_shape T wc units s" and w: "w < wc"
    and res: "claim_bit T V M w start e (\<lambda>_. []) s = (None, s')"
  shows "s' = s \<and> (\<forall>i < units. get_epoch (bunit s w i) = e \<longrightarrow>
    (\<forall>m < LENGTH('a). \<not> wanted V (m \<in> ubits (bunit s w i))))"
proof -
  have units: "bs_units_per_window s = units" "0 < units"
    using shape by (auto simp: bs_shape_def is_pow2_pos)
  from claim_bit_from_quiet [OF shape w res [unfolded claim_bit_def units(1)]]
  show ?thesis
    using mod_cover [OF units(2), of "\<lambda>k. get_epoch (bunit s w k) = e \<longrightarrow>
      (\<forall>m < LENGTH('a). \<not> wanted V (m \<in> ubits (bunit s w k)))" "start div LENGTH('a)"] by simp
qed

lemma claim_bit_quiet_Some:
  fixes T :: "'a::len itself"
  assumes shape: "bs_shape T wc units s" and w: "w < wc"
    and res: "claim_bit T V M w start e (\<lambda>_. []) s = (Some b, s')"
  obtains k m where "k < units" "m < LENGTH('a)" "b = m + k * LENGTH('a)"
    "get_epoch (bunit s w k) = e" "wanted V (m \<in> ubits (bunit s w k))"
    "s' = s\<lparr>bs_data := (bs_data s)[w * units + k :=
       if M = READ_ONLY then bunit s w k else claim_desired T V m e (bunit s w k)]\<rparr>"
proof -
  have "bs_units_per_window s = units" using shape by (auto simp: bs_shape_def)
  from claim_bit_from_quiet [OF shape w res [unfolded claim_bit_def this]] that
  show ?thesis by auto
qed

lemma bs_any_from_iff:
  "bs_any_from w i e n s \<longleftrightarrow> (\<exists>j \<in> {i..<i + n}. get_epoch (bunit s w j) = e \<and> ubits (bunit s w j) \<noteq> {})"
proof (induction n arbitrary: i)
  case (Suc n)
  have "{i..<i + Suc n} = insert i {Suc i..<Suc i + n}" by auto
  then show ?case using Suc by (auto simp: Let_def bunit_def ubits_empty)
qed simp

lemma bs_any_iff:
  "bs_any w e s \<longleftrightarrow> (\<exists>i < bs_units_per_window s. get_epoch (bunit s w i) = e \<and> ubits (bunit s w i) \<noteq> {})"
  by (auto simp: bs_any_def bs_any_from_iff)

lemma set_epoch_from_shape:
  "bs_shape T wc units s \<Longrightarrow> bs_shape T wc units (set_epoch_from w i e n s)"
proof (induction n arbitrary: i s)
  case (Suc n)
  have "bs_shape T wc units (s\<lparr>bs_data := (bs_data s)[u := make_unit (e + 1)]\<rparr>)" for u
    by (rule bs_shape_update [OF Suc.prems]) simp
  with Suc show ?case by (simp add: Let_def)
qed simp

lemma set_epoch_from_bunit:
  assumes "bs_shape T wc units s" and "w < wc" and "i + n \<le> units" and "v < wc" and "j < units"
  shows "bunit (set_epoch_from w i e n s) v j =
    (if v = w \<and> j \<in> {i..<i + n} \<and> bunit s v j = make_unit e then make_unit (e + 1) else bunit s v j)"
  using assms
proof (induction n arbitrary: i s)
  case (Suc n)
  have units: "bs_units_per_window s = units" using Suc.prems(1) by (simp add: bs_shape_def)
  define s1 where "s1 = (if bs_data s ! (w * units + i) = make_unit e
    then s\<lparr>bs_data := (bs_data s)[w * units + i := make_unit (e + 1)]\<rparr> else s)"
  have s1: "bs_shape T wc units s1" using Suc.prems(1) by (auto simp: s1_def intro: bs_shape_update)
  have b1: "bunit s1 v j = (if v = w \<and> j = i \<and> bunit s w i = make_unit e then make_unit (e + 1)
      else bunit s v j)"
    using Suc.prems bunit_update [OF Suc.prems(1,2), of i v j "make_unit (e + 1)"]
    by (auto simp: s1_def bunit_def units)
  have "set_epoch_from w i e (Suc n) s = set_epoch_from w (Suc i) e n s1"
    by (simp add: Let_def s1_def units)
  with Suc.IH [OF s1 Suc.prems(2) _ Suc.prems(4,5)] Suc.prems(3) b1
  show ?case by (cases "j = i") (auto simp: not_less_eq_eq)
qed simp

lemma set_epoch_if_empty_bunit:
  assumes "bs_shape T wc units s" and "w < wc" and "v < wc" and "j < units"
  shows "bunit (set_epoch_if_empty w e s) v j =
    (if v = w \<and> bunit s v j = make_unit e then make_unit (e + 1) else bunit s v j)"
  using assms set_epoch_from_bunit [OF assms(1,2) _ assms(3,4), of 0 units e]
  by (simp add: set_epoch_if_empty_def bs_shape_def)

lemma set_epoch_if_empty_shape:
  "bs_shape T wc units s \<Longrightarrow> bs_shape T wc units (set_epoch_if_empty w e s)"
  by (simp add: set_epoch_if_empty_def set_epoch_from_shape)

text \<open>The bitset without an epoch.\<close>

lemma ne_claim_quiet:
  "ne_claim_bit_singular VALUE MODE rot raw [] = (case scan_index VALUE rot raw of
     None \<Rightarrow> (None, raw, raw)
   | Some i \<Rightarrow> (Some i, raw, if MODE = READ_ONLY then raw else claim_test VALUE i raw))"
  by (auto simp: ne_claim_bit_singular_def split: option.splits claim_mode.splits)

lemma ne_claim_bit_from_quiet:
  fixes s :: "'a::len word ne_bitset"
  assumes shape: "ne_shape wc units s" and w: "w < wc"
    and res: "ne_claim_bit_from V READ_WRITE w off rot (\<lambda>_. []) i n s = (r, s')"
  shows "case r of
      None \<Rightarrow> s' = s \<and> (\<forall>j \<in> {i..<i + n}.
        (\<forall>m < LENGTH('a). \<not> wanted V (bit (ne_unit s w ((j + off) mod units)) m)))
    | Some b \<Rightarrow> \<exists>k m. k < units \<and> m < LENGTH('a) \<and> b = m + k * LENGTH('a)
        \<and> wanted V (bit (ne_unit s w k) m)
        \<and> s' = s\<lparr>ne_data := (ne_data s)[w * units + k := claim_test V m (ne_unit s w k)]\<rparr>"
  using res
proof (induction n arbitrary: i)
  case (Suc n)
  let ?k = "(i + off) mod units" and ?u = "ne_unit s w ((i + off) mod units)"
  have units: "ne_units_per_window s = units" "is_pow2 units"
    and idx: "(i + off) AND ne_units_per_window_mod_mask s = ?k"
    using shape by (auto simp: ne_shape_def nat_and_pow2 [unfolded One_nat_def])
  have k: "?k < units" using is_pow2_pos [OF units(2)] by simp
  have u: "ne_data s ! (w * units + ?k) = ?u" by (simp add: ne_unit_def units)
  have same: "s\<lparr>ne_data := (ne_data s)[w * units + ?k := ?u]\<rparr> = s"
    by (metis list_update_id ne_bitset.surjective ne_bitset.update_convs(3) u)
  show ?case
  proof (cases "scan_index V rot ?u")
    case None
    have "ne_claim_bit_from V READ_WRITE w off rot (\<lambda>_. []) (Suc i) n s = (r, s')"
      using Suc.prems None by (auto simp: Let_def idx units u ne_claim_quiet same)
    note IH = Suc.IH [OF this]
    show ?thesis
    proof (cases r)
      case r: None
      have "\<forall>m < LENGTH('a). \<not> wanted V (bit ?u m)" using None scan_index_None by blast
      then show ?thesis using IH r unfolding ball_upto_Suc by simp
    qed (use IH in simp)
  next
    case (Some m)
    have "r = Some (m + ?k * LENGTH('a))"
      "s' = s\<lparr>ne_data := (ne_data s)[w * units + ?k := claim_test V m ?u]\<rparr>"
      using Suc.prems Some by (auto simp: Let_def idx units u ne_claim_quiet)
    then show ?thesis
      using scan_index_Some [OF Some] k by (simp, intro exI [of _ ?k] conjI exI [of _ m]) simp_all
  qed
qed auto

lemma ne_claim_bit_quiet_None:
  fixes s :: "'a::len word ne_bitset"
  assumes shape: "ne_shape wc units s" and w: "w < wc"
    and res: "ne_claim_bit V READ_WRITE w start (\<lambda>_. []) s = (None, s')"
  shows "s' = s \<and> (\<forall>i < units. \<forall>m < LENGTH('a). \<not> wanted V (bit (ne_unit s w i) m))"
proof -
  have units: "ne_units_per_window s = units" "0 < units"
    using shape by (auto simp: ne_shape_def is_pow2_pos)
  from ne_claim_bit_from_quiet [OF shape w res [unfolded ne_claim_bit_def units(1)]]
  show ?thesis
    using mod_cover [OF units(2), of "\<lambda>k. \<forall>m < LENGTH('a). \<not> wanted V (bit (ne_unit s w k) m)"
      "start div LENGTH('a)"]
    by simp
qed

lemma ne_claim_bit_quiet_Some:
  fixes s :: "'a::len word ne_bitset"
  assumes shape: "ne_shape wc units s" and w: "w < wc"
    and res: "ne_claim_bit V READ_WRITE w start (\<lambda>_. []) s = (Some b, s')"
  obtains k m where "k < units" "m < LENGTH('a)" "b = m + k * LENGTH('a)"
    "wanted V (bit (ne_unit s w k) m)"
    "s' = s\<lparr>ne_data := (ne_data s)[w * units + k := claim_test V m (ne_unit s w k)]\<rparr>"
proof -
  have "ne_units_per_window s = units" using shape by (auto simp: ne_shape_def)
  from ne_claim_bit_from_quiet [OF shape w res [unfolded ne_claim_bit_def this]] that
  show ?thesis by auto
qed

end
