(* ===== verification/Ring.thy ===== *)
theory Ring
  imports Prelude
begin

text \<open>
  Cyclic addressing: a power-of-two array indexed by a free-running 64-bit counter that
  is masked on every access. Three sources use it (the locked queue, the ring buffer of
  the graph benchmark, and the queues of the MultiFifo); they share these lemmas.
\<close>

definition ring_slice :: "'a list \<Rightarrow> u64 \<Rightarrow> u64 \<Rightarrow> nat \<Rightarrow> 'a list" where
  "ring_slice c m t n = map (\<lambda>i. c ! unat ((t + of_nat i) AND m)) [0..<n]"

text \<open>The shape of such an array: \<open>2 ^ k\<close> slots, and the mask that goes with them.\<close>

definition ring_shape :: "'a list \<Rightarrow> u64 \<Rightarrow> bool" where
  "ring_shape c m \<longleftrightarrow> (\<exists>k < 64. length c = 2 ^ k \<and> m = mask k)"

lemma length_ring_slice [simp]: "length (ring_slice c m t n) = n"
  by (simp add: ring_slice_def)

lemma ring_slice_0 [simp]: "ring_slice c m t 0 = []"
  by (simp add: ring_slice_def)

lemma unat_mod_pow2:
  assumes "k \<le> 64"
  shows "unat (t + of_nat i :: u64) mod 2 ^ k = (unat t + i) mod 2 ^ k"
proof -
  have "(2::nat) ^ k dvd 2 ^ 64" using assms by (rule le_imp_power_dvd)
  then have "(unat t + i) mod 2 ^ 64 mod 2 ^ k = (unat t + i) mod 2 ^ k"
    by (rule mod_mod_cancel)
  moreover have "unat (t + of_nat i :: u64) = (unat t + i) mod 2 ^ 64"
    by (simp add: unat_word_ariths unat_of_nat take_bit_eq_mod mod_simps)
  ultimately show ?thesis by simp
qed

lemma ring_index:
  assumes "k < 64"
  shows "unat ((t + of_nat i :: u64) AND mask k) = (unat t + i) mod 2 ^ k"
  using unat_mod_pow2 [of k t i] assms by (simp add: unat_and_mask)

lemma ring_index_less:
  "ring_shape c m \<Longrightarrow> unat (t AND m) < length c"
  by (auto simp: ring_shape_def unat_and_mask)

lemma mod_eq_small_le:
  fixes a i j n :: nat
  assumes "(a + i) mod n = (a + j) mod n" and "i \<le> j" and "j < n"
  shows "i = j"
proof -
  have "n dvd (a + j) - (a + i)"
    using assms mod_eq_dvd_iff_nat [of "a + i" "a + j" n] by simp
  then have "n dvd j - i" by simp
  then show ?thesis using assms by (auto dest: dvd_imp_le)
qed

lemma mod_eq_small:
  fixes a i j n :: nat
  assumes "(a + i) mod n = (a + j) mod n" and "i < n" and "j < n"
  shows "i = j"
  using mod_eq_small_le [of a i n j] mod_eq_small_le [of a j n i] assms by (cases "i \<le> j") auto

lemma ring_slice_push:
  assumes "ring_shape c m" and "n < length c"
  shows "ring_slice (c[unat ((t + of_nat n) AND m) := x]) m t (Suc n) = ring_slice c m t n @ [x]"
proof -
  obtain k where k: "k < 64" "length c = 2 ^ k" "m = mask k"
    using assms(1) by (auto simp: ring_shape_def)
  have lt: "(unat t + n) mod 2 ^ k < length c" by (simp add: k)
  have ne: "(unat t + n) mod 2 ^ k \<noteq> (unat t + i) mod 2 ^ k" if "i < n" for i
    using mod_eq_small [of "unat t" n "2 ^ k" i] that assms(2) k by auto
  show ?thesis
    using lt ne by (auto simp: ring_slice_def k ring_index)
qed

lemma ring_slice_pop:
  "ring_slice c m t (Suc n) = c ! unat (t AND m) # ring_slice c m (t + 1) n"
proof -
  have "map (\<lambda>i. c ! unat ((t + of_nat i) AND m)) [0..<Suc n]
      = c ! unat (t AND m) # map (\<lambda>i. c ! unat ((t + of_nat (Suc i)) AND m)) [0..<n]"
    by (subst upt_conv_Cons) (simp_all add: map_Suc_upt [symmetric] del: upt_Suc)
  then show ?thesis by (simp add: ring_slice_def add.assoc)
qed

end
