(* ===== verification/Fifo_Spec.thy ===== *)
theory Fifo_Spec
  imports Prelude
begin

text \<open>
  The contracts of the queues. \<^verbatim>\<open>fifo.h\<close> asks of a queue a handle with \<^verbatim>\<open>push\<close>, which
  returns whether the element was taken, and \<^verbatim>\<open>pop\<close>, which returns an element or nothing.
  The locale \<open>pool\<close> is what every contender, relaxed or not, promises of these two
  operations (no element is lost, duplicated or invented, an empty answer is right); the
  invariant of a queue is indexed by the number of operations it still has room for, since
  the counters of the relaxed queues are finite; the locale \<open>strict_fifo\<close> adds the order and the capacity of the exact queues. The consistency
  test of \<^verbatim>\<open>main.cpp\<close> is a client of \<open>pool\<close>: its verdict is proved once, in the locale.
\<close>

section \<open>Operations of a run\<close>

text \<open>A run is a list of operations, each by the handle named by its first argument.\<close>

datatype 'a fifo_op = Push nat 'a | Pop nat

datatype 'a fifo_res = Pushed bool | Popped "'a option"

fun pushed_items :: "'a fifo_op list \<Rightarrow> 'a fifo_res list \<Rightarrow> 'a multiset" where
  "pushed_items (Push h x # ops) (Pushed True # rs) = add_mset x (pushed_items ops rs)"
| "pushed_items (_ # ops) (_ # rs) = pushed_items ops rs"
| "pushed_items _ _ = {#}"

fun popped_items :: "'a fifo_res list \<Rightarrow> 'a multiset" where
  "popped_items (Popped (Some x) # rs) = add_mset x (popped_items rs)"
| "popped_items (_ # rs) = popped_items rs"
| "popped_items [] = {#}"

section \<open>The contract of a relaxed queue\<close>

locale pool =
  fixes push :: "nat \<Rightarrow> 'a \<Rightarrow> 'q \<Rightarrow> (bool \<times> 'q) option"
    and pop :: "nat \<Rightarrow> 'q \<Rightarrow> ('a option \<times> 'q) option"
    and content :: "'q \<Rightarrow> 'a multiset"
    and accepts :: "'a \<Rightarrow> bool"
    and invar :: "nat \<Rightarrow> 'q \<Rightarrow> bool"
  assumes push_returns: "invar (Suc n) q \<Longrightarrow> accepts x \<Longrightarrow> \<exists>b q'. push h x q = Some (b, q') \<and> invar n q'
      \<and> content q' = (if b then add_mset x (content q) else content q)"
    and pop_returns: "invar (Suc n) q \<Longrightarrow> \<exists>r q'. pop h q = Some (r, q') \<and> invar n q'
      \<and> (case r of None \<Rightarrow> content q = {#} \<and> content q' = {#}
           | Some x \<Rightarrow> content q = add_mset x (content q'))"
begin

fun step :: "'a fifo_op \<Rightarrow> 'q \<Rightarrow> ('a fifo_res \<times> 'q) option" where
  "step (Push h x) q = map_option (\<lambda>(b, q'). (Pushed b, q')) (push h x q)"
| "step (Pop h) q = map_option (\<lambda>(r, q'). (Popped r, q')) (pop h q)"

fun run :: "'a fifo_op list \<Rightarrow> 'q \<Rightarrow> ('a fifo_res list \<times> 'q) option" where
  "run [] q = Some ([], q)"
| "run (op # ops) q = (case step op q of None \<Rightarrow> None
     | Some (r, q') \<Rightarrow> map_option (\<lambda>(rs, q''). (r # rs, q'')) (run ops q'))"

fun accepted :: "'a fifo_op list \<Rightarrow> bool" where
  "accepted [] = True"
| "accepted (Push h x # ops) = (accepts x \<and> accepted ops)"
| "accepted (Pop h # ops) = accepted ops"

text \<open>Every run returns, and what was pushed is what was popped and what is left.\<close>

lemma run_conserves:
  assumes "invar (length ops + m) q" and "accepted ops"
  shows "\<exists>rs q'. run ops q = Some (rs, q') \<and> invar m q'
    \<and> content q + pushed_items ops rs = popped_items rs + content q'"
  using assms
proof (induction ops arbitrary: q)
  case Nil
  then show ?case by simp
next
  case (Cons op ops)
  show ?case
  proof (cases op)
    case (Push h x)
    obtain b q1 where b: "push h x q = Some (b, q1)" "invar (length ops + m) q1"
      "content q1 = (if b then add_mset x (content q) else content q)"
      using push_returns [of "length ops + m" q x h] Cons.prems Push by auto
    obtain rs q' where "run ops q1 = Some (rs, q')" "invar m q'"
      "content q1 + pushed_items ops rs = popped_items rs + content q'"
      using Cons.IH [OF b(2)] Cons.prems Push by auto
    then show ?thesis using b Push by (cases b) auto
  next
    case (Pop h)
    obtain r q1 where r: "pop h q = Some (r, q1)" "invar (length ops + m) q1"
      "case r of None \<Rightarrow> content q = {#} \<and> content q1 = {#}
         | Some x \<Rightarrow> content q = add_mset x (content q1)"
      using pop_returns [of "length ops + m" q h] Cons.prems by auto
    obtain rs q' where "run ops q1 = Some (rs, q')" "invar m q'"
      "content q1 + pushed_items ops rs = popped_items rs + content q'"
      using Cons.IH [OF r(2)] Cons.prems Pop by auto
    then show ?thesis using r Pop by (cases r) auto
  qed
qed

text \<open>
  Draining: popping a queue of \<open>n\<close> elements \<open>n\<close> times returns exactly its elements, and
  the next pop returns nothing.
\<close>

lemma drain:
  assumes "invar (Suc n) q" and "size (content q) = n"
  shows "\<exists>rs q'. run (replicate n (Pop h)) q = Some (rs, q') \<and> popped_items rs = content q
    \<and> content q' = {#} \<and> (\<exists>q''. pop h q' = Some (None, q''))"
  using assms
proof (induction n arbitrary: q)
  case 0
  obtain r q1 where "pop h q = Some (r, q1)"
      "case r of None \<Rightarrow> content q = {#} \<and> content q1 = {#}
         | Some x \<Rightarrow> content q = add_mset x (content q1)"
    using pop_returns [OF 0(1)] by blast
  with 0 show ?case by (cases r) auto
next
  case (Suc n)
  obtain r q1 where r: "pop h q = Some (r, q1)" "invar (Suc n) q1"
      "case r of None \<Rightarrow> content q = {#} \<and> content q1 = {#}
         | Some x \<Rightarrow> content q = add_mset x (content q1)"
    using pop_returns [OF Suc.prems(1)] by blast
  with Suc.prems obtain x where x: "r = Some x" "content q = add_mset x (content q1)"
    by (cases r) auto
  with Suc.prems obtain rs q' where "run (replicate n (Pop h)) q1 = Some (rs, q')"
    "popped_items rs = content q1" "content q' = {#}" "\<exists>q''. pop h q' = Some (None, q'')"
    using Suc.IH [OF r(2)] by auto
  with r x show ?case by auto
qed

end

section \<open>The contract of an exact bounded queue\<close>

locale strict_fifo =
  fixes push :: "'a \<Rightarrow> 'q \<Rightarrow> bool \<times> 'q"
    and pop :: "'q \<Rightarrow> 'a option \<times> 'q"
    and items :: "'q \<Rightarrow> 'a list"
    and capacity :: "'q \<Rightarrow> nat"
    and invar :: "'q \<Rightarrow> bool"
  assumes bounded: "invar q \<Longrightarrow> length (items q) \<le> capacity q"
    and push_full: "invar q \<Longrightarrow> length (items q) = capacity q \<Longrightarrow> push x q = (False, q)"
    and push_room: "invar q \<Longrightarrow> length (items q) < capacity q \<Longrightarrow>
      \<exists>q'. push x q = (True, q') \<and> invar q' \<and> capacity q' = capacity q \<and> items q' = items q @ [x]"
    and pop_empty: "invar q \<Longrightarrow> items q = [] \<Longrightarrow> pop q = (None, q)"
    and pop_first: "invar q \<Longrightarrow> items q = x # xs \<Longrightarrow>
      \<exists>q'. pop q = (Some x, q') \<and> invar q' \<and> capacity q' = capacity q \<and> items q' = xs"
begin

text \<open>An exact queue keeps the relaxed contract.\<close>

lemma push_pool:
  assumes "invar q"
  shows "\<exists>b q'. push x q = (b, q') \<and> invar q'
    \<and> mset (items q') = (if b then add_mset x (mset (items q)) else mset (items q))"
proof (cases "length (items q) = capacity q")
  case True
  then show ?thesis
    using push_full [OF assms] assms by (intro exI [of _ False] exI [of _ q]) simp
next
  case False
  then have "length (items q) < capacity q" using bounded [OF assms] by simp
  then obtain q' where "push x q = (True, q')" "invar q'" "items q' = items q @ [x]"
    using push_room [OF assms] by blast
  then show ?thesis by (intro exI [of _ True] exI [of _ q']) simp
qed

lemma pop_pool:
  assumes "invar q"
  shows "\<exists>r q'. pop q = (r, q') \<and> invar q'
    \<and> (case r of None \<Rightarrow> mset (items q) = {#} \<and> mset (items q') = {#}
         | Some x \<Rightarrow> mset (items q) = add_mset x (mset (items q')))"
proof (cases "items q")
  case Nil
  then show ?thesis
    using pop_empty [OF assms] assms by (intro exI [of _ None] exI [of _ q]) simp
next
  case (Cons x xs)
  then obtain q' where "pop q = (Some x, q')" "invar q'" "items q' = xs"
    using pop_first [OF assms Cons] by blast
  with Cons show ?thesis by (intro exI [of _ "Some x"] exI [of _ q']) simp
qed

fun push_all :: "'a list \<Rightarrow> 'q \<Rightarrow> 'q" where
  "push_all [] q = q"
| "push_all (x # xs) q = push_all xs (snd (push x q))"

fun pop_n :: "nat \<Rightarrow> 'q \<Rightarrow> 'a option list \<times> 'q" where
  "pop_n 0 q = ([], q)"
| "pop_n (Suc n) q = (let (r, q1) = pop q; (rs, q2) = pop_n n q1 in (r # rs, q2))"

lemma push_all_items:
  assumes "invar q" and "length (items q) + length xs \<le> capacity q"
  shows "invar (push_all xs q) \<and> items (push_all xs q) = items q @ xs"
  using assms
proof (induction xs arbitrary: q)
  case (Cons x xs)
  then obtain q' where "push x q = (True, q')" "invar q'" "capacity q' = capacity q"
    "items q' = items q @ [x]"
    using push_room [of q x] by auto
  then show ?case using Cons.IH [of q'] Cons.prems by simp
qed simp

lemma pop_n_items:
  assumes "invar q" and "n = length (items q)"
  shows "fst (pop_n n q) = map Some (items q)"
  using assms
proof (induction n arbitrary: q)
  case (Suc n)
  then obtain x xs where xs: "items q = x # xs" by (cases "items q") auto
  then obtain q' where "pop q = (Some x, q')" "invar q'" "items q' = xs"
    using pop_first [OF Suc.prems(1) xs] by blast
  then show ?case using Suc.IH [of q'] Suc.prems xs by (auto split: prod.splits)
qed simp

text \<open>First in, first out: a queue returns what was pushed, in the order of the pushes.\<close>

lemma fifo_order:
  assumes "invar q" and "items q = []" and "length xs \<le> capacity q"
  shows "fst (pop_n (length xs) (push_all xs q)) = map Some xs"
  using push_all_items [of q xs] pop_n_items [of "push_all xs q" "length xs"] assms by simp

end

sublocale strict_fifo \<subseteq> pool
  "\<lambda>_ x q. Some (push x q)" "\<lambda>_ q. Some (pop q)" "\<lambda>q. mset (items q)" "\<lambda>_. True" "\<lambda>_. invar"
  by unfold_locales (simp_all add: push_pool pop_pool)

end
