(* ===== verification/Ring_Buffer.thy ===== *)
theory Ring_Buffer
  imports Ring Fifo_Spec
begin

text \<open>
  \<^verbatim>\<open>contenders/multififo/ring_buffer.hpp\<close>: a vector of a power-of-two capacity with
  free-running head and tail counters. \<^verbatim>\<open>push\<close> does not test for a full buffer; its
  contract therefore has a precondition, and what happens without it is stated too.
\<close>

record 'a RingBuffer =
  rb_c :: "'a list"
  rb_head :: u64
  rb_tail :: u64
  rb_mask :: u64

definition RingBuffer_new :: "'a::zero itself \<Rightarrow> u64 \<Rightarrow> 'a RingBuffer" where
  "RingBuffer_new _ capacity =
     \<lparr>rb_c = replicate (unat capacity) 0, rb_head = 0, rb_tail = 0, rb_mask = capacity - 1\<rparr>"

definition rb_size :: "'a RingBuffer \<Rightarrow> u64" where
  "rb_size b = rb_head b - rb_tail b"

definition rb_empty :: "'a RingBuffer \<Rightarrow> bool" where
  "rb_empty b \<longleftrightarrow> rb_size b = 0"

definition rb_capacity :: "'a RingBuffer \<Rightarrow> nat" where
  "rb_capacity b = length (rb_c b)"

definition rb_full :: "'a RingBuffer \<Rightarrow> bool" where
  "rb_full b \<longleftrightarrow> rb_size b = of_nat (rb_capacity b)"

definition rb_top :: "'a RingBuffer \<Rightarrow> 'a" where
  "rb_top b = rb_c b ! unat (rb_tail b AND rb_mask b)"

definition rb_pop :: "'a RingBuffer \<Rightarrow> 'a RingBuffer" where
  "rb_pop b = b\<lparr>rb_tail := rb_tail b + 1\<rparr>"

definition rb_push :: "'a \<Rightarrow> 'a RingBuffer \<Rightarrow> 'a RingBuffer" where
  "rb_push v b = b\<lparr>rb_c := (rb_c b)[unat (rb_head b AND rb_mask b) := v],
                   rb_head := rb_head b + 1\<rparr>"

definition rb_clear :: "'a RingBuffer \<Rightarrow> 'a RingBuffer" where
  "rb_clear b = b\<lparr>rb_head := 0, rb_tail := 0\<rparr>"

text \<open>The buffer refines a list of at most \<open>rb_capacity\<close> elements.\<close>

definition rb_items :: "'a RingBuffer \<Rightarrow> 'a list" where
  "rb_items b = ring_slice (rb_c b) (rb_mask b) (rb_tail b) (unat (rb_size b))"

definition rb_invar :: "'a RingBuffer \<Rightarrow> bool" where
  "rb_invar b \<longleftrightarrow> ring_shape (rb_c b) (rb_mask b) \<and> unat (rb_size b) \<le> length (rb_c b)"

lemma rb_new_invar:
  assumes "unat cap = 2 ^ k"
  shows "rb_invar (RingBuffer_new TYPE('a::zero) cap) \<and> rb_items (RingBuffer_new TYPE('a) cap) = []"
proof -
  have "(2::nat) ^ k < 2 ^ 64" using assms unat_lt [of cap] by simp
  then have k: "k < 64" by (rule power_less_imp_less_exp [rotated]) simp
  then have "cap = 2 ^ k" using assms by (simp add: word_eq_unat unat_pow2)
  then have "cap - 1 = mask k" by (simp add: mask_eq_exp_minus_1)
  then show ?thesis using k assms
    by (auto simp: rb_invar_def rb_items_def RingBuffer_new_def ring_shape_def rb_size_def)
qed

lemma rb_items_length: "length (rb_items b) = unat (rb_size b)"
  by (simp add: rb_items_def)

lemma rb_empty_iff: "rb_empty b \<longleftrightarrow> rb_items b = []"
  by (metis length_0_conv rb_empty_def rb_items_length unat_eq_zero)

lemma ring_shape_small: "ring_shape c m \<Longrightarrow> length c < 2 ^ 64"
  using power_strict_increasing [of _ 64 "2 :: nat"] by (auto simp: ring_shape_def)

lemma rb_full_iff: "rb_invar b \<Longrightarrow> rb_full b \<longleftrightarrow> length (rb_items b) = rb_capacity b"
  by (auto simp: rb_full_def rb_invar_def rb_items_length rb_capacity_def word_eq_of_nat
      dest: ring_shape_small)

lemma rb_push_fields [simp]:
  "rb_c (rb_push v b) = (rb_c b)[unat (rb_head b AND rb_mask b) := v]"
  "rb_mask (rb_push v b) = rb_mask b" "rb_tail (rb_push v b) = rb_tail b"
  and rb_pop_fields [simp]:
  "rb_c (rb_pop b) = rb_c b" "rb_mask (rb_pop b) = rb_mask b" "rb_tail (rb_pop b) = rb_tail b + 1"
  by (simp_all add: rb_push_def rb_pop_def)

lemma rb_size_push: "rb_size (rb_push v b) = rb_size b + 1"
  and rb_size_pop: "rb_size (rb_pop b) = rb_size b - 1"
  by (simp_all add: rb_size_def rb_push_def rb_pop_def)

lemma rb_push_items:
  assumes "rb_invar b" and "length (rb_items b) < rb_capacity b"
  shows "rb_invar (rb_push v b) \<and> rb_items (rb_push v b) = rb_items b @ [v]
    \<and> rb_capacity (rb_push v b) = rb_capacity b"
proof -
  let ?n = "unat (rb_size b)"
  have n: "?n < length (rb_c b)" using assms by (simp add: rb_items_length rb_capacity_def)
  have shape: "ring_shape (rb_c b) (rb_mask b)" using assms by (simp add: rb_invar_def)
  have hd: "rb_tail b + of_nat ?n = rb_head b" by (simp add: rb_size_def)
  have "Suc ?n < 2 ^ 64" using n ring_shape_small [OF shape] by simp
  then have sz: "unat (rb_size (rb_push v b)) = Suc ?n"
    by (simp add: unat_suc_small rb_size_push)
  show ?thesis
    using ring_slice_push [OF shape n, of "rb_tail b" v] n shape
    unfolding hd by (simp add: rb_items_def rb_invar_def rb_capacity_def sz ring_shape_def)
qed

lemma rb_pop_items:
  assumes "rb_invar b" and "rb_items b = x # xs"
  shows "rb_top b = x \<and> rb_invar (rb_pop b) \<and> rb_items (rb_pop b) = xs
    \<and> rb_capacity (rb_pop b) = rb_capacity b"
proof -
  obtain n where n: "unat (rb_size b) = Suc n"
    using assms(2) rb_items_length [of b] by (cases "unat (rb_size b)") auto
  then have "rb_size b \<noteq> 0" by auto
  then have sz: "unat (rb_size (rb_pop b)) = n" using n by (simp add: unat_minus_one rb_size_pop)
  show ?thesis
    using assms ring_slice_pop [of "rb_c b" "rb_mask b" "rb_tail b" n]
    by (simp add: rb_items_def n sz rb_top_def rb_invar_def rb_capacity_def)
qed

lemma rb_clear_items: "rb_invar b \<Longrightarrow> rb_invar (rb_clear b) \<and> rb_items (rb_clear b) = []"
  by (simp add: rb_clear_def rb_invar_def rb_items_def rb_size_def)

text \<open>The guarded use of the buffer: test, then operate.\<close>

definition rb_try_push :: "'a \<Rightarrow> 'a RingBuffer \<Rightarrow> bool \<times> 'a RingBuffer" where
  "rb_try_push v b = (if rb_full b then (False, b) else (True, rb_push v b))"

definition rb_try_pop :: "'a RingBuffer \<Rightarrow> 'a option \<times> 'a RingBuffer" where
  "rb_try_pop b = (if rb_empty b then (None, b) else (Some (rb_top b), rb_pop b))"

interpretation ring_buffer: strict_fifo rb_try_push rb_try_pop rb_items rb_capacity rb_invar
proof unfold_locales
  fix q :: "'a RingBuffer" and x :: 'a and xs :: "'a list"
  assume inv: "rb_invar q"
  then show "length (rb_items q) \<le> rb_capacity q"
    by (simp add: rb_items_length rb_capacity_def rb_invar_def)
  show "length (rb_items q) = rb_capacity q \<Longrightarrow> rb_try_push x q = (False, q)"
    using inv by (simp add: rb_try_push_def rb_full_iff)
  show "length (rb_items q) < rb_capacity q \<Longrightarrow> \<exists>q'. rb_try_push x q = (True, q') \<and> rb_invar q'
      \<and> rb_capacity q' = rb_capacity q \<and> rb_items q' = rb_items q @ [x]"
    using rb_push_items [OF inv] by (simp add: rb_try_push_def rb_full_iff inv)
  show "rb_items q = [] \<Longrightarrow> rb_try_pop q = (None, q)"
    by (simp add: rb_try_pop_def rb_empty_iff)
  show "rb_items q = x # xs \<Longrightarrow> \<exists>q'. rb_try_pop q = (Some x, q') \<and> rb_invar q'
      \<and> rb_capacity q' = rb_capacity q \<and> rb_items q' = xs"
    using rb_pop_items [OF inv] by (simp add: rb_try_pop_def rb_empty_iff)
qed

end
