(* ===== verification/Utility.thy ===== *)
theory Utility
  imports Prelude
begin

text \<open>
  \<^verbatim>\<open>utility.h\<close> and the \<^verbatim>\<open><bit>\<close> functions the sources call: the power-of-two test, the
  modulus by a power of two, the rounding of a block to whole cache lines, and
  \<^verbatim>\<open>std::bit_ceil\<close> and \<^verbatim>\<open>std::bit_width\<close>.
\<close>

section \<open>The power-of-two test\<close>

text \<open>
  \<^verbatim>\<open>is_po2\<close> doubles a 64-bit counter until it reaches \<^verbatim>\<open>sz\<close>. The loop is a partial
  function: not returning is \<^term>\<open>None\<close>.
\<close>

partial_function (option) is_po2_loop :: "u64 \<Rightarrow> u64 \<Rightarrow> u64 option" where
  "is_po2_loop it sz = (if it < sz then is_po2_loop (it * 2) sz else Some it)"

definition is_po2 :: "u64 \<Rightarrow> bool option" where
  "is_po2 sz = (case is_po2_loop 1 sz of None \<Rightarrow> None | Some it \<Rightarrow> Some (it = sz))"

definition modulo_po2 :: "u64 \<Rightarrow> u64 \<Rightarrow> u64" where
  "modulo_po2 dividend divisor = dividend AND (divisor - 1)"

text \<open>
  \<^verbatim>\<open>align_cache_line_size\<close> adds whole cache lines until \<^verbatim>\<open>sz\<close> bytes fit. The line sz
  is \<^verbatim>\<open>std::hardware_destructive_interference_size\<close>, which is positive.
\<close>

function align_loop :: "nat \<Rightarrow> nat \<Rightarrow> nat \<Rightarrow> nat" where
  "align_loop line ret sz =
     (if ret < sz \<and> 0 < line then align_loop line (ret + line) sz else ret)"
  by pat_completeness auto
termination
  by (relation "measure (\<lambda>(line, ret, sz). sz - ret)") auto

declare align_loop.simps [simp del]

definition align_cache_line_size :: "nat \<Rightarrow> nat \<Rightarrow> nat" where
  "align_cache_line_size line sz = align_loop line line sz"

function bit_ceil_from :: "nat \<Rightarrow> nat \<Rightarrow> nat" where
  "bit_ceil_from p n = (if p < n \<and> 0 < p then bit_ceil_from (2 * p) n else p)"
  by pat_completeness auto
termination
  by (relation "measure (\<lambda>(p, n). n - p)") auto

declare bit_ceil_from.simps [simp del]

definition bit_ceil :: "nat \<Rightarrow> nat" where
  "bit_ceil n = bit_ceil_from 1 n"

fun bit_width :: "nat \<Rightarrow> nat" where
  "bit_width n = (if n = 0 then 0 else Suc (bit_width (n div 2)))"

declare bit_width.simps [simp del]

section \<open>Correctness of the loops\<close>

lemma is_po2_loop_pow:
  assumes "k \<le> 63" and "unat sz \<le> 2 ^ 63"
  shows "\<exists>j. k \<le> j \<and> j \<le> 63 \<and> is_po2_loop (2 ^ k) sz = Some (2 ^ j) \<and> unat sz \<le> 2 ^ j
    \<and> (k < j \<longrightarrow> 2 ^ (j - 1) < unat sz)"
  using assms
proof (induction "63 - k" arbitrary: k)
  case 0
  then have "k = 63" by simp
  moreover have "\<not> (2 ^ 63 :: u64) < sz"
    using 0 by (simp add: word_less_nat_alt)
  ultimately show ?case
    using 0 by (intro exI [of _ 63]) (simp add: is_po2_loop.simps [of 9223372036854775808])
next
  case (Suc m)
  then have k: "k < 63" by simp
  have pk: "unat (2 ^ k :: u64) = 2 ^ k"
    using k by (simp add: unat_pow2)
  show ?case
  proof (cases "(2 ^ k :: u64) < sz")
    case True
    have "is_po2_loop (2 ^ k) sz = is_po2_loop (2 ^ Suc k) sz"
      using True by (subst is_po2_loop.simps) (simp add: mult.commute)
    moreover obtain j where j: "Suc k \<le> j" "j \<le> 63"
      "is_po2_loop (2 ^ Suc k) sz = Some (2 ^ j)" "unat sz \<le> 2 ^ j"
      "Suc k < j \<longrightarrow> 2 ^ (j - 1) < unat sz"
      using Suc.hyps(1) [of "Suc k"] Suc.hyps(2) Suc.prems k by (metis Suc_diff_Suc Suc_inject Suc_leI)
    moreover have "2 ^ (j - 1) < unat sz"
      using j True pk by (cases "Suc k < j") (auto simp: word_less_nat_alt le_Suc_eq not_less)
    ultimately show ?thesis by (intro exI [of _ j]) auto
  next
    case False
    then have "unat sz \<le> 2 ^ k" using pk by (simp add: word_less_nat_alt)
    with False k show ?thesis
      by (intro exI [of _ k]) (simp add: is_po2_loop.simps)
  qed
qed

lemma is_po2_loop_stuck:
  assumes ret: "is_po2_loop it sz = Some r"
    and big: "2 ^ 63 < unat sz" and it: "it = 0 \<or> (\<exists>k \<le> 63. it = 2 ^ k)"
  shows False
proof -
  define P where "P = (\<lambda>(it :: u64) (sz :: u64) (r :: u64).
    2 ^ 63 < unat sz \<longrightarrow> \<not> (it = 0 \<or> (\<exists>k \<le> 63. it = 2 ^ k)))"
  have "P it sz r"
  proof (rule is_po2_loop.raw_induct [where P = P, OF _ ret])
    fix f :: "u64 \<Rightarrow> u64 \<Rightarrow> u64 option" and it sz r
    assume IH: "\<And>it sz r. f it sz = Some r \<Longrightarrow> P it sz r"
      and eq: "(if it < sz then f (it * 2) sz else Some it) = Some r"
    show "P it sz r"
      unfolding P_def
    proof (intro impI notI)
      assume big: "2 ^ 63 < unat sz" and it: "it = 0 \<or> (\<exists>k \<le> 63. it = 2 ^ k)"
      have "(2::nat) ^ k < unat sz" if "k \<le> 63" for k
        using big power_increasing [OF that, of "2::nat"] by simp
      then have "it < sz"
        using it big by (auto simp: word_less_nat_alt unat_pow2)
      with eq IH have "P (it * 2) sz r" by simp
      moreover have "it * 2 = 0 \<or> (\<exists>k \<le> 63. it * 2 = 2 ^ k)"
      proof (cases "it = 0")
        case False
        then obtain k where k: "k \<le> 63" "it = 2 ^ k" using it by blast
        then have "it * 2 = 2 ^ Suc k" by (simp add: mult.commute)
        moreover have z: "(2 :: u64) ^ Suc 63 = 0" by (simp add: word_eq_unat)
        moreover have "Suc k \<le> 63" if "k \<noteq> 63" using k that by simp
        ultimately show ?thesis by metis
      qed simp
      ultimately show False using big by (auto simp: P_def)
    qed
  qed
  then show False using big it unfolding P_def by blast
qed

text \<open>
  The test returns for every size up to \<open>2 ^ 63\<close> and decides whether it is a power of two; for every
  larger size its counter wraps to zero and the loop never returns.
\<close>

lemma is_po2_eq:
  "is_po2 sz = (if unat sz \<le> 2 ^ 63 then Some (is_pow2 (unat sz)) else None)"
proof (cases "unat sz \<le> 2 ^ 63")
  case True
  obtain j where j: "j \<le> 63" "is_po2_loop (2 ^ 0) sz = Some (2 ^ j)" "unat sz \<le> 2 ^ j"
    "0 < j \<longrightarrow> 2 ^ (j - 1) < unat sz"
    using is_po2_loop_pow [OF _ True, of 0] by auto
  have eq: "(2 ^ j = sz) = (2 ^ j = unat sz)" using j(1) by (simp add: word_eq_unat unat_pow2)
  have "m = j" if "unat sz = 2 ^ m" for m
  proof -
    have "m \<le> j" using j(3) that by (simp add: power_increasing_iff)
    moreover have "j - 1 < m" if "0 < j" using j(4) \<open>unat sz = 2 ^ m\<close> that by (simp add: power_strict_increasing_iff)
    ultimately show ?thesis by (cases "j = 0") auto
  qed
  then have "(2 ^ j = unat sz) = is_pow2 (unat sz)" unfolding is_pow2_def by metis
  then show ?thesis using j(2) True eq by (simp add: is_po2_def)
next
  case False
  have "\<not> (\<exists>r. is_po2_loop 1 sz = Some r)"
    using is_po2_loop_stuck [of 1 sz] False by (metis not_le power_0 zero_le)
  then show ?thesis using False by (simp add: is_po2_def)
qed

lemma align_loop_props:
  assumes "0 < line" and "line dvd ret"
  shows "line dvd align_loop line ret sz \<and> sz \<le> align_loop line ret sz
    \<and> ret \<le> align_loop line ret sz \<and> (ret < sz \<longrightarrow> align_loop line ret sz < sz + line)"
  using assms
proof (induction line ret sz rule: align_loop.induct)
  case (1 line ret sz)
  show ?case
  proof (cases "ret < sz")
    case True
    then have "align_loop line ret sz = align_loop line (ret + line) sz"
      using 1 by (subst align_loop.simps) simp
    then show ?thesis
      using 1 True by (cases "ret + line < sz") (auto simp: align_loop.simps [of line "ret + line"])
  next
    case False
    with 1 show ?thesis by (subst align_loop.simps, simp)+
  qed
qed

lemma bit_ceil_from_pow:
  assumes "p = 2 ^ k"
  shows "\<exists>j. bit_ceil_from p n = 2 ^ j \<and> n \<le> 2 ^ j \<and> p \<le> 2 ^ j \<and> (p < n \<longrightarrow> 2 ^ j < 2 * n)"
  using assms
proof (induction p n arbitrary: k rule: bit_ceil_from.induct)
  case (1 p n)
  show ?case
  proof (cases "p < n")
    case True
    then have eq: "bit_ceil_from p n = bit_ceil_from (2 * p) n"
      using 1 by (subst bit_ceil_from.simps) simp
    obtain j where j: "bit_ceil_from (2 * p) n = 2 ^ j" "n \<le> 2 ^ j" "2 * p \<le> 2 ^ j"
      "2 * p < n \<longrightarrow> 2 ^ j < 2 * n"
      using "1.IH" [of "Suc k"] True "1.prems" by auto
    have "\<not> 2 * p < n \<Longrightarrow> bit_ceil_from (2 * p) n = 2 * p"
      by (subst bit_ceil_from.simps) simp
    then show ?thesis using j eq True by (intro exI [of _ j]) auto
  next
    case False
    then have "bit_ceil_from p n = p" by (subst bit_ceil_from.simps) simp
    with False show ?thesis using "1.prems" by (intro exI [of _ k]) simp
  qed
qed

lemma bit_ceil_pow2: "is_pow2 (bit_ceil n)"
  using bit_ceil_from_pow [of 1 0 n] by (auto simp: bit_ceil_def is_pow2_def)

lemma bit_ceil_ge: "n \<le> bit_ceil n"
  using bit_ceil_from_pow [of 1 0 n] by (auto simp: bit_ceil_def)

lemma bit_ceil_bound:
  assumes "n \<le> 2 ^ m" shows "\<exists>k. bit_ceil n = 2 ^ k \<and> k \<le> m"
proof (cases "1 < n")
  case True
  then obtain j where j: "bit_ceil n = 2 ^ j" "2 ^ j < 2 * n"
    using bit_ceil_from_pow [of 1 0 n] by (auto simp: bit_ceil_def)
  then have "(2 :: nat) ^ j < 2 ^ Suc m" using assms by simp
  then have "j < Suc m" by (rule power_less_imp_less_exp [rotated]) simp
  then show ?thesis using j(1) by auto
next
  case False
  then have "bit_ceil n = 2 ^ 0" by (simp add: bit_ceil_def bit_ceil_from.simps)
  then show ?thesis by blast
qed

lemma bit_ceil_fixed: "bit_ceil (2 ^ k) = 2 ^ k"
proof -
  obtain j where j: "bit_ceil (2 ^ k) = 2 ^ j" "(2::nat) ^ k \<le> 2 ^ j" "1 < (2::nat) ^ k \<longrightarrow> (2::nat) ^ j < 2 * 2 ^ k"
    using bit_ceil_from_pow [of 1 0 "2 ^ k"] by (auto simp: bit_ceil_def)
  show ?thesis
  proof (cases "k = 0")
    case True
    then show ?thesis by (simp add: bit_ceil_def bit_ceil_from.simps)
  next
    case False
    then have "1 < (2::nat) ^ k" using one_less_power [of "2::nat" k] by simp
    with j(3) have "(2::nat) ^ j < 2 ^ Suc k" by simp
    then have "j < Suc k" by (rule power_less_imp_less_exp [rotated]) simp
    moreover have "k \<le> j" using j(2) by simp
    ultimately show ?thesis using j(1) by simp
  qed
qed

lemma bit_width_pow2: "bit_width (2 ^ k) = Suc k"
proof (induction k)
  case (Suc k)
  have "bit_width (2 ^ Suc k) = Suc (bit_width (2 ^ Suc k div 2))"
    by (subst bit_width.simps) simp
  with Suc show ?case by simp
qed (simp add: bit_width.simps)

lemma modulo_po2_nat:
  assumes "unat divisor = 2 ^ k"
  shows "unat (modulo_po2 dividend divisor) = unat dividend mod unat divisor"
proof -
  have "k < 64"
  proof -
    have "(2::nat) ^ k < 2 ^ 64" using assms unat_lt [of divisor] by simp
    then show ?thesis by (rule power_less_imp_less_exp [rotated]) simp
  qed
  then have "divisor = 2 ^ k" using assms by (simp add: word_eq_unat unat_pow2)
  then have "divisor - 1 = mask k" by (simp add: mask_eq_exp_minus_1)
  then show ?thesis by (simp add: modulo_po2_def unat_and_mask assms)
qed

end
