(* ===== verification/Lock_Fifo.thy ===== *)
theory Lock_Fifo
  imports Ring Fifo_Spec Utility
begin

text \<open>
  \<^verbatim>\<open>lock_fifo.h\<close>: the reference queue, a ring behind one mutex. Every operation holds the
  mutex from its first to its last access, so an operation is one step of the model. The
  head counter is advanced before the slot is written, so the first slot used is slot 1.
\<close>

record 'a lock_fifo =
  lf_buffer :: "'a list"
  lf_head :: u64
  lf_tail :: u64
  lf_capacity :: u64

datatype fifo_error = Not_power_of_two

text \<open>The constructor: \<^term>\<open>None\<close> where the power-of-two test does not return.\<close>

definition lock_fifo_new :: "'a::zero itself \<Rightarrow> u64 \<Rightarrow> (fifo_error + 'a lock_fifo) option" where
  "lock_fifo_new _ capacity = (case is_po2 capacity of
       None \<Rightarrow> None
     | Some False \<Rightarrow> Some (Inl Not_power_of_two)
     | Some True \<Rightarrow> Some (Inr \<lparr>lf_buffer = replicate (unat capacity) 0,
                             lf_head = 0, lf_tail = 0, lf_capacity = capacity\<rparr>))"

definition lf_push :: "'a \<Rightarrow> 'a lock_fifo \<Rightarrow> bool \<times> 'a lock_fifo" where
  "lf_push t q =
     (if lf_head q - lf_tail q = lf_capacity q then (False, q)
      else let head = lf_head q + 1 in
        (True, q\<lparr>lf_head := head,
                 lf_buffer := (lf_buffer q)[unat (modulo_po2 head (lf_capacity q)) := t]\<rparr>))"

definition lf_pop :: "'a lock_fifo \<Rightarrow> 'a option \<times> 'a lock_fifo" where
  "lf_pop q =
     (if lf_head q = lf_tail q then (None, q)
      else let tail = lf_tail q + 1 in
        (Some (lf_buffer q ! unat (modulo_po2 tail (lf_capacity q))), q\<lparr>lf_tail := tail\<rparr>))"

definition lf_items :: "'a lock_fifo \<Rightarrow> 'a list" where
  "lf_items q = ring_slice (lf_buffer q) (lf_capacity q - 1) (lf_tail q + 1)
                  (unat (lf_head q - lf_tail q))"

definition lf_cap :: "'a lock_fifo \<Rightarrow> nat" where
  "lf_cap q = unat (lf_capacity q)"

definition lf_invar :: "'a lock_fifo \<Rightarrow> bool" where
  "lf_invar q \<longleftrightarrow> length (lf_buffer q) = unat (lf_capacity q)
     \<and> ring_shape (lf_buffer q) (lf_capacity q - 1)
     \<and> unat (lf_head q - lf_tail q) \<le> unat (lf_capacity q)"

lemma lf_items_length: "length (lf_items q) = unat (lf_head q - lf_tail q)"
  by (simp add: lf_items_def)

lemma lf_push_items:
  assumes "lf_invar q" and "length (lf_items q) < lf_cap q"
  shows "\<exists>q'. lf_push t q = (True, q') \<and> lf_invar q' \<and> lf_cap q' = lf_cap q
    \<and> lf_items q' = lf_items q @ [t]"
proof -
  let ?n = "unat (lf_head q - lf_tail q)"
  have n: "?n < length (lf_buffer q)"
    using assms by (simp add: lf_items_length lf_cap_def lf_invar_def)
  have shape: "ring_shape (lf_buffer q) (lf_capacity q - 1)" using assms by (simp add: lf_invar_def)
  have hd: "lf_tail q + 1 + of_nat ?n = lf_head q + 1" by simp
  have "Suc ?n < 2 ^ 64" using n assms unat_lt [of "lf_capacity q"] by (simp add: lf_invar_def)
  then have sz: "unat (lf_head q - lf_tail q + 1) = Suc ?n" by (simp add: unat_suc_small)
  have sz': "lf_head q + 1 - lf_tail q = lf_head q - lf_tail q + 1" by simp
  have "lf_head q - lf_tail q \<noteq> lf_capacity q"
    using n assms by (auto simp: lf_invar_def)
  then show ?thesis
    using ring_slice_push [OF shape n, of "lf_tail q + 1" t] n shape sz assms(1)
    unfolding hd
    by (auto simp: lf_push_def Let_def lf_invar_def lf_cap_def lf_items_def modulo_po2_def
        sz' ring_shape_def)
qed

lemma lf_pop_items:
  assumes "lf_invar q" and "lf_items q = x # xs"
  shows "\<exists>q'. lf_pop q = (Some x, q') \<and> lf_invar q' \<and> lf_cap q' = lf_cap q \<and> lf_items q' = xs"
proof -
  obtain n where n: "unat (lf_head q - lf_tail q) = Suc n"
    using assms(2) lf_items_length [of q] by (cases "unat (lf_head q - lf_tail q)") auto
  then have ne: "lf_head q - lf_tail q \<noteq> 0" by auto
  then have sz: "unat (lf_head q - lf_tail q - 1) = n" using n by (simp add: unat_minus_one)
  have sz': "lf_head q - (lf_tail q + 1) = lf_head q - lf_tail q - 1" by simp
  show ?thesis
    using assms ring_slice_pop [of "lf_buffer q" "lf_capacity q - 1" "lf_tail q + 1" n] ne
    by (auto simp: lf_pop_def Let_def lf_invar_def lf_cap_def lf_items_def modulo_po2_def n sz' sz)
qed

interpretation lock_fifo: strict_fifo lf_push lf_pop lf_items lf_cap lf_invar
proof unfold_locales
  fix q :: "'a lock_fifo" and x :: 'a and xs :: "'a list"
  assume inv: "lf_invar q"
  then show "length (lf_items q) \<le> lf_cap q"
    by (simp add: lf_items_length lf_cap_def lf_invar_def)
  show "length (lf_items q) = lf_cap q \<Longrightarrow> lf_push x q = (False, q)"
    by (simp add: lf_items_length lf_cap_def lf_push_def word_eq_unat)
  show "lf_items q = [] \<Longrightarrow> lf_pop q = (None, q)"
    using lf_items_length [of q] by (simp add: lf_pop_def unat_eq_zero)
  show "length (lf_items q) < lf_cap q \<Longrightarrow> \<exists>q'. lf_push x q = (True, q') \<and> lf_invar q'
      \<and> lf_cap q' = lf_cap q \<and> lf_items q' = lf_items q @ [x]"
    by (rule lf_push_items [OF inv])
  show "lf_items q = x # xs \<Longrightarrow> \<exists>q'. lf_pop q = (Some x, q') \<and> lf_invar q'
      \<and> lf_cap q' = lf_cap q \<and> lf_items q' = xs"
    by (rule lf_pop_items [OF inv])
qed

end
