(* ===== verification/Basic_Props.thy ===== *)
theory Basic_Props
  imports Bitset_Laws Ring_Buffer Lock_Fifo
begin

text \<open>Properties of the bitsets and the two exact ring queues.\<close>

lemma unit_wf_list: "unit_wf (T :: 'a::len itself) u \<longleftrightarrow> list_all (\<lambda>n. bit u n \<longrightarrow> n < LENGTH('a)) [0..<32]"
  by (auto simp: unit_wf_def ubits_def list_all_iff)

section \<open>Claiming bits while other threads interfere\<close>

text \<open>
  C8: Whatever other threads store into the unit between the attempts, a successful claim of a
  zero bit replaced one value of the unit, of the awaited epoch, in which the bit was zero, by
  the value that has exactly this bit more. Two claims can therefore not win the same bit.
\<close>
theorem claim_zero_exclusive:
  fixes T :: "'a::len itself"
  assumes "claim_bit_singular T ZERO READ_WRITE rot epoch eb es = (Some i, before, after)"
    and "LENGTH('a) \<le> 32" and "unit_wf T before" and "small_epoch (epoch + 1)" and "small_epoch epoch"
  shows "(before = eb \<or> Write before \<in> set es) \<and> i < LENGTH('a) \<and> get_epoch before = epoch
    \<and> i \<notin> ubits before \<and> get_epoch after = epoch \<and> ubits after = insert i (ubits before)"
proof -
  note c = claim_bit_singular_Some [OF assms(1)]
  have i: "i < LENGTH('a)" and e: "get_epoch before = epoch" and a: "after = claim_desired T ZERO i epoch before"
    using c by simp_all
  have "i \<notin> ubits before" using c ubits_raw [OF assms(2) i, of before] by simp
  then show ?thesis
    using c i e a claim_desired_unit(1) [OF assms(2) i assms(3,5) e assms(4), of ZERO] by simp
qed

theorem claim_zero_exclusive_witness:
  "(0x100000003 = (0x100000001 :: u64) \<or> Write 0x100000003 \<in> set [Spurious, Write (0x100000003 :: u64)]) \<and> (2::nat) < LENGTH(8)
    \<and> get_epoch 0x100000003 = 1
    \<and> 2 \<notin> ubits 0x100000003 \<and> get_epoch 0x100000007 = 1 \<and> ubits 0x100000007 = insert 2 (ubits 0x100000003)"
proof -
  have "claim_bit_singular TYPE(8) ZERO READ_WRITE 0 1 0x100000001 [Spurious, Write 0x100000003]
    = (Some 2, 0x100000003, 0x100000007)" by code_simp
  moreover have "unit_wf TYPE(8) 0x100000003" unfolding unit_wf_list by code_simp
  ultimately show ?thesis by (intro claim_zero_exclusive [where T = "TYPE(8)"]) (simp_all add: small_epoch_def)
qed

text \<open>
  C9: A claim returns nothing only when, in the value of the unit it saw last, the epoch is
  another one or no bit of the wanted value is left; and then it has stored nothing.
\<close>
theorem claim_fails_only_without_bits:
  fixes T :: "'a::len itself"
  assumes "claim_bit_singular T VALUE MODE rot epoch eb es = (None, before, after)"
  shows "after = before \<and> (get_epoch before \<noteq> epoch
    \<or> (\<forall>i < LENGTH('a). bit (ucast before :: 'a word) i \<longleftrightarrow> VALUE = ZERO))"
  using claim_bit_singular_None [OF assms] by (cases VALUE) auto

theorem claim_fails_only_without_bits_witness:
  "list_all (\<lambda>i. bit (ucast (0x1000000ff :: u64) :: 8 word) i) [0..<8]"
proof -
  have "claim_bit_singular TYPE(8) ZERO READ_WRITE 3 1 0x100000001 [Spurious, Write 0x1000000ff]
    = (None, 0x1000000ff, 0x1000000ff)" by code_simp
  moreover have "get_epoch 0x1000000ff = 1" by code_simp
  ultimately show ?thesis using claim_fails_only_without_bits by (fastforce simp: list_all_iff)
qed

text \<open>
  C10: Resetting a bit under interference: the unit keeps its epoch while other bits are set,
  is retired to the next epoch with the last bit, and is left alone when its epoch has moved on.
\<close>
theorem reset_retires_the_last_bit:
  assumes "set_bit_atomic False i epoch eb es = (before, after)" and "i < 32" and "small_epoch (epoch + 1)"
  shows "(before = eb \<or> Write before \<in> set es) \<and>
    (if get_epoch before \<noteq> epoch then after = before
     else if ubits before \<subseteq> {i} then after = make_unit (epoch + 1)
     else get_epoch after = epoch \<and> ubits after = ubits before - {i})"
  using set_bit_atomic_result [OF assms(1)] set_bit_test_unit(3,4) [OF assms(2) _ assms(3), of before]
  by (cases "get_epoch before = epoch"; cases "ubits before - {i} = {}") auto

theorem reset_retires_the_last_bit_witness:
  "(0x500000008 = (0x50000000c :: u64) \<or> Write 0x500000008 \<in> set [Write (0x500000008 :: u64)]) \<and>
    (if get_epoch 0x500000008 \<noteq> 5 then (0x600000000 :: u64) = 0x500000008
     else if ubits 0x500000008 \<subseteq> {3} then (0x600000000 :: u64) = make_unit (5 + 1)
     else get_epoch 0x600000000 = 5 \<and> ubits 0x600000000 = ubits 0x500000008 - {3})"
proof -
  have "set_bit_atomic False 3 5 0x50000000c [Write 0x500000008] = (0x500000008, 0x600000000)" by code_simp
  then show ?thesis by (rule reset_retires_the_last_bit) (simp_all add: small_epoch_def)
qed

section \<open>Exact queues\<close>

definition small_lock :: "nat lock_fifo" where
  "small_lock = \<lparr>lf_buffer = replicate 4 0, lf_head = 0, lf_tail = 0, lf_capacity = 4\<rparr>"

lemma small_lock_invar: "lf_invar small_lock" "lf_items small_lock = []" "lf_cap small_lock = 4"
proof -
  have "ring_shape (replicate 4 (0::nat)) 3"
    unfolding ring_shape_def by (intro exI [of _ 2]) (simp add: mask_eq_exp_minus_1)
  then show "lf_invar small_lock" by (simp add: lf_invar_def small_lock_def)
qed (simp_all add: lf_items_def small_lock_def lf_cap_def)

text \<open>
  C11: The lock-based queue is first in, first out: after pushing a list that fits its capacity
  into an empty queue, the pops return the list in order.
\<close>
theorem lock_fifo_order:
  assumes "lf_invar q" and "lf_items q = []" and "length xs \<le> lf_cap q"
  shows "fst (lock_fifo.pop_n (length xs) (lock_fifo.push_all xs q)) = map Some xs"
  by (rule lock_fifo.fifo_order [OF assms])

theorem lock_fifo_order_witness:
  "fst (lock_fifo.pop_n (length [5, 6, 7 :: nat]) (lock_fifo.push_all [5, 6, 7 :: nat] small_lock)) = map Some [5, 6, 7 :: nat]"
  by (rule lock_fifo_order [OF small_lock_invar(1,2)]) (simp add: small_lock_invar(3))

text \<open>
  C12: The ring buffer of the MultiFIFO behaves as a bounded list across the wrap-around of its
  64-bit counters: a push appends, \<^verbatim>\<open>top\<close> and \<^verbatim>\<open>pop\<close> give and drop the oldest element, and
  \<^verbatim>\<open>full\<close> and \<^verbatim>\<open>empty\<close> say when the list has \<^verbatim>\<open>capacity\<close> elements or none.
\<close>
theorem ring_buffer_refines_list:
  assumes "rb_invar b"
  shows "(rb_full b \<longleftrightarrow> length (rb_items b) = rb_capacity b) \<and> (rb_empty b \<longleftrightarrow> rb_items b = [])
    \<and> (\<not> rb_full b \<longrightarrow> rb_invar (rb_push v b) \<and> rb_items (rb_push v b) = rb_items b @ [v])
    \<and> (\<not> rb_empty b \<longrightarrow> rb_items b = rb_top b # rb_items (rb_pop b) \<and> rb_invar (rb_pop b))"
proof -
  have "length (rb_items b) \<le> rb_capacity b" using ring_buffer.bounded [OF assms] .
  then show ?thesis
    using rb_full_iff [OF assms] rb_empty_iff [of b] rb_push_items [OF assms, of v]
      rb_pop_items [OF assms] by (cases "rb_items b") auto
qed

definition small_ring :: "nat RingBuffer" where
  "small_ring = \<lparr>rb_c = [1, 2, 3, 4], rb_head = 1, rb_tail = 0xffffffffffffffff, rb_mask = 3\<rparr>"

theorem ring_buffer_refines_list_witness:
  "rb_items (rb_push 9 small_ring) = rb_items small_ring @ [9]
    \<and> rb_items small_ring = rb_top small_ring # rb_items (rb_pop small_ring)"
proof -
  have "ring_shape [1, 2, 3, 4 :: nat] 3"
    unfolding ring_shape_def by (intro exI [of _ 2]) (simp add: mask_eq_exp_minus_1)
  then have "rb_invar small_ring" by (simp add: rb_invar_def small_ring_def rb_size_def)
  moreover have "\<not> rb_full small_ring" "\<not> rb_empty small_ring" by code_simp+
  ultimately show ?thesis using ring_buffer_refines_list [of small_ring 9] by blast
qed

end
