(* ===== verification/Block_Queue.thy ===== *)
theory Block_Queue
  imports Utility Bitset_Laws Fifo_Spec
begin

text \<open>
  \<^verbatim>\<open>block_based_queue.h\<close>: the BlockFIFO. The buffer is a ring of windows, a window a row of
  blocks, a block a header word and a row of cells. Writers claim blocks of the write
  window in \<^verbatim>\<open>filled_set\<close> and mark them in \<^verbatim>\<open>touched_set\<close>, readers claim blocks of the read
  window; windows are numbered without bound and a window's number determines its place
  in the ring and its epoch.

  The operations of a handle are whole functions over the shared state, the handle and the
  choices of the run. The choices are what the source leaves open: the random block indices of
  \<^verbatim>\<open>random_bit_index\<close>, and whether a \<^verbatim>\<open>compare_exchange_weak\<close> fails spuriously. The model
  is that of operations that do not overlap in time; any number of handles may take turns.
  Loops that have no bound of their own take fuel, and \<open>Block_Queue_Laws\<close> proves the
  fuel that suffices.
\<close>

section \<open>Headers\<close>

text \<open>A header holds a 32-bit epoch, a 16-bit read index and a 16-bit write index.\<close>

definition header_epoch :: "u64 \<Rightarrow> u64" where
  "header_epoch ei = drop_bit 32 ei"

definition get_read_index :: "u64 \<Rightarrow> u64" where
  "get_read_index ei = drop_bit 16 ei AND 0xffff"

definition get_write_index :: "u64 \<Rightarrow> u64" where
  "get_write_index ei = ei AND 0xffff"

definition increment_write_index :: "u64 \<Rightarrow> u64" where
  "increment_write_index ei = ei + 1"

definition increment_read_index :: "u64 \<Rightarrow> u64" where
  "increment_read_index ei = ei + push_bit 16 1"

definition epoch_to_header :: "u64 \<Rightarrow> u64" where
  "epoch_to_header epoch = push_bit 32 epoch"

definition epoch_valid :: "u64 \<Rightarrow> u64 \<Rightarrow> bool" where
  "epoch_valid check current \<longleftrightarrow> current - check < 0xffffffff div 2"

section \<open>State\<close>

text \<open>
  A block pointer: the static dummy block, or the block with that number in the buffer
  (its address is the number times \<^verbatim>\<open>block_size\<close>). A null pointer is \<^term>\<open>None\<close>.
\<close>

datatype block_ref = Dummy_block | Block nat

record ('v, 'w) block_based_queue =
  blocks_per_window :: nat
  window_count :: nat
  window_count_mod_mask :: u64
  window_count_log2 :: nat
  cells_per_block :: nat
  block_size :: nat
  dummy_block_value :: u64
  touched_set :: "'w ne_bitset"
  filled_set :: atomic_bitset
  headers :: "u64 list"
  cells :: "'v list list"
  global_read_window :: u64
  global_write_window :: u64

record bbq_handle =
  h_read_window :: u64
  h_read_window_index :: u64
  h_write_epoch :: u64
  h_read_epoch :: u64
  h_read_block :: block_ref
  h_write_block :: block_ref

record choices =
  o_random :: "nat list"
  o_spurious :: "bool list"

definition handle_new :: bbq_handle where
  "handle_new = \<lparr>h_read_window = 0, h_read_window_index = 0, h_write_epoch = 0, h_read_epoch = 0,
     h_read_block = Dummy_block, h_write_block = Dummy_block\<rparr>"

fun get_header :: "('v, 'w) block_based_queue \<Rightarrow> block_ref \<Rightarrow> u64" where
  "get_header q Dummy_block = dummy_block_value q"
| "get_header q (Block n) = headers q ! n"

fun set_header :: "block_ref \<Rightarrow> u64 \<Rightarrow> ('v, 'w) block_based_queue \<Rightarrow> ('v, 'w) block_based_queue" where
  "set_header Dummy_block v q = q\<lparr>dummy_block_value := v\<rparr>"
| "set_header (Block n) v q = q\<lparr>headers := (headers q)[n := v]\<rparr>"

text \<open>The dummy block has no cells; its epoch keeps every access away from them.\<close>

fun get_cell :: "('v::zero, 'w) block_based_queue \<Rightarrow> block_ref \<Rightarrow> nat \<Rightarrow> 'v" where
  "get_cell q Dummy_block i = 0"
| "get_cell q (Block n) i = cells q ! n ! i"

fun set_cell :: "block_ref \<Rightarrow> nat \<Rightarrow> 'v \<Rightarrow> ('v, 'w) block_based_queue \<Rightarrow> ('v, 'w) block_based_queue" where
  "set_cell Dummy_block i v q = q"
| "set_cell (Block n) i v q = q\<lparr>cells := (cells q)[n := (cells q ! n)[i := v]]\<rparr>"

definition window_to_epoch :: "('v, 'w) block_based_queue \<Rightarrow> u64 \<Rightarrow> u64" where
  "window_to_epoch q window = drop_bit (window_count_log2 q) window"

definition window_to_index :: "('v, 'w) block_based_queue \<Rightarrow> u64 \<Rightarrow> u64" where
  "window_to_index q index = index AND window_count_mod_mask q"

definition get_block :: "('v, 'w) block_based_queue \<Rightarrow> u64 \<Rightarrow> nat \<Rightarrow> block_ref" where
  "get_block q window_index block_index = Block (unat window_index * blocks_per_window q + block_index)"

fun block_index :: "('v, 'w) block_based_queue \<Rightarrow> u64 \<Rightarrow> block_ref \<Rightarrow> nat" where
  "block_index q window_index (Block n) = n - unat window_index * blocks_per_window q"
| "block_index q window_index Dummy_block = 0"

text \<open>
  The constructor. \<open>requested\<close> is the rounded product of the thread count and the blocks
  per window and thread, \<open>line\<close> the cache line size, \<open>sizeof_T\<close> the size of a cell.
\<close>

fun init_first_window :: "'a::len itself \<Rightarrow> nat \<Rightarrow> ('v, 'a word) block_based_queue \<Rightarrow> nat
    \<Rightarrow> ('v, 'a word) block_based_queue" where
  "init_first_window T j q 0 = q"
| "init_first_window T j q (Suc n) =
     (let q1 = q\<lparr>filled_set := set_epoch_if_empty 0 0 (filled_set q)\<rparr>;
          q2 = set_header (get_block q1 0 j) (epoch_to_header 1) q1
      in init_first_window T (Suc j) q2 n)"

definition block_based_queue_new :: "'a::len itself \<Rightarrow> nat \<Rightarrow> nat \<Rightarrow> nat \<Rightarrow> nat \<Rightarrow> nat
    \<Rightarrow> ('v::zero, 'a word) block_based_queue" where
  "block_based_queue_new T line sizeof_T requested min_size cpb =
     (let bpw = bit_ceil (max LENGTH('a) requested);
          wc = max 4 (bit_ceil (min_size div bpw div cpb));
          q = \<lparr>blocks_per_window = bpw, window_count = wc, window_count_mod_mask = of_nat wc - 1,
               window_count_log2 = bit_width wc - 1, cells_per_block = cpb,
               block_size = align_cache_line_size line (8 + cpb * sizeof_T),
               dummy_block_value = epoch_to_header 0x10000000,
               touched_set = ne_bitset_new wc bpw, filled_set = atomic_bitset_new T wc bpw,
               headers = replicate (wc * bpw) 0, cells = replicate (wc * bpw) (replicate cpb 0),
               global_read_window = 0, global_write_window = 1\<rparr>
      in init_first_window T 0 q bpw)"

definition bbq_capacity :: "('v, 'w) block_based_queue \<Rightarrow> nat" where
  "bbq_capacity q = window_count q * blocks_per_window q * cells_per_block q"

text \<open>\<^verbatim>\<open>size_full\<close> and \<^verbatim>\<open>size\<close>: the sum of the fill of the blocks, on 64-bit words.\<close>

definition block_fill :: "u64 \<Rightarrow> u64" where
  "block_fill ei = get_write_index ei - get_read_index ei"

definition window_fill :: "('v, 'w) block_based_queue \<Rightarrow> u64 \<Rightarrow> u64" where
  "window_fill q i = (\<Sum>j \<leftarrow> [0..<blocks_per_window q]. block_fill (get_header q (get_block q i j)))"

definition size_full :: "('v, 'w) block_based_queue \<Rightarrow> u64" where
  "size_full q = (\<Sum>i \<leftarrow> [0..<window_count q]. window_fill q (of_nat i))"

definition bbq_size :: "('v, 'w) block_based_queue \<Rightarrow> u64" where
  "bbq_size q = (\<Sum>i \<leftarrow> [unat (global_read_window q)..<Suc (unat (global_write_window q))].
                   window_fill q (window_to_index q (of_nat i)))"

section \<open>Claiming blocks\<close>

definition random_bit_index :: "('v, 'w) block_based_queue \<Rightarrow> choices \<Rightarrow> nat \<times> choices" where
  "random_bit_index q o1 = (case o_random o1 of
       [] \<Rightarrow> (0, o1)
     | r # rs \<Rightarrow> (r mod blocks_per_window q, o1\<lparr>o_random := rs\<rparr>))"

definition weak_fails :: "choices \<Rightarrow> bool \<times> choices" where
  "weak_fails o1 = (case o_spurious o1 of
       [] \<Rightarrow> (False, o1)
     | b # bs \<Rightarrow> (b, o1\<lparr>o_spurious := bs\<rparr>))"

definition try_get_write_block :: "('v, 'a::len word) block_based_queue \<Rightarrow> u64 \<Rightarrow> nat \<Rightarrow> u64
    \<Rightarrow> block_ref option \<times> ('v, 'a word) block_based_queue" where
  "try_get_write_block q window_index starting_bit epoch =
     (let index = window_to_index q window_index;
          (free_bit, fs) = claim_bit TYPE('a) ZERO READ_WRITE (unat index) starting_bit epoch (\<lambda>_. [])
                             (filled_set q);
          q1 = q\<lparr>filled_set := fs\<rparr>
      in case free_bit of None \<Rightarrow> (None, q1)
         | Some b \<Rightarrow> (Some (get_block q1 index b),
                      q1\<lparr>touched_set := ne_set (unat index) b (touched_set q1)\<rparr>))"

definition try_get_free_read_block :: "('v, 'a::len word) block_based_queue \<Rightarrow> u64 \<Rightarrow> nat
    \<Rightarrow> block_ref option \<times> ('v, 'a word) block_based_queue" where
  "try_get_free_read_block q window_index starting_bit =
     (let index = window_to_index q window_index;
          (free_bit, ts) = ne_claim_bit ONE READ_WRITE (unat index) starting_bit (\<lambda>_. []) (touched_set q);
          q1 = q\<lparr>touched_set := ts\<rparr>
      in case free_bit of None \<Rightarrow> (None, q1) | Some b \<Rightarrow> (Some (get_block q1 index b), q1))"

definition try_get_any_read_block :: "('v, 'a::len word) block_based_queue \<Rightarrow> u64 \<Rightarrow> nat \<Rightarrow> u64
    \<Rightarrow> block_ref option \<times> ('v, 'a word) block_based_queue" where
  "try_get_any_read_block q window_index starting_bit epoch =
     (let index = window_to_index q window_index;
          (free_bit, fs) = claim_bit TYPE('a) ONE READ_ONLY (unat index) starting_bit epoch (\<lambda>_. [])
                             (filled_set q);
          q1 = q\<lparr>filled_set := fs\<rparr>
      in case free_bit of None \<Rightarrow> (None, q1) | Some b \<Rightarrow> (Some (get_block q1 index b), q1))"

text \<open>A strong compare-exchange on one of the window counters.\<close>

definition cas_read_window :: "u64 \<Rightarrow> u64 \<Rightarrow> ('v, 'w) block_based_queue \<Rightarrow> ('v, 'w) block_based_queue" where
  "cas_read_window expected desired q =
     (if global_read_window q = expected then q\<lparr>global_read_window := desired\<rparr> else q)"

definition cas_write_window :: "u64 \<Rightarrow> u64 \<Rightarrow> ('v, 'w) block_based_queue \<Rightarrow> ('v, 'w) block_based_queue" where
  "cas_write_window expected desired q =
     (if global_write_window q = expected then q\<lparr>global_write_window := desired\<rparr> else q)"

lemma try_get_write_block_frame:
  assumes "try_get_write_block q w r e = (nb, q1)"
  shows "global_write_window q1 = global_write_window q" "global_read_window q1 = global_read_window q"
    "window_count q1 = window_count q"
  using assms by (auto simp: try_get_write_block_def Let_def split: prod.splits option.splits)

text \<open>
  The loop of \<^verbatim>\<open>claim_new_block_write\<close>: every turn moves the write window one further or
  leaves, and the distance to the read window is bounded by the window count.
\<close>

function claim_new_block_write :: "('v, 'a::len word) block_based_queue \<Rightarrow> bbq_handle \<Rightarrow> choices
    \<Rightarrow> bool \<times> ('v, 'a word) block_based_queue \<times> bbq_handle \<times> choices" where
  "claim_new_block_write q h o1 =
     (let window_index = global_write_window q;
          (r, o2) = random_bit_index q o1;
          (new_block, q1) = try_get_write_block q window_index r (window_to_epoch q window_index)
      in case new_block of
           None \<Rightarrow>
             if window_index + 1 - global_read_window q1 = of_nat (window_count q1) then (False, q1, h, o2)
             else claim_new_block_write (cas_write_window window_index (window_index + 1) q1) h o2
         | Some b \<Rightarrow>
             (True, q1, h\<lparr>h_write_epoch := window_to_epoch q1 window_index, h_write_block := b\<rparr>, o2))"
  by pat_completeness auto
termination
proof (relation "measure (\<lambda>(q, h, o1). unat (of_nat (window_count q) - (global_write_window q + 1
    - global_read_window q)))", goal_cases)
  case (2 q h o1 window_index x r o2 y new_block q1)
  then have f: "global_write_window q1 = window_index" "global_read_window q1 = global_read_window q"
    "window_count q1 = window_count q"
    using try_get_write_block_frame [of q window_index r _ new_block q1] by auto
  let ?x = "of_nat (window_count q) - (window_index + 1 - global_read_window q)"
  have "?x \<noteq> 0" using 2 f by auto
  then have "unat (?x - 1) < unat ?x" by (rule measure_unat)
  moreover have "?x - 1 = of_nat (window_count q) - (window_index + 1 + 1 - global_read_window q)"
    by simp
  ultimately have "unat (of_nat (window_count q) - (window_index + 1 + 1 - global_read_window q)) < unat ?x"
    by metis
  then show ?case using 2 f by (simp add: cas_write_window_def)
qed simp

declare claim_new_block_write.simps [simp del]

text \<open>The loop of \<^verbatim>\<open>claim_new_block_read\<close>, with \<open>dont_advance\<close> as an argument.\<close>

fun claim_new_block_read :: "nat \<Rightarrow> bool \<Rightarrow> ('v, 'a::len word) block_based_queue \<Rightarrow> bbq_handle \<Rightarrow> choices
    \<Rightarrow> (bool \<times> ('v, 'a word) block_based_queue \<times> bbq_handle \<times> choices) option" where
  "claim_new_block_read 0 dont_advance q h o1 = None"
| "claim_new_block_read (Suc fuel) dont_advance q h o1 =
     (let is_ahead = (\<not> dont_advance \<and> global_read_window q + 1 = h_read_window h);
          window_index = (if is_ahead then h_read_window h else global_read_window q);
          (r, o2) = random_bit_index q o1;
          (new_block, q1) = try_get_free_read_block q window_index r
      in case new_block of
           Some b \<Rightarrow> Some (True, q1, h\<lparr>h_read_window := window_index,
                 h_read_window_index := window_to_index q1 window_index,
                 h_read_epoch := window_to_epoch q1 window_index, h_read_block := b\<rparr>, o2)
         | None \<Rightarrow>
             if is_ahead then claim_new_block_read fuel True q1 h o2
             else
               let write_window = global_write_window q1 in
               if \<not> dont_advance \<and> window_index + 1 \<noteq> write_window then
                 claim_new_block_read fuel dont_advance q1 (h\<lparr>h_read_window := window_index + 1\<rparr>) o2
               else
                 let (r', o3) = random_bit_index q1 o2;
                     (any_block, q2) = try_get_any_read_block q1 window_index r'
                                         (window_to_epoch q1 window_index)
                 in case any_block of
                      Some b \<Rightarrow> Some (True, q2, h\<lparr>h_read_window := window_index,
                            h_read_window_index := window_to_index q2 window_index,
                            h_read_epoch := window_to_epoch q2 window_index, h_read_block := b\<rparr>, o3)
                    | None \<Rightarrow>
                        if write_window = window_index + 1 then
                          let write_epoch = window_to_epoch q2 write_window;
                              write_window_index = window_to_index q2 write_window
                          in if \<not> bs_any (unat write_window_index) write_epoch (filled_set q2)
                             then Some (False, q2, h, o3)
                             else
                               let q3 = q2\<lparr>filled_set := set_epoch_if_empty (unat write_window_index)
                                                           write_epoch (filled_set q2)\<rparr>;
                                   q4 = cas_write_window write_window (write_window + 1) q3
                               in claim_new_block_read fuel dont_advance
                                    (cas_read_window window_index (window_index + 1) q4) h o3
                        else claim_new_block_read fuel dont_advance
                               (cas_read_window window_index (window_index + 1) q2) h o3)"

section \<open>Push and pop\<close>

text \<open>
  The two nested loops of \<^verbatim>\<open>push\<close> re-test the same condition and are one loop here. The
  first argument bounds the turns of the loop.
\<close>

fun push_loop :: "nat \<Rightarrow> 'v::zero \<Rightarrow> u64 \<Rightarrow> ('v, 'a::len word) block_based_queue \<Rightarrow> bbq_handle \<Rightarrow> choices
    \<Rightarrow> (bool \<times> ('v, 'a word) block_based_queue \<times> bbq_handle \<times> choices) option" where
  "push_loop 0 t ei q h o1 = None"
| "push_loop (Suc fuel) t ei q h o1 =
     (let b = h_write_block h; index = get_write_index ei;
          usable = (epoch_valid (header_epoch ei) (h_write_epoch h) \<and> index \<noteq> of_nat (cells_per_block q));
          (fails, o2) = (if usable then weak_fails o1 else (False, o1))
      in if \<not> usable \<or> fails \<or> get_cell q b (unat index) \<noteq> 0 then
           (case claim_new_block_write q h o2 of
              (False, q1, h1, o3) \<Rightarrow> Some (False, q1, h1, o3)
            | (True, q1, h1, o3) \<Rightarrow> push_loop fuel t (get_header q1 (h_write_block h1)) q1 h1 o3)
         else
           let q1 = set_cell b (unat index) t q in
           if get_header q1 b = ei then Some (True, set_header b (increment_write_index ei) q1, h, o2)
           else push_loop fuel t (get_header q1 b) (set_cell b (unat index) 0 q1) h o2)"

definition push :: "nat \<Rightarrow> 'v::zero \<Rightarrow> ('v, 'a::len word) block_based_queue \<Rightarrow> bbq_handle \<Rightarrow> choices
    \<Rightarrow> (bool \<times> ('v, 'a word) block_based_queue \<times> bbq_handle \<times> choices) option" where
  "push fuel t q h o1 = push_loop fuel t (get_header q (h_write_block h)) q h o1"

definition reset_filled :: "('v, 'a::len word) block_based_queue \<Rightarrow> bbq_handle \<Rightarrow> ('v, 'a word) block_based_queue" where
  "reset_filled q h = q\<lparr>filled_set := bs_reset TYPE('a) (unat (h_read_window_index h))
     (block_index q (h_read_window_index h) (h_read_block h)) (h_read_epoch h) [] (filled_set q)\<rparr>"

definition take_cell :: "('v::zero, 'w) block_based_queue \<Rightarrow> block_ref \<Rightarrow> nat \<Rightarrow> 'v \<times> ('v, 'w) block_based_queue" where
  "take_cell q b i = (get_cell q b i, set_cell b i 0 q)"

text \<open>
  \<^verbatim>\<open>pop_try\<close> is the first part of a turn of the loop of \<^verbatim>\<open>pop\<close>: the attempt on the current
  read block. It returns the index of the cell that was won, or \<^term>\<open>None\<close>.
\<close>

definition pop_try :: "u64 \<Rightarrow> ('v, 'a::len word) block_based_queue \<Rightarrow> bbq_handle \<Rightarrow> choices
    \<Rightarrow> nat option \<times> ('v, 'a word) block_based_queue \<times> choices" where
  "pop_try ei q h o1 =
     (let b = h_read_block h; index = get_read_index ei in
      if epoch_valid (header_epoch ei) (h_read_epoch h) then
        let (fails, o2) = weak_fails o1;
            won = (\<not> fails \<and> get_header q b = ei)
        in if index + 1 = get_write_index ei then
             (if won then
                (Some (unat index), reset_filled (set_header b (epoch_to_header (h_read_epoch h + 1)) q) h, o2)
              else (None, q, o2))
           else
             (if won then (Some (unat index), set_header b (increment_read_index ei) q, o2)
              else (None, q, o2))
      else (None, q, o1))"

text \<open>The treatment of a freshly claimed read block without elements.\<close>

definition pop_check_empty :: "u64 \<Rightarrow> ('v, 'a::len word) block_based_queue \<Rightarrow> bbq_handle
    \<Rightarrow> u64 \<times> ('v, 'a word) block_based_queue" where
  "pop_check_empty ei q h =
     (if get_write_index ei = 0 then
        if \<not> epoch_valid (header_epoch ei) (h_read_epoch h) then (ei, reset_filled q h)
        else if get_header q (h_read_block h) = ei
        then (ei, reset_filled (set_header (h_read_block h) (epoch_to_header (h_read_epoch h + 1)) q) h)
        else (get_header q (h_read_block h), q)
      else (ei, q))"

fun pop_loop :: "nat \<Rightarrow> nat \<Rightarrow> u64 \<Rightarrow> ('v::zero, 'a::len word) block_based_queue \<Rightarrow> bbq_handle \<Rightarrow> choices
    \<Rightarrow> ('v option \<times> ('v, 'a word) block_based_queue \<times> bbq_handle \<times> choices) option" where
  "pop_loop 0 claim_fuel ei q h o1 = None"
| "pop_loop (Suc fuel) claim_fuel ei q h o1 =
     (case pop_try ei q h o1 of
        (Some index, q1, o2) \<Rightarrow>
          let (ret, q2) = take_cell q1 (h_read_block h) index in Some (Some ret, q2, h, o2)
      | (None, q1, o2) \<Rightarrow>
          (case claim_new_block_read claim_fuel False q1 h o2 of
             None \<Rightarrow> None
           | Some (False, q2, h2, o3) \<Rightarrow> Some (None, q2, h2, o3)
           | Some (True, q2, h2, o3) \<Rightarrow>
               let (ei', q3) = pop_check_empty (get_header q2 (h_read_block h2)) q2 h2
               in pop_loop fuel claim_fuel ei' q3 h2 o3))"

definition pop :: "nat \<Rightarrow> nat \<Rightarrow> ('v::zero, 'a::len word) block_based_queue \<Rightarrow> bbq_handle \<Rightarrow> choices
    \<Rightarrow> ('v option \<times> ('v, 'a word) block_based_queue \<times> bbq_handle \<times> choices) option" where
  "pop fuel claim_fuel q h o1 = pop_loop fuel claim_fuel (get_header q (h_read_block h)) q h o1"

end
