(* ===== verification/Block_Queue_Inv.thy ===== *)
theory Block_Queue_Inv
  imports Block_Queue
begin

text \<open>
  The invariant of the BlockFIFO. Windows are taken by their unbounded (logical) numbers:
  of the \<open>wc\<close> windows from the read window on, those below the write window are being
  read, the write window is being filled, those above it are empty and ready for the
  epoch of their number. The invariant ties together, for every logical window, the epoch
  and the bits of the filled set, the touched set, the block headers and the cells.
\<close>

section \<open>Header words as numbers\<close>

definition he :: "u64 \<Rightarrow> nat" where "he ei = unat (header_epoch ei)"
definition hr :: "u64 \<Rightarrow> nat" where "hr ei = unat (get_read_index ei)"
definition hw :: "u64 \<Rightarrow> nat" where "hw ei = unat (get_write_index ei)"

lemma he_div: "he ei = unat ei div 2 ^ 32"
  by (simp only: he_def header_epoch_def word_to_nat)

lemma hr_div: "hr ei = unat ei div 2 ^ 16 mod 2 ^ 16"
proof -
  have "(0xffff :: u64) = mask 16" by (simp add: mask_eq_exp_minus_1)
  then show ?thesis by (simp only: hr_def get_read_index_def word_to_nat)
qed

lemma hw_mod: "hw ei = unat ei mod 2 ^ 16"
proof -
  have "(0xffff :: u64) = mask 16" by (simp add: mask_eq_exp_minus_1)
  then show ?thesis by (simp only: hw_def get_write_index_def word_to_nat)
qed

lemma header_split: "unat ei = he ei * 2 ^ 32 + hr ei * 2 ^ 16 + hw ei"
proof -
  have "unat ei div 2 ^ 16 = he ei * 2 ^ 16 + hr ei"
    using div_mult_mod_eq [of "unat ei div 2 ^ 16" "2 ^ 16"] by (simp add: he_div hr_div div_mult2_eq [symmetric])
  then show ?thesis
    using div_mult_mod_eq [of "unat ei" "2 ^ 16"] by (simp add: hw_mod)
qed

lemma header_bounds: "he ei < 2 ^ 32" "hr ei < 2 ^ 16" "hw ei < 2 ^ 16"
  using unat_lt [of ei] by (auto simp: he_div hr_div hw_mod)

lemma header_unique:
  assumes "r < 2 ^ 16" and "w < 2 ^ 16" and "unat ei = e * 2 ^ 32 + r * 2 ^ 16 + w"
  shows "he ei = e \<and> hr ei = r \<and> hw ei = w"
proof -
  have n: "unat ei = (e * 2 ^ 16 + r) * 2 ^ 16 + w" using assms by simp
  have d: "unat ei div 2 ^ 16 = e * 2 ^ 16 + r"
    unfolding n using assms(2) by (subst add.commute, subst div_mult_self1) auto
  have "hw ei = w" unfolding hw_mod n mod_mult_self3 using assms(2) by simp
  moreover have "hr ei = r" unfolding hr_div d using assms(1) by simp
  moreover have "he ei = unat ei div 2 ^ 16 div 2 ^ 16" unfolding he_div by (simp add: div_mult2_eq [symmetric])
  then have "he ei = e" unfolding d using assms(1) by (subst (asm) add.commute, subst (asm) div_mult_self1) auto
  ultimately show ?thesis by simp
qed

lemma increment_write_fields:
  assumes "hw ei < 2 ^ 16 - 1"
  shows "he (increment_write_index ei) = he ei" "hr (increment_write_index ei) = hr ei"
    "hw (increment_write_index ei) = Suc (hw ei)"
proof -
  have "Suc (unat ei) < 2 ^ LENGTH(64)"
    using header_split [of ei] header_bounds [of ei] assms by simp
  then have "unat (increment_write_index ei) = Suc (unat ei)"
    unfolding increment_write_index_def by (rule unat_suc_small)
  then have "unat (increment_write_index ei) = he ei * 2 ^ 32 + hr ei * 2 ^ 16 + Suc (hw ei)"
    using header_split [of ei] by simp
  from header_unique [OF _ _ this] header_bounds [of ei] assms
  show "he (increment_write_index ei) = he ei" "hr (increment_write_index ei) = hr ei"
    "hw (increment_write_index ei) = Suc (hw ei)" by simp_all
qed

lemma increment_read_fields:
  assumes "hr ei < 2 ^ 16 - 1"
  shows "he (increment_read_index ei) = he ei" "hr (increment_read_index ei) = Suc (hr ei)"
    "hw (increment_read_index ei) = hw ei"
proof -
  have one: "unat (push_bit 16 1 :: u64) = 2 ^ 16" by simp
  have "unat ei + unat (push_bit 16 1 :: u64) < 2 ^ LENGTH(64)"
    unfolding one using header_split [of ei] header_bounds [of ei] assms by simp
  then have "unat (increment_read_index ei) = unat ei + 2 ^ 16"
    unfolding increment_read_index_def using unat_add_small one by metis
  then have "unat (increment_read_index ei) = he ei * 2 ^ 32 + Suc (hr ei) * 2 ^ 16 + hw ei"
    using header_split [of ei] by simp
  from header_unique [OF _ _ this] header_bounds [of ei] assms
  show "he (increment_read_index ei) = he ei" "hr (increment_read_index ei) = Suc (hr ei)"
    "hw (increment_read_index ei) = hw ei" by simp_all
qed

lemma epoch_to_header_fields:
  assumes "unat e < 2 ^ 32"
  shows "he (epoch_to_header e) = unat e" "hr (epoch_to_header e) = 0" "hw (epoch_to_header e) = 0"
proof -
  have "unat (epoch_to_header e) = unat e * 2 ^ 32 mod 2 ^ 64"
    by (simp add: epoch_to_header_def push_bit_eq_mult unat_word_ariths)
  then have "unat (epoch_to_header e) = unat e * 2 ^ 32 + 0 * 2 ^ 16 + 0"
    using assms by simp
  from header_unique [OF _ _ this]
  show "he (epoch_to_header e) = unat e" "hr (epoch_to_header e) = 0" "hw (epoch_to_header e) = 0"
    by simp_all
qed

lemma header_zero [simp]: "he 0 = 0" "hr 0 = 0" "hw 0 = 0"
  by (simp_all add: he_div hr_div hw_mod)

text \<open>An epoch counts as valid when it is at most the handle's and not half the range older.\<close>

lemma epoch_valid_iff:
  assumes "unat check < 2 ^ 32"
  shows "epoch_valid check e \<longleftrightarrow> unat check \<le> unat e \<and> unat e - unat check < 0x7fffffff"
proof (cases "unat check \<le> unat e")
  case True
  then show ?thesis by (simp add: epoch_valid_def word_less_nat_alt unat_sub_if')
next
  case False
  then show ?thesis using assms
    by (simp add: epoch_valid_def word_less_nat_alt unat_sub_if')
qed

lemma header_epoch_valid:
  "epoch_valid (header_epoch ei) e \<longleftrightarrow> he ei \<le> unat e \<and> unat e - he ei < 0x7fffffff"
  using epoch_valid_iff [of "header_epoch ei" e] header_bounds(1) [of ei] by (simp add: he_def)

section \<open>Views of the state by logical window\<close>

abbreviation rwin :: "('v, 'w) block_based_queue \<Rightarrow> nat" where
  "rwin q \<equiv> unat (global_read_window q)"

abbreviation wwin :: "('v, 'w) block_based_queue \<Rightarrow> nat" where
  "wwin q \<equiv> unat (global_write_window q)"

definition ep :: "('v, 'w) block_based_queue \<Rightarrow> nat \<Rightarrow> nat" where
  "ep q L = L div window_count q"

definition units :: "('v, 'a::len word) block_based_queue \<Rightarrow> nat" where
  "units q = blocks_per_window q div LENGTH('a)"

definition unit_at :: "('v, 'w) block_based_queue \<Rightarrow> nat \<Rightarrow> nat \<Rightarrow> u64" where
  "unit_at q L k = bunit (filled_set q) (L mod window_count q) k"

definition fbit :: "('v, 'a::len word) block_based_queue \<Rightarrow> nat \<Rightarrow> nat \<Rightarrow> bool" where
  "fbit q L b \<longleftrightarrow> b mod LENGTH('a) \<in> ubits (unit_at q L (b div LENGTH('a)))"

definition tbit :: "('v, 'a::len word) block_based_queue \<Rightarrow> nat \<Rightarrow> nat \<Rightarrow> bool" where
  "tbit q L b \<longleftrightarrow> bit (ne_unit (touched_set q) (L mod window_count q) (b div LENGTH('a))) (b mod LENGTH('a))"

definition blk :: "('v, 'w) block_based_queue \<Rightarrow> nat \<Rightarrow> nat \<Rightarrow> nat" where
  "blk q L b = (L mod window_count q) * blocks_per_window q + b"

definition head_at :: "('v, 'w) block_based_queue \<Rightarrow> nat \<Rightarrow> nat \<Rightarrow> u64" where
  "head_at q L b = headers q ! blk q L b"

definition row_at :: "('v, 'w) block_based_queue \<Rightarrow> nat \<Rightarrow> nat \<Rightarrow> 'v list" where
  "row_at q L b = cells q ! blk q L b"

text \<open>The constant part of the state.\<close>

definition dims_ok :: "('v::zero, 'a::len word) block_based_queue \<Rightarrow> bool" where
  "dims_ok q \<longleftrightarrow> 4 \<le> window_count q \<and> window_count q \<le> 2 ^ 32
     \<and> 2 ^ window_count_log2 q = window_count q \<and> window_count_mod_mask q = of_nat (window_count q) - 1
     \<and> units q * LENGTH('a) = blocks_per_window q \<and> 0 < cells_per_block q \<and> cells_per_block q < 2 ^ 16
     \<and> bs_shape TYPE('a) (window_count q) (units q) (filled_set q)
     \<and> ne_shape (window_count q) (units q) (touched_set q)
     \<and> length (headers q) = window_count q * blocks_per_window q
     \<and> length (cells q) = window_count q * blocks_per_window q
     \<and> (\<forall>c \<in> set (cells q). length c = cells_per_block q)
     \<and> dummy_block_value q = epoch_to_header 0x10000000"

text \<open>
  A unit of the logical window \<open>L\<close> of epoch \<open>e\<close> while the write window is \<open>W\<close>: below the
  write window it is either in use or retired to the next epoch, in the write window it
  is open, above it open and empty.
\<close>

definition unit_ok :: "nat \<Rightarrow> nat \<Rightarrow> nat \<Rightarrow> u64 \<Rightarrow> bool" where
  "unit_ok W L e u \<longleftrightarrow> (if L < W
     then unat (get_epoch u) = e \<and> ubits u \<noteq> {} \<or> unat (get_epoch u) = Suc e \<and> ubits u = {}
     else unat (get_epoch u) = e \<and> (W < L \<longrightarrow> ubits u = {}))"

text \<open>
  A block with filled bit \<open>f\<close> and touched bit \<open>t\<close>: the cells between the two indices of the
  header hold the elements, all others zero, and only a claimed block holds elements.
\<close>

definition block_ok :: "nat \<Rightarrow> nat \<Rightarrow> nat \<Rightarrow> nat \<Rightarrow> bool \<Rightarrow> bool \<Rightarrow> u64 \<Rightarrow> 'v::zero list \<Rightarrow> bool" where
  "block_ok cpb W L e f t h cs \<longleftrightarrow>
     (hr h = 0 \<and> hw h = 0 \<or> hr h < hw h \<and> hw h \<le> cpb \<and> f)
     \<and> (\<forall>i < cpb. cs ! i \<noteq> 0 \<longleftrightarrow> hr h \<le> i \<and> i < hw h)
     \<and> he h \<le> (if f \<or> W \<le> L then e else Suc e) \<and> (t \<longrightarrow> f)"

definition window_ok :: "('v::zero, 'a::len word) block_based_queue \<Rightarrow> nat \<Rightarrow> bool" where
  "window_ok q L \<longleftrightarrow> (\<forall>k < units q. unit_ok (wwin q) L (ep q L) (unit_at q L k))
     \<and> (\<forall>b < blocks_per_window q. block_ok (cells_per_block q) (wwin q) L (ep q L)
          (fbit q L b) (tbit q L b) (head_at q L b) (row_at q L b))"

text \<open>The epochs stay in the half range in which \<^verbatim>\<open>epoch_valid\<close> can compare them.\<close>

definition room :: "nat \<Rightarrow> ('v, 'w) block_based_queue \<Rightarrow> bool" where
  "room n q \<longleftrightarrow> (wwin q + n) div window_count q + 2 < 0x7fffffff"

definition bbq_inv :: "('v::zero, 'a::len word) block_based_queue \<Rightarrow> bool" where
  "bbq_inv q \<longleftrightarrow> dims_ok q \<and> rwin q < wwin q \<and> wwin q < rwin q + window_count q \<and> room 0 q
     \<and> (\<forall>L \<in> {rwin q..<rwin q + window_count q}. window_ok q L)"

text \<open>
  A handle's block is either outdated for ever, its header being of a later epoch than the
  handle, or it is a claimed block of a window that is still in use.
\<close>

definition write_ok :: "('v, 'a::len word) block_based_queue \<Rightarrow> bbq_handle \<Rightarrow> bool" where
  "write_ok q h \<longleftrightarrow> unat (h_write_epoch h) < he (get_header q (h_write_block h))
     \<or> (\<exists>L b. rwin q \<le> L \<and> L \<le> wwin q \<and> b < blocks_per_window q \<and> h_write_block h = Block (blk q L b)
          \<and> unat (h_write_epoch h) = ep q L \<and> fbit q L b)"

definition read_at :: "('v, 'a::len word) block_based_queue \<Rightarrow> bbq_handle \<Rightarrow> nat \<Rightarrow> nat \<Rightarrow> bool" where
  "read_at q h L b \<longleftrightarrow> rwin q \<le> L \<and> L \<le> Suc (rwin q) \<and> L < wwin q \<and> b < blocks_per_window q
     \<and> h_read_block h = Block (blk q L b) \<and> unat (h_read_epoch h) = ep q L
     \<and> unat (h_read_window_index h) = L mod window_count q \<and> fbit q L b \<and> \<not> tbit q L b"

definition read_ok :: "('v, 'a::len word) block_based_queue \<Rightarrow> bbq_handle \<Rightarrow> bool" where
  "read_ok q h \<longleftrightarrow> unat (h_read_window h) < wwin q
     \<and> (unat (h_read_epoch h) < he (get_header q (h_read_block h))
        \<or> (\<exists>L b. read_at q h L b \<and> hr (head_at q L b) < hw (head_at q L b)))"

definition handle_ok :: "('v, 'a::len word) block_based_queue \<Rightarrow> bbq_handle \<Rightarrow> bool" where
  "handle_ok q h \<longleftrightarrow> write_ok q h \<and> read_ok q h"

definition bbq_content :: "('v::zero, 'w) block_based_queue \<Rightarrow> 'v multiset" where
  "bbq_content q = mset (filter (\<lambda>x. x \<noteq> 0) (concat (cells q)))"

end
