(* ===== verification/Block_Queue_Moves.thy ===== *)
theory Block_Queue_Moves
  imports Block_Queue_Inv
begin

text \<open>
  The elementary state changes of the BlockFIFO (claiming a block, taking the touched mark,
  moving a window, storing and taking an element, retiring a block), each shown to keep the
  invariant and every handle of the queue.
\<close>

section \<open>Reading a changed state\<close>

definition put_unit :: "nat \<Rightarrow> nat \<Rightarrow> u64 \<Rightarrow> ('v, 'a::len word) block_based_queue \<Rightarrow> ('v, 'a word) block_based_queue" where
  "put_unit L k x q = q\<lparr>filled_set := (filled_set q)\<lparr>bs_data :=
     (bs_data (filled_set q))[(L mod window_count q) * units q + k := x]\<rparr>\<rparr>"

definition put_touch :: "nat \<Rightarrow> nat \<Rightarrow> 'a word \<Rightarrow> ('v, 'a::len word) block_based_queue \<Rightarrow> ('v, 'a word) block_based_queue" where
  "put_touch L k x q = q\<lparr>touched_set := (touched_set q)\<lparr>ne_data :=
     (ne_data (touched_set q))[(L mod window_count q) * units q + k := x]\<rparr>\<rparr>"

definition put_head :: "nat \<Rightarrow> nat \<Rightarrow> u64 \<Rightarrow> ('v, 'w) block_based_queue \<Rightarrow> ('v, 'w) block_based_queue" where
  "put_head L b h q = q\<lparr>headers := (headers q)[blk q L b := h]\<rparr>"

definition put_cell :: "nat \<Rightarrow> nat \<Rightarrow> nat \<Rightarrow> 'v \<Rightarrow> ('v, 'w) block_based_queue \<Rightarrow> ('v, 'w) block_based_queue" where
  "put_cell L b i v q = q\<lparr>cells := (cells q)[blk q L b := (row_at q L b)[i := v]]\<rparr>"

lemmas put_defs = put_unit_def put_touch_def put_head_def put_cell_def
lemmas view_defs = units_def unit_at_def fbit_def tbit_def blk_def head_at_def row_at_def ep_def

lemma put_fields [simp]:
  "window_count (put_unit L k x q) = window_count q" "window_count (put_touch L k y q) = window_count q"
  "window_count (put_head L b h q') = window_count q'" "window_count (put_cell L b i v q') = window_count q'"
  "blocks_per_window (put_unit L k x q) = blocks_per_window q" "blocks_per_window (put_touch L k y q) = blocks_per_window q"
  "blocks_per_window (put_head L b h q') = blocks_per_window q'" "blocks_per_window (put_cell L b i v q') = blocks_per_window q'"
  "cells_per_block (put_unit L k x q) = cells_per_block q" "cells_per_block (put_touch L k y q) = cells_per_block q"
  "cells_per_block (put_head L b h q') = cells_per_block q'" "cells_per_block (put_cell L b i v q') = cells_per_block q'"
  "global_read_window (put_unit L k x q) = global_read_window q" "global_read_window (put_touch L k y q) = global_read_window q"
  "global_read_window (put_head L b h q') = global_read_window q'" "global_read_window (put_cell L b i v q') = global_read_window q'"
  "global_write_window (put_unit L k x q) = global_write_window q" "global_write_window (put_touch L k y q) = global_write_window q"
  "global_write_window (put_head L b h q') = global_write_window q'" "global_write_window (put_cell L b i v q') = global_write_window q'"
  "headers (put_unit L k x q) = headers q" "headers (put_touch L k y q) = headers q" "headers (put_cell L b i v q') = headers q'"
  "cells (put_unit L k x q) = cells q" "cells (put_touch L k y q) = cells q" "cells (put_head L b h q') = cells q'"
  "touched_set (put_unit L k x q) = touched_set q" "touched_set (put_head L b h q') = touched_set q'"
  "touched_set (put_cell L b i v q') = touched_set q'"
  "filled_set (put_touch L k y q) = filled_set q" "filled_set (put_head L b h q') = filled_set q'"
  "filled_set (put_cell L b i v q') = filled_set q'"
  "dummy_block_value (put_unit L k x q) = dummy_block_value q" "dummy_block_value (put_touch L k y q) = dummy_block_value q"
  "dummy_block_value (put_head L b h q') = dummy_block_value q'" "dummy_block_value (put_cell L b i v q') = dummy_block_value q'"
  "window_count_log2 (put_unit L k x q) = window_count_log2 q" "window_count_log2 (put_touch L k y q) = window_count_log2 q"
  "window_count_log2 (put_head L b h q') = window_count_log2 q'" "window_count_log2 (put_cell L b i v q') = window_count_log2 q'"
  "window_count_mod_mask (put_unit L k x q) = window_count_mod_mask q" "window_count_mod_mask (put_touch L k y q) = window_count_mod_mask q"
  "window_count_mod_mask (put_head L b h q') = window_count_mod_mask q'"
  "window_count_mod_mask (put_cell L b i v q') = window_count_mod_mask q'"
  by (simp_all add: put_defs)

lemma put_views [simp]:
  "unit_at (put_touch L k y q) = unit_at q" "unit_at (put_head L b h q') = unit_at q'" "unit_at (put_cell L b i v q') = unit_at q'"
  "head_at (put_unit L k x q) = head_at q" "head_at (put_touch L k y q) = head_at q" "head_at (put_cell L b i v q') = head_at q'"
  "row_at (put_unit L k x q) = row_at q" "row_at (put_touch L k y q) = row_at q" "row_at (put_head L b h q') = row_at q'"
  "blk (put_unit L k x q) = blk q" "blk (put_touch L k y q) = blk q" "blk (put_head L b h q') = blk q'" "blk (put_cell L b i v q') = blk q'"
  "ep (put_unit L k x q) = ep q" "ep (put_touch L k y q) = ep q" "ep (put_head L b h q') = ep q'" "ep (put_cell L b i v q') = ep q'"
  by (simp_all add: view_defs put_defs fun_eq_iff)

lemma put_bits [simp]:
  "fbit (put_touch L k y q) = fbit q" "fbit (put_head L b h q) = fbit q" "fbit (put_cell L b i v q) = fbit q"
  "tbit (put_unit L k x q) = tbit q" "tbit (put_head L b h q) = tbit q" "tbit (put_cell L b i v q) = tbit q"
  "units (put_unit L k x q) = units q" "units (put_touch L k y q) = units q"
  "units (put_head L b h q) = units q" "units (put_cell L b i v q) = units q"
  by (simp_all add: view_defs put_defs fun_eq_iff)

lemma dims_simps:
  assumes "dims_ok (q :: ('v::zero, 'a::len word) block_based_queue)"
  shows "0 < window_count q" "blocks_per_window q = units q * LENGTH('a)"
    "length (headers q) = window_count q * blocks_per_window q"
    "length (cells q) = window_count q * blocks_per_window q"
    "bs_shape TYPE('a) (window_count q) (units q) (filled_set q)"
    "ne_shape (window_count q) (units q) (touched_set q)"
    "0 < cells_per_block q" "cells_per_block q < 2 ^ 16" "LENGTH('a) \<le> 32"
    "dummy_block_value q = epoch_to_header 0x10000000"
  using assms unfolding dims_ok_def bs_shape_def by auto

lemma block_position:
  assumes "dims_ok (q :: ('v::zero, 'a::len word) block_based_queue)" and "b < blocks_per_window q"
  shows "b div LENGTH('a) < units q" "b mod LENGTH('a) < LENGTH('a)" "blk q L b < window_count q * blocks_per_window q"
proof -
  show "b div LENGTH('a) < units q"
    using assms dims_simps(2) [OF assms(1)] by (simp add: less_mult_imp_div_less)
  show "blk q L b < window_count q * blocks_per_window q"
    unfolding blk_def using window_index_less [OF _ assms(2)] dims_simps(1) [OF assms(1)] by simp
qed simp

lemma block_of_unit:
  assumes "dims_ok (q :: ('v::zero, 'a::len word) block_based_queue)" and "k < units q" and "m < LENGTH('a)"
  shows "m + k * LENGTH('a) < blocks_per_window q" "(m + k * LENGTH('a)) div LENGTH('a) = k"
    "(m + k * LENGTH('a)) mod LENGTH('a) = m"
  using window_index_less [OF assms(2) assms(3)] dims_simps(2) [OF assms(1)] assms(3)
  by (simp_all add: add.commute)

lemma blk_eq_iff:
  assumes "b < blocks_per_window q" and "c < blocks_per_window q"
  shows "blk q L b = blk q M c \<longleftrightarrow> L mod window_count q = M mod window_count q \<and> b = c"
  unfolding blk_def by (rule window_index_eq) (use assms in simp_all)

lemma unit_at_put:
  assumes "dims_ok q" and "k < units q" and "j < units q"
  shows "unit_at (put_unit L k x q) M j =
    (if M mod window_count q = L mod window_count q \<and> j = k then x else unit_at q M j)"
  unfolding unit_at_def put_unit_def using assms dims_simps(1,5) [OF assms(1)] by (simp add: bunit_update)

lemma fbit_put:
  fixes q :: "('v::zero, 'a::len word) block_based_queue"
  assumes "dims_ok q" and "k < units q" and "b < blocks_per_window q"
  shows "fbit (put_unit L k x q) M b =
    (if M mod window_count q = L mod window_count q \<and> b div LENGTH('a) = k then b mod LENGTH('a) \<in> ubits x
     else fbit q M b)"
  unfolding fbit_def using unit_at_put [OF assms(1,2) block_position(1) [OF assms(1,3)]] by simp

lemma tbit_put:
  fixes q :: "('v::zero, 'a::len word) block_based_queue"
  assumes "dims_ok q" and "k < units q" and "b < blocks_per_window q"
  shows "tbit (put_touch L k x q) M b =
    (if M mod window_count q = L mod window_count q \<and> b div LENGTH('a) = k then bit x (b mod LENGTH('a))
     else tbit q M b)"
  unfolding tbit_def put_touch_def
  using assms dims_simps(1,6) [OF assms(1)] block_position [OF assms(1,3)] by (simp add: ne_unit_update)

lemma head_at_put:
  assumes "dims_ok q" and "b < blocks_per_window q" and "c < blocks_per_window q"
  shows "head_at (put_head L b h q) M c =
    (if M mod window_count q = L mod window_count q \<and> c = b then h else head_at q M c)"
  using assms block_position(3) [OF assms(1,2), of L] dims_simps(3) [OF assms(1)] blk_eq_iff [of b q c L M]
  by (auto simp: head_at_def put_head_def nth_list_update blk_def)

lemma row_at_put:
  assumes "dims_ok q" and "b < blocks_per_window q" and "c < blocks_per_window q"
  shows "row_at (put_cell L b i v q) M c =
    (if M mod window_count q = L mod window_count q \<and> c = b then (row_at q L b)[i := v] else row_at q M c)"
  using assms block_position(3) [OF assms(1,2), of L] dims_simps(4) [OF assms(1)] blk_eq_iff [of b q c L M]
  by (auto simp: row_at_def put_cell_def nth_list_update blk_def)

lemma row_length:
  assumes "dims_ok q" and "b < blocks_per_window q"
  shows "length (row_at q L b) = cells_per_block q"
  using assms block_position(3) [OF assms, of L] dims_simps(4) [OF assms(1)] nth_mem [of "blk q L b" "cells q"]
  unfolding row_at_def dims_ok_def by simp

lemma dims_put_unit:
  assumes "dims_ok (q :: ('v::zero, 'a::len word) block_based_queue)" and "unit_wf TYPE('a) x"
  shows "dims_ok (put_unit L k x q)"
  using assms bs_shape_update [OF dims_simps(5) [OF assms(1)] assms(2)]
  unfolding dims_ok_def put_unit_def by (simp add: units_def)

lemma dims_put_other:
  assumes "dims_ok (q :: ('v::zero, 'a::len word) block_based_queue)"
  shows "dims_ok (put_touch L k y q)" "dims_ok (put_head L b h q)"
  using assms unfolding dims_ok_def put_touch_def put_head_def by (simp_all add: units_def ne_shape_def)

lemma dims_put_cell:
  assumes "dims_ok (q :: ('v::zero, 'a::len word) block_based_queue)" and "b < blocks_per_window q"
  shows "dims_ok (put_cell L b i v q)"
proof -
  have "length c = cells_per_block q" if "c \<in> set ((cells q)[blk q L b := (row_at q L b)[i := v]])" for c
    using set_update_subset_insert [of "cells q" "blk q L b" "(row_at q L b)[i := v]"] that
      row_length [OF assms, of L] assms(1) unfolding dims_ok_def by auto
  then show ?thesis using assms unfolding dims_ok_def put_cell_def by (simp add: units_def)
qed

text \<open>Two logical windows of the ring that share a place are equal.\<close>

lemma same_window:
  assumes "(r::nat) \<le> L" "L < r + n" "r \<le> M" "M < r + n" "L mod n = M mod n"
  shows "L = M"
proof (rule ccontr)
  assume "L \<noteq> M"
  then consider "L < M" | "M < L" by linarith
  then show False
  proof cases
    case 1
    then have "n dvd M - L" using assms(5) by (metis mod_eq_dvd_iff_nat less_imp_le)
    then show False using assms 1 by (auto dest: dvd_imp_le)
  next
    case 2
    then have "n dvd L - M" using assms(5) by (metis mod_eq_dvd_iff_nat less_imp_le)
    then show False using assms 2 by (auto dest: dvd_imp_le)
  qed
qed

section \<open>Carrying the invariant and the handles over a change\<close>

definition same_dims :: "('v, 'w) block_based_queue \<Rightarrow> ('v, 'w) block_based_queue \<Rightarrow> bool" where
  "same_dims q q' \<longleftrightarrow> window_count q' = window_count q \<and> blocks_per_window q' = blocks_per_window q
     \<and> cells_per_block q' = cells_per_block q \<and> dummy_block_value q' = dummy_block_value q"

lemma same_dims_views:
  assumes "same_dims q q'"
  shows "ep q' = ep q" "blk q' = blk q" "window_count q' = window_count q"
    "blocks_per_window q' = blocks_per_window q" "cells_per_block q' = cells_per_block q"
    "dummy_block_value q' = dummy_block_value q"
  using assms by (auto simp: same_dims_def view_defs fun_eq_iff)

lemma same_dims_units:
  "same_dims q q' \<Longrightarrow> units (q' :: ('v, 'a::len word) block_based_queue) = units q"
  by (simp add: same_dims_def units_def)

definition window_same :: "('v, 'a::len word) block_based_queue \<Rightarrow> ('v, 'a word) block_based_queue \<Rightarrow> nat \<Rightarrow> bool" where
  "window_same q q' L \<longleftrightarrow> (\<forall>k < units q. unit_at q' L k = unit_at q L k)
     \<and> (\<forall>b < blocks_per_window q. tbit q' L b = tbit q L b \<and> head_at q' L b = head_at q L b
          \<and> row_at q' L b = row_at q L b)"

lemma window_same_fbit:
  assumes "dims_ok q" and "window_same q q' L" and "b < blocks_per_window q"
  shows "fbit q' L b = fbit q L b"
  using assms block_position(1) [OF assms(1,3)] by (simp add: window_same_def fbit_def)

lemma window_ok_same:
  assumes "dims_ok q" and "same_dims q q'" and "window_same q q' L"
    and "wwin q' = wwin q \<or> (wwin q' = Suc (wwin q) \<and> (L < wwin q \<or> Suc (wwin q) < L))" and "window_ok q L"
  shows "window_ok q' L"
proof -
  have "unit_ok (wwin q') L (ep q' L) (unit_at q' L k)" if "k < units q'" for k
  proof -
    have "k < units q" using that same_dims_units [OF assms(2)] by simp
    then have "unit_ok (wwin q) L (ep q L) (unit_at q L k)" "unit_at q' L k = unit_at q L k"
      using assms(3,5) by (simp_all add: window_ok_def window_same_def)
    then show ?thesis using assms(4) unfolding same_dims_views(1) [OF assms(2)] unit_ok_def by auto
  qed
  moreover have "block_ok (cells_per_block q') (wwin q') L (ep q' L)
      (fbit q' L b) (tbit q' L b) (head_at q' L b) (row_at q' L b)" if "b < blocks_per_window q'" for b
  proof -
    have b: "b < blocks_per_window q" using that assms(2) by (simp add: same_dims_def)
    have "wwin q' \<le> L \<longleftrightarrow> wwin q \<le> L" using assms(4) by linarith
    moreover have "block_ok (cells_per_block q) (wwin q) L (ep q L)
        (fbit q L b) (tbit q L b) (head_at q L b) (row_at q L b)"
      using assms(5) b by (simp add: window_ok_def)
    moreover have "fbit q' L b = fbit q L b" using window_same_fbit [OF assms(1,3) b] .
    moreover have "tbit q' L b = tbit q L b" "head_at q' L b = head_at q L b" "row_at q' L b = row_at q L b"
      using assms(3) b by (simp_all add: window_same_def)
    ultimately show ?thesis
      by (simp add: same_dims_views [OF assms(2)] block_ok_def cong: if_cong)
  qed
  ultimately show ?thesis by (simp add: window_ok_def)
qed

lemma bbq_inv_change:
  assumes inv: "bbq_inv q" and dims: "dims_ok q'" "same_dims q q'"
    and win: "global_read_window q' = global_read_window q" "global_write_window q' = global_write_window q"
    and others: "\<And>L. L mod window_count q \<noteq> L0 mod window_count q \<Longrightarrow> window_same q q' L"
    and L0: "window_ok q' L0" "rwin q \<le> L0" "L0 < rwin q + window_count q"
  shows "bbq_inv q'"
proof -
  have "window_ok q' L" if "L \<in> {rwin q..<rwin q + window_count q}" for L
  proof (cases "L = L0")
    case False
    then have "L mod window_count q \<noteq> L0 mod window_count q" using that L0 same_window [of "rwin q" L] by auto
    then show ?thesis
      using window_ok_same [OF _ dims(2) others] inv that win by (auto simp: bbq_inv_def)
  qed (use L0 in simp)
  then show ?thesis
    using inv dims win same_dims_views(3) [OF dims(2)] by (simp add: bbq_inv_def room_def)
qed

text \<open>
  What any change of the queue may do to the block of some handle: nothing, or retire it.
\<close>

definition evolves :: "('v, 'a::len word) block_based_queue \<Rightarrow> ('v, 'a word) block_based_queue \<Rightarrow> bool" where
  "evolves q q' \<longleftrightarrow> same_dims q q' \<and> rwin q \<le> rwin q' \<and> wwin q \<le> wwin q'
     \<and> (\<forall>n. he (headers q ! n) \<le> he (headers q' ! n))
     \<and> (\<forall>L b. rwin q \<le> L \<and> L \<le> wwin q \<and> b < blocks_per_window q \<and> fbit q L b \<longrightarrow>
          ep q L < he (head_at q' L b)
          \<or> rwin q' \<le> L \<and> fbit q' L b
            \<and> (\<not> tbit q L b \<and> hr (head_at q L b) < hw (head_at q L b) \<longrightarrow>
                 \<not> tbit q' L b \<and> hr (head_at q' L b) < hw (head_at q' L b)))"

lemma evolves_refl [simp]: "evolves q q"
  by (simp add: evolves_def same_dims_def)

lemma evolves_header:
  assumes "evolves q q'"
  shows "he (get_header q b) \<le> he (get_header q' b)"
  using assms by (cases b) (auto simp: evolves_def same_dims_def)

lemma evolves_write_ok:
  assumes ev: "evolves q q'" and "write_ok q h"
  shows "write_ok q' h"
  using assms(2) unfolding write_ok_def
proof
  assume "unat (h_write_epoch h) < he (get_header q (h_write_block h))"
  then show "unat (h_write_epoch h) < he (get_header q' (h_write_block h)) \<or>
    (\<exists>L b. rwin q' \<le> L \<and> L \<le> wwin q' \<and> b < blocks_per_window q' \<and> h_write_block h = Block (blk q' L b)
       \<and> unat (h_write_epoch h) = ep q' L \<and> fbit q' L b)"
    using evolves_header [OF ev, of "h_write_block h"] by linarith
next
  assume "\<exists>L b. rwin q \<le> L \<and> L \<le> wwin q \<and> b < blocks_per_window q \<and> h_write_block h = Block (blk q L b)
    \<and> unat (h_write_epoch h) = ep q L \<and> fbit q L b"
  then obtain L b where L: "rwin q \<le> L" "L \<le> wwin q" "b < blocks_per_window q"
    "h_write_block h = Block (blk q L b)" "unat (h_write_epoch h) = ep q L" "fbit q L b" by blast
  have sd: "same_dims q q'" and W: "wwin q \<le> wwin q'" using ev by (auto simp: evolves_def)
  have "ep q L < he (head_at q' L b) \<or> rwin q' \<le> L \<and> fbit q' L b"
    using ev L unfolding evolves_def by blast
  then show "unat (h_write_epoch h) < he (get_header q' (h_write_block h)) \<or>
    (\<exists>L b. rwin q' \<le> L \<and> L \<le> wwin q' \<and> b < blocks_per_window q' \<and> h_write_block h = Block (blk q' L b)
       \<and> unat (h_write_epoch h) = ep q' L \<and> fbit q' L b)"
  proof
    assume "ep q L < he (head_at q' L b)"
    then show ?thesis using L same_dims_views [OF sd] by (simp add: head_at_def)
  next
    assume "rwin q' \<le> L \<and> fbit q' L b"
    then show ?thesis using L same_dims_views [OF sd] W
      by (intro disjI2 exI [of _ L] exI [of _ b]) simp
  qed
qed

lemma evolves_read_ok:
  assumes ev: "evolves q q'" and "read_ok q h"
  shows "read_ok q' h"
proof -
  have sd: "same_dims q q'" and W: "wwin q \<le> wwin q'" and R: "rwin q \<le> rwin q'"
    using ev by (auto simp: evolves_def)
  have w: "unat (h_read_window h) < wwin q'" using assms(2) W by (simp add: read_ok_def)
  consider "unat (h_read_epoch h) < he (get_header q (h_read_block h))"
    | L b where "read_at q h L b" "hr (head_at q L b) < hw (head_at q L b)"
    using assms(2) unfolding read_ok_def by blast
  then show ?thesis
  proof cases
    case 1
    then show ?thesis using w evolves_header [OF ev, of "h_read_block h"] by (simp add: read_ok_def)
  next
    case 2
    then have "ep q L < he (head_at q' L b) \<or> rwin q' \<le> L \<and> fbit q' L b
      \<and> \<not> tbit q' L b \<and> hr (head_at q' L b) < hw (head_at q' L b)"
      using ev unfolding evolves_def read_at_def by (meson less_imp_le)
    then show ?thesis
    proof
      assume "ep q L < he (head_at q' L b)"
      then show ?thesis using 2(1) w same_dims_views [OF sd] by (simp add: read_ok_def read_at_def head_at_def)
    next
      assume "rwin q' \<le> L \<and> fbit q' L b \<and> \<not> tbit q' L b \<and> hr (head_at q' L b) < hw (head_at q' L b)"
      then have "read_at q' h L b \<and> hr (head_at q' L b) < hw (head_at q' L b)"
        using 2(1) same_dims_views [OF sd] W R by (auto simp: read_at_def)
      then show ?thesis using w unfolding read_ok_def by blast
    qed
  qed
qed

lemma evolves_handle_ok: "evolves q q' \<Longrightarrow> handle_ok q h \<Longrightarrow> handle_ok q' h"
  by (simp add: handle_ok_def evolves_write_ok evolves_read_ok)

text \<open>A change that all handles survive.\<close>

definition keeps :: "('v, 'a::len word) block_based_queue \<Rightarrow> ('v, 'a word) block_based_queue \<Rightarrow> bool" where
  "keeps q q' \<longleftrightarrow> same_dims q q' \<and> (\<forall>h. handle_ok q h \<longrightarrow> handle_ok q' h)"

lemma keeps_refl [simp]: "keeps q q" by (simp add: keeps_def same_dims_def)
lemma keeps_trans [trans]: "keeps q r \<Longrightarrow> keeps r s \<Longrightarrow> keeps q s" by (simp add: keeps_def same_dims_def)
lemma evolves_keeps: "evolves q q' \<Longrightarrow> keeps q q'"
  using evolves_handle_ok [of q q'] by (simp add: keeps_def evolves_def)
lemma keeps_dims: "keeps q q' \<Longrightarrow> same_dims q q'" by (simp add: keeps_def)
lemma keeps_handle: "keeps q q' \<Longrightarrow> handle_ok q h \<Longrightarrow> handle_ok q' h" by (simp add: keeps_def)

section \<open>Claiming a block for writing\<close>

lemma inv_dims: "bbq_inv q \<Longrightarrow> dims_ok q"
  by (simp add: bbq_inv_def)

lemma inv_windows: "bbq_inv q \<Longrightarrow> rwin q < wwin q" "bbq_inv q \<Longrightarrow> wwin q < rwin q + window_count q"
  by (simp_all add: bbq_inv_def)

lemma inv_window: "bbq_inv q \<Longrightarrow> rwin q \<le> L \<Longrightarrow> L < rwin q + window_count q \<Longrightarrow> window_ok q L"
  by (simp add: bbq_inv_def)

lemma inv_unit:
  "bbq_inv q \<Longrightarrow> rwin q \<le> L \<Longrightarrow> L < rwin q + window_count q \<Longrightarrow> k < units q \<Longrightarrow>
    unit_ok (wwin q) L (ep q L) (unit_at q L k)"
  using inv_window [of q L] by (simp add: window_ok_def)

lemma inv_block:
  "bbq_inv q \<Longrightarrow> rwin q \<le> L \<Longrightarrow> L < rwin q + window_count q \<Longrightarrow> b < blocks_per_window q \<Longrightarrow>
    block_ok (cells_per_block q) (wwin q) L (ep q L) (fbit q L b) (tbit q L b) (head_at q L b) (row_at q L b)"
  using inv_window [of q L] by (simp add: window_ok_def)

lemma block_ok_claim:
  "block_ok cpb W L e f t h cs \<Longrightarrow> W \<le> L \<Longrightarrow> block_ok cpb W L e (f \<or> x) (t \<or> x) h cs"
  by (auto simp: block_ok_def)

lemma claim_move:
  fixes q :: "('v::zero, 'a::len word) block_based_queue"
  assumes inv: "bbq_inv q" and k: "k < units q" and m: "m < LENGTH('a)" and free: "m \<notin> ubits (unit_at q (wwin q) k)"
    and x: "unit_wf TYPE('a) x" "get_epoch x = get_epoch (unit_at q (wwin q) k)"
      "ubits x = insert m (ubits (unit_at q (wwin q) k))"
    and y: "\<forall>j < LENGTH('a). bit y j \<longleftrightarrow> j = m \<or> bit (ne_unit (touched_set q) (wwin q mod window_count q) k) j"
    and q': "q' = put_touch (wwin q) k y (put_unit (wwin q) k x q)"
  shows "bbq_inv q'" "evolves q q'" "fbit q' (wwin q) (m + k * LENGTH('a))"
proof -
  let ?W = "wwin q"
  have d: "dims_ok q" using inv by (rule inv_dims)
  have d1: "dims_ok (put_unit ?W k x q)" using dims_put_unit [OF d x(1)] .
  have d': "dims_ok q'" unfolding q' using dims_put_other(1) [OF d1] .
  have W: "rwin q \<le> ?W" "?W < rwin q + window_count q" using inv_windows [OF inv] by simp_all
  note pos = block_position [OF d]
  have unit: "unit_at q' L j = (if L mod window_count q = ?W mod window_count q \<and> j = k then x else unit_at q L j)"
    if "j < units q" for L j unfolding q' using unit_at_put [OF d k that] by simp
  have at: "b = m + k * LENGTH('a) \<longleftrightarrow> b div LENGTH('a) = k \<and> b mod LENGTH('a) = m" for b
    using block_of_unit(2,3) [OF d k m] div_mult_mod_eq [of b "LENGTH('a)"] by auto
  have f: "fbit q' L b \<longleftrightarrow> fbit q L b \<or> (L mod window_count q = ?W mod window_count q \<and> b = m + k * LENGTH('a))"
    if "b < blocks_per_window q" for L b
  proof (cases "L mod window_count q = ?W mod window_count q \<and> b div LENGTH('a) = k")
    case True
    then have "unit_at q L k = unit_at q ?W k" by (simp add: unit_at_def)
    then show ?thesis
      unfolding q' put_bits(1) fbit_put [OF d k that] at using True x(3) by (auto simp: fbit_def)
  next
    case False
    then show ?thesis unfolding q' put_bits(1) fbit_put [OF d k that] at by auto
  qed
  have t: "tbit q' L b \<longleftrightarrow> tbit q L b \<or> (L mod window_count q = ?W mod window_count q \<and> b = m + k * LENGTH('a))"
    if "b < blocks_per_window q" for L b
  proof -
    have "tbit q' L b = (if L mod window_count q = ?W mod window_count q \<and> b div LENGTH('a) = k
        then bit y (b mod LENGTH('a)) else tbit q L b)"
      unfolding q' using tbit_put [OF d1, of k b ?W y L] that k by simp
    then show ?thesis unfolding at using y pos(2) [OF that] by (auto simp: tbit_def)
  qed
  have sd: "same_dims q q'" unfolding q' same_dims_def by simp
  have un: "units q' = units q" using same_dims_units [OF sd] .
  have same: "window_same q q' L" if "L mod window_count q \<noteq> ?W mod window_count q" for L
    unfolding window_same_def using that unit t by (simp add: q')
  have ok: "window_ok q' ?W"
  proof -
    have "unit_ok ?W ?W (ep q ?W) (unit_at q' ?W j)" if "j < units q" for j
      using inv_unit [OF inv W that] inv_unit [OF inv W k] unit [OF that] x(2) by (simp add: unit_ok_def)
    moreover have "block_ok (cells_per_block q) ?W ?W (ep q ?W) (fbit q' ?W b) (tbit q' ?W b)
        (head_at q ?W b) (row_at q ?W b)" if "b < blocks_per_window q" for b
      using block_ok_claim [OF inv_block [OF inv W that], of "b = m + k * LENGTH('a)"] f [OF that] t [OF that]
      by simp
    ultimately show ?thesis unfolding window_ok_def un using same_dims_views [OF sd] by (simp add: q')
  qed
  show "bbq_inv q'"
    by (rule bbq_inv_change [OF inv d' sd _ _ same ok W]) (simp_all add: q')
  show "evolves q q'"
    unfolding evolves_def
  proof (intro conjI allI impI)
    fix L b assume L: "rwin q \<le> L \<and> L \<le> ?W \<and> b < blocks_per_window q \<and> fbit q L b"
    have "\<not> fbit q ?W (m + k * LENGTH('a))" using free block_of_unit [OF d k m] by (simp add: fbit_def)
    then have "\<not> (L mod window_count q = ?W mod window_count q \<and> b = m + k * LENGTH('a))"
      using same_window [of "rwin q" L "window_count q" ?W] L W by auto
    then show "ep q L < he (head_at q' L b) \<or> rwin q' \<le> L \<and> fbit q' L b \<and>
        (\<not> tbit q L b \<and> hr (head_at q L b) < hw (head_at q L b) \<longrightarrow>
         \<not> tbit q' L b \<and> hr (head_at q' L b) < hw (head_at q' L b))"
      using f [of b L] t [of b L] L by (simp add: q')
  qed (use sd in \<open>simp_all add: q'\<close>)
  show "fbit q' ?W (m + k * LENGTH('a))"
    using f block_of_unit(1) [OF d k m] by simp
qed

section \<open>Taking the touched mark\<close>

lemma untouch_move:
  fixes q :: "('v::zero, 'a::len word) block_based_queue"
  assumes inv: "bbq_inv q" and k: "k < units q" and m: "m < LENGTH('a)" and L: "rwin q \<le> L" "L < wwin q"
    and y: "\<forall>j < LENGTH('a). bit y j \<longleftrightarrow> j \<noteq> m \<and> bit (ne_unit (touched_set q) (L mod window_count q) k) j"
    and q': "q' = put_touch L k y q"
  shows "bbq_inv q'" "evolves q q'" "\<not> tbit q' L (m + k * LENGTH('a))"
proof -
  have d: "dims_ok q" using inv by (rule inv_dims)
  have d': "dims_ok q'" unfolding q' using dims_put_other(1) [OF d] .
  have L': "L < rwin q + window_count q" using L inv_windows [OF inv] by simp
  have at: "b = m + k * LENGTH('a) \<longleftrightarrow> b div LENGTH('a) = k \<and> b mod LENGTH('a) = m" for b
    using block_of_unit(2,3) [OF d k m] div_mult_mod_eq [of b "LENGTH('a)"] by auto
  have t: "tbit q' M b \<longleftrightarrow> tbit q M b \<and> \<not> (M mod window_count q = L mod window_count q \<and> b = m + k * LENGTH('a))"
    if "b < blocks_per_window q" for M b
    unfolding q' tbit_put [OF d k that] at using y block_position(2) [OF d that] by (auto simp: tbit_def)
  have sd: "same_dims q q'" unfolding q' same_dims_def by simp
  have same: "window_same q q' M" if "M mod window_count q \<noteq> L mod window_count q" for M
    unfolding window_same_def using that t by (simp add: q')
  have "block_ok (cells_per_block q) (wwin q) L (ep q L) (fbit q L b) (tbit q' L b)
      (head_at q L b) (row_at q L b)" if "b < blocks_per_window q" for b
    using inv_block [OF inv L(1) L' that] t [OF that] by (auto simp: block_ok_def)
  then have ok: "window_ok q' L"
    using inv_window [OF inv L(1) L'] same_dims_units [OF sd] by (simp add: window_ok_def q')
  show "bbq_inv q'"
    by (rule bbq_inv_change [OF inv d' sd _ _ same ok L(1) L']) (simp_all add: q')
  show "evolves q q'"
    unfolding evolves_def using sd t by (simp add: q')
  show "\<not> tbit q' L (m + k * LENGTH('a))"
    using t block_of_unit(1) [OF d k m] by simp
qed

section \<open>Moving the windows\<close>

lemma ep_bound:
  assumes "bbq_inv q" and "L < rwin q + window_count q"
  shows "ep q L \<le> Suc (wwin q div window_count q)" "ep q L + 1 < 0x7fffffff"
proof -
  have wc: "0 < window_count q" using dims_simps(1) [OF inv_dims [OF assms(1)]] .
  have "ep q L \<le> (wwin q + window_count q) div window_count q"
    unfolding ep_def using assms inv_windows [OF assms(1)] by (intro div_le_mono) simp
  then show a: "ep q L \<le> Suc (wwin q div window_count q)" using wc by simp
  show "ep q L + 1 < 0x7fffffff" using a assms(1) by (simp add: bbq_inv_def room_def)
qed

lemma wwin_bound:
  assumes "dims_ok q" and "room n q"
  shows "wwin q + n < 2 ^ 63"
proof -
  have wc: "0 < window_count q" "window_count q \<le> 2 ^ 32" using assms(1) by (auto simp: dims_ok_def)
  have "(wwin q + n) div window_count q < 0x7fffffff" using assms(2) by (simp add: room_def)
  then have "wwin q + n < 0x7fffffff * window_count q" using wc(1) by (simp add: div_less_iff_less_mult)
  also have "\<dots> \<le> 0x7fffffff * 2 ^ 32" using wc(2) by simp
  finally show ?thesis by simp
qed

lemma window_views [simp]:
  "unit_at (q\<lparr>global_write_window := w\<rparr>) = unit_at q" "head_at (q\<lparr>global_write_window := w\<rparr>) = head_at q"
  "row_at (q\<lparr>global_write_window := w\<rparr>) = row_at q" "ep (q\<lparr>global_write_window := w\<rparr>) = ep q"
  "blk (q\<lparr>global_write_window := w\<rparr>) = blk q"
  "unit_at (q\<lparr>global_read_window := w\<rparr>) = unit_at q" "head_at (q\<lparr>global_read_window := w\<rparr>) = head_at q"
  "row_at (q\<lparr>global_read_window := w\<rparr>) = row_at q" "ep (q\<lparr>global_read_window := w\<rparr>) = ep q"
  "blk (q\<lparr>global_read_window := w\<rparr>) = blk q"
  "head_at (q\<lparr>filled_set := fs\<rparr>) = head_at q" "row_at (q\<lparr>filled_set := fs\<rparr>) = row_at q"
  "ep (q\<lparr>filled_set := fs\<rparr>) = ep q" "blk (q\<lparr>filled_set := fs\<rparr>) = blk q"
  by (simp_all add: view_defs fun_eq_iff)

lemma window_bits [simp]:
  "fbit (q\<lparr>global_write_window := w\<rparr>) = fbit q" "tbit (q\<lparr>global_write_window := w\<rparr>) = tbit q"
  "units (q\<lparr>global_write_window := w\<rparr>) = units q"
  "fbit (q\<lparr>global_read_window := w\<rparr>) = fbit q" "tbit (q\<lparr>global_read_window := w\<rparr>) = tbit q"
  "units (q\<lparr>global_read_window := w\<rparr>) = units q"
  "tbit (q\<lparr>filled_set := fs\<rparr>) = tbit q" "units (q\<lparr>filled_set := fs\<rparr>) = units q"
  "dims_ok (q\<lparr>global_write_window := w\<rparr>) = dims_ok q" "dims_ok (q\<lparr>global_read_window := w\<rparr>) = dims_ok q"
  for q :: "('v::zero, 'a::len word) block_based_queue"
  by (simp_all add: view_defs fun_eq_iff dims_ok_def)

lemma advance_write_move:
  fixes q :: "('v::zero, 'a::len word) block_based_queue"
  assumes inv: "bbq_inv q" and room: "room 1 q" and full: "Suc (wwin q) < rwin q + window_count q"
    and d': "dims_ok (q\<lparr>filled_set := fs\<rparr>)"
    and q': "q' = q\<lparr>filled_set := fs, global_write_window := global_write_window q + 1\<rparr>"
    and others: "\<And>L k. k < units q \<Longrightarrow> L mod window_count q \<noteq> wwin q mod window_count q \<Longrightarrow>
      unit_at q' L k = unit_at q L k"
    and closed: "\<And>k. k < units q \<Longrightarrow> ubits (unit_at q' (wwin q) k) = ubits (unit_at q (wwin q) k)
      \<and> unat (get_epoch (unit_at q' (wwin q) k)) =
        (if ubits (unit_at q (wwin q) k) = {} then Suc (ep q (wwin q)) else ep q (wwin q))"
  shows "bbq_inv q'" "evolves q q'" "wwin q' = Suc (wwin q)"
proof -
  let ?W = "wwin q"
  have d: "dims_ok q" using inv by (rule inv_dims)
  have W': "wwin q' = Suc ?W"
    using wwin_bound [OF d room] unat_suc_small [of "global_write_window q"] by (simp add: q')
  then show "wwin q' = Suc ?W" .
  have sd: "same_dims q q'" by (simp add: q' same_dims_def)
  have W: "rwin q \<le> ?W" "?W < rwin q + window_count q" using inv_windows [OF inv] by simp_all
  note sv = same_dims_views [OF sd]
  have un: "units q' = units q" using same_dims_units [OF sd] .
  have rest: "tbit q' = tbit q" "head_at q' = head_at q" "row_at q' = row_at q" "rwin q' = rwin q"
    "headers q' = headers q"
    by (simp_all add: q')
  have same: "window_same q q' L" if "L mod window_count q \<noteq> ?W mod window_count q" for L
    unfolding window_same_def using that others by (simp add: rest)
  have f: "fbit q' L b = fbit q L b" if "b < blocks_per_window q" for L b
  proof (cases "L mod window_count q = ?W mod window_count q")
    case True
    then have "unit_at q' L = unit_at q' ?W" "unit_at q L = unit_at q ?W"
      using sv(3) by (simp_all add: unit_at_def fun_eq_iff)
    then show ?thesis using closed block_position(1) [OF d that] by (simp add: fbit_def)
  next
    case False
    then show ?thesis using others block_position(1) [OF d that] by (simp add: fbit_def)
  qed
  have "window_ok q' L" if L: "rwin q \<le> L" "L < rwin q + window_count q" for L
  proof (cases "L = ?W")
    case True
    have "unit_ok (Suc ?W) ?W (ep q ?W) (unit_at q' ?W k)" if "k < units q" for k
      using closed [OF that] by (auto simp: unit_ok_def)
    moreover have "block_ok (cells_per_block q) (Suc ?W) ?W (ep q ?W) (fbit q ?W b) (tbit q ?W b)
        (head_at q ?W b) (row_at q ?W b)" if "b < blocks_per_window q" for b
      using inv_block [OF inv W that] by (auto simp: block_ok_def)
    ultimately show ?thesis unfolding window_ok_def un W' sv rest True using f by simp
  next
    case False
    then have s: "window_same q q' L" using same same_window [of "rwin q" L "window_count q" ?W] L W by blast
    show ?thesis
    proof (cases "L = Suc ?W")
      case True
      have "unit_ok (Suc ?W) L (ep q L) (unit_at q' L k)" if "k < units q" for k
        using inv_unit [OF inv L that] s that True by (simp add: unit_ok_def window_same_def)
      moreover have "block_ok (cells_per_block q) (Suc ?W) L (ep q L) (fbit q L b) (tbit q L b)
          (head_at q L b) (row_at q L b)" if "b < blocks_per_window q" for b
        using inv_block [OF inv L that] True by (simp add: block_ok_def)
      ultimately show ?thesis unfolding window_ok_def un W' sv rest using f by simp
    next
      case False2: False
      then show ?thesis
        using window_ok_same [OF d sd s _ inv_window [OF inv L]] W' False by (simp add: linorder_neq_iff) linarith
    qed
  qed
  then show "bbq_inv q'"
    using inv d' room full W' sv by (simp add: bbq_inv_def room_def rest) (simp add: q')
  show "evolves q q'"
    unfolding evolves_def using sd W' f by (simp add: rest)
qed

lemma advance_read_move:
  fixes q :: "('v::zero, 'a::len word) block_based_queue"
  assumes inv: "bbq_inv q" and lt: "Suc (rwin q) < wwin q"
    and empty: "\<And>k. k < units q \<Longrightarrow> ubits (unit_at q (rwin q) k) = {}"
    and q': "q' = q\<lparr>global_read_window := global_read_window q + 1\<rparr>"
  shows "bbq_inv q'" "evolves q q'" "rwin q' = Suc (rwin q)"
proof -
  let ?R = "rwin q"
  have d: "dims_ok q" using inv by (rule inv_dims)
  have "Suc ?R < 2 ^ LENGTH(64)" using lt unat_lt [of "global_write_window q"] by simp
  from unat_suc_small [OF this] have R': "rwin q' = Suc ?R" by (simp add: q')
  then show "rwin q' = Suc ?R" .
  have sd: "same_dims q q'" by (simp add: q' same_dims_def)
  note sv = same_dims_views [OF sd]
  have rest: "tbit q' = tbit q" "head_at q' = head_at q" "row_at q' = row_at q" "wwin q' = wwin q"
    "fbit q' = fbit q" "unit_at q' = unit_at q" "units q' = units q" "headers q' = headers q"
    by (simp_all add: q')
  have wc: "0 < window_count q" using dims_simps(1) [OF d] .
  have nf: "\<not> fbit q ?R b" if "b < blocks_per_window q" for b
    using empty [OF block_position(1) [OF d that]] by (simp add: fbit_def)
  have "window_ok q' L" if L: "Suc ?R \<le> L" "L < Suc ?R + window_count q" for L
  proof (cases "L = ?R + window_count q")
    case True
    then have m: "L mod window_count q = ?R mod window_count q" "ep q L = Suc (ep q ?R)"
      using wc by (simp_all add: ep_def)
    have w: "wwin q < L" using inv_windows(2) [OF inv] True by simp
    have v: "unit_at q L = unit_at q ?R" "fbit q L = fbit q ?R" "tbit q L = tbit q ?R" "head_at q L = head_at q ?R"
      "row_at q L = row_at q ?R"
      using m by (simp_all add: view_defs fun_eq_iff)
    have "unit_ok (wwin q) L (ep q L) (unit_at q ?R k)" if "k < units q" for k
      using inv_unit [OF inv _ _ that, of ?R] empty [OF that] lt w m wc by (simp add: unit_ok_def)
    moreover have "block_ok (cells_per_block q) (wwin q) L (ep q L) (fbit q ?R b) (tbit q ?R b)
        (head_at q ?R b) (row_at q ?R b)" if "b < blocks_per_window q" for b
      using inv_block [OF inv _ _ that, of ?R] nf [OF that] lt w m wc by (auto simp: block_ok_def)
    ultimately show ?thesis unfolding window_ok_def rest sv v by simp
  next
    case False
    then show ?thesis
      using inv_window [OF inv, of L] L unfolding window_ok_def rest sv by simp
  qed
  then show "bbq_inv q'"
    using inv lt R' unfolding bbq_inv_def room_def rest sv by (simp add: q')
  show "evolves q q'"
    unfolding evolves_def sv rest R' using sd nf by (auto simp: Suc_le_eq le_less)
qed

section \<open>Storing and taking elements\<close>

lemma mset_concat_update:
  assumes "n < length cs" and "i < length (cs ! n)"
  shows "add_mset (cs ! n ! i) (mset (concat (cs[n := (cs ! n)[i := v]]))) = add_mset v (mset (concat cs))"
proof -
  have c: "cs = take n cs @ cs ! n # drop (Suc n) cs" using assms(1) by (rule id_take_nth_drop)
  have u: "add_mset (cs ! n ! i) (mset ((cs ! n)[i := v])) = add_mset v (mset (cs ! n))"
    using assms(2) by (simp add: mset_update)
  have e: "mset (concat cs) = mset (concat (take n cs)) + (mset (cs ! n) + mset (concat (drop (Suc n) cs)))"
    by (subst c) (simp only: concat_append mset_append concat.simps)
  have e': "mset (concat (cs[n := r])) = mset (concat (take n cs)) + (mset r + mset (concat (drop (Suc n) cs)))" for r
    unfolding upd_conv_take_nth_drop [OF assms(1)] by (simp only: concat_append mset_append concat.simps)
  have s: "add_mset x (A + (M + B)) = A + (add_mset x M + B)" for x :: 'a and A M B by simp
  show ?thesis unfolding e e' s u ..
qed

lemma content_put_cell:
  assumes "dims_ok q" and "b < blocks_per_window q" and "i < cells_per_block q"
  shows "row_at q L b ! i = 0 \<Longrightarrow> v \<noteq> 0 \<Longrightarrow> bbq_content (put_cell L b i v q) = add_mset v (bbq_content q)"
    and "row_at q L b ! i = x \<Longrightarrow> x \<noteq> 0 \<Longrightarrow> bbq_content q = add_mset x (bbq_content (put_cell L b i 0 q))"
proof -
  have n: "blk q L b < length (cells q)" using block_position(3) [OF assms(1,2)] dims_simps(4) [OF assms(1)] by simp
  have "i < length (cells q ! blk q L b)" using row_length [OF assms(1,2), of L] assms(3) by (simp add: row_at_def)
  note u = mset_concat_update [OF n this]
  have f: "filter_mset (\<lambda>x. x \<noteq> 0) (add_mset (row_at q L b ! i) (mset (concat (cells (put_cell L b i v q)))))
      = filter_mset (\<lambda>x. x \<noteq> 0) (add_mset v (mset (concat (cells q))))" for v
    using u [of v] by (simp add: row_at_def put_cell_def)
  show "bbq_content (put_cell L b i v q) = add_mset v (bbq_content q)" if "row_at q L b ! i = 0" "v \<noteq> 0"
    using f [of v] that by (simp add: bbq_content_def mset_filter)
  show "bbq_content q = add_mset x (bbq_content (put_cell L b i 0 q))" if "row_at q L b ! i = x" "x \<noteq> 0"
    using f [of 0] that by (simp add: bbq_content_def mset_filter)
qed

lemma content_other [simp]:
  "bbq_content (put_unit L k x q) = bbq_content q" "bbq_content (put_touch L k y q) = bbq_content q"
  "bbq_content (put_head L b h q') = bbq_content q'"
  "bbq_content (q'\<lparr>global_write_window := w\<rparr>) = bbq_content q'"
  "bbq_content (q'\<lparr>global_read_window := w\<rparr>) = bbq_content q'"
  "bbq_content (q'\<lparr>filled_set := fs\<rparr>) = bbq_content q'" "bbq_content (q'\<lparr>touched_set := ts\<rparr>) = bbq_content q'"
  by (simp_all add: bbq_content_def)

text \<open>One block changes its header and one cell; the bitsets stay.\<close>

lemma block_move:
  fixes q :: "('v::zero, 'a::len word) block_based_queue"
  assumes inv: "bbq_inv q" and b: "b < blocks_per_window q" and L: "rwin q \<le> L" "L \<le> wwin q"
    and ok: "block_ok (cells_per_block q) (wwin q) L (ep q L) (fbit q L b) (tbit q L b) h ((row_at q L b)[i := v])"
    and h: "he h = he (head_at q L b)" "hr h < hw h"
    and q': "q' = put_head L b h (put_cell L b i v q)"
  shows "bbq_inv q'" "evolves q q'" "head_at q' L b = h"
proof -
  have d: "dims_ok q" using inv by (rule inv_dims)
  have d1: "dims_ok (put_cell L b i v q)" using dims_put_cell [OF d b] .
  have d': "dims_ok q'" unfolding q' using dims_put_other(2) [OF d1] .
  have L': "L < rwin q + window_count q" using L inv_windows [OF inv] by simp
  have sd: "same_dims q q'" by (simp add: q' same_dims_def)
  have hd: "head_at q' M c = (if M mod window_count q = L mod window_count q \<and> c = b then h else head_at q M c)"
    and row: "row_at q' M c = (if M mod window_count q = L mod window_count q \<and> c = b then (row_at q L b)[i := v]
      else row_at q M c)" if "c < blocks_per_window q" for M c
    unfolding q' using head_at_put [OF d1, of b c L h M] row_at_put [OF d b that, of L i v M] b that by simp_all
  then show "head_at q' L b = h" using b by simp
  have rest: "unit_at q' = unit_at q" "fbit q' = fbit q" "tbit q' = tbit q" "units q' = units q" "rwin q' = rwin q"
    "wwin q' = wwin q" by (simp_all add: q')
  have same: "window_same q q' M" if "M mod window_count q \<noteq> L mod window_count q" for M
    unfolding window_same_def using that hd row by (simp add: rest)
  have "block_ok (cells_per_block q) (wwin q) L (ep q L) (fbit q L c) (tbit q L c) (head_at q' L c) (row_at q' L c)"
    if "c < blocks_per_window q" for c
    using inv_block [OF inv L(1) L' that] ok hd [OF that] row [OF that] by (cases "c = b") simp_all
  then have ok': "window_ok q' L"
    using inv_window [OF inv L(1) L'] same_dims_views [OF sd] by (simp add: window_ok_def rest)
  show "bbq_inv q'"
    by (rule bbq_inv_change [OF inv d' sd _ _ same ok' L(1) L']) (simp_all add: q')
  have "he (headers q ! n) \<le> he (headers q' ! n)" for n
    using h(1) by (auto simp: q' put_head_def head_at_def nth_list_update blk_def put_cell_def)
      (metis le_refl nth_list_update_eq nth_list_update_neq order_eq_refl list_update_beyond not_le)
  moreover have "hr (head_at q M c) < hw (head_at q M c) \<longrightarrow> hr (head_at q' M c) < hw (head_at q' M c)"
    if "c < blocks_per_window q" for M c using hd [OF that] h(2) by simp
  ultimately show "evolves q q'"
    unfolding evolves_def using sd by (simp add: rest)
qed

lemma store_move:
  fixes q :: "('v::zero, 'a::len word) block_based_queue"
  assumes inv: "bbq_inv q" and b: "b < blocks_per_window q" and L: "rwin q \<le> L" "L \<le> wwin q"
    and f: "fbit q L b" and ei: "ei = head_at q L b" "hw ei < cells_per_block q" and v: "v \<noteq> 0"
    and q': "q' = put_head L b (increment_write_index ei) (put_cell L b (hw ei) v q)"
  shows "bbq_inv q'" "evolves q q'" "bbq_content q' = add_mset v (bbq_content q)"
proof -
  have d: "dims_ok q" using inv by (rule inv_dims)
  have L': "L < rwin q + window_count q" using L inv_windows [OF inv] by simp
  note old = inv_block [OF inv L(1) L' b]
  have small: "hw ei < 2 ^ 16 - 1" using ei(2) dims_simps(8) [OF d] by simp
  note inc = increment_write_fields [OF small]
  have len: "length (row_at q L b) = cells_per_block q" using row_length [OF d b] .
  have r: "hr ei \<le> hw ei" using old ei(1) by (auto simp: block_ok_def)
  have new: "block_ok (cells_per_block q) (wwin q) L (ep q L) (fbit q L b) (tbit q L b)
      (increment_write_index ei) ((row_at q L b)[hw ei := v])"
    using old f v ei(2) r unfolding ei(1) [symmetric] block_ok_def inc
    by (auto simp: nth_list_update len less_Suc_eq)
  have h: "he (increment_write_index ei) = he (head_at q L b)"
    "hr (increment_write_index ei) < hw (increment_write_index ei)"
    unfolding inc using ei(1) r by simp_all
  show "bbq_inv q'" "evolves q q'" using block_move [OF inv b L new h q'] by blast+
  have "row_at q L b ! hw ei = 0" using old ei by (auto simp: block_ok_def)
  then show "bbq_content q' = add_mset v (bbq_content q)"
    unfolding q' content_other using content_put_cell(1) [OF d b ei(2) _ v] by simp
qed

lemma take_move:
  fixes q :: "('v::zero, 'a::len word) block_based_queue"
  assumes inv: "bbq_inv q" and b: "b < blocks_per_window q" and L: "rwin q \<le> L" "L \<le> wwin q"
    and ei: "ei = head_at q L b" "Suc (hr ei) < hw ei"
    and q': "q' = put_head L b (increment_read_index ei) (put_cell L b (hr ei) 0 q)"
  shows "bbq_inv q'" "evolves q q'" "row_at q L b ! hr ei \<noteq> 0"
    "bbq_content q = add_mset (row_at q L b ! hr ei) (bbq_content q')" "head_at q' L b = increment_read_index ei"
proof -
  have d: "dims_ok q" using inv by (rule inv_dims)
  have L': "L < rwin q + window_count q" using L inv_windows [OF inv] by simp
  note old = inv_block [OF inv L(1) L' b]
  have small: "hr ei < 2 ^ 16 - 1" using ei(2) header_bounds(3) [of ei] by simp
  note inc = increment_read_fields [OF small]
  have len: "length (row_at q L b) = cells_per_block q" using row_length [OF d b] .
  have c: "hr ei < cells_per_block q" using old ei by (auto simp: block_ok_def)
  have new: "block_ok (cells_per_block q) (wwin q) L (ep q L) (fbit q L b) (tbit q L b)
      (increment_read_index ei) ((row_at q L b)[hr ei := 0])"
    using old ei(2) c unfolding ei(1) [symmetric] block_ok_def inc
    by (auto simp: nth_list_update len Suc_le_eq le_less)
  have h: "he (increment_read_index ei) = he (head_at q L b)"
    "hr (increment_read_index ei) < hw (increment_read_index ei)"
    unfolding inc using ei by simp_all
  show "bbq_inv q'" "evolves q q'" "head_at q' L b = increment_read_index ei"
    using block_move [OF inv b L new h q'] by blast+
  show nz: "row_at q L b ! hr ei \<noteq> 0" using old ei c by (auto simp: block_ok_def)
  show "bbq_content q = add_mset (row_at q L b ! hr ei) (bbq_content q')"
    unfolding q' content_other using content_put_cell(2) [OF d b c _ nz] by simp
qed

section \<open>Retiring a block\<close>

lemma retire_move:
  fixes q :: "('v::zero, 'a::len word) block_based_queue"
  assumes inv: "bbq_inv q" and b: "b < blocks_per_window q" and L: "rwin q \<le> L" "L < wwin q"
    and f: "fbit q L b" "\<not> tbit q L b" and ei: "ei = head_at q L b" "hw ei = Suc (hr ei) \<or> hw ei = 0"
    and h: "he h = Suc (ep q L)" "hr h = 0" "hw h = 0"
    and k: "k = b div LENGTH('a)" and x: "unit_wf TYPE('a) x" "ubits x = ubits (unit_at q L k) - {b mod LENGTH('a)}"
      "unat (get_epoch x) = (if ubits x = {} then Suc (ep q L) else ep q L)"
    and q': "q' = put_cell L b (hr ei) 0 (put_unit L k x (put_head L b h q))"
  shows "bbq_inv q'" "evolves q q'" "\<not> fbit q' L b" "head_at q' L b = h"
    "\<And>c. c < blocks_per_window q \<Longrightarrow> c \<noteq> b \<Longrightarrow> fbit q' L c = fbit q L c"
proof -
  have d: "dims_ok q" using inv by (rule inv_dims)
  have d0: "dims_ok (put_head L b h q)" using dims_put_other(2) [OF d] .
  have d1: "dims_ok (put_unit L k x (put_head L b h q))" using dims_put_unit [OF d0 x(1)] .
  have d': "dims_ok q'" unfolding q' using dims_put_cell [OF d1] b by simp
  have L': "L < rwin q + window_count q" using L inv_windows [OF inv] by simp
  have kk: "k < units q" using block_position(1) [OF d b] k by simp
  have sd: "same_dims q q'" by (simp add: q' same_dims_def)
  have unit: "unit_at q' M j = (if M mod window_count q = L mod window_count q \<and> j = k then x else unit_at q M j)"
    if "j < units q" for M j unfolding q' using unit_at_put [OF d0, of k j L x M] kk that by simp
  have hd: "head_at q' M c = (if M mod window_count q = L mod window_count q \<and> c = b then h else head_at q M c)"
    and row: "row_at q' M c = (if M mod window_count q = L mod window_count q \<and> c = b
      then (row_at q L b)[hr ei := 0] else row_at q M c)" if "c < blocks_per_window q" for M c
    unfolding q' using head_at_put [OF d b that, of L h M] row_at_put [OF d1, of b c L "hr ei" 0 M] b that by simp_all
  have fb: "fbit q' M c \<longleftrightarrow> fbit q M c \<and> \<not> (M mod window_count q = L mod window_count q \<and> c = b)"
    if c: "c < blocks_per_window q" for M c
  proof (cases "M mod window_count q = L mod window_count q \<and> c div LENGTH('a) = k")
    case True
    then have "unit_at q M k = unit_at q L k" by (simp add: unit_at_def)
    moreover have "c = b \<longleftrightarrow> c mod LENGTH('a) = b mod LENGTH('a)" using True k by (metis div_mult_mod_eq)
    ultimately show ?thesis using True unit [OF block_position(1) [OF d c], of M] x(2) by (auto simp: fbit_def)
  next
    case False
    then show ?thesis using unit [OF block_position(1) [OF d c], of M] k by (auto simp: fbit_def)
  qed
  then show "\<not> fbit q' L b" "\<And>c. c < blocks_per_window q \<Longrightarrow> c \<noteq> b \<Longrightarrow> fbit q' L c = fbit q L c" using b by simp_all
  show hb: "head_at q' L b = h" using hd b by simp
  have rest: "tbit q' = tbit q" "units q' = units q" "rwin q' = rwin q" "wwin q' = wwin q" by (simp_all add: q')
  have same: "window_same q q' M" if "M mod window_count q \<noteq> L mod window_count q" for M
    unfolding window_same_def using that hd row unit by (simp add: rest)
  note old = inv_block [OF inv L(1) L' b]
  have len: "length (row_at q L b) = cells_per_block q" using row_length [OF d b] .
  have "block_ok (cells_per_block q) (wwin q) L (ep q L) (fbit q' L c) (tbit q L c) (head_at q' L c) (row_at q' L c)"
    if "c < blocks_per_window q" for c
  proof (cases "c = b")
    case True
    have "(row_at q L b)[hr ei := 0] ! i = 0" if "i < cells_per_block q" for i
      using old ei that len unfolding ei(1) [symmetric] block_ok_def by (cases "i = hr ei") (auto simp: nth_list_update)
    then show ?thesis
      using True fb [OF that] hd [OF that] row [OF that] h f L by (auto simp: block_ok_def)
  next
    case False
    then show ?thesis using inv_block [OF inv L(1) L' that] hd [OF that] row [OF that] fb [OF that] by simp
  qed
  moreover have "unit_ok (wwin q) L (ep q L) (unit_at q' L j)" if "j < units q" for j
    using inv_unit [OF inv L(1) L' that] unit [OF that, of L] x(3) L(2) by (auto simp: unit_ok_def)
  ultimately have ok: "window_ok q' L"
    using same_dims_views [OF sd] by (simp add: window_ok_def rest)
  show "bbq_inv q'"
    by (rule bbq_inv_change [OF inv d' sd _ _ same ok L(1) L']) (simp_all add: q')
  have "he (head_at q L b) \<le> he h" using old h by (auto simp: block_ok_def split: if_splits)
  then have heads: "he (headers q ! n) \<le> he (headers q' ! n)" for n
    using block_position(3) [OF d b, of L] dims_simps(3) [OF d]
    by (auto simp: q' put_head_def head_at_def nth_list_update)
  have "L \<noteq> M \<or> c \<noteq> b \<or> ep q L < he (head_at q' M c)" for M c using hb h(1) by auto
  moreover have "M mod window_count q = L mod window_count q \<longleftrightarrow> M = L" if "rwin q \<le> M" "M \<le> wwin q" for M
    using same_window [of "rwin q" M "window_count q" L] that L L' inv_windows [OF inv] by auto
  ultimately show "evolves q q'"
    unfolding evolves_def using sd heads fb hd by (auto simp: rest)
qed

end
