(* ===== verification/Block_Queue_Write.thy ===== *)
theory Block_Queue_Write
  imports Block_Queue_Moves
begin

text \<open>
  The writing side of the BlockFIFO: what a claim for writing does, and that \<^verbatim>\<open>push\<close> with
  enough fuel returns, adds its element or finds the ring full, and keeps the invariant and
  all handles.
\<close>

section \<open>Window arithmetic on words\<close>

lemma window_to_epoch_nat:
  "dims_ok q \<Longrightarrow> unat (window_to_epoch q w) = ep q (unat w)"
  by (simp add: window_to_epoch_def unat_drop_bit ep_def dims_ok_def)

lemma window_to_index_nat:
  assumes "dims_ok q"
  shows "unat (window_to_index q w) = unat w mod window_count q"
proof -
  have p: "2 ^ window_count_log2 q = window_count q" using assms by (simp add: dims_ok_def)
  have "window_count_mod_mask q = mask (window_count_log2 q)"
    using assms unfolding dims_ok_def p [symmetric] by (simp add: mask_eq_exp_minus_1 flip: p)
  then show ?thesis by (simp add: window_to_index_def unat_and_mask p)
qed

lemma small_ep:
  assumes "bbq_inv q" and "unat w < rwin q + window_count q"
  shows "small_epoch (window_to_epoch q w)" "small_epoch (window_to_epoch q w + 1)"
    "unat (window_to_epoch q w + 1) = Suc (ep q (unat w))"
proof -
  have e: "unat (window_to_epoch q w) = ep q (unat w)" using window_to_epoch_nat [OF inv_dims [OF assms(1)]] .
  have b: "ep q (unat w) + 1 < 0x7fffffff" using ep_bound(2) [OF assms] .
  have "Suc (unat (window_to_epoch q w)) < 2 ^ LENGTH(64)" using e b by simp
  then show s: "unat (window_to_epoch q w + 1) = Suc (ep q (unat w))" using unat_suc_small e by metis
  show "small_epoch (window_to_epoch q w)" "small_epoch (window_to_epoch q w + 1)"
    using b unfolding small_epoch_def e s by simp_all
qed

lemma get_block_nat:
  "dims_ok q \<Longrightarrow> get_block q' (window_to_index q w) b = Block (blk q (unat w) b)"
  if "blocks_per_window q' = blocks_per_window q"
  using that by (simp add: get_block_def blk_def window_to_index_nat)

section \<open>Claiming a block of the write window\<close>

lemma all_units_full:
  fixes q :: "('v::zero, 'a::len word) block_based_queue"
  assumes "dims_ok q" and "\<And>k m. k < units q \<Longrightarrow> m < LENGTH('a) \<Longrightarrow> m \<in> ubits (unit_at q L k)"
  shows "b < blocks_per_window q \<Longrightarrow> fbit q L b" "k < units q \<Longrightarrow> ubits (unit_at q L k) \<noteq> {}"
  using assms(2) block_position(1,2) [OF assms(1)] by (auto simp: fbit_def)

lemma try_get_write_block_None:
  fixes q :: "('v::zero, 'a::len word) block_based_queue"
  assumes inv: "bbq_inv q"
    and res: "try_get_write_block q (global_write_window q) r (window_to_epoch q (global_write_window q)) = (None, q1)"
  shows "q1 = q \<and> (\<forall>k < units q. \<forall>m < LENGTH('a). m \<in> ubits (unit_at q (wwin q) k))"
proof -
  have d: "dims_ok q" using inv by (rule inv_dims)
  let ?w = "unat (window_to_index q (global_write_window q))"
  let ?e = "window_to_epoch q (global_write_window q)"
  have w: "?w = wwin q mod window_count q" "?w < window_count q"
    using window_to_index_nat [OF d] dims_simps(1) [OF d] by simp_all
  obtain fs where c: "claim_bit TYPE('a) ZERO READ_WRITE ?w r ?e (\<lambda>_. []) (filled_set q) = (None, fs)"
    and q1: "q1 = q\<lparr>filled_set := fs\<rparr>"
    using res by (auto simp: try_get_write_block_def Let_def split: prod.splits option.splits)
  note n = claim_bit_quiet_None [OF dims_simps(5) [OF d] w(2) c]
  have "m \<in> ubits (unit_at q (wwin q) k)" if "k < units q" "m < LENGTH('a)" for k m
  proof -
    have "unit_ok (wwin q) (wwin q) (ep q (wwin q)) (unit_at q (wwin q) k)"
      using inv_unit [OF inv _ _ that(1)] inv_windows [OF inv] by simp
    then have "unat (get_epoch (unit_at q (wwin q) k)) = unat ?e"
      using window_to_epoch_nat [OF d] by (simp add: unit_ok_def)
    then have "get_epoch (bunit (filled_set q) ?w k) = ?e" by (simp add: word_eq_unat unit_at_def w(1))
    then show ?thesis using n that by (simp add: unit_at_def w(1))
  qed
  then show ?thesis using n q1 by simp
qed

lemma try_get_write_block_Some:
  fixes q :: "('v::zero, 'a::len word) block_based_queue"
  assumes inv: "bbq_inv q"
    and res: "try_get_write_block q (global_write_window q) r (window_to_epoch q (global_write_window q)) = (Some nb, q1)"
  obtains b where "b < blocks_per_window q" "nb = Block (blk q (wwin q) b)" "\<not> fbit q (wwin q) b"
    "bbq_inv q1" "evolves q q1" "fbit q1 (wwin q) b" "head_at q1 = head_at q"
    "global_write_window q1 = global_write_window q" "global_read_window q1 = global_read_window q"
    "row_at q1 = row_at q" "bbq_content q1 = bbq_content q"
proof -
  have d: "dims_ok q" using inv by (rule inv_dims)
  let ?w = "unat (window_to_index q (global_write_window q))"
  let ?e = "window_to_epoch q (global_write_window q)"
  let ?W = "wwin q"
  have w: "?w = ?W mod window_count q" "?w < window_count q"
    using window_to_index_nat [OF d] dims_simps(1) [OF d] by simp_all
  have WR: "?W < rwin q + window_count q" using inv_windows [OF inv] by simp
  obtain fs b where c: "claim_bit TYPE('a) ZERO READ_WRITE ?w r ?e (\<lambda>_. []) (filled_set q) = (Some b, fs)"
    and q1: "q1 = (q\<lparr>filled_set := fs\<rparr>)\<lparr>touched_set := ne_set ?w b (touched_set q)\<rparr>"
    and nb: "nb = get_block (q\<lparr>filled_set := fs\<rparr>) (window_to_index q (global_write_window q)) b"
    using res by (auto simp: try_get_write_block_def Let_def split: prod.splits option.splits)
  obtain k m where km: "k < units q" "m < LENGTH('a)" "b = m + k * LENGTH('a)"
    "get_epoch (bunit (filled_set q) ?w k) = ?e" "wanted ZERO (m \<in> ubits (bunit (filled_set q) ?w k))"
    "fs = (filled_set q)\<lparr>bs_data := (bs_data (filled_set q))[?w * units q + k :=
        if READ_WRITE = READ_ONLY then bunit (filled_set q) ?w k
        else claim_desired TYPE('a) ZERO m ?e (bunit (filled_set q) ?w k)]\<rparr>"
    using claim_bit_quiet_Some [OF dims_simps(5) [OF d] w(2) c] by blast
  define x where "x = claim_desired TYPE('a) ZERO m ?e (unit_at q ?W k)"
  have wf: "unit_wf TYPE('a) (unit_at q ?W k)"
    unfolding unit_at_def using bunit_wf [OF dims_simps(5) [OF d] _ km(1)] dims_simps(1) [OF d] by simp
  have x: "get_epoch x = get_epoch (unit_at q ?W k)" "ubits x = insert m (ubits (unit_at q ?W k))"
    using claim_desired_unit(1) [OF dims_simps(9) [OF d] km(2) wf small_ep(1) [OF inv WR] _ small_ep(2) [OF inv WR]]
      km(4) unfolding x_def unit_at_def w(1) by simp_all
  have xwf: "unit_wf TYPE('a) x" using wf x(2) km(2) by (simp add: unit_wf_def)
  define y where "y = ne_set_bit_atomic True m (ne_unit (touched_set q) (?W mod window_count q) k)"
  have y: "\<forall>j < LENGTH('a). bit y j \<longleftrightarrow> j = m \<or> bit (ne_unit (touched_set q) (?W mod window_count q) k) j"
    unfolding y_def ne_set_bit_atomic_def using km(2) by (auto simp: bit_or_iff bit_exp_iff)
  have bp: "b div LENGTH('a) = k" "b mod LENGTH('a) = m" "b < blocks_per_window q"
    using block_of_unit [OF d km(1,2)] km(3) by simp_all
  have q1': "q1 = put_touch ?W k y (put_unit ?W k x q)"
    using dims_simps(6) [OF d] km(6)
    by (simp add: q1 put_touch_def put_unit_def ne_set_def Let_def bp x_def y_def unit_at_def w(1) ne_shape_def ne_unit_def units_def)
  have free: "m \<notin> ubits (unit_at q ?W k)" using km(5) by (simp add: unit_at_def w(1))
  note mv = claim_move [OF inv km(1,2) free xwf x y q1']
  show ?thesis
  proof (rule that)
    show "nb = Block (blk q ?W b)" unfolding nb by (rule get_block_nat [OF _ d]) simp
    show "\<not> fbit q ?W b" using free by (simp add: fbit_def bp)
    show "fbit q1 ?W b" using mv(3) km(3) by simp
  qed (use mv bp in \<open>simp_all add: q1'\<close>)
qed

lemma random_bit_frame: "random_bit_index q o1 = (r, o2) \<Longrightarrow> o_spurious o2 = o_spurious o1"
  by (auto simp: random_bit_index_def split: list.splits)

text \<open>The bits that are free to claim: the write window is full when there are none.\<close>

definition write_full :: "('v, 'a::len word) block_based_queue \<Rightarrow> bool" where
  "write_full q \<longleftrightarrow> (\<forall>b < blocks_per_window q. fbit q (wwin q) b)"

text \<open>The ring is full: the write window is, and there is no window left to move to.\<close>

definition bbq_full :: "('v, 'a::len word) block_based_queue \<Rightarrow> bool" where
  "bbq_full q \<longleftrightarrow> write_full q \<and> Suc (wwin q) = rwin q + window_count q"

definition claimed_write :: "('v, 'a::len word) block_based_queue \<Rightarrow> ('v, 'a word) block_based_queue
    \<Rightarrow> bbq_handle \<Rightarrow> bbq_handle \<Rightarrow> bool" where
  "claimed_write q q' h h' \<longleftrightarrow> (\<exists>b < blocks_per_window q.
     h' = h\<lparr>h_write_epoch := window_to_epoch q (global_write_window q'), h_write_block := Block (blk q' (wwin q') b)\<rparr>
     \<and> fbit q' (wwin q') b \<and> hw (head_at q' (wwin q') b) = 0)"

text \<open>One attempt on the write window that succeeds.\<close>

lemma claim_write_now:
  fixes q :: "('v::zero, 'a::len word) block_based_queue"
  assumes inv: "bbq_inv q" and nf: "\<not> write_full q"
  shows "\<exists>q' h' o'. claim_new_block_write q h o1 = (True, q', h', o') \<and> bbq_inv q' \<and> keeps q q'
    \<and> global_write_window q' = global_write_window q \<and> global_read_window q' = global_read_window q
    \<and> bbq_content q' = bbq_content q \<and> o_spurious o' = o_spurious o1 \<and> claimed_write q q' h h'"
proof -
  let ?W = "wwin q"
  obtain r o2 where r: "random_bit_index q o1 = (r, o2)" by (cases "random_bit_index q o1")
  obtain nb q1 where t: "try_get_write_block q (global_write_window q) r (window_to_epoch q (global_write_window q))
    = (nb, q1)" by fastforce
  have d: "dims_ok q" using inv by (rule inv_dims)
  show ?thesis
  proof (cases nb)
    case None
    have "write_full q"
      using try_get_write_block_None [OF inv, of r q1] t all_units_full(1) [OF d, of ?W]
      by (simp add: write_full_def None)
    then show ?thesis using nf by simp
  next
    case (Some b)
    obtain c where c: "c < blocks_per_window q" "b = Block (blk q ?W c)" "\<not> fbit q ?W c"
      "bbq_inv q1" "evolves q q1" "fbit q1 ?W c" "head_at q1 = head_at q"
      "global_write_window q1 = global_write_window q" "global_read_window q1 = global_read_window q"
      "row_at q1 = row_at q" "bbq_content q1 = bbq_content q"
      using try_get_write_block_Some [OF inv, of r b q1] t Some by metis
    have sd: "same_dims q q1" using c(5) by (simp add: evolves_def)
    have "window_count_log2 q1 = window_count_log2 q"
      using t by (auto simp: try_get_write_block_def Let_def split: prod.splits option.splits)
    then have e: "window_to_epoch q1 = window_to_epoch q" by (simp add: window_to_epoch_def fun_eq_iff)
    have "hw (head_at q ?W c) = 0"
      using inv_block [OF inv _ _ c(1), of ?W] inv_windows [OF inv] c(3) by (auto simp: block_ok_def)
    then have "claimed_write q q1 h (h\<lparr>h_write_epoch := window_to_epoch q1 (global_write_window q), h_write_block := b\<rparr>)"
      unfolding claimed_write_def using c same_dims_views [OF sd] e by auto
    moreover have "claim_new_block_write q h o1 =
        (True, q1, h\<lparr>h_write_epoch := window_to_epoch q1 (global_write_window q), h_write_block := b\<rparr>, o2)"
      using r t Some by (subst claim_new_block_write.simps) (simp add: Let_def)
    ultimately show ?thesis using c evolves_keeps [OF c(5)] random_bit_frame [OF r] by auto
  qed
qed

lemma full_condition:
  assumes "bbq_inv q" and "room 1 q"
  shows "global_write_window q + 1 - global_read_window q = of_nat (window_count q)
    \<longleftrightarrow> Suc (wwin q) = rwin q + window_count q"
proof -
  have d: "dims_ok q" using assms(1) by (rule inv_dims)
  have "Suc (wwin q) < 2 ^ LENGTH(64)" using wwin_bound [OF d assms(2)] by simp
  then have a: "unat (global_write_window q + 1) = Suc (wwin q)" by (rule unat_suc_small)
  have b: "unat (global_write_window q + 1 - global_read_window q) = Suc (wwin q) - rwin q"
    using unat_sub_le [of "global_read_window q" "global_write_window q + 1"] a inv_windows(1) [OF assms(1)] by simp
  have "window_count q < 2 ^ LENGTH(64)" using d by (simp add: dims_ok_def)
  from word_eq_of_nat [OF this] show ?thesis using b inv_windows(1) [OF assms(1)] by auto
qed

lemma advance_full:
  fixes q :: "('v::zero, 'a::len word) block_based_queue"
  assumes inv: "bbq_inv q" and room: "room 1 q" and full: "Suc (wwin q) < rwin q + window_count q"
    and bits: "\<And>k. k < units q \<Longrightarrow> ubits (unit_at q (wwin q) k) \<noteq> {}"
    and q': "q' = q\<lparr>global_write_window := global_write_window q + 1\<rparr>"
  shows "bbq_inv q' \<and> evolves q q' \<and> wwin q' = Suc (wwin q)"
proof -
  have W: "rwin q \<le> wwin q" "wwin q < rwin q + window_count q" using inv_windows [OF inv] by simp_all
  have q'': "q' = q\<lparr>filled_set := filled_set q, global_write_window := global_write_window q + 1\<rparr>"
    by (simp add: q')
  have "unat (get_epoch (unit_at q (wwin q) k)) = ep q (wwin q)" if "k < units q" for k
    using inv_unit [OF inv W that] by (simp add: unit_ok_def)
  then show ?thesis
    using advance_write_move [OF inv room full _ q''] inv_dims [OF inv] bits by (simp add: q')
qed

lemma claim_write_result:
  fixes q :: "('v::zero, 'a::len word) block_based_queue"
  assumes inv: "bbq_inv q" and room: "room 1 q"
  shows "\<exists>ok q' h' o'. claim_new_block_write q h o1 = (ok, q', h', o') \<and> bbq_inv q' \<and> keeps q q'
    \<and> wwin q \<le> wwin q' \<and> wwin q' \<le> Suc (wwin q) \<and> global_read_window q' = global_read_window q
    \<and> bbq_content q' = bbq_content q \<and> o_spurious o' = o_spurious o1
    \<and> (if ok then \<not> bbq_full q \<and> claimed_write q q' h h' else h' = h \<and> q' = q \<and> bbq_full q)"
proof (cases "write_full q")
  case False
  from claim_write_now [OF inv False, of h o1] obtain q' h' o' where
    c: "claim_new_block_write q h o1 = (True, q', h', o')" "bbq_inv q'" "keeps q q'"
      "global_write_window q' = global_write_window q" "global_read_window q' = global_read_window q"
      "bbq_content q' = bbq_content q" "o_spurious o' = o_spurious o1" "claimed_write q q' h h'" by blast
  show ?thesis using c False by (auto simp: bbq_full_def)
next
  case True
  let ?W = "wwin q"
  have d: "dims_ok q" using inv by (rule inv_dims)
  obtain r o2 where r: "random_bit_index q o1 = (r, o2)" by (cases "random_bit_index q o1")
  obtain nb q1 where t: "try_get_write_block q (global_write_window q) r (window_to_epoch q (global_write_window q))
    = (nb, q1)" by fastforce
  have "nb = None"
    using try_get_write_block_Some [OF inv, of r _ q1] t True unfolding write_full_def by (metis option.exhaust)
  then have n: "q1 = q" "\<forall>k < units q. \<forall>m < LENGTH('a). m \<in> ubits (unit_at q ?W k)"
    using try_get_write_block_None [OF inv, of r q1] t by simp_all
  have bits: "ubits (unit_at q ?W k) \<noteq> {}" if "k < units q" for k
    using all_units_full(2) [OF d, of ?W] n(2) that by blast
  show ?thesis
  proof (cases "Suc ?W = rwin q + window_count q")
    case full: True
    then have "claim_new_block_write q h o1 = (False, q, h, o2)"
      using r t n(1) \<open>nb = None\<close> full_condition [OF inv room]
      by (subst claim_new_block_write.simps) (simp add: Let_def)
    then show ?thesis using inv True full random_bit_frame [OF r] by (auto simp: bbq_full_def)
  next
    case False
    then have lt: "Suc ?W < rwin q + window_count q" using inv_windows(2) [OF inv] by simp
    define q2 where "q2 = q\<lparr>global_write_window := global_write_window q + 1\<rparr>"
    have q2: "bbq_inv q2" "evolves q q2" "wwin q2 = Suc ?W"
      using advance_full [OF inv room lt bits q2_def] by simp_all
    have "claim_new_block_write q h o1 = claim_new_block_write q2 h o2"
      using r t n(1) \<open>nb = None\<close> full_condition [OF inv room] False
      by (subst claim_new_block_write.simps) (simp add: Let_def cas_write_window_def q2_def)
    moreover have "\<not> write_full q2"
    proof -
      have "0 < blocks_per_window q" using dims_simps(2,5) [OF d] is_pow2_pos by (simp add: bs_shape_def)
      moreover have "\<not> fbit q (Suc ?W) 0"
        using inv_unit [OF inv, of "Suc ?W" 0] lt block_position(1) [OF d \<open>0 < blocks_per_window q\<close>] inv_windows [OF inv]
        by (simp add: unit_ok_def fbit_def)
      ultimately show ?thesis using q2(3) by (auto simp: write_full_def q2_def)
    qed
    then obtain q' h' o' where c: "claim_new_block_write q2 h o2 = (True, q', h', o')" "bbq_inv q'" "keeps q2 q'"
      "global_write_window q' = global_write_window q2" "global_read_window q' = global_read_window q2"
      "bbq_content q' = bbq_content q2" "o_spurious o' = o_spurious o2" "claimed_write q2 q' h h'"
      using claim_write_now [OF q2(1), of h o2] by blast
    moreover have "claimed_write q q' h h'"
      using c(8) by (simp add: claimed_write_def q2_def window_to_epoch_def)
    moreover have "keeps q q'" using evolves_keeps [OF q2(2)] c(3) by (rule keeps_trans)
    ultimately show ?thesis
      using q2 False random_bit_frame [OF r] by (auto simp: q2_def bbq_full_def)
  qed
qed

section \<open>Push\<close>

definition writable :: "('v, 'a::len word) block_based_queue \<Rightarrow> bbq_handle \<Rightarrow> nat \<Rightarrow> nat \<Rightarrow> bool" where
  "writable q h L b \<longleftrightarrow> rwin q \<le> L \<and> L \<le> wwin q \<and> b < blocks_per_window q \<and> h_write_block h = Block (blk q L b)
     \<and> unat (h_write_epoch h) = ep q L \<and> fbit q L b"

lemma read_ok_write_fields [simp]:
  "read_ok q (h\<lparr>h_write_epoch := e, h_write_block := b\<rparr>) = read_ok q h"
  by (simp add: read_ok_def read_at_def)

lemma claimed_write_writable:
  assumes "bbq_inv q'" and "dims_ok q" and "keeps q q'" and "handle_ok q h" and "claimed_write q q' h h'"
  obtains b where "writable q' h' (wwin q') b" "hw (head_at q' (wwin q') b) = 0" "handle_ok q' h'"
proof -
  have sd: "same_dims q q'" using keeps_dims [OF assms(3)] .
  obtain b where b: "b < blocks_per_window q"
    "h' = h\<lparr>h_write_epoch := window_to_epoch q (global_write_window q'), h_write_block := Block (blk q' (wwin q') b)\<rparr>"
    "fbit q' (wwin q') b" "hw (head_at q' (wwin q') b) = 0"
    using assms(5) by (auto simp: claimed_write_def)
  have "read_ok q' h" using keeps_handle [OF assms(3,4)] by (simp add: handle_ok_def)
  then have r: "read_ok q' h'" unfolding b(2) by simp
  have w: "writable q' h' (wwin q') b"
    using b same_dims_views [OF sd] window_to_epoch_nat [OF assms(2)] inv_windows(1) [OF assms(1)]
    by (simp add: writable_def)
  then have "write_ok q' h'" unfolding write_ok_def writable_def by blast
  then show ?thesis using that w r b(4) by (simp add: handle_ok_def)
qed

lemma writable_valid:
  assumes inv: "bbq_inv q" and w: "writable q h L b"
  shows "epoch_valid (header_epoch (head_at q L b)) (h_write_epoch h)"
    "get_header q (h_write_block h) = head_at q L b" "hw (head_at q L b) \<le> cells_per_block q"
    "\<And>i. i < cells_per_block q \<Longrightarrow> hw (head_at q L b) \<le> i \<Longrightarrow> row_at q L b ! i = 0"
proof -
  have L: "rwin q \<le> L" "L < rwin q + window_count q" "b < blocks_per_window q"
    using w inv_windows(2) [OF inv] by (auto simp: writable_def)
  note ok = inv_block [OF inv L]
  show "get_header q (h_write_block h) = head_at q L b" using w by (simp add: writable_def head_at_def)
  have "he (head_at q L b) \<le> ep q L" using ok w by (simp add: block_ok_def writable_def)
  then show "epoch_valid (header_epoch (head_at q L b)) (h_write_epoch h)"
    using ep_bound(2) [OF inv L(2)] w unfolding header_epoch_valid writable_def by simp
  show "hw (head_at q L b) \<le> cells_per_block q" using ok by (auto simp: block_ok_def)
  show "\<And>i. i < cells_per_block q \<Longrightarrow> hw (head_at q L b) \<le> i \<Longrightarrow> row_at q L b ! i = 0"
    using ok by (auto simp: block_ok_def)
qed

definition push_post :: "'v::zero \<Rightarrow> nat \<Rightarrow> ('v, 'a::len word) block_based_queue \<Rightarrow> choices
    \<Rightarrow> bool \<times> ('v, 'a word) block_based_queue \<times> bbq_handle \<times> choices \<Rightarrow> bool" where
  "push_post t n q o1 = (\<lambda>(ok, q', h', o'). bbq_inv q' \<and> keeps q q' \<and> handle_ok q' h' \<and> rwin q' = rwin q
     \<and> wwin q' + length (o_spurious o') \<le> wwin q + length (o_spurious o1) + n
     \<and> (if ok then bbq_content q' = add_mset t (bbq_content q) else bbq_content q' = bbq_content q \<and> bbq_full q'))"

lemma push_post_step:
  assumes "keeps q q1" and "rwin q1 = rwin q" and "bbq_content q1 = bbq_content q"
    and "wwin q1 + length (o_spurious o2) + m \<le> wwin q + length (o_spurious o1) + n"
    and "push_post t m q1 o2 res"
  shows "push_post t n q o1 res"
  using assms keeps_trans [OF assms(1)] by (auto simp: push_post_def)

lemma weak_fails_length:
  "weak_fails o1 = (b, o2) \<Longrightarrow> length (o_spurious o2) + (if b then 1 else 0) \<le> length (o_spurious o1)"
  by (auto simp: weak_fails_def split: list.splits)

text \<open>The turn of the loop in which the element is stored.\<close>

lemma push_turn_store:
  fixes q :: "('v::zero, 'a::len word) block_based_queue"
  assumes inv: "bbq_inv q" and ok: "handle_ok q h" and w: "writable q h L b"
    and c: "hw (head_at q L b) < cells_per_block q" and t: "t \<noteq> 0" and wf: "weak_fails o1 = (False, o2)"
  shows "\<exists>res. push_loop (Suc n) t (get_header q (h_write_block h)) q h o1 = Some res \<and> push_post t 0 q o1 res"
proof -
  let ?ei = "head_at q L b"
  note v = writable_valid [OF inv w]
  have L: "rwin q \<le> L" "L \<le> wwin q" "b < blocks_per_window q" "h_write_block h = Block (blk q L b)" "fbit q L b"
    using w by (simp_all add: writable_def)
  define q' where "q' = put_head L b (increment_write_index ?ei) (put_cell L b (hw ?ei) t q)"
  note mv = store_move [OF inv L(3,1,2,5) refl c t q'_def]
  have i: "get_write_index ?ei \<noteq> of_nat (cells_per_block q)" "unat (get_write_index ?ei) = hw ?ei"
  proof -
    have "cells_per_block q < 2 ^ LENGTH(64)" using dims_simps(8) [OF inv_dims [OF inv]] by simp
    from word_eq_of_nat [OF this, of "get_write_index ?ei"]
    show "get_write_index ?ei \<noteq> of_nat (cells_per_block q)" using c by (simp add: hw_def)
    show "unat (get_write_index ?ei) = hw ?ei" by (simp add: hw_def)
  qed
  have cell: "get_cell q (h_write_block h) (hw ?ei) = 0"
    using v(4) [of "hw ?ei"] c L(4) by (simp add: row_at_def)
  have q1: "set_cell (h_write_block h) (hw ?ei) t q = put_cell L b (hw ?ei) t q"
    by (simp add: L(4) put_cell_def row_at_def)
  have q2: "set_header (h_write_block h) (increment_write_index ?ei) (put_cell L b (hw ?ei) t q) = q'"
    by (simp add: L(4) q'_def put_head_def blk_def)
  have hd: "get_header (put_cell L b (hw ?ei) t q) (h_write_block h) = ?ei"
    by (simp add: L(4) head_at_def)
  have "push_loop (Suc n) t ?ei q h o1 = Some (True, q', h, o2)"
    using v(1) i cell wf q1 q2 hd by (simp add: Let_def)
  moreover have "push_post t 0 q o1 (True, q', h, o2)"
    using mv evolves_keeps [OF mv(2)] evolves_handle_ok [OF mv(2) ok] weak_fails_length [OF wf]
    by (simp add: push_post_def) (simp add: q'_def)
  ultimately show ?thesis using v(2) by auto
qed

text \<open>The turn of the loop in which a new block is claimed.\<close>

lemma push_turn_claim:
  assumes "\<not> (epoch_valid (header_epoch ei) (h_write_epoch h) \<and> get_write_index ei \<noteq> of_nat (cells_per_block q)) \<and> o2 = o1
    \<or> epoch_valid (header_epoch ei) (h_write_epoch h) \<and> get_write_index ei \<noteq> of_nat (cells_per_block q)
      \<and> weak_fails o1 = (True, o2)"
  shows "push_loop (Suc n) t ei q h o1 = (case claim_new_block_write q h o2 of
      (False, q1, h1, o3) \<Rightarrow> Some (False, q1, h1, o3)
    | (True, q1, h1, o3) \<Rightarrow> push_loop n t (get_header q1 (h_write_block h1)) q1 h1 o3)"
  using assms by (auto simp: Let_def)

lemma room_mono: "room n q \<Longrightarrow> m \<le> n \<Longrightarrow> room m q"
  unfolding room_def using div_le_mono [of "wwin q + m" "wwin q + n" "window_count q"] by simp

lemma room_move:
  "room n q \<Longrightarrow> window_count q' = window_count q \<Longrightarrow> wwin q' + m \<le> wwin q + n \<Longrightarrow> room m q'"
  unfolding room_def using div_le_mono [of "wwin q' + m" "wwin q + n" "window_count q"] by simp

lemma push_claim_post:
  fixes q :: "('v::zero, 'a::len word) block_based_queue"
  assumes inv: "bbq_inv q" and ok: "handle_ok q h" and room: "room (Suc (length (o_spurious o1))) q"
    and next_ok: "\<And>(q1 :: ('v, 'a word) block_based_queue) h1 o2 b. bbq_inv q1 \<Longrightarrow> handle_ok q1 h1 \<Longrightarrow> writable q1 h1 (wwin q1) b \<Longrightarrow>
      hw (head_at q1 (wwin q1) b) = 0 \<Longrightarrow> room (length (o_spurious o2)) q1 \<Longrightarrow> o_spurious o2 = o_spurious o1 \<Longrightarrow>
      \<exists>res. push_loop n t (get_header q1 (h_write_block h1)) q1 h1 o2 = Some res \<and> push_post t 0 q1 o2 res"
  shows "\<exists>res. (case claim_new_block_write q h o1 of
      (False, q1, h1, o3) \<Rightarrow> Some (False, q1, h1, o3)
    | (True, q1, h1, o3) \<Rightarrow> push_loop n t (get_header q1 (h_write_block h1)) q1 h1 o3) = Some res
    \<and> push_post t 1 q o1 res"
proof -
  have "room 1 q" by (rule room_mono [OF room]) simp
  then obtain g q1 h1 o3 where c: "claim_new_block_write q h o1 = (g, q1, h1, o3)" "bbq_inv q1" "keeps q q1"
    "wwin q \<le> wwin q1" "wwin q1 \<le> Suc (wwin q)" "global_read_window q1 = global_read_window q"
    "bbq_content q1 = bbq_content q" "o_spurious o3 = o_spurious o1"
    "if g then \<not> bbq_full q \<and> claimed_write q q1 h h1 else h1 = h \<and> q1 = q \<and> bbq_full q"
    using claim_write_result [OF inv, of h o1] by blast
  show ?thesis
  proof (cases g)
    case False
    then have "push_post t 1 q o1 (False, q1, h1, o3)"
      using c inv ok by (simp add: push_post_def)
    then show ?thesis using c(1) False by auto
  next
    case True
    obtain b where b: "writable q1 h1 (wwin q1) b" "hw (head_at q1 (wwin q1) b) = 0" "handle_ok q1 h1"
      using claimed_write_writable [OF c(2) inv_dims [OF inv] c(3) ok] c(9) True by auto
    have "room (length (o_spurious o3)) q1"
      by (rule room_move [OF room]) (use c same_dims_views(3) [OF keeps_dims [OF c(3)]] in simp_all)
    from next_ok [OF c(2) b(3,1,2) this c(8)] obtain res where
      res: "push_loop n t (get_header q1 (h_write_block h1)) q1 h1 o3 = Some res" "push_post t 0 q1 o3 res" by blast
    have "push_post t 1 q o1 res"
      by (rule push_post_step [OF c(3) _ c(7) _ res(2)]) (use c in simp_all)
    then show ?thesis using c(1) True res(1) by auto
  qed
qed

lemma push_writable:
  fixes q :: "('v::zero, 'a::len word) block_based_queue"
  assumes "bbq_inv q" and "handle_ok q h" and "writable q h L b" and "hw (head_at q L b) < cells_per_block q"
    and "t \<noteq> 0" and "room (length (o_spurious o1)) q" and "length (o_spurious o1) < n"
  shows "\<exists>res. push_loop n t (get_header q (h_write_block h)) q h o1 = Some res \<and> push_post t 0 q o1 res"
  using assms
proof (induction n arbitrary: q h L b o1)
  case (Suc n)
  obtain fails o2 where wf: "weak_fails o1 = (fails, o2)" by (cases "weak_fails o1")
  note v = writable_valid [OF Suc.prems(1,3)]
  show ?case
  proof (cases fails)
    case False
    then show ?thesis using push_turn_store [OF Suc.prems(1-5), of o1 o2 n] wf by simp
  next
    case True
    have len: "Suc (length (o_spurious o2)) \<le> length (o_spurious o1)" using weak_fails_length [OF wf] True by simp
    have "cells_per_block q < 2 ^ LENGTH(64)" using dims_simps(8) [OF inv_dims [OF Suc.prems(1)]] by simp
    from word_eq_of_nat [OF this, of "get_write_index (head_at q L b)"]
    have i: "get_write_index (head_at q L b) \<noteq> of_nat (cells_per_block q)" using Suc.prems(4) by (simp add: hw_def)
    have nx: "\<exists>res. push_loop n t (get_header q1 (h_write_block h1)) q1 h1 o3 = Some res \<and> push_post t 0 q1 o3 res"
      if "bbq_inv q1" "handle_ok q1 h1" "writable q1 h1 (wwin q1) b'" "hw (head_at q1 (wwin q1) b') = 0"
        "room (length (o_spurious o3)) q1" "o_spurious o3 = o_spurious o2" for q1 :: "('v, 'a word) block_based_queue" and h1 o3 b'
      using Suc.IH [OF that(1-3) _ Suc.prems(5) that(5)] that(4,6) Suc.prems(7) len
        dims_simps(7) [OF inv_dims [OF that(1)]] by simp
    have turn: "push_loop (Suc n) t (head_at q L b) q h o1 = (case claim_new_block_write q h o2 of
        (False, q1, h1, o3) \<Rightarrow> Some (False, q1, h1, o3)
      | (True, q1, h1, o3) \<Rightarrow> push_loop n t (get_header q1 (h_write_block h1)) q1 h1 o3)"
      by (rule push_turn_claim) (use v(1) i wf True in simp)
    have "\<exists>res. push_loop (Suc n) t (head_at q L b) q h o1 = Some res \<and> push_post t 1 q o2 res"
      unfolding turn by (rule push_claim_post [OF Suc.prems(1,2) room_mono [OF Suc.prems(6) len] nx])
    then obtain res where "push_loop (Suc n) t (head_at q L b) q h o1 = Some res" "push_post t 1 q o2 res"
      by blast
    moreover have "push_post t 0 q o1 res" using calculation(2) len by (auto simp: push_post_def)
    ultimately show ?thesis using v(2) by auto
  qed
qed simp

text \<open>Push returns, and adds its element or finds the ring full.\<close>

lemma push_result:
  fixes q :: "('v::zero, 'a::len word) block_based_queue"
  assumes inv: "bbq_inv q" and ok: "handle_ok q h" and t: "t \<noteq> 0"
    and room: "room (Suc (length (o_spurious o1))) q" and fuel: "length (o_spurious o1) + 2 \<le> fuel"
  shows "\<exists>res. push fuel t q h o1 = Some res \<and> push_post t 1 q o1 res"
proof -
  let ?ei = "get_header q (h_write_block h)"
  obtain n where n: "fuel = Suc n" "length (o_spurious o1) < n" using fuel by (cases fuel) auto
  have len: "cells_per_block q < 2 ^ LENGTH(64)" using dims_simps(8) [OF inv_dims [OF inv]] by simp
  show ?thesis
  proof (cases "\<exists>L b. writable q h L b \<and> hw (head_at q L b) < cells_per_block q")
    case True
    then obtain L b where w: "writable q h L b" "hw (head_at q L b) < cells_per_block q" by blast
    have "room (length (o_spurious o1)) q" by (rule room_mono [OF room]) simp
    from push_writable [OF inv ok w t this, of fuel] fuel
    obtain res where "push fuel t q h o1 = Some res" "push_post t 0 q o1 res" by (auto simp: push_def)
    then show ?thesis by (auto simp: push_post_def)
  next
    case False
    have bad: "\<not> (epoch_valid (header_epoch ?ei) (h_write_epoch h) \<and> get_write_index ?ei \<noteq> of_nat (cells_per_block q))"
    proof (cases "unat (h_write_epoch h) < he ?ei")
      case True
      then show ?thesis by (simp add: header_epoch_valid)
    next
      case False2: False
      then obtain L b where w: "writable q h L b" using ok by (auto simp: handle_ok_def write_ok_def writable_def)
      then have "hw ?ei = cells_per_block q"
        using False writable_valid(2,3) [OF inv w] by (metis order_le_less)
      then show ?thesis using word_eq_of_nat [OF len, of "get_write_index ?ei"] by (simp add: hw_def)
    qed
    have nx: "\<exists>res. push_loop n t (get_header q1 (h_write_block h1)) q1 h1 o3 = Some res \<and> push_post t 0 q1 o3 res"
      if "bbq_inv q1" "handle_ok q1 h1" "writable q1 h1 (wwin q1) b'" "hw (head_at q1 (wwin q1) b') = 0"
        "room (length (o_spurious o3)) q1" "o_spurious o3 = o_spurious o1" for q1 :: "('v, 'a word) block_based_queue" and h1 o3 b'
      using push_writable [OF that(1-3) _ t that(5)] that(4,6) n(2) dims_simps(7) [OF inv_dims [OF that(1)]] by simp
    have turn: "push fuel t q h o1 = (case claim_new_block_write q h o1 of
        (False, q1, h1, o3) \<Rightarrow> Some (False, q1, h1, o3)
      | (True, q1, h1, o3) \<Rightarrow> push_loop n t (get_header q1 (h_write_block h1)) q1 h1 o3)"
      unfolding push_def n(1) by (rule push_turn_claim) (use bad in simp)
    show ?thesis unfolding turn by (rule push_claim_post [OF inv ok room nx])
  qed
qed

end
