(* ===== verification/Block_Queue_Read.thy ===== *)
theory Block_Queue_Read
  imports Block_Queue_Write
begin

text \<open>
  The reading side of the BlockFIFO up to the claim of a block: with fuel bounded by the
  number of windows in use \<^verbatim>\<open>claim_new_block_read\<close> returns; it finds a claimed block of one of
  the two oldest windows, or there is none at all.
\<close>

section \<open>Finding a block in a window\<close>

lemma free_read_None:
  fixes q :: "('v::zero, 'a::len word) block_based_queue"
  assumes inv: "bbq_inv q" and res: "try_get_free_read_block q wd r = (None, q1)"
  shows "q1 = q \<and> (\<forall>b < blocks_per_window q. \<not> tbit q (unat wd) b)"
proof -
  have d: "dims_ok q" using inv by (rule inv_dims)
  let ?w = "unat (window_to_index q wd)"
  have w: "?w = unat wd mod window_count q" "?w < window_count q"
    using window_to_index_nat [OF d] dims_simps(1) [OF d] by simp_all
  obtain ts where c: "ne_claim_bit ONE READ_WRITE ?w r (\<lambda>_. []) (touched_set q) = (None, ts)"
    and q1: "q1 = q\<lparr>touched_set := ts\<rparr>"
    using res by (auto simp: try_get_free_read_block_def Let_def split: prod.splits option.splits)
  from ne_claim_bit_quiet_None [OF dims_simps(6) [OF d] w(2) c]
  show ?thesis using q1 block_position(1,2) [OF d] by (auto simp: tbit_def w(1))
qed

lemma free_read_Some:
  fixes q :: "('v::zero, 'a::len word) block_based_queue"
  assumes inv: "bbq_inv q" and L: "rwin q \<le> unat wd" "unat wd < wwin q"
    and res: "try_get_free_read_block q wd r = (Some nb, q1)"
  obtains b y where "b < blocks_per_window q" "nb = Block (blk q (unat wd) b)" "fbit q (unat wd) b"
    "bbq_inv q1" "evolves q q1" "\<not> tbit q1 (unat wd) b" "q1 = put_touch (unat wd) (b div LENGTH('a)) y q"
proof -
  have d: "dims_ok q" using inv by (rule inv_dims)
  let ?w = "unat (window_to_index q wd)"
  have w: "?w = unat wd mod window_count q" "?w < window_count q"
    using window_to_index_nat [OF d] dims_simps(1) [OF d] by simp_all
  have L': "unat wd < rwin q + window_count q" using L inv_windows(2) [OF inv] by simp
  obtain ts b where c: "ne_claim_bit ONE READ_WRITE ?w r (\<lambda>_. []) (touched_set q) = (Some b, ts)"
    and q1: "q1 = q\<lparr>touched_set := ts\<rparr>" and nb: "nb = get_block q1 (window_to_index q wd) b"
    using res by (auto simp: try_get_free_read_block_def Let_def split: prod.splits option.splits)
  obtain k m where km: "k < units q" "m < LENGTH('a)" "b = m + k * LENGTH('a)"
    "wanted ONE (bit (ne_unit (touched_set q) ?w k) m)"
    "ts = (touched_set q)\<lparr>ne_data := (ne_data (touched_set q))[?w * units q + k :=
        claim_test ONE m (ne_unit (touched_set q) ?w k)]\<rparr>"
    using ne_claim_bit_quiet_Some [OF dims_simps(6) [OF d] w(2) c] by blast
  define y where "y = claim_test ONE m (ne_unit (touched_set q) (unat wd mod window_count q) k)"
  have y: "\<forall>j < LENGTH('a). bit y j \<longleftrightarrow> j \<noteq> m \<and> bit (ne_unit (touched_set q) (unat wd mod window_count q) k) j"
    unfolding y_def claim_test_def using km(2) by (auto simp: bit_and_iff bit_not_iff bit_exp_iff)
  have bp: "b div LENGTH('a) = k" "b mod LENGTH('a) = m" "b < blocks_per_window q"
    using block_of_unit [OF d km(1,2)] km(3) by simp_all
  have q1': "q1 = put_touch (unat wd) k y q"
    by (simp add: q1 put_touch_def km(5) y_def w(1))
  note mv = untouch_move [OF inv km(1,2) L y q1']
  have "tbit q (unat wd) b" using km(4) by (simp add: tbit_def bp w(1))
  then have "fbit q (unat wd) b" using inv_block [OF inv L(1) L' bp(3)] by (simp add: block_ok_def)
  moreover have "nb = Block (blk q (unat wd) b)" unfolding nb q1 by (rule get_block_nat [OF _ d]) simp
  moreover have "\<not> tbit q1 (unat wd) b" unfolding km(3) by (rule mv(3))
  moreover have "q1 = put_touch (unat wd) (b div LENGTH('a)) y q" unfolding bp(1) by (rule q1')
  ultimately show ?thesis using that bp(3) mv(1,2) by blast
qed

lemma any_read_None:
  fixes q :: "('v::zero, 'a::len word) block_based_queue"
  assumes inv: "bbq_inv q"
    and res: "try_get_any_read_block q (global_read_window q) r (window_to_epoch q (global_read_window q)) = (None, q1)"
  shows "q1 = q \<and> (\<forall>k < units q. ubits (unit_at q (rwin q) k) = {})"
proof -
  have d: "dims_ok q" using inv by (rule inv_dims)
  let ?w = "unat (window_to_index q (global_read_window q))"
  let ?e = "window_to_epoch q (global_read_window q)"
  have w: "?w = rwin q mod window_count q" "?w < window_count q"
    using window_to_index_nat [OF d] dims_simps(1) [OF d] by simp_all
  obtain fs where c: "claim_bit TYPE('a) ONE READ_ONLY ?w r ?e (\<lambda>_. []) (filled_set q) = (None, fs)"
    and q1: "q1 = q\<lparr>filled_set := fs\<rparr>"
    using res by (auto simp: try_get_any_read_block_def Let_def split: prod.splits option.splits)
  note n = claim_bit_quiet_None [OF dims_simps(5) [OF d] w(2) c]
  have "ubits (unit_at q (rwin q) k) = {}" if k: "k < units q" for k
  proof (rule ccontr)
    assume ne: "ubits (unit_at q (rwin q) k) \<noteq> {}"
    have "unit_ok (wwin q) (rwin q) (ep q (rwin q)) (unit_at q (rwin q) k)"
      using inv_unit [OF inv _ _ k] inv_windows [OF inv] by simp
    then have "unat (get_epoch (unit_at q (rwin q) k)) = unat ?e"
      using ne window_to_epoch_nat [OF d] inv_windows(1) [OF inv] by (simp add: unit_ok_def)
    then have e: "get_epoch (bunit (filled_set q) ?w k) = ?e" by (simp add: word_eq_unat unit_at_def w(1))
    have "unit_wf TYPE('a) (bunit (filled_set q) ?w k)" using bunit_wf [OF dims_simps(5) [OF d] w(2) k] .
    moreover obtain m where "m \<in> ubits (bunit (filled_set q) ?w k)" using ne by (auto simp: unit_at_def w(1))
    ultimately show False using n e k by (auto simp: unit_wf_def)
  qed
  then show ?thesis using n q1 by simp
qed

lemma any_read_Some:
  fixes q :: "('v::zero, 'a::len word) block_based_queue"
  assumes inv: "bbq_inv q"
    and res: "try_get_any_read_block q (global_read_window q) r (window_to_epoch q (global_read_window q)) = (Some nb, q1)"
  obtains b where "q1 = q" "b < blocks_per_window q" "nb = Block (blk q (rwin q) b)" "fbit q (rwin q) b"
proof -
  have d: "dims_ok q" using inv by (rule inv_dims)
  let ?w = "unat (window_to_index q (global_read_window q))"
  let ?e = "window_to_epoch q (global_read_window q)"
  have w: "?w = rwin q mod window_count q" "?w < window_count q"
    using window_to_index_nat [OF d] dims_simps(1) [OF d] by simp_all
  obtain fs b where c: "claim_bit TYPE('a) ONE READ_ONLY ?w r ?e (\<lambda>_. []) (filled_set q) = (Some b, fs)"
    and q1: "q1 = q\<lparr>filled_set := fs\<rparr>" and nb: "nb = get_block q1 (window_to_index q (global_read_window q)) b"
    using res by (auto simp: try_get_any_read_block_def Let_def split: prod.splits option.splits)
  obtain k m where km: "k < units q" "m < LENGTH('a)" "b = m + k * LENGTH('a)"
    "wanted ONE (m \<in> ubits (bunit (filled_set q) ?w k))"
    "fs = (filled_set q)\<lparr>bs_data := (bs_data (filled_set q))[?w * units q + k :=
        if READ_ONLY = READ_ONLY then bunit (filled_set q) ?w k
        else claim_desired TYPE('a) ONE m ?e (bunit (filled_set q) ?w k)]\<rparr>"
    using claim_bit_quiet_Some [OF dims_simps(5) [OF d] w(2) c] by blast
  have "bs_units_per_window (filled_set q) = units q" using dims_simps(5) [OF d] by (simp add: bs_shape_def)
  then have "fs = filled_set q" using km(5) by (simp add: bunit_def)
  then have "q1 = q" using q1 by simp
  moreover have "nb = Block (blk q (rwin q) b)" unfolding nb q1 by (rule get_block_nat [OF _ d]) simp
  ultimately show ?thesis using that [of b] block_of_unit [OF d km(1,2)] km(3,4) by (simp add: fbit_def unit_at_def w(1))
qed

section \<open>What a search for a block may change\<close>

text \<open>The claimed blocks, and the write window the force move may lead to.\<close>

definition fset :: "('v, 'a::len word) block_based_queue \<Rightarrow> (nat \<times> nat) set" where
  "fset q = {(L, b). rwin q \<le> L \<and> L \<le> wwin q \<and> b < blocks_per_window q \<and> fbit q L b}"

definition wpot :: "('v, 'a::len word) block_based_queue \<Rightarrow> nat" where
  "wpot q = wwin q + (if \<exists>b < blocks_per_window q. fbit q (wwin q) b then 1 else 0)"

definition pop_room :: "('v, 'a::len word) block_based_queue \<Rightarrow> bool" where
  "pop_room q \<longleftrightarrow> wpot q div window_count q + 2 < 0x7fffffff"

definition rmove :: "('v::zero, 'a::len word) block_based_queue \<Rightarrow> ('v, 'a word) block_based_queue \<Rightarrow> bool" where
  "rmove q q' \<longleftrightarrow> bbq_inv q' \<and> keeps q q' \<and> bbq_content q' = bbq_content q \<and> row_at q' = row_at q
     \<and> head_at q' = head_at q \<and> rwin q \<le> rwin q' \<and> wwin q' - rwin q' \<le> wwin q - rwin q \<and> wpot q' \<le> wpot q
     \<and> fset q' = fset q \<and> window_count_log2 q' = window_count_log2 q"

lemma rmove_refl: "bbq_inv q \<Longrightarrow> rmove q q"
  by (simp add: rmove_def)

lemma rmove_trans: "rmove q r \<Longrightarrow> rmove r s \<Longrightarrow> rmove q s"
  unfolding rmove_def using keeps_trans [of q r s] by auto

lemma rmove_room: "rmove q q' \<Longrightarrow> pop_room q \<Longrightarrow> pop_room q'"
  unfolding rmove_def pop_room_def
  using div_le_mono [of "wpot q'" "wpot q" "window_count q"] same_dims_views(3) [OF keeps_dims] by fastforce

definition read_post :: "('v::zero, 'a::len word) block_based_queue \<Rightarrow> bbq_handle \<Rightarrow> choices
    \<Rightarrow> bool \<times> ('v, 'a word) block_based_queue \<times> bbq_handle \<times> choices \<Rightarrow> bool" where
  "read_post q h o1 = (\<lambda>(ok, q', h', o'). rmove q q' \<and> o_spurious o' = o_spurious o1
     \<and> h_write_epoch h' = h_write_epoch h \<and> h_write_block h' = h_write_block h
     \<and> unat (h_read_window h') < wwin q'
     \<and> (if ok then \<exists>L b. read_at q' h' L b
        else h_read_block h' = h_read_block h \<and> h_read_epoch h' = h_read_epoch h
          \<and> h_read_window_index h' = h_read_window_index h \<and> fset q' = {}))"

lemma read_post_step:
  assumes "rmove q q1" and "h_write_epoch h1 = h_write_epoch h" "h_write_block h1 = h_write_block h"
    "h_read_block h1 = h_read_block h" "h_read_epoch h1 = h_read_epoch h" "h_read_window_index h1 = h_read_window_index h"
    "o_spurious o2 = o_spurious o1" and "read_post q1 h1 o2 res"
  shows "read_post q h o1 res"
  using assms rmove_trans [OF assms(1)] by (cases res) (auto simp: read_post_def)

text \<open>A block that was found becomes the read block of the handle.\<close>

lemma read_post_found:
  fixes q :: "('v::zero, 'a::len word) block_based_queue"
  assumes d: "dims_ok q" and mv: "rmove q q1" and same: "rwin q1 = rwin q" "wwin q1 = wwin q"
    and wd: "rwin q \<le> unat wd" "unat wd \<le> Suc (rwin q)" "unat wd < wwin q"
    and b: "b < blocks_per_window q" "nb = Block (blk q (unat wd) b)" "fbit q1 (unat wd) b" "\<not> tbit q1 (unat wd) b"
    and d1: "dims_ok q1" and o2: "o_spurious o2 = o_spurious o1"
  shows "read_post q h o1 (True, q1, h\<lparr>h_read_window := wd, h_read_window_index := window_to_index q1 wd,
     h_read_epoch := window_to_epoch q1 wd, h_read_block := nb\<rparr>, o2)"
proof -
  have sd: "same_dims q q1" using mv keeps_dims by (auto simp: rmove_def)
  have "read_at q1 (h\<lparr>h_read_window := wd, h_read_window_index := window_to_index q1 wd,
     h_read_epoch := window_to_epoch q1 wd, h_read_block := nb\<rparr>) (unat wd) b"
    using b wd same same_dims_views [OF sd] window_to_epoch_nat [OF d1] window_to_index_nat [OF d1]
    by (simp add: read_at_def)
  then show ?thesis using mv o2 wd(3) same by (auto simp: read_post_def)
qed

section \<open>The turns of the search\<close>

text \<open>The part of a turn that looks at the filled set of the read window.\<close>

definition read_rest :: "nat \<Rightarrow> bool \<Rightarrow> ('v, 'a::len word) block_based_queue \<Rightarrow> bbq_handle \<Rightarrow> choices
    \<Rightarrow> (bool \<times> ('v, 'a word) block_based_queue \<times> bbq_handle \<times> choices) option" where
  "read_rest fuel dont_advance q1 h o2 =
     (let window_index = global_read_window q1; write_window = global_write_window q1;
          (r', o3) = random_bit_index q1 o2;
          (any_block, q2) = try_get_any_read_block q1 window_index r' (window_to_epoch q1 window_index)
      in case any_block of
           Some b \<Rightarrow> Some (True, q2, h\<lparr>h_read_window := window_index,
                 h_read_window_index := window_to_index q2 window_index,
                 h_read_epoch := window_to_epoch q2 window_index, h_read_block := b\<rparr>, o3)
         | None \<Rightarrow>
             if write_window = window_index + 1 then
               let write_epoch = window_to_epoch q2 write_window;
                   write_window_index = window_to_index q2 write_window
               in if \<not> bs_any (unat write_window_index) write_epoch (filled_set q2)
                  then Some (False, q2, h, o3)
                  else
                    let q3 = q2\<lparr>filled_set := set_epoch_if_empty (unat write_window_index)
                                                write_epoch (filled_set q2)\<rparr>;
                        q4 = cas_write_window write_window (write_window + 1) q3
                    in claim_new_block_read fuel dont_advance
                         (cas_read_window window_index (window_index + 1) q4) h o3
             else claim_new_block_read fuel dont_advance
                    (cas_read_window window_index (window_index + 1) q2) h o3)"

declare claim_new_block_read.simps [simp del]

definition ahead :: "bool \<Rightarrow> ('v, 'w) block_based_queue \<Rightarrow> bbq_handle \<Rightarrow> bool" where
  "ahead dont_advance q h \<longleftrightarrow> \<not> dont_advance \<and> global_read_window q + 1 = h_read_window h"

definition read_from :: "bool \<Rightarrow> ('v, 'w) block_based_queue \<Rightarrow> bbq_handle \<Rightarrow> u64" where
  "read_from dont_advance q h = (if ahead dont_advance q h then h_read_window h else global_read_window q)"

lemma read_turn_hit:
  assumes "random_bit_index q o1 = (r, o2)" and "try_get_free_read_block q (read_from da q h) r = (Some b, q1)"
  shows "claim_new_block_read (Suc n) da q h o1 = Some (True, q1, h\<lparr>h_read_window := read_from da q h,
    h_read_window_index := window_to_index q1 (read_from da q h),
    h_read_epoch := window_to_epoch q1 (read_from da q h), h_read_block := b\<rparr>, o2)"
  using assms by (subst claim_new_block_read.simps) (simp add: read_from_def ahead_def Let_def)

lemma read_turn_miss:
  assumes "random_bit_index q o1 = (r, o2)" and "try_get_free_read_block q (read_from da q h) r = (None, q)"
  shows "claim_new_block_read (Suc n) da q h o1 =
    (if ahead da q h then claim_new_block_read n True q h o2
     else if \<not> da \<and> global_read_window q + 1 \<noteq> global_write_window q
     then claim_new_block_read n da q (h\<lparr>h_read_window := global_read_window q + 1\<rparr>) o2
     else read_rest n da q h o2)"
  using assms unfolding read_rest_def read_from_def ahead_def
  by (subst claim_new_block_read.simps) (simp add: Let_def)

lemma next_window_nat:
  assumes "bbq_inv q"
  shows "unat (global_read_window q + 1) = Suc (rwin q)"
    "global_read_window q + 1 = global_write_window q \<longleftrightarrow> wwin q = Suc (rwin q)"
proof -
  have "Suc (rwin q) < 2 ^ LENGTH(64)"
    using inv_windows(1) [OF assms] unat_lt [of "global_write_window q"] by simp
  then show "unat (global_read_window q + 1) = Suc (rwin q)" by (rule unat_suc_small)
  then show "global_read_window q + 1 = global_write_window q \<longleftrightarrow> wwin q = Suc (rwin q)"
    by (auto simp: word_eq_unat)
qed

lemma read_from_nat:
  assumes "bbq_inv q" and "unat (h_read_window h) < wwin q"
  shows "rwin q \<le> unat (read_from da q h)" "unat (read_from da q h) \<le> Suc (rwin q)"
    "unat (read_from da q h) < wwin q"
  using assms next_window_nat(1) [OF assms(1)] inv_windows(1) [OF assms(1)]
  unfolding read_from_def ahead_def by (auto split: if_splits)

definition read_spec :: "nat \<Rightarrow> bool \<Rightarrow> ('v::zero, 'a::len word) block_based_queue \<Rightarrow> bbq_handle \<Rightarrow> choices \<Rightarrow> bool" where
  "read_spec n da q h o1 \<longleftrightarrow> (\<exists>res. claim_new_block_read n da q h o1 = Some res \<and> read_post q h o1 res)"

definition rest_spec :: "nat \<Rightarrow> bool \<Rightarrow> ('v::zero, 'a::len word) block_based_queue \<Rightarrow> bbq_handle \<Rightarrow> choices \<Rightarrow> bool" where
  "rest_spec n da q h o1 \<longleftrightarrow> (\<exists>res. read_rest n da q h o1 = Some res \<and> read_post q h o1 res)"

lemma touch_rmove:
  fixes q :: "('v::zero, 'a::len word) block_based_queue"
  assumes "q1 = put_touch L k y q" and "bbq_inv q1" and "evolves q q1"
  shows "rmove q q1"
  using assms evolves_keeps [OF assms(3)] by (simp add: rmove_def wpot_def fset_def)

text \<open>One turn: it finds a touched block, or the search goes on as the source says.\<close>

lemma read_turn:
  fixes q :: "('v::zero, 'a::len word) block_based_queue"
  assumes inv: "bbq_inv q" and hw: "unat (h_read_window h) < wwin q"
    and go: "\<And>o2. o_spurious o2 = o_spurious o1 \<Longrightarrow> \<forall>b < blocks_per_window q. \<not> tbit q (unat (read_from da q h)) b \<Longrightarrow>
      if ahead da q h then read_spec n True q h o2
      else if \<not> da \<and> wwin q \<noteq> Suc (rwin q)
      then read_spec n da q (h\<lparr>h_read_window := global_read_window q + 1\<rparr>) o2
      else rest_spec n da q h o2"
  shows "read_spec (Suc n) da q h o1"
proof -
  let ?wd = "read_from da q h"
  obtain r o2 where r: "random_bit_index q o1 = (r, o2)" by (cases "random_bit_index q o1")
  obtain nb q1 where t: "try_get_free_read_block q ?wd r = (nb, q1)" by fastforce
  note wd = read_from_nat [OF inv hw, of da]
  show ?thesis
  proof (cases nb)
    case (Some c)
    then obtain b y where b: "b < blocks_per_window q" "c = Block (blk q (unat ?wd) b)" "fbit q (unat ?wd) b"
      "bbq_inv q1" "evolves q q1" "\<not> tbit q1 (unat ?wd) b" "q1 = put_touch (unat ?wd) (b div LENGTH('a)) y q"
      using free_read_Some [OF inv wd(1,3), of r c q1] t by metis
    note mv = touch_rmove [OF b(7,4,5)]
    have "read_post q h o1 (True, q1, h\<lparr>h_read_window := ?wd, h_read_window_index := window_to_index q1 ?wd,
        h_read_epoch := window_to_epoch q1 ?wd, h_read_block := c\<rparr>, o2)"
      by (rule read_post_found [OF inv_dims [OF inv] mv _ _ wd b(1,2) _ b(6) inv_dims [OF b(4)] random_bit_frame [OF r]])
        (use b in simp_all)
    then show ?thesis unfolding read_spec_def using read_turn_hit [OF r, of da h c q1 n] t Some by blast
  next
    case None
    then have n: "q1 = q" "\<forall>b < blocks_per_window q. \<not> tbit q (unat ?wd) b"
      using free_read_None [OF inv] t by blast+
    have m: "claim_new_block_read (Suc n) da q h o1 =
      (if ahead da q h then claim_new_block_read n True q h o2
       else if \<not> da \<and> global_read_window q + 1 \<noteq> global_write_window q
       then claim_new_block_read n da q (h\<lparr>h_read_window := global_read_window q + 1\<rparr>) o2
       else read_rest n da q h o2)"
      by (rule read_turn_miss [OF r]) (use t n None in simp)
    have o2: "o_spurious o2 = o_spurious o1" using random_bit_frame [OF r] .
    note st = read_post_step [OF rmove_refl [OF inv] _ _ _ _ _ o2]
    show ?thesis
      using go [OF o2 n(2)] m next_window_nat(2) [OF inv]
      unfolding read_spec_def rest_spec_def by (auto split: if_splits intro!: st) simp_all
  qed
qed

lemma rest_any:
  assumes "random_bit_index q o1 = (r, o2)"
    and "try_get_any_read_block q (global_read_window q) r (window_to_epoch q (global_read_window q)) = (None, q)"
  shows "read_rest n da q h o1 =
    (if global_write_window q = global_read_window q + 1 then
       if \<not> bs_any (unat (window_to_index q (global_write_window q))) (window_to_epoch q (global_write_window q)) (filled_set q)
       then Some (False, q, h, o2)
       else claim_new_block_read n da (q\<lparr>filled_set := set_epoch_if_empty
           (unat (window_to_index q (global_write_window q))) (window_to_epoch q (global_write_window q)) (filled_set q),
           global_write_window := global_write_window q + 1, global_read_window := global_read_window q + 1\<rparr>) h o2
     else claim_new_block_read n da (q\<lparr>global_read_window := global_read_window q + 1\<rparr>) h o2)"
  using assms by (simp add: read_rest_def Let_def cas_write_window_def cas_read_window_def)

lemma no_bits_iff:
  fixes q :: "('v::zero, 'a::len word) block_based_queue"
  assumes "dims_ok q"
  shows "(\<forall>b < blocks_per_window q. \<not> fbit q L b) \<longleftrightarrow> (\<forall>k < units q. ubits (unit_at q L k) = {})"
proof
  assume f: "\<forall>b < blocks_per_window q. \<not> fbit q L b"
  show "\<forall>k < units q. ubits (unit_at q L k) = {}"
  proof (intro allI impI equals0I)
    fix k m assume k: "k < units q" and m: "m \<in> ubits (unit_at q L k)"
    have "unit_wf TYPE('a) (unit_at q L k)"
      unfolding unit_at_def using bunit_wf [OF dims_simps(5) [OF assms] _ k] dims_simps(1) [OF assms] by simp
    then have "m < LENGTH('a)" using m by (simp add: unit_wf_def)
    from block_of_unit [OF assms k this] show False using f m by (auto simp: fbit_def)
  qed
next
  assume "\<forall>k < units q. ubits (unit_at q L k) = {}"
  then show "\<forall>b < blocks_per_window q. \<not> fbit q L b"
    using block_position(1) [OF assms] by (auto simp: fbit_def)
qed

text \<open>The read window has a claimed block: it is found.\<close>

lemma rest_hit:
  fixes q :: "('v::zero, 'a::len word) block_based_queue"
  assumes inv: "bbq_inv q" and f: "\<exists>b < blocks_per_window q. fbit q (rwin q) b"
    and t: "\<forall>b < blocks_per_window q. \<not> tbit q (rwin q) b"
  shows "rest_spec n da q h o1"
proof -
  obtain r o2 where r: "random_bit_index q o1 = (r, o2)" by (cases "random_bit_index q o1")
  obtain nb q1 where a: "try_get_any_read_block q (global_read_window q) r (window_to_epoch q (global_read_window q))
    = (nb, q1)" by fastforce
  have "nb \<noteq> None" using any_read_None [OF inv, of r q1] a f no_bits_iff [OF inv_dims [OF inv], of "rwin q"] by auto
  then obtain c where c: "nb = Some c" by auto
  then obtain b where b: "q1 = q" "b < blocks_per_window q" "c = Block (blk q (rwin q) b)" "fbit q (rwin q) b"
    using any_read_Some [OF inv, of r c q1] a by metis
  have "read_post q h o1 (True, q, h\<lparr>h_read_window := global_read_window q,
      h_read_window_index := window_to_index q (global_read_window q),
      h_read_epoch := window_to_epoch q (global_read_window q), h_read_block := c\<rparr>, o2)"
    using inv_windows(1) [OF inv] t b
    by (intro read_post_found [OF inv_dims [OF inv] rmove_refl [OF inv] _ _ _ _ _ b(2,3) _ _ inv_dims [OF inv]
      random_bit_frame [OF r]]) simp_all
  moreover have "read_rest n da q h o1 = Some (True, q, h\<lparr>h_read_window := global_read_window q,
      h_read_window_index := window_to_index q (global_read_window q),
      h_read_epoch := window_to_epoch q (global_read_window q), h_read_block := c\<rparr>, o2)"
    using r a c b(1) by (simp add: read_rest_def Let_def)
  ultimately show ?thesis by (auto simp: rest_spec_def)
qed

text \<open>The read window is used up and is not the last before the write window.\<close>

lemma advance_read_rmove:
  fixes q :: "('v::zero, 'a::len word) block_based_queue"
  assumes inv: "bbq_inv q" and f: "\<forall>b < blocks_per_window q. \<not> fbit q (rwin q) b" and lt: "Suc (rwin q) < wwin q"
    and q': "q' = q\<lparr>global_read_window := global_read_window q + 1\<rparr>"
  shows "rmove q q'" "rwin q' = Suc (rwin q)" "wwin q' = wwin q"
proof -
  have "ubits (unit_at q (rwin q) k) = {}" if "k < units q" for k
    using f no_bits_iff [OF inv_dims [OF inv], of "rwin q"] that by blast
  note mv = advance_read_move [OF inv lt this q']
  show "rwin q' = Suc (rwin q)" "wwin q' = wwin q" using mv by (simp_all add: q')
  have "fset q' = fset q"
    using f mv(3) by (auto simp: fset_def q' Suc_le_eq le_less)
  then show "rmove q q'"
    using mv evolves_keeps [OF mv(2)] by (simp add: rmove_def) (simp add: q' wpot_def)
qed

lemma rest_move:
  fixes q :: "('v::zero, 'a::len word) block_based_queue"
  assumes inv: "bbq_inv q" and f: "\<forall>b < blocks_per_window q. \<not> fbit q (rwin q) b" and lt: "Suc (rwin q) < wwin q"
    and go: "\<And>(q' :: ('v, 'a word) block_based_queue) o2. rmove q q' \<Longrightarrow> rwin q' = Suc (rwin q) \<Longrightarrow> wwin q' = wwin q \<Longrightarrow>
      read_spec n da q' h o2"
  shows "rest_spec n da q h o1"
proof -
  obtain r o2 where r: "random_bit_index q o1 = (r, o2)" by (cases "random_bit_index q o1")
  obtain nb q1 where a: "try_get_any_read_block q (global_read_window q) r (window_to_epoch q (global_read_window q))
    = (nb, q1)" by fastforce
  have "nb = None" using any_read_Some [OF inv, of r _ q1] a f by (metis option.exhaust)
  then have a': "try_get_any_read_block q (global_read_window q) r (window_to_epoch q (global_read_window q)) = (None, q)"
    using any_read_None [OF inv, of r q1] a by simp
  define q' where "q' = q\<lparr>global_read_window := global_read_window q + 1\<rparr>"
  note mv = advance_read_rmove [OF inv f lt q'_def]
  have "global_write_window q \<noteq> global_read_window q + 1" using next_window_nat(2) [OF inv] lt by auto
  then have e: "read_rest n da q h o1 = claim_new_block_read n da q' h o2"
    using rest_any [OF r a', of n da h] by (simp add: q'_def)
  from go [OF mv, of o2] obtain res where "claim_new_block_read n da q' h o2 = Some res" "read_post q' h o2 res"
    by (auto simp: read_spec_def)
  then show ?thesis
    using e read_post_step [OF mv(1) _ _ _ _ _ random_bit_frame [OF r], of h h res] by (auto simp: rest_spec_def)
qed

text \<open>The force move: the write window is the next one and has claimed blocks.\<close>

lemma force_rmove:
  fixes q :: "('v::zero, 'a::len word) block_based_queue"
  assumes inv: "bbq_inv q" and f: "\<forall>b < blocks_per_window q. \<not> fbit q (rwin q) b" and last: "wwin q = Suc (rwin q)"
    and bits: "\<exists>b < blocks_per_window q. fbit q (wwin q) b" and room: "pop_room q"
    and q': "q' = q\<lparr>filled_set := set_epoch_if_empty (unat (window_to_index q (global_write_window q)))
        (window_to_epoch q (global_write_window q)) (filled_set q),
        global_write_window := global_write_window q + 1, global_read_window := global_read_window q + 1\<rparr>"
  shows "rmove q q'" "rwin q' = Suc (rwin q)" "wwin q' = Suc (wwin q)" "\<exists>b < blocks_per_window q'. fbit q' (rwin q') b"
proof -
  let ?W = "wwin q"
  let ?w = "unat (window_to_index q (global_write_window q))"
  let ?e = "window_to_epoch q (global_write_window q)"
  let ?fs = "set_epoch_if_empty ?w ?e (filled_set q)"
  have d: "dims_ok q" using inv by (rule inv_dims)
  have w: "?w = ?W mod window_count q" "?w < window_count q"
    using window_to_index_nat [OF d] dims_simps(1) [OF d] by simp_all
  have W: "rwin q \<le> ?W" "?W < rwin q + window_count q" using inv_windows [OF inv] by simp_all
  have four: "4 \<le> window_count q" using d by (simp add: dims_ok_def)
  have "wpot q = Suc ?W" using bits by (simp add: wpot_def)
  then have room1: "room 1 q" using room by (simp add: pop_room_def room_def)
  define q1 where "q1 = q\<lparr>filled_set := ?fs, global_write_window := global_write_window q + 1\<rparr>"
  have u: "unit_at q1 L k = (if L mod window_count q = ?W mod window_count q \<and> unit_at q ?W k = make_unit ?e
      then make_unit (?e + 1) else unit_at q L k)" if "k < units q" for L k
    using set_epoch_if_empty_bunit [OF dims_simps(5) [OF d] w(2) _ that, of "L mod window_count q" ?e]
      dims_simps(1) [OF d] by (auto simp: unit_at_def q1_def w(1))
  have ew: "unat (get_epoch (unit_at q ?W k)) = ep q ?W" if "k < units q" for k
    using inv_unit [OF inv W that] by (simp add: unit_ok_def)
  have emp: "unit_at q ?W k = make_unit ?e \<longleftrightarrow> ubits (unit_at q ?W k) = {}" if "k < units q" for k
  proof -
    have "get_epoch (unit_at q ?W k) = ?e" using ew [OF that] window_to_epoch_nat [OF d] by (simp add: word_eq_unat)
    then show ?thesis using small_ep(1) [OF inv W(2)] unit_eq_ubits [of "unit_at q ?W k" "make_unit ?e"] by auto
  qed
  have se: "unat (get_epoch (make_unit (?e + 1))) = Suc (ep q ?W)"
    using small_ep(2,3) [OF inv W(2)] by simp
  have d1: "dims_ok (q\<lparr>filled_set := ?fs\<rparr>)"
    using d set_epoch_if_empty_shape [OF dims_simps(5) [OF d]] by (simp add: dims_ok_def)
  have "Suc ?W < rwin q + window_count q" using last four by simp
  note mv1 = advance_write_move [OF inv room1 this d1 q1_def]
  have mv: "bbq_inv q1" "evolves q q1" "wwin q1 = Suc ?W"
    using mv1 u emp ew se by simp_all
  have fb: "fbit q1 L b = fbit q L b" if "b < blocks_per_window q" for L b
  proof (cases "L mod window_count q = ?W mod window_count q")
    case True
    then have "unit_at q L = unit_at q ?W" by (simp add: unit_at_def fun_eq_iff)
    then show ?thesis using u [OF block_position(1) [OF d that], of L] emp [OF block_position(1) [OF d that]]
      by (auto simp: fbit_def)
  next
    case False
    then show ?thesis using u [OF block_position(1) [OF d that], of L] by (simp add: fbit_def)
  qed
  have rest: "rwin q1 = rwin q" "blocks_per_window q1 = blocks_per_window q" "global_read_window q1 = global_read_window q"
    "row_at q1 = row_at q" "head_at q1 = head_at q" by (simp_all add: q1_def)
  have nf: "\<not> fbit q (Suc ?W) b" if "b < blocks_per_window q" for b
    using inv_unit [OF inv _ _ block_position(1) [OF d that], of "Suc ?W"] W last four by (simp add: unit_ok_def fbit_def)
  have q'': "q' = q1\<lparr>global_read_window := global_read_window q1 + 1\<rparr>" by (simp add: q' q1_def)
  have f1: "\<forall>b < blocks_per_window q1. \<not> fbit q1 (rwin q1) b" using f fb by (simp add: rest)
  have lt1: "Suc (rwin q1) < wwin q1" using last mv(3) by (simp add: rest)
  note mv2 = advance_read_rmove [OF mv(1) f1 lt1 q'']
  have "fset q1 = fset q" using fb nf mv(3) by (auto simp: fset_def rest le_Suc_eq)
  moreover have "wpot q1 \<le> wpot q" using nf fb mv(3) bits by (auto simp: wpot_def rest)
  moreover have "wwin q' - rwin q' \<le> wwin q - rwin q" using mv2(2,3) mv(3) rest(1) last by simp
  moreover have "bbq_content q1 = bbq_content q" "window_count_log2 q1 = window_count_log2 q" by (simp_all add: q1_def)
  ultimately show rm: "rmove q q'"
    using mv2(1) keeps_trans [OF evolves_keeps [OF mv(2)]] rest unfolding rmove_def by auto
  show R': "rwin q' = Suc (rwin q)" and "wwin q' = Suc ?W" using mv2 mv(3) rest by simp_all
  obtain b where "(?W, b) \<in> fset q" using bits W by (auto simp: fset_def)
  then have "(rwin q', b) \<in> fset q'" using rm R' last by (simp add: rmove_def)
  then show "\<exists>b < blocks_per_window q'. fbit q' (rwin q') b" by (auto simp: fset_def)
qed

lemma rest_last:
  fixes q :: "('v::zero, 'a::len word) block_based_queue"
  assumes inv: "bbq_inv q" and hw: "unat (h_read_window h) < wwin q"
    and f: "\<forall>b < blocks_per_window q. \<not> fbit q (rwin q) b" and last: "wwin q = Suc (rwin q)" and room: "pop_room q"
    and go: "\<And>(q' :: ('v, 'a word) block_based_queue) o2. rmove q q' \<Longrightarrow> wwin q' = Suc (rwin q') \<Longrightarrow>
      unat (h_read_window h) < wwin q' \<Longrightarrow> \<exists>b < blocks_per_window q'. fbit q' (rwin q') b \<Longrightarrow> read_spec n da q' h o2"
  shows "rest_spec n da q h o1"
proof -
  let ?W = "wwin q"
  have d: "dims_ok q" using inv by (rule inv_dims)
  obtain r o2 where r: "random_bit_index q o1 = (r, o2)" by (cases "random_bit_index q o1")
  obtain nb q1 where a: "try_get_any_read_block q (global_read_window q) r (window_to_epoch q (global_read_window q))
    = (nb, q1)" by fastforce
  have "nb = None" using any_read_Some [OF inv, of r _ q1] a f by (metis option.exhaust)
  then have a': "try_get_any_read_block q (global_read_window q) r (window_to_epoch q (global_read_window q)) = (None, q)"
    using any_read_None [OF inv, of r q1] a by simp
  have gw: "global_write_window q = global_read_window q + 1" using next_window_nat(2) [OF inv] last by simp
  have W: "rwin q \<le> ?W" "?W < rwin q + window_count q" using inv_windows [OF inv] by simp_all
  let ?any = "bs_any (unat (window_to_index q (global_write_window q))) (window_to_epoch q (global_write_window q)) (filled_set q)"
  have "get_epoch (unit_at q ?W k) = window_to_epoch q (global_write_window q)" if "k < units q" for k
    using inv_unit [OF inv W that] window_to_epoch_nat [OF d] by (simp add: unit_ok_def word_eq_unat)
  then have any: "?any \<longleftrightarrow> (\<exists>b < blocks_per_window q. fbit q ?W b)"
    using no_bits_iff [OF d, of ?W] dims_simps(5) [OF d]
    by (auto simp: bs_any_iff unit_at_def window_to_index_nat [OF d] bs_shape_def)
  show ?thesis
  proof (cases ?any)
    case False
    then have "fset q = {}" using any f last by (auto simp: fset_def le_Suc_eq)
    then have "read_post q h o1 (False, q, h, o2)"
      using rmove_refl [OF inv] random_bit_frame [OF r] hw by (simp add: read_post_def)
    then show ?thesis using rest_any [OF r a', of n da h] gw False by (auto simp: rest_spec_def)
  next
    case True
    define q' where "q' = q\<lparr>filled_set := set_epoch_if_empty (unat (window_to_index q (global_write_window q)))
        (window_to_epoch q (global_write_window q)) (filled_set q),
        global_write_window := global_write_window q + 1, global_read_window := global_read_window q + 1\<rparr>"
    have bits: "\<exists>b < blocks_per_window q. fbit q ?W b" using any True by simp
    note mv = force_rmove [OF inv f last bits room q'_def]
    have e: "read_rest n da q h o1 = claim_new_block_read n da q' h o2"
      using rest_any [OF r a', of n da h] gw True by (simp add: q'_def)
    have "wwin q' = Suc (rwin q')" "unat (h_read_window h) < wwin q'" using mv last hw by simp_all
    from go [OF mv(1) this mv(4), of o2]
    obtain res where "claim_new_block_read n da q' h o2 = Some res" "read_post q' h o2 res"
      by (auto simp: read_spec_def)
    then show ?thesis
      using e read_post_step [OF mv(1) _ _ _ _ _ random_bit_frame [OF r], of h h res] by (auto simp: rest_spec_def)
  qed
qed

section \<open>The search returns\<close>

lemma ahead_window:
  assumes "bbq_inv q" and "unat (h_read_window h) < wwin q" and "wwin q = Suc (rwin q)"
  shows "\<not> ahead da q h"
  using assms next_window_nat(1) [OF assms(1)] by (auto simp: ahead_def)

lemma search_found:
  assumes inv: "bbq_inv q" and hw: "unat (h_read_window h) < wwin q"
    and f: "\<exists>b < blocks_per_window q. fbit q (rwin q) b" and da: "da \<or> wwin q = Suc (rwin q)"
  shows "read_spec (Suc n) da q h o1"
proof (rule read_turn [OF inv hw])
  fix o2 assume t: "\<forall>b < blocks_per_window q. \<not> tbit q (unat (read_from da q h)) b"
  have na: "\<not> ahead da q h" using ahead_window [OF inv hw] da by (auto simp: ahead_def)
  then have "rest_spec n da q h o2" using rest_hit [OF inv f] t by (simp add: read_from_def)
  then show "if ahead da q h then read_spec n True q h o2
      else if \<not> da \<and> wwin q \<noteq> Suc (rwin q)
      then read_spec n da q (h\<lparr>h_read_window := global_read_window q + 1\<rparr>) o2
      else rest_spec n da q h o2" using na da by auto
qed

lemma search_stay:
  fixes q :: "('v::zero, 'a::len word) block_based_queue"
  assumes "bbq_inv q" and "unat (h_read_window h) < wwin q" and "pop_room q" and "wwin q - rwin q < n"
    and "da \<or> wwin q = Suc (rwin q)"
  shows "read_spec n da q h o1"
  using assms
proof (induction n arbitrary: q o1)
  case (Suc n)
  note inv = Suc.prems(1) and hw = Suc.prems(2) and room = Suc.prems(3)
  have na: "\<not> ahead da q h" using ahead_window [OF inv hw] Suc.prems(5) by (auto simp: ahead_def)
  have n: "0 < n" using Suc.prems(4) inv_windows(1) [OF inv] by simp
  show ?case
  proof (rule read_turn [OF inv hw])
    fix o2 assume t: "\<forall>b < blocks_per_window q. \<not> tbit q (unat (read_from da q h)) b"
    have "rest_spec n da q h o2"
    proof (cases "\<exists>b < blocks_per_window q. fbit q (rwin q) b")
      case True
      then show ?thesis using rest_hit [OF inv True] t na by (simp add: read_from_def)
    next
      case False
      then have f: "\<forall>b < blocks_per_window q. \<not> fbit q (rwin q) b" by blast
      show ?thesis
      proof (cases "wwin q = Suc (rwin q)")
        case True
        show ?thesis
        proof (rule rest_last [OF inv hw f True room])
          fix q' :: "('v, 'a word) block_based_queue" and o2
          assume "rmove q q'" "wwin q' = Suc (rwin q')" "unat (h_read_window h) < wwin q'"
            "\<exists>b < blocks_per_window q'. fbit q' (rwin q') b"
          then show "read_spec n da q' h o2"
            using search_found [of q' h da "n - 1" o2] n by (auto simp: rmove_def)
        qed
      next
        case False2: False
        then have lt: "Suc (rwin q) < wwin q" using inv_windows(1) [OF inv] by simp
        show ?thesis
        proof (rule rest_move [OF inv f lt])
          fix q' :: "('v, 'a word) block_based_queue" and o2
          assume mv: "rmove q q'" "rwin q' = Suc (rwin q)" "wwin q' = wwin q"
          show "read_spec n da q' h o2"
            by (rule Suc.IH) (use mv hw room rmove_room [OF mv(1)] Suc.prems(4,5) False2 lt in \<open>auto simp: rmove_def\<close>)
        qed
      qed
    qed
    then show "if ahead da q h then read_spec n True q h o2
      else if \<not> da \<and> wwin q \<noteq> Suc (rwin q)
      then read_spec n da q (h\<lparr>h_read_window := global_read_window q + 1\<rparr>) o2
      else rest_spec n da q h o2" using na Suc.prems(5) by auto
  qed
qed simp

lemma search_ahead:
  fixes q :: "('v::zero, 'a::len word) block_based_queue"
  assumes inv: "bbq_inv q" and hw: "unat (h_read_window h) < wwin q" and room: "pop_room q" and n: "wwin q - rwin q < n"
    and a: "ahead da q h"
  shows "read_spec (Suc n) da q h o1"
  by (rule read_turn [OF inv hw]) (use search_stay [OF inv hw room n] a in simp)

text \<open>Whatever the handle remembers, the search for a block to read returns.\<close>

lemma search_returns:
  fixes q :: "('v::zero, 'a::len word) block_based_queue"
  assumes inv: "bbq_inv q" and hw: "unat (h_read_window h) < wwin q" and room: "pop_room q"
    and n: "wwin q - rwin q + 3 \<le> n"
  shows "\<exists>res. claim_new_block_read n False q h o1 = Some res \<and> read_post q h o1 res"
proof -
  obtain m where m: "n = Suc (Suc m)" "wwin q - rwin q < m" using n by (cases n; cases "n - 1") auto
  have "read_spec n False q h o1"
  proof (cases "ahead False q h")
    case True
    then show ?thesis using search_ahead [OF inv hw room, of "Suc m"] m by simp
  next
    case na: False
    show ?thesis
    proof (cases "wwin q = Suc (rwin q)")
      case True
      then show ?thesis using search_stay [OF inv hw room, of n False] m by simp
    next
      case False
      have lt: "Suc (rwin q) < wwin q" using False inv_windows(1) [OF inv] by simp
      let ?h = "h\<lparr>h_read_window := global_read_window q + 1\<rparr>"
      have hw': "unat (h_read_window ?h) < wwin q" using next_window_nat(1) [OF inv] lt by simp
      have "ahead False q ?h" by (simp add: ahead_def)
      from search_ahead [OF inv hw' room m(2) this] show ?thesis
        unfolding m(1) by (intro read_turn [OF inv hw]) (use na False in simp)
    qed
  qed
  then show ?thesis by (simp add: read_spec_def)
qed

end
