(* ===== verification/Block_Queue_Pop.thy ===== *)
theory Block_Queue_Pop
  imports Block_Queue_Read
begin

text \<open>
  \<^verbatim>\<open>pop\<close> of the BlockFIFO: with enough fuel it returns, takes an element of one of the two
  oldest windows, and answers that the queue is empty exactly when it is.
\<close>

section \<open>Retiring the block of a handle\<close>

lemma read_at_facts:
  assumes inv: "bbq_inv q" and r: "read_at q h L b"
  shows "rwin q \<le> L" "L < wwin q" "L < rwin q + window_count q" "b < blocks_per_window q"
    "get_header q (h_read_block h) = head_at q L b" "he (head_at q L b) \<le> ep q L"
    "epoch_valid (header_epoch (head_at q L b)) (h_read_epoch h)"
    "block_ok (cells_per_block q) (wwin q) L (ep q L) True False (head_at q L b) (row_at q L b)"
proof -
  show L: "rwin q \<le> L" "L < wwin q" "b < blocks_per_window q" using r by (simp_all add: read_at_def)
  show L': "L < rwin q + window_count q" using L inv_windows(2) [OF inv] by simp
  show "get_header q (h_read_block h) = head_at q L b" using r by (simp add: read_at_def head_at_def)
  show ok: "block_ok (cells_per_block q) (wwin q) L (ep q L) True False (head_at q L b) (row_at q L b)"
    using inv_block [OF inv L(1) L' L(3)] r by (simp add: read_at_def)
  then show e: "he (head_at q L b) \<le> ep q L" by (simp add: block_ok_def)
  then show "epoch_valid (header_epoch (head_at q L b)) (h_read_epoch h)"
    using ep_bound(2) [OF inv L'] r unfolding header_epoch_valid read_at_def by simp
qed

lemma reset_filled_put:
  fixes q :: "('v::zero, 'a::len word) block_based_queue"
  assumes inv: "bbq_inv q" and r: "read_at q h L b"
  obtains x where "reset_filled (put_head L b hh q) h = put_unit L (b div LENGTH('a)) x (put_head L b hh q)"
    "unit_wf TYPE('a) x" "ubits x = ubits (unit_at q L (b div LENGTH('a))) - {b mod LENGTH('a)}"
    "unat (get_epoch x) = (if ubits x = {} then Suc (ep q L) else ep q L)"
proof -
  let ?k = "b div LENGTH('a)" and ?m = "b mod LENGTH('a)"
  have d: "dims_ok q" using inv by (rule inv_dims)
  note f = read_at_facts [OF inv r]
  define u where "u = unit_at q L ?k"
  define x where "x = set_bit_test False ?m (h_read_epoch h) u"
  have k: "?k < units q" "?m < LENGTH('a)" using block_position(1,2) [OF d f(4)] by simp_all
  have m: "?m < 32" using k(2) dims_simps(9) [OF d] by (rule less_le_trans)
  have bit: "?m \<in> ubits u" using r by (simp add: read_at_def fbit_def u_def)
  have e: "unat (h_read_epoch h) = ep q L" using r by (simp add: read_at_def)
  have eu: "get_epoch u = h_read_epoch h"
    using inv_unit [OF inv f(1,3) k(1)] f(2) bit e by (auto simp: unit_ok_def u_def word_eq_unat)
  have b: "ep q L + 1 < 0x7fffffff" using ep_bound(2) [OF inv f(3)] .
  have "Suc (unat (h_read_epoch h)) < 2 ^ LENGTH(64)" using e b by simp
  from unat_suc_small [OF this] have e1: "unat (h_read_epoch h + 1) = Suc (ep q L)" using e by simp
  have se: "small_epoch (h_read_epoch h + 1)" unfolding small_epoch_def e1 using b by simp
  note st = set_bit_test_unit [OF m eu se]
  have idx: "h_read_block h = Block (L mod window_count q * blocks_per_window q + b)"
    "unat (h_read_window_index h) = L mod window_count q" using r by (simp_all add: read_at_def blk_def)
  have sh: "bs_units_per_window (filled_set q) = units q" using dims_simps(5) [OF d] by (simp add: bs_shape_def)
  have "reset_filled (put_head L b hh q) h = put_unit L ?k x (put_head L b hh q)"
    using eu unfolding reset_filled_def put_unit_def
    by (simp add: idx bs_reset_def Let_def sh x_def u_def unit_at_def bunit_def)
  moreover have ux: "ubits x = ubits u - {?m}" using st(3,4) unfolding x_def by (cases "ubits u - {?m} = {}") auto
  moreover have "unat (get_epoch x) = (if ubits x = {} then Suc (ep q L) else ep q L)"
    using st(3,4) e e1 se ux unfolding x_def by (cases "ubits u - {?m} = {}") auto
  moreover have "unit_wf TYPE('a) x"
  proof -
    have "unit_wf TYPE('a) u" unfolding u_def unit_at_def
      using bunit_wf [OF dims_simps(5) [OF d] _ k(1)] dims_simps(1) [OF d] by simp
    then show ?thesis using ux by (auto simp: unit_wf_def)
  qed
  ultimately show ?thesis using that by (simp add: u_def)
qed

text \<open>
  Retiring the handle's block, whose last element (if any) is taken: the invariant, the
  handles, and the set of claimed blocks.
\<close>

lemma retire_block:
  fixes q :: "('v::zero, 'a::len word) block_based_queue"
  assumes inv: "bbq_inv q" and r: "read_at q h L b" and ei: "ei = head_at q L b" "hw ei = Suc (hr ei) \<or> hw ei = 0"
    and q': "q' = put_cell L b (hr ei) 0 (reset_filled (put_head L b (epoch_to_header (h_read_epoch h + 1)) q) h)"
  shows "bbq_inv q'" "evolves q q'" "head_at q' L b = epoch_to_header (h_read_epoch h + 1)"
    "he (epoch_to_header (h_read_epoch h + 1)) = Suc (ep q L)"
    "fset q' = fset q - {(L, b)}" "wpot q' = wpot q" "rwin q' = rwin q" "wwin q' = wwin q"
    "bbq_content q' = bbq_content (put_cell L b (hr ei) 0 q)" "window_count_log2 q' = window_count_log2 q"
    "row_at (reset_filled (put_head L b (epoch_to_header (h_read_epoch h + 1)) q) h) = row_at q"
proof -
  let ?hh = "epoch_to_header (h_read_epoch h + 1)"
  have d: "dims_ok q" using inv by (rule inv_dims)
  note f = read_at_facts [OF inv r]
  have e: "unat (h_read_epoch h) = ep q L" using r by (simp add: read_at_def)
  have b: "ep q L + 1 < 0x7fffffff" using ep_bound(2) [OF inv f(3)] .
  have "Suc (unat (h_read_epoch h)) < 2 ^ LENGTH(64)" using e b by simp
  from unat_suc_small [OF this] have e1: "unat (h_read_epoch h + 1) = Suc (ep q L)" using e by simp
  then have "unat (h_read_epoch h + 1) < 2 ^ 32" using b by simp
  note hh = epoch_to_header_fields [OF this]
  then show hh1: "he ?hh = Suc (ep q L)" using e1 by simp
  obtain x where x: "reset_filled (put_head L b ?hh q) h = put_unit L (b div LENGTH('a)) x (put_head L b ?hh q)"
    "unit_wf TYPE('a) x" "ubits x = ubits (unit_at q L (b div LENGTH('a))) - {b mod LENGTH('a)}"
    "unat (get_epoch x) = (if ubits x = {} then Suc (ep q L) else ep q L)"
    using reset_filled_put [OF inv r] by blast
  have fb: "fbit q L b" "\<not> tbit q L b" using r by (simp_all add: read_at_def)
  have q'': "q' = put_cell L b (hr ei) 0 (put_unit L (b div LENGTH('a)) x (put_head L b ?hh q))" using q' x(1) by simp
  note mv = retire_move [OF inv f(4,1,2) fb ei hh1 hh(2,3) refl x(2,3,4) q'']
  show "bbq_inv q'" "evolves q q'" "head_at q' L b = ?hh" using mv by simp_all
  show w: "rwin q' = rwin q" "wwin q' = wwin q" "window_count_log2 q' = window_count_log2 q" by (simp_all add: q'')
  have bpw: "blocks_per_window q' = blocks_per_window q" by (simp add: q'')
  have other: "fbit q' M c = fbit q M c" if "M \<noteq> L" "rwin q \<le> M" "M \<le> wwin q" "c < blocks_per_window q" for M c
  proof -
    have "M mod window_count q \<noteq> L mod window_count q"
      using same_window [of "rwin q" M "window_count q" L] that f inv_windows(2) [OF inv] by auto
    then show ?thesis unfolding q'' put_bits
      using fbit_put [OF dims_put_other(2) [OF d, of L b ?hh], of "b div LENGTH('a)" c L x M]
        block_position(1) [OF d f(4)] that by simp
  qed
  show "fset q' = fset q - {(L, b)}"
  proof (intro set_eqI iffI)
    fix p assume "p \<in> fset q'"
    then show "p \<in> fset q - {(L, b)}"
      using other mv(3,5) w bpw by (cases p; cases "fst p = L"; cases "snd p = b") (auto simp: fset_def)
  next
    fix p assume "p \<in> fset q - {(L, b)}"
    then show "p \<in> fset q'"
      using other mv(3,5) w bpw by (cases p; cases "fst p = L"; cases "snd p = b") (auto simp: fset_def)
  qed
  show "wpot q' = wpot q"
    using other [of "wwin q"] f(2) inv_windows(1) [OF inv] w bpw by (auto simp: wpot_def)
  show "bbq_content q' = bbq_content (put_cell L b (hr ei) 0 q)"
    by (simp add: q'' bbq_content_def put_cell_def put_unit_def put_head_def row_at_def blk_def)
  show "row_at (reset_filled (put_head L b ?hh q) h) = row_at q" by (simp add: x(1))
qed

section \<open>Where the elements are\<close>

lemma every_block:
  assumes d: "dims_ok q" and n: "n < window_count q * blocks_per_window q"
  obtains L b where "rwin q \<le> L" "L < rwin q + window_count q" "b < blocks_per_window q" "n = blk q L b"
proof -
  let ?B = "blocks_per_window q" and ?C = "window_count q" and ?R = "rwin q"
  have B: "0 < ?B" using n by (cases "?B = 0") auto
  define w where "w = n div ?B"
  have w: "w < ?C" unfolding w_def using n by (simp add: less_mult_imp_div_less)
  define L where "L = (if ?R mod ?C \<le> w then ?R - ?R mod ?C + w else ?R - ?R mod ?C + ?C + w)"
  have R: "?R - ?R mod ?C = ?R div ?C * ?C" using minus_mod_eq_div_mult [of ?R ?C] .
  have "r \<le> (if m \<le> w then r - m + w else r - m + c + w) \<and> (if m \<le> w then r - m + w else r - m + c + w) < r + c"
    if "m \<le> r" "m < c" "w < c" for r m c w :: nat using that by (cases "m \<le> w") auto
  from this [of "?R mod ?C" ?R ?C w] have "?R \<le> L \<and> L < ?R + ?C" using w unfolding L_def by simp
  moreover have "(a * c + c + w) mod c = w" "(a * c + w) mod c = w" if "w < c" for a c w :: nat
    using that mod_mult_self3 [of "Suc a" c w] by (simp_all add: algebra_simps)
  then have "L mod ?C = w" unfolding L_def R using w by simp
  moreover have "n = w * ?B + n mod ?B" unfolding w_def by simp
  ultimately show ?thesis using that [of L "n mod ?B"] B by (simp add: blk_def)
qed

lemma unclaimed_row:
  assumes "bbq_inv q" and "rwin q \<le> L" and "L < rwin q + window_count q" and "b < blocks_per_window q"
    and "\<not> fbit q L b" and "i < cells_per_block q"
  shows "row_at q L b ! i = 0"
  using inv_block [OF assms(1-4)] assms(5,6) by (auto simp: block_ok_def)

lemma unclaimed_above:
  assumes inv: "bbq_inv q" and "wwin q < L" and "L < rwin q + window_count q" and "b < blocks_per_window q"
  shows "\<not> fbit q L b"
  using inv_unit [OF inv _ assms(3) block_position(1) [OF inv_dims [OF inv] assms(4)]] assms inv_windows(1) [OF inv]
  by (simp add: unit_ok_def fbit_def)

lemma no_claimed_empty:
  assumes inv: "bbq_inv q" and f: "fset q = {}"
  shows "bbq_content q = {#}"
proof -
  have d: "dims_ok q" using inv by (rule inv_dims)
  have "x = 0" if x: "x \<in> set (concat (cells q))" for x
  proof -
    obtain c where c: "c \<in> set (cells q)" "x \<in> set c" using x by auto
    then obtain n where n: "n < length (cells q)" "c = cells q ! n" by (auto simp: in_set_conv_nth)
    then obtain L b where L: "rwin q \<le> L" "L < rwin q + window_count q" "b < blocks_per_window q" "n = blk q L b"
      using every_block [OF d, of n] dims_simps(4) [OF d] by auto
    have c': "c = row_at q L b" using n L by (simp add: row_at_def)
    have nf: "\<not> fbit q L b"
      using f L unclaimed_above [OF inv _ L(2,3)] by (cases "wwin q < L") (auto simp: fset_def)
    obtain i where "i < length c" "x = c ! i" using c(2) by (auto simp: in_set_conv_nth)
    then show "x = 0" using unclaimed_row [OF inv L(1-3) nf, of i] row_length [OF d L(3), of L] c' by simp
  qed
  then show ?thesis by (simp add: bbq_content_def filter_empty_conv)
qed

lemma fset_finite: "finite (fset q)"
proof -
  have "fset q \<subseteq> {..wwin q} \<times> {..<blocks_per_window q}" by (auto simp: fset_def)
  then show ?thesis by (rule finite_subset) simp
qed

section \<open>The turns of pop\<close>

definition passed_empty :: "('v::zero, 'w) block_based_queue \<Rightarrow> nat \<Rightarrow> bool" where
  "passed_empty q R' \<longleftrightarrow> (\<forall>M b i. rwin q \<le> M \<and> M < R' \<and> b < blocks_per_window q \<and> i < cells_per_block q
     \<longrightarrow> row_at q M b ! i = 0)"

definition pmove :: "('v::zero, 'a::len word) block_based_queue \<Rightarrow> ('v, 'a word) block_based_queue \<Rightarrow> bool" where
  "pmove q q' \<longleftrightarrow> bbq_inv q' \<and> keeps q q' \<and> bbq_content q' = bbq_content q \<and> row_at q' = row_at q
     \<and> rwin q \<le> rwin q' \<and> wwin q' - rwin q' \<le> wwin q - rwin q \<and> wpot q' \<le> wpot q \<and> passed_empty q (rwin q')"

definition pop_post :: "('v::zero, 'a::len word) block_based_queue \<Rightarrow> choices
    \<Rightarrow> 'v option \<times> ('v, 'a word) block_based_queue \<times> bbq_handle \<times> choices \<Rightarrow> bool" where
  "pop_post q o1 = (\<lambda>(r, q', h', o'). bbq_inv q' \<and> keeps q q' \<and> handle_ok q' h'
     \<and> rwin q \<le> rwin q' \<and> wwin q' - rwin q' \<le> wwin q - rwin q \<and> wpot q' \<le> wpot q
     \<and> length (o_spurious o') \<le> length (o_spurious o1) \<and> passed_empty q (rwin q')
     \<and> (case r of None \<Rightarrow> bbq_content q = {#} \<and> bbq_content q' = {#}
        | Some v \<Rightarrow> v \<noteq> 0 \<and> bbq_content q = add_mset v (bbq_content q')
            \<and> (\<exists>L b i. rwin q' \<le> L \<and> L \<le> Suc (rwin q') \<and> b < blocks_per_window q \<and> i < cells_per_block q
                 \<and> row_at q L b ! i = v)))"

lemma passed_empty_trans:
  assumes "passed_empty q (rwin q1)" and "passed_empty q1 R'" and "same_dims q q1" and "row_at q1 = row_at q"
  shows "passed_empty q R'"
  using assms same_dims_views(4,5) [OF assms(3)] unfolding passed_empty_def by (metis not_le)

lemma pmove_trans: "pmove q r \<Longrightarrow> pmove r s \<Longrightarrow> pmove q s"
  unfolding pmove_def
  using keeps_trans [of q r s] passed_empty_trans [of q r "rwin s"] keeps_dims [of q r] by auto

lemma pop_post_step:
  assumes "pmove q q1" and "length (o_spurious o2) \<le> length (o_spurious o1)" and "pop_post q1 o2 res"
  shows "pop_post q o1 res"
proof -
  obtain r q' h' o' where res: "res = (r, q', h', o')" by (cases res)
  have sd: "same_dims q q1" using assms(1) keeps_dims by (auto simp: pmove_def)
  show ?thesis
    using assms keeps_trans [of q q1 q'] passed_empty_trans [OF _ _ sd, of "rwin q'"] same_dims_views(4,5) [OF sd]
    unfolding res pop_post_def pmove_def by (auto split: option.splits)
qed

lemma pmove_room: "pmove q q' \<Longrightarrow> pop_room q \<Longrightarrow> pop_room q'"
  unfolding pmove_def pop_room_def
  using div_le_mono [of "wpot q'" "wpot q" "window_count q"] same_dims_views(3) [OF keeps_dims] by fastforce

lemma rmove_pmove:
  fixes q :: "('v::zero, 'a::len word) block_based_queue"
  assumes inv: "bbq_inv q" and mv: "rmove q q'"
  shows "pmove q q'"
proof -
  have "row_at q M b ! i = 0" if M: "rwin q \<le> M" "M < rwin q'" "b < blocks_per_window q" "i < cells_per_block q" for M b i
  proof -
    have w: "wwin q' \<le> Suc (wwin q)" using mv by (auto simp: rmove_def wpot_def split: if_splits)
    have inv': "bbq_inv q'" using mv by (simp add: rmove_def)
    then have "M < wwin q" using w M inv_windows(1) [OF inv'] by simp
    moreover have "fset q' = fset q" using mv by (simp add: rmove_def)
    moreover have "(M, b) \<notin> fset q'" using M(2) by (simp add: fset_def)
    ultimately have "(M, b) \<notin> fset q" by simp
    then have "\<not> fbit q M b" using M \<open>M < wwin q\<close> by (simp add: fset_def)
    then show ?thesis
      using unclaimed_row [OF inv M(1) _ M(3) _ M(4)] \<open>M < wwin q\<close> inv_windows(2) [OF inv] by simp
  qed
  then show ?thesis using mv by (auto simp: rmove_def pmove_def passed_empty_def)
qed

text \<open>The turn that takes an element.\<close>

definition good_read :: "('v, 'a::len word) block_based_queue \<Rightarrow> bbq_handle \<Rightarrow> u64 \<Rightarrow> bool" where
  "good_read q h ei \<longleftrightarrow> (\<exists>L b. read_at q h L b \<and> hr (head_at q L b) < hw (head_at q L b) \<and> ei = head_at q L b)"

lemma read_retired:
  assumes "handle_ok q h" and "evolves q q'" and "unat (h_read_epoch h) < he (get_header q' (h_read_block h))"
  shows "handle_ok q' h"
  using evolves_handle_ok [OF assms(2,1)] assms(3) by (simp add: handle_ok_def read_ok_def)

lemma pop_turn_take:
  fixes q :: "('v::zero, 'a::len word) block_based_queue"
  assumes inv: "bbq_inv q" and ok: "handle_ok q h" and g: "good_read q h ei" and wf: "weak_fails o1 = (False, o2)"
  shows "\<exists>res. pop_loop (Suc n) cf ei q h o1 = Some res \<and> pop_post q o1 res"
proof -
  obtain L b where r: "read_at q h L b" and lt: "hr ei < hw ei" and ei: "ei = head_at q L b"
    using g by (auto simp: good_read_def)
  have d: "dims_ok q" using inv by (rule inv_dims)
  note f = read_at_facts [OF inv r]
  let ?i = "hr ei" and ?v = "row_at q L b ! hr ei"
  have rb: "h_read_block h = Block (blk q L b)" and R: "rwin q \<le> L" "L \<le> Suc (rwin q)" using r by (simp_all add: read_at_def)
  have i: "?i < cells_per_block q" "?v \<noteq> 0" using f(8) lt unfolding ei by (auto simp: block_ok_def)
  have ri: "unat (get_read_index ei) = ?i" by (simp add: hr_def)
  have valid: "epoch_valid (header_epoch ei) (h_read_epoch h)" and hd: "get_header q (h_read_block h) = ei"
    using f(5,7) ei by simp_all
  have last: "get_read_index ei + 1 = get_write_index ei \<longleftrightarrow> Suc ?i = hw ei"
  proof -
    have "Suc (unat (get_read_index ei)) < 2 ^ LENGTH(64)" using header_bounds(2) [of ei] ri by simp
    from unat_suc_small [OF this] show ?thesis by (simp add: word_eq_unat hr_def hw_def)
  qed
  have content: "bbq_content q = add_mset ?v (bbq_content (put_cell L b ?i 0 q))"
    using content_put_cell(2) [OF d f(4) i(1) refl i(2)] .
  have sh: "set_header (h_read_block h) hh q = put_head L b hh q" for hh by (simp add: rb put_head_def)
  have pe: "passed_empty q (rwin q)" by (auto simp: passed_empty_def)
  note len = weak_fails_length [OF wf]
  show ?thesis
  proof (cases "Suc ?i = hw ei")
    case True
    let ?q1 = "reset_filled (put_head L b (epoch_to_header (h_read_epoch h + 1)) q) h"
    define q' where "q' = put_cell L b ?i 0 ?q1"
    note mv = retire_block [OF inv r ei disjI1 [OF True [symmetric]] q'_def]
    have t: "pop_try ei q h o1 = (Some ?i, ?q1, o2)"
      unfolding pop_try_def Let_def using valid wf last True hd ri by (simp add: sh)
    have b1: "blk ?q1 = blk q" unfolding reset_filled_def by (simp add: blk_def fun_eq_iff)
    have "cells ?q1 ! blk q L b = row_at q L b" using mv(11) by (metis b1 row_at_def)
    then have tc: "take_cell ?q1 (h_read_block h) ?i = (?v, q')"
      by (simp add: take_cell_def rb q'_def put_cell_def row_at_def b1)
    have "get_header q' (h_read_block h) = head_at q' L b"
      using same_dims_views(2) [of q q'] mv(2) by (simp add: rb head_at_def evolves_def)
    then have "handle_ok q' h" using read_retired [OF ok mv(2)] mv(3,4) r by (simp add: read_at_def)
    then have "pop_post q o1 (Some ?v, q', h, o2)"
      unfolding pop_post_def using mv evolves_keeps [OF mv(2)] content pe len i f(4) R by auto
    then show ?thesis using t tc by (simp add: Let_def)
  next
    case False
    then have lt': "Suc ?i < hw ei" using lt by simp
    define q' where "q' = put_head L b (increment_read_index ei) (put_cell L b ?i 0 q)"
    note mv = take_move [OF inv f(4) R(1) less_imp_le [OF f(2)] ei lt' q'_def]
    have t: "pop_try ei q h o1 = (Some ?i, put_head L b (increment_read_index ei) q, o2)"
      unfolding pop_try_def Let_def using valid wf last False hd ri by (simp add: sh)
    have tc: "take_cell (put_head L b (increment_read_index ei) q) (h_read_block h) ?i = (?v, q')"
      by (simp add: take_cell_def rb q'_def put_cell_def put_head_def row_at_def blk_def)
    have same: "rwin q' = rwin q" "wwin q' = wwin q" "wpot q' = wpot q" by (simp_all add: q'_def wpot_def)
    have "pop_post q o1 (Some ?v, q', h, o2)"
      unfolding pop_post_def using mv same evolves_keeps [OF mv(2)] evolves_handle_ok [OF mv(2) ok] pe len i f(4) R by auto
    then show ?thesis using t tc by (simp add: Let_def)
  qed
qed

text \<open>The turn that does not: an outdated header, or a weak exchange that fails.\<close>

definition bad_read :: "('v, 'a::len word) block_based_queue \<Rightarrow> bbq_handle \<Rightarrow> u64 \<Rightarrow> bool" where
  "bad_read q h ei \<longleftrightarrow> \<not> epoch_valid (header_epoch ei) (h_read_epoch h) \<or> get_header q (h_read_block h) \<noteq> ei"

lemma pop_try_miss:
  assumes "bad_read q h ei \<or> fst (weak_fails o1)"
  obtains o2 where "pop_try ei q h o1 = (None, q, o2)" "length (o_spurious o2) \<le> length (o_spurious o1)"
    "\<not> bad_read q h ei \<Longrightarrow> length (o_spurious o2) < length (o_spurious o1)"
proof (cases "epoch_valid (header_epoch ei) (h_read_epoch h)")
  case True
  obtain fails o2 where wf: "weak_fails o1 = (fails, o2)" by (cases "weak_fails o1")
  note len = weak_fails_length [OF wf]
  have "fails \<or> get_header q (h_read_block h) \<noteq> ei" using assms True wf by (auto simp: bad_read_def)
  then have "pop_try ei q h o1 = (None, q, o2)" using True wf by (auto simp: pop_try_def Let_def)
  then show ?thesis using that [of o2] len assms wf by (auto split: if_splits)
next
  case False
  then show ?thesis using that [of o1] by (simp add: pop_try_def bad_read_def)
qed

text \<open>A freshly claimed block: it has elements, or it is retired on the spot.\<close>

lemma fresh_block:
  fixes q :: "('v::zero, 'a::len word) block_based_queue"
  assumes inv: "bbq_inv q" and r: "read_at q h L b" and w: "write_ok q h" and hw: "unat (h_read_window h) < wwin q"
    and ck: "pop_check_empty (get_header q (h_read_block h)) q h = (ei', q3)"
  shows "pmove q q3 \<and> handle_ok q3 h
    \<and> (good_read q3 h ei' \<and> card (fset q3) = card (fset q) \<or> bad_read q3 h ei' \<and> card (fset q3) < card (fset q))"
proof -
  let ?ei = "head_at q L b"
  have d: "dims_ok q" using inv by (rule inv_dims)
  note f = read_at_facts [OF inv r]
  have wi: "get_write_index ?ei = 0 \<longleftrightarrow> hw ?ei = 0" by (simp add: hw_def unat_eq_0)
  have pe: "passed_empty q (rwin q)" by (auto simp: passed_empty_def)
  show ?thesis
  proof (cases "hw ?ei = 0")
    case False
    then have "q3 = q" "ei' = ?ei" using ck f(5) wi by (auto simp: pop_check_empty_def)
    moreover have "hr ?ei < hw ?ei" using f(8) False by (auto simp: block_ok_def)
    then have "good_read q h ?ei" "read_ok q h" using r hw unfolding good_read_def read_ok_def by blast+
    ultimately show ?thesis using inv w pe by (simp add: pmove_def handle_ok_def)
  next
    case True
    have hr0: "hr ?ei = 0" using f(8) True by (auto simp: block_ok_def)
    let ?hh = "epoch_to_header (h_read_epoch h + 1)"
    have rb: "h_read_block h = Block (blk q L b)" using r by (simp add: read_at_def)
    have sh: "set_header (h_read_block h) ?hh q = put_head L b ?hh q" by (simp add: rb put_head_def)
    have e: "ei' = ?ei" "q3 = reset_filled (put_head L b ?hh q) h"
      using ck f(5,7) True wi by (simp_all add: pop_check_empty_def sh)
    define q' where "q' = put_cell L b (hr ?ei) 0 q3"
    note mv = retire_block [OF inv r refl disjI2 [OF True] q'_def [unfolded e(2)]]
    have rows: "row_at q3 = row_at q" using mv(11) e(2) by simp
    have z: "row_at q L b ! 0 = 0" using f(8) True dims_simps(7) [OF d] by (auto simp: block_ok_def)
    have b3: "blk q3 = blk q" unfolding e(2) reset_filled_def by (simp add: blk_def fun_eq_iff)
    have "(row_at q3 L b)[0 := 0] = row_at q3 L b" using z rows by (metis list_update_id)
    then have q': "q' = q3" unfolding q'_def put_cell_def hr0 by (simp add: row_at_def list_update_id)
    have c: "bbq_content q3 = bbq_content q"
      using mv(9) hr0 z unfolding q' by (simp add: bbq_content_def put_cell_def row_at_def) (metis list_update_id)
    have hd: "get_header q3 (h_read_block h) = ?hh" using mv(3) b3 unfolding q' by (simp add: rb head_at_def)
    have ep: "unat (h_read_epoch h) = ep q L" using r by (simp add: read_at_def)
    have late: "unat (h_read_epoch h) < he (get_header q3 (h_read_block h))" using hd mv(4) ep by simp
    have "he ?ei \<noteq> he ?hh" using f(6) mv(4) by simp
    then have "bad_read q3 h ei'" using hd e(1) by (auto simp: bad_read_def)
    moreover have "handle_ok q3 h"
      using evolves_write_ok [OF mv(2) w] late hw mv(8) unfolding q' by (simp add: handle_ok_def read_ok_def)
    moreover have "card (fset q3) < card (fset q)"
    proof -
      have "(L, b) \<in> fset q" using f r by (simp add: fset_def read_at_def)
      then show ?thesis using mv(5) fset_finite [of q] unfolding q' by (metis card_Diff1_less)
    qed
    moreover have "pmove q q3"
      using mv(1,2,6,7,8) evolves_keeps [OF mv(2)] c rows pe unfolding q' pmove_def by simp
    ultimately show ?thesis by simp
  qed
qed

section \<open>Pop returns\<close>

lemma not_good_bad:
  assumes inv: "bbq_inv q" and ok: "handle_ok q h" and ei: "ei = get_header q (h_read_block h)"
  shows "good_read q h ei \<or> bad_read q h ei"
proof (cases "unat (h_read_epoch h) < he ei")
  case True
  then show ?thesis by (simp add: bad_read_def header_epoch_valid)
next
  case False
  then obtain L b where "read_at q h L b" "hr (head_at q L b) < hw (head_at q L b)"
    using ok ei by (auto simp: handle_ok_def read_ok_def)
  then show ?thesis using ei read_at_facts(5) [OF inv] unfolding good_read_def by auto
qed

lemma good_not_bad:
  assumes inv: "bbq_inv q" and g: "good_read q h ei"
  shows "\<not> bad_read q h ei"
proof -
  obtain L b where "read_at q h L b" "ei = head_at q L b" using g by (auto simp: good_read_def)
  then show ?thesis using read_at_facts(5,7) [OF inv] by (simp add: bad_read_def)
qed

lemma pop_loop_result:
  fixes q :: "('v::zero, 'a::len word) block_based_queue"
  assumes "bbq_inv q" and "handle_ok q h" and "pop_room q" and "wwin q - rwin q + 3 \<le> cf"
    and "good_read q h ei \<and> card (fset q) + length (o_spurious o1) < n
      \<or> bad_read q h ei \<and> card (fset q) + length (o_spurious o1) + 1 < n"
  shows "\<exists>res. pop_loop n cf ei q h o1 = Some res \<and> pop_post q o1 res"
  using assms
proof (induction n arbitrary: ei q h o1)
  case (Suc n)
  note inv = Suc.prems(1) and ok = Suc.prems(2) and room = Suc.prems(3) and cf = Suc.prems(4) and st = Suc.prems(5)
  show ?case
  proof (cases "bad_read q h ei \<or> fst (weak_fails o1)")
    case False
    then obtain o2 where "weak_fails o1 = (False, o2)" by (cases "weak_fails o1") auto
    then show ?thesis using pop_turn_take [OF inv ok, of ei o1 o2 n cf] st False by blast
  next
    case True
    obtain o2 where o2: "pop_try ei q h o1 = (None, q, o2)" "length (o_spurious o2) \<le> length (o_spurious o1)"
      "\<not> bad_read q h ei \<Longrightarrow> length (o_spurious o2) < length (o_spurious o1)"
      using pop_try_miss [OF True] by blast
    have left: "card (fset q) + length (o_spurious o2) < n"
      using st o2(2,3) good_not_bad [OF inv, of h ei] by auto
    have hw: "unat (h_read_window h) < wwin q" using ok by (simp add: handle_ok_def read_ok_def)
    obtain g q2 h2 o3 where c: "claim_new_block_read cf False q h o2 = Some (g, q2, h2, o3)"
      "read_post q h o2 (g, q2, h2, o3)" using search_returns [OF inv hw room cf, of o2] by auto
    have mv: "rmove q q2" and o3: "o_spurious o3 = o_spurious o2" and hw2: "unat (h_read_window h2) < wwin q2"
      and wf: "h_write_epoch h2 = h_write_epoch h" "h_write_block h2 = h_write_block h"
      using c(2) by (simp_all add: read_post_def)
    have inv2: "bbq_inv q2" and k2: "keeps q q2" and fs: "fset q2 = fset q" using mv by (simp_all add: rmove_def)
    note pm = rmove_pmove [OF inv mv]
    have ok2: "handle_ok q2 h" using keeps_handle [OF k2 ok] .
    then have w2: "write_ok q2 h2" using wf by (simp add: handle_ok_def write_ok_def)
    show ?thesis
    proof (cases g)
      case False
      then have rf: "h_read_block h2 = h_read_block h" "h_read_epoch h2 = h_read_epoch h"
        "h_read_window_index h2 = h_read_window_index h" "fset q2 = {}" using c(2) by (simp_all add: read_post_def)
      have "handle_ok q2 h2" using ok2 w2 rf hw2 by (simp add: handle_ok_def read_ok_def read_at_def)
      then have "pop_post q o1 (None, q2, h2, o3)"
        using pm no_claimed_empty [OF inv2 rf(4)] o3 o2(2) by (simp add: pop_post_def pmove_def)
      then show ?thesis using o2(1) c(1) False by simp
    next
      case True
      then obtain L b where r: "read_at q2 h2 L b" using c(2) by (auto simp: read_post_def)
      obtain ei' q3 where ck: "pop_check_empty (get_header q2 (h_read_block h2)) q2 h2 = (ei', q3)" by fastforce
      note fr = fresh_block [OF inv2 r w2 hw2 ck]
      have pm3: "pmove q q3" using pmove_trans [OF pm] fr by blast
      have "\<exists>res. pop_loop n cf ei' q3 h2 o3 = Some res \<and> pop_post q3 o3 res"
      proof (rule Suc.IH)
        show "bbq_inv q3" "handle_ok q3 h2" using fr by (simp_all add: pmove_def)
        show "pop_room q3" using pmove_room [OF pm3 room] .
        show "wwin q3 - rwin q3 + 3 \<le> cf" using pm3 cf by (simp add: pmove_def)
        show "good_read q3 h2 ei' \<and> card (fset q3) + length (o_spurious o3) < n \<or>
          bad_read q3 h2 ei' \<and> card (fset q3) + length (o_spurious o3) + 1 < n"
          using fr fs o3 left by auto
      qed
      then obtain res where "pop_loop n cf ei' q3 h2 o3 = Some res" "pop_post q3 o3 res" by blast
      moreover have "pop_post q o1 res" by (rule pop_post_step [OF pm3 _ calculation(2)]) (use o2(2) o3 in simp)
      ultimately show ?thesis using o2(1) c(1) True ck by auto
    qed
  qed
qed simp

lemma pop_result:
  fixes q :: "('v::zero, 'a::len word) block_based_queue"
  assumes inv: "bbq_inv q" and ok: "handle_ok q h" and room: "pop_room q" and cf: "wwin q - rwin q + 3 \<le> cf"
    and fuel: "card (fset q) + length (o_spurious o1) + 2 \<le> fuel"
  shows "\<exists>res. pop fuel cf q h o1 = Some res \<and> pop_post q o1 res"
  unfolding pop_def
  by (rule pop_loop_result [OF inv ok room cf]) (use not_good_bad [OF inv ok refl] fuel in auto)

end
