(* ===== verification/Block_Queue_Laws.thy ===== *)
theory Block_Queue_Laws
  imports Block_Queue_Pop
begin

text \<open>
  The BlockFIFO as a whole: the constructor establishes the invariant, \<^verbatim>\<open>size\<close> counts the
  elements, and the queue with its handles keeps the contract of a relaxed queue.
\<close>

section \<open>The constructor\<close>

lemma init_first_window_fields:
  fixes q :: "('v, 'a::len word) block_based_queue"
  shows "blocks_per_window (init_first_window T j q n) = blocks_per_window q"
    "window_count (init_first_window T j q n) = window_count q"
    "window_count_mod_mask (init_first_window T j q n) = window_count_mod_mask q"
    "window_count_log2 (init_first_window T j q n) = window_count_log2 q"
    "cells_per_block (init_first_window T j q n) = cells_per_block q"
    "dummy_block_value (init_first_window T j q n) = dummy_block_value q"
    "touched_set (init_first_window T j q n) = touched_set q"
    "cells (init_first_window T j q n) = cells q"
    "global_read_window (init_first_window T j q n) = global_read_window q"
    "global_write_window (init_first_window T j q n) = global_write_window q"
    "length (headers (init_first_window T j q n)) = length (headers q)"
  by (induction n arbitrary: j q) (simp_all add: Let_def get_block_def)

lemma init_first_window_headers:
  fixes q :: "('v, 'a::len word) block_based_queue"
  assumes "j + n \<le> length (headers q)"
  shows "headers (init_first_window T j q n) ! i = (if j \<le> i \<and> i < j + n then epoch_to_header 1 else headers q ! i)"
  using assms
proof (induction n arbitrary: j q)
  case (Suc n)
  let ?q1 = "q\<lparr>filled_set := set_epoch_if_empty 0 0 (filled_set q)\<rparr>"
  let ?q2 = "set_header (get_block ?q1 0 j) (epoch_to_header 1) ?q1"
  have h: "headers ?q2 = (headers q)[j := epoch_to_header 1]" by (simp add: get_block_def)
  have "headers (init_first_window T (Suc j) ?q2 n) ! i =
      (if Suc j \<le> i \<and> i < Suc j + n then epoch_to_header 1 else headers ?q2 ! i)"
    by (rule Suc.IH) (use Suc.prems in \<open>simp add: h\<close>)
  then show ?case unfolding h using Suc.prems by (auto simp: Let_def nth_list_update)
qed auto

lemma init_first_window_filled:
  fixes q :: "('v, 'a::len word) block_based_queue"
  assumes "bs_shape TYPE('a) wc us (filled_set q)" and "0 < wc"
  shows "bs_shape TYPE('a) wc us (filled_set (init_first_window T j q n))
    \<and> (\<forall>v < wc. \<forall>k < us. bunit (filled_set (init_first_window T j q n)) v k =
        (if 0 < n \<and> v = 0 \<and> bunit (filled_set q) v k = make_unit 0 then make_unit 1 else bunit (filled_set q) v k))"
  using assms(1)
proof (induction n arbitrary: j q)
  case (Suc n)
  let ?q1 = "q\<lparr>filled_set := set_epoch_if_empty 0 0 (filled_set q)\<rparr>"
  let ?q2 = "set_header (get_block ?q1 0 j) (epoch_to_header 1) ?q1"
  have f: "filled_set ?q2 = set_epoch_if_empty 0 0 (filled_set q)" by (simp add: get_block_def)
  have sh: "bs_shape TYPE('a) wc us (filled_set ?q2)" unfolding f by (rule set_epoch_if_empty_shape [OF Suc.prems])
  have ne: "make_unit 1 \<noteq> make_unit 0"
    using get_epoch_make [of 1] get_epoch_make [of 0] unfolding small_epoch_def
    by (metis unat_0 unat_1 zero_less_numeral zero_less_power one_less_numeral_iff one_less_power
      zero_neq_one semiring_norm(76))
  have b: "bunit (filled_set ?q2) v k = (if v = 0 \<and> bunit (filled_set q) v k = make_unit 0 then make_unit 1
      else bunit (filled_set q) v k)" if "v < wc" "k < us" for v k
    unfolding f using set_epoch_if_empty_bunit [OF Suc.prems assms(2) that, of 0] by auto
  have step: "init_first_window T j q (Suc n) = init_first_window T (Suc j) ?q2 n" by (simp add: Let_def)
  have "bunit (filled_set (init_first_window T (Suc j) ?q2 n)) v k =
      (if v = 0 \<and> bunit (filled_set q) v k = make_unit 0 then make_unit 1 else bunit (filled_set q) v k)"
    if "v < wc" "k < us" for v k
    using Suc.IH [OF sh, of "Suc j"] b [OF that] that ne by auto
  then show ?case unfolding step using Suc.IH [OF sh, of "Suc j"] by auto
qed simp

definition ctor_ok :: "'a::len itself \<Rightarrow> nat \<Rightarrow> nat \<Rightarrow> nat \<Rightarrow> bool" where
  "ctor_ok T requested min_size cpb \<longleftrightarrow> LENGTH('a) \<le> 32 \<and> is_pow2 (LENGTH('a)) \<and> 0 < cpb \<and> cpb < 2 ^ 16
     \<and> bit_ceil (min_size div bit_ceil (max (LENGTH('a)) requested) div cpb) \<le> 2 ^ 32"

lemma ctor_dims:
  fixes T :: "'a::len itself"
    and q :: "('v::zero, 'a word) block_based_queue"
  assumes q_def: "q = block_based_queue_new T line sz requested min_size cpb" and ok: "ctor_ok T requested min_size cpb"
  shows "dims_ok q" "global_read_window q = 0" "global_write_window q = 1"
    "cells q = replicate (window_count q * blocks_per_window q) (replicate cpb 0)" "cells_per_block q = cpb"
    "headers q ! i = (if i < blocks_per_window q then epoch_to_header 1
       else replicate (window_count q * blocks_per_window q) 0 ! i)"
    "k < units q \<Longrightarrow> v < window_count q \<Longrightarrow> bunit (filled_set q) v k = (if v = 0 then make_unit 1 else make_unit 0)"
    "touched_set q = ne_bitset_new (window_count q) (blocks_per_window q)"
proof -
  define bpw where "bpw = bit_ceil (max (LENGTH('a)) requested)"
  define wc where "wc = max 4 (bit_ceil (min_size div bpw div cpb))"
  define q0 where "q0 = (\<lparr>blocks_per_window = bpw, window_count = wc, window_count_mod_mask = of_nat wc - 1,
               window_count_log2 = bit_width wc - 1, cells_per_block = cpb,
               block_size = align_cache_line_size line (8 + cpb * sz),
               dummy_block_value = epoch_to_header 0x10000000,
               touched_set = ne_bitset_new wc bpw, filled_set = atomic_bitset_new T wc bpw,
               headers = replicate (wc * bpw) 0, cells = replicate (wc * bpw) (replicate cpb 0),
               global_read_window = 0, global_write_window = 1\<rparr> :: ('v, 'a word) block_based_queue)"
  have q: "q = init_first_window T 0 q0 bpw"
    by (simp add: q_def block_based_queue_new_def Let_def q0_def wc_def bpw_def)
  note fields = init_first_window_fields [of T 0 q0 bpw]
  obtain j where j: "bpw = 2 ^ j" using bit_ceil_pow2 [of "max (LENGTH('a)) requested"] by (auto simp: bpw_def is_pow2_def)
  obtain l where l: "LENGTH('a) = 2 ^ l" using ok by (auto simp: ctor_ok_def is_pow2_def)
  have ge: "LENGTH('a) \<le> bpw" using bit_ceil_ge [of "max (LENGTH('a)) requested"] by (simp add: bpw_def)
  have lj: "l \<le> j" using ge j l by (metis power_le_imp_le_exp one_less_numeral_iff semiring_norm(76))
  have us: "bpw div LENGTH('a) = 2 ^ (j - l)" using j l lj by (simp add: power_diff)
  have bpw: "bpw div LENGTH('a) * LENGTH('a) = bpw" unfolding us using j l lj by (simp add: power_add [symmetric])
  obtain p where i: "wc = 2 ^ p"
  proof -
    obtain k where "bit_ceil (min_size div bpw div cpb) = 2 ^ k" using bit_ceil_pow2 [of "min_size div bpw div cpb"]
      by (auto simp: is_pow2_def)
    then have "wc = 2 ^ max 2 k" unfolding wc_def by (cases "k \<le> 2") (auto simp: max_def power_increasing_iff [of 2 2 k, simplified])
    then show ?thesis using that by blast
  qed
  have wcb: "4 \<le> wc" "wc \<le> 2 ^ 32" using ok by (auto simp: wc_def bpw_def ctor_ok_def)
  have sh: "bs_shape TYPE('a) wc (bpw div LENGTH('a)) (filled_set q0)"
  proof -
    have "unit_wf TYPE('a) 0" by (simp add: unit_wf_def ubits_def)
    then show ?thesis using ok us by (auto simp: bs_shape_def q0_def atomic_bitset_new_def Let_def ctor_ok_def)
  qed
  have wc0: "0 < wc" using wcb by simp
  note fil = init_first_window_filled [OF sh wc0, of T 0 bpw]
  show d: "dims_ok q"
    unfolding dims_ok_def units_def q fields using fil bpw wcb ok i us
    by (simp add: q0_def bit_width_pow2 ctor_ok_def ne_shape_def ne_bitset_new_def Let_def is_pow2_I)
  show "global_read_window q = 0" "global_write_window q = 1" "cells_per_block q = cpb"
    "cells q = replicate (window_count q * blocks_per_window q) (replicate cpb 0)"
    "touched_set q = ne_bitset_new (window_count q) (blocks_per_window q)"
    unfolding q fields by (simp_all add: q0_def)
  have "bpw \<le> wc * bpw" using wc0 by simp
  then show "headers q ! i = (if i < blocks_per_window q then epoch_to_header 1
       else replicate (window_count q * blocks_per_window q) 0 ! i)"
    unfolding q fields using init_first_window_headers [of 0 bpw q0 T i] by (simp add: q0_def)
  show "bunit (filled_set q) v k = (if v = 0 then make_unit 1 else make_unit 0)" if "k < units q" "v < window_count q"
  proof -
    have kv: "k < bpw div LENGTH('a)" "v < wc" using that unfolding units_def q fields by (simp_all add: q0_def)
    have "bunit (filled_set q0) v k = make_unit 0"
      using window_index_less [OF kv(2,1)]
      by (simp add: bunit_def q0_def atomic_bitset_new_def Let_def make_unit_def)
    moreover have "0 < bpw" using j by simp
    ultimately show ?thesis using fil kv unfolding q by auto
  qed
qed

lemma ctor_inv:
  fixes T :: "'a::len itself" and q :: "('v::zero, 'a word) block_based_queue"
  assumes q_def: "q = block_based_queue_new T line sz requested min_size cpb" and ok: "ctor_ok T requested min_size cpb"
  shows "bbq_inv q" "handle_ok q handle_new" "bbq_content q = {#}" "wwin q = 1" "rwin q = 0" "fset q = {}"
proof -
  note c = ctor_dims [OF q_def ok]
  have d: "dims_ok q" using c(1) .
  show rw: "wwin q = 1" "rwin q = 0" using c(2,3) by simp_all
  have wc: "4 \<le> window_count q" using d by (simp add: dims_ok_def)
  have ep0: "ep q L = 0" if "L < window_count q" for L using that by (simp add: ep_def)
  have one: "small_epoch 1" "small_epoch 0" by (simp_all add: small_epoch_def)
  have unit: "unit_at q L k = (if L = 0 then make_unit 1 else make_unit 0)" if "L < window_count q" "k < units q" for L k
    using c(7) [OF that(2), of L] that by (simp add: unit_at_def)
  have f: "\<not> fbit q L b" if "L < window_count q" "b < blocks_per_window q" for L b
    using unit [OF that(1) block_position(1) [OF d that(2)]] by (simp add: fbit_def)
  then show "fset q = {}" using wc by (auto simp: fset_def rw)
  have t: "\<not> tbit q L b" if "L < window_count q" "b < blocks_per_window q" for L b
    using window_index_less [OF that(1) block_position(1) [OF d that(2)]] c(8) that
    by (simp add: tbit_def ne_unit_def ne_bitset_new_def Let_def units_def)
  have hd: "head_at q L b = (if L = 0 then epoch_to_header 1 else 0)" if "L < window_count q" "b < blocks_per_window q" for L b
  proof -
    have "blk q L b < window_count q * blocks_per_window q" using block_position(3) [OF d that(2)] .
    moreover have "blk q L b < blocks_per_window q \<longleftrightarrow> L = 0"
      using that by (auto simp: blk_def) (metis mult_is_0 mult_le_mono1 not_add_less1 nat_mult_1 not_less_eq_eq le_add1 le_trans not_less One_nat_def Suc_leI gr0I)
    ultimately show ?thesis using c(6) [of "blk q L b"] by (simp add: head_at_def)
  qed
  have row: "row_at q L b = replicate (cells_per_block q) 0" if "b < blocks_per_window q" for L b
    using block_position(3) [OF d that, of L] c(4,5) by (simp add: row_at_def)
  have he1: "he (epoch_to_header 1) = 1" "hr (epoch_to_header 1) = 0" "hw (epoch_to_header 1) = 0"
    using epoch_to_header_fields [of 1] by simp_all
  have "window_ok q L" if L: "L < window_count q" for L
    unfolding window_ok_def rw ep0 [OF L]
  proof (intro conjI allI impI)
    fix k assume "k < units q"
    from unit [OF L this] show "unit_ok 1 L 0 (unit_at q L k)" using one by (auto simp: unit_ok_def)
  next
    fix b assume b: "b < blocks_per_window q"
    show "block_ok (cells_per_block q) 1 L 0 (fbit q L b) (tbit q L b) (head_at q L b) (row_at q L b)"
      using f [OF L b] t [OF L b] hd [OF L b] row [OF b] he1 by (auto simp: block_ok_def)
  qed
  moreover have "room 0 q" using wc rw by (simp add: room_def)
  ultimately show "bbq_inv q" using d rw wc by (simp add: bbq_inv_def)
  have "he (dummy_block_value q) = 0x10000000"
    using epoch_to_header_fields(1) [of "0x10000000"] dims_simps(10) [OF d] by simp
  then show "handle_ok q handle_new"
    by (simp add: handle_ok_def write_ok_def read_ok_def handle_new_def rw)
  show "bbq_content q = {#}" by (simp add: bbq_content_def c(4) filter_empty_conv)
qed

section \<open>Size\<close>

definition nonzeros :: "'v::zero list \<Rightarrow> nat" where
  "nonzeros xs = length (filter (\<lambda>x. x \<noteq> 0) xs)"

lemma sum_list_blocks:
  fixes f :: "nat \<Rightarrow> nat"
  shows "(\<Sum>n < a * m. f n) = (\<Sum>w < a. \<Sum>b < m. f (w * m + b))"
proof (induction a)
  case (Suc a)
  have "(\<Sum>n < Suc a * m. f n) = (\<Sum>n < a * m. f n) + (\<Sum>n = a * m..<a * m + m. f n)"
    using sum.atLeastLessThan_concat [of 0 "a * m" "a * m + m" f] by (simp add: atLeast0LessThan add.commute)
  also have "(\<Sum>n = a * m..<a * m + m. f n) = (\<Sum>b < m. f (a * m + b))"
    using sum.shift_bounds_nat_ivl [of f 0 "a * m" m] by (simp add: atLeast0LessThan add.commute)
  finally show ?case using Suc by simp
qed simp

lemma ring_bij:
  assumes "0 < (n::nat)"
  shows "bij_betw (\<lambda>L. L mod n) {R..<R + n} {..<n}"
proof -
  have inj: "inj_on (\<lambda>L. L mod n) {R..<R + n}"
    by (rule inj_onI) (auto intro: same_window [of R _ n])
  moreover have "(\<lambda>L. L mod n) ` {R..<R + n} = {..<n}"
    by (rule card_subset_eq) (use assms card_image [OF inj] in auto)
  ultimately show ?thesis by (simp add: bij_betw_def)
qed

lemma sum_ring:
  fixes g :: "nat \<Rightarrow> nat"
  assumes "0 < n"
  shows "(\<Sum>L \<in> {R..<R + n}. g (L mod n)) = (\<Sum>w < n. g w)"
  by (rule sum.reindex_bij_betw [OF ring_bij [OF assms]])

lemma content_size:
  assumes d: "dims_ok q"
  shows "size (bbq_content q) = (\<Sum>w < window_count q. \<Sum>b < blocks_per_window q. nonzeros (cells q ! (w * blocks_per_window q + b)))"
    "size (bbq_content q) = (\<Sum>L \<in> {rwin q..<rwin q + window_count q}. \<Sum>b < blocks_per_window q. nonzeros (row_at q L b))"
proof -
  have "size (bbq_content q) = sum_list (map nonzeros (cells q))"
    by (simp add: bbq_content_def filter_concat length_concat nonzeros_def [abs_def] o_def)
  also have "\<dots> = (\<Sum>n < window_count q * blocks_per_window q. nonzeros (cells q ! n))"
    using dims_simps(4) [OF d] by (simp add: sum_list_sum_nth atLeast0LessThan)
  finally show a: "size (bbq_content q) = (\<Sum>w < window_count q. \<Sum>b < blocks_per_window q. nonzeros (cells q ! (w * blocks_per_window q + b)))"
    by (simp add: sum_list_blocks)
  show "size (bbq_content q) = (\<Sum>L \<in> {rwin q..<rwin q + window_count q}. \<Sum>b < blocks_per_window q. nonzeros (row_at q L b))"
    unfolding a row_at_def blk_def
    using sum_ring [OF dims_simps(1) [OF d], of "\<lambda>w. \<Sum>b < blocks_per_window q. nonzeros (cells q ! (w * blocks_per_window q + b))"]
    by simp
qed

lemma length_filter_interval:
  assumes "\<forall>i < length xs. P (xs ! i) \<longleftrightarrow> r \<le> i \<and> i < w" and "w \<le> length xs"
  shows "length (filter P xs) = w - r"
proof -
  have "{i. i < length xs \<and> P (xs ! i)} = {r..<w}" using assms by auto
  then show ?thesis by (simp add: length_filter_conv_card)
qed

lemma block_fill_row:
  assumes "block_ok cpb W L e f t h cs" and "length cs = cpb"
  shows "block_fill h = of_nat (nonzeros cs)"
proof -
  have hl: "hr h \<le> hw h" "hw h \<le> cpb" using assms(1) by (auto simp: block_ok_def)
  have "nonzeros cs = hw h - hr h"
    unfolding nonzeros_def using assms hl by (intro length_filter_interval) (auto simp: block_ok_def)
  moreover have "unat (block_fill h) = hw h - hr h"
    using unat_sub_le [of "get_read_index h" "get_write_index h"] hl(1) by (simp add: block_fill_def hr_def hw_def)
  ultimately have e: "unat (block_fill h) = nonzeros cs" by simp
  then have "nonzeros cs < 2 ^ LENGTH(64)" using unat_lt [of "block_fill h"] by simp
  from word_eq_of_nat [OF this] e show ?thesis by simp
qed

lemma sum_list_of_nat: "(\<Sum>x \<leftarrow> xs. of_nat (f x)) = of_nat (\<Sum>x \<leftarrow> xs. f x)"
  by (induction xs) simp_all

lemma window_fill_nat:
  assumes inv: "bbq_inv q" and L: "rwin q \<le> L" "L < rwin q + window_count q" and w: "unat w = L mod window_count q"
  shows "window_fill q w = of_nat (\<Sum>b < blocks_per_window q. nonzeros (row_at q L b))"
proof -
  have "block_fill (get_header q (get_block q w b)) = of_nat (nonzeros (row_at q L b))" if "b < blocks_per_window q" for b
    using block_fill_row [OF inv_block [OF inv L that] row_length [OF inv_dims [OF inv] that]]
    by (simp add: get_block_def w head_at_def blk_def)
  then have "window_fill q w = (\<Sum>b \<leftarrow> [0..<blocks_per_window q]. of_nat (nonzeros (row_at q L b)))"
    unfolding window_fill_def by (intro arg_cong [of _ _ sum_list] map_cong) auto
  then show ?thesis unfolding sum_list_of_nat by (simp add: interv_sum_list_conv_sum_set_nat atLeast0LessThan)
qed

text \<open>Both size functions count the elements (modulo the width of the counter).\<close>

lemma bbq_size_content:
  assumes inv: "bbq_inv q"
  shows "bbq_size q = of_nat (size (bbq_content q))" "size_full q = of_nat (size (bbq_content q))"
proof -
  have d: "dims_ok q" using inv by (rule inv_dims)
  let ?f = "\<lambda>L. \<Sum>b < blocks_per_window q. nonzeros (row_at q L b)"
  have W: "rwin q < wwin q" "wwin q < rwin q + window_count q" using inv_windows [OF inv] .
  have zero: "?f L = 0" if "L \<in> {Suc (wwin q)..<rwin q + window_count q}" for L
  proof -
    have "nonzeros (row_at q L b) = 0" if "b < blocks_per_window q" for b
      using unclaimed_row [OF inv _ _ that unclaimed_above [OF inv _ _ that]] \<open>L \<in> _\<close> W row_length [OF d that, of L]
      by (auto simp: nonzeros_def filter_empty_conv in_set_conv_nth)
    then show ?thesis by simp
  qed
  have split: "{rwin q..<rwin q + window_count q} = {rwin q..<Suc (wwin q)} \<union> {Suc (wwin q)..<rwin q + window_count q}"
    using W by auto
  have size_eq: "size (bbq_content q) = (\<Sum>L \<in> {rwin q..<Suc (wwin q)}. ?f L)"
    unfolding content_size(2) [OF d] split using zero by (subst sum.union_disjoint) auto
  have "window_fill q (window_to_index q (of_nat L)) = of_nat (?f L)" if "L \<in> set [rwin q..<Suc (wwin q)]" for L
  proof -
    have L: "rwin q \<le> L" "L \<le> wwin q" using that by auto
    then have "L < 2 ^ LENGTH(64)" using unat_lt [of "global_write_window q"] by simp
    from unat_of_nat_small [OF this] show ?thesis
      using window_fill_nat [OF inv L(1)] L W window_to_index_nat [OF d, of "of_nat L"] by simp
  qed
  then have "bbq_size q = (\<Sum>L \<leftarrow> [rwin q..<Suc (wwin q)]. of_nat (?f L))"
    unfolding bbq_size_def by (intro arg_cong [of _ _ sum_list] map_cong) auto
  then show "bbq_size q = of_nat (size (bbq_content q))"
    unfolding sum_list_of_nat size_eq by (simp only: interv_sum_list_conv_sum_set_nat set_upt)
  have "window_fill q (of_nat w) = of_nat (\<Sum>b < blocks_per_window q. nonzeros (cells q ! (w * blocks_per_window q + b)))"
    if "w \<in> set [0..<window_count q]" for w
  proof -
    have w: "w < window_count q" using that by simp
    moreover have "window_count q < 2 ^ LENGTH(64)" using d by (simp add: dims_ok_def)
    ultimately have wn: "unat (of_nat w :: u64) = w" by (intro unat_of_nat_small) simp
    have "w \<in> (\<lambda>L. L mod window_count q) ` {rwin q..<rwin q + window_count q}"
      using ring_bij [OF dims_simps(1) [OF d], of "rwin q"] w by (simp add: bij_betw_def)
    then obtain L where "rwin q \<le> L" "L < rwin q + window_count q" "L mod window_count q = w" by auto
    then show ?thesis using window_fill_nat [OF inv, of L "of_nat w"] wn by (simp add: row_at_def blk_def)
  qed
  then have "size_full q = (\<Sum>w \<leftarrow> [0..<window_count q]. of_nat (\<Sum>b < blocks_per_window q. nonzeros (cells q ! (w * blocks_per_window q + b))))"
    unfolding size_full_def by (intro arg_cong [of _ _ sum_list] map_cong) auto
  then show "size_full q = of_nat (size (bbq_content q))"
    unfolding sum_list_of_nat content_size(1) [OF d] by (simp only: interv_sum_list_conv_sum_set_nat set_upt atLeast0LessThan)
qed

section \<open>The queue with its handles as a relaxed queue\<close>

text \<open>
  The queue together with its handles (\<^verbatim>\<open>get_handle\<close> gives out any number of them) and the
  choices still to come. The fuel is the number of blocks and of spurious failures for
  \<^verbatim>\<open>pop\<close>, the number of windows for the search, the number of spurious failures for \<^verbatim>\<open>push\<close>.
\<close>

type_synonym ('v, 'w) bbq_system = "('v, 'w) block_based_queue \<times> (nat \<Rightarrow> bbq_handle) \<times> choices"

fun bbq_push :: "nat \<Rightarrow> 'v::zero \<Rightarrow> ('v, 'a::len word) bbq_system \<Rightarrow> (bool \<times> ('v, 'a word) bbq_system) option" where
  "bbq_push h t (q, hs, o1) = map_option (\<lambda>(ok, q', h', o'). (ok, q', hs(h := h'), o'))
     (push (length (o_spurious o1) + 2) t q (hs h) o1)"

fun bbq_pop :: "nat \<Rightarrow> ('v::zero, 'a::len word) bbq_system \<Rightarrow> ('v option \<times> ('v, 'a word) bbq_system) option" where
  "bbq_pop h (q, hs, o1) = map_option (\<lambda>(r, q', h', o'). (r, q', hs(h := h'), o'))
     (pop (window_count q * blocks_per_window q + length (o_spurious o1) + 2) (window_count q + 3) q (hs h) o1)"

fun bbq_sys_content :: "('v::zero, 'w) bbq_system \<Rightarrow> 'v multiset" where
  "bbq_sys_content (q, hs, o1) = bbq_content q"

fun bbq_sys_inv :: "nat \<Rightarrow> ('v::zero, 'a::len word) bbq_system \<Rightarrow> bool" where
  "bbq_sys_inv n (q, hs, o1) \<longleftrightarrow> bbq_inv q \<and> (\<forall>h. handle_ok q (hs h)) \<and> room (Suc n + length (o_spurious o1)) q"

definition bbq_system_new :: "('v, 'w) block_based_queue \<Rightarrow> choices \<Rightarrow> ('v, 'w) bbq_system" where
  "bbq_system_new q o1 = (q, \<lambda>_. handle_new, o1)"

lemma fset_card:
  assumes inv: "bbq_inv (q :: ('v::zero, 'a::len word) block_based_queue)"
  shows "card (fset q) \<le> window_count q * blocks_per_window q"
proof -
  have "fset q \<subseteq> {rwin q..wwin q} \<times> {..<blocks_per_window q}" by (auto simp: fset_def)
  then have "card (fset q) \<le> card ({rwin q..wwin q} \<times> {..<blocks_per_window q})" by (intro card_mono) auto
  also have "\<dots> \<le> window_count q * blocks_per_window q"
    unfolding card_cartesian_product using inv_windows [OF inv] by (intro mult_le_mono) auto
  finally show ?thesis .
qed

lemma wpot_bounds: "wwin q \<le> wpot q" "wpot q \<le> Suc (wwin q)"
  by (auto simp: wpot_def)

lemma sys_push:
  fixes s :: "('v::zero, 'a::len word) bbq_system"
  assumes "bbq_sys_inv (Suc n) s" and "t \<noteq> 0"
  shows "\<exists>b s'. bbq_push h t s = Some (b, s') \<and> bbq_sys_inv n s'
    \<and> bbq_sys_content s' = (if b then add_mset t (bbq_sys_content s) else bbq_sys_content s)"
proof -
  obtain q hs o1 where s: "s = (q, hs, o1)" by (cases s)
  have inv: "bbq_inv q" "\<And>h. handle_ok q (hs h)" and room: "room (Suc (Suc n) + length (o_spurious o1)) q"
    using assms(1) s by simp_all
  have "room (Suc (length (o_spurious o1))) q" by (rule room_mono [OF room]) simp
  from push_result [OF inv(1,2) assms(2) this, of "length (o_spurious o1) + 2" h]
  obtain ok q' h' o' where p: "push (length (o_spurious o1) + 2) t q (hs h) o1 = Some (ok, q', h', o')"
    "push_post t 1 q o1 (ok, q', h', o')" by auto
  have post: "bbq_inv q'" "keeps q q'" "handle_ok q' h'"
    "wwin q' + length (o_spurious o') \<le> wwin q + length (o_spurious o1) + 1"
    using p(2) by (simp_all add: push_post_def)
  have "room (Suc n + length (o_spurious o')) q'"
    by (rule room_move [OF room]) (use post same_dims_views(3) [OF keeps_dims [OF post(2)]] in simp_all)
  then show ?thesis
    using p post keeps_handle [OF post(2) inv(2)] s by (cases ok) (auto simp: push_post_def)
qed

lemma sys_pop:
  fixes s :: "('v::zero, 'a::len word) bbq_system"
  assumes "bbq_sys_inv (Suc n) s"
  shows "\<exists>r s'. bbq_pop h s = Some (r, s') \<and> bbq_sys_inv n s'
    \<and> (case r of None \<Rightarrow> bbq_sys_content s = {#} \<and> bbq_sys_content s' = {#}
       | Some x \<Rightarrow> bbq_sys_content s = add_mset x (bbq_sys_content s'))"
proof -
  obtain q hs o1 where s: "s = (q, hs, o1)" by (cases s)
  have inv: "bbq_inv q" "\<And>h. handle_ok q (hs h)" and room: "room (Suc (Suc n) + length (o_spurious o1)) q"
    using assms(1) s by simp_all
  have pr: "pop_room q"
    using room_mono [OF room, of 1] wpot_bounds(2) [of q] div_le_mono [of "wpot q" "wwin q + 1" "window_count q"]
    by (simp add: pop_room_def room_def)
  have f1: "wwin q - rwin q + 3 \<le> window_count q + 3" using inv_windows [OF inv(1)] by simp
  have f2: "card (fset q) + length (o_spurious o1) + 2 \<le> window_count q * blocks_per_window q + length (o_spurious o1) + 2"
    using fset_card [OF inv(1)] by simp
  from pop_result [OF inv(1,2) pr f1 f2, of h]
  obtain r q' h' o' where p: "pop (window_count q * blocks_per_window q + length (o_spurious o1) + 2) (window_count q + 3)
      q (hs h) o1 = Some (r, q', h', o')" "pop_post q o1 (r, q', h', o')"
    by auto
  have post: "bbq_inv q'" "keeps q q'" "handle_ok q' h'" "wpot q' \<le> wpot q"
    "length (o_spurious o') \<le> length (o_spurious o1)"
    using p(2) by (simp_all add: pop_post_def)
  have "room (Suc n + length (o_spurious o')) q'"
    by (rule room_move [OF room])
      (use post wpot_bounds [of q] wpot_bounds [of q'] same_dims_views(3) [OF keeps_dims [OF post(2)]] in simp_all)
  then show ?thesis
    using p post keeps_handle [OF post(2) inv(2)] s by (auto simp: pop_post_def split: option.splits)
qed

interpretation bbq: pool bbq_push bbq_pop bbq_sys_content "\<lambda>x. x \<noteq> 0" bbq_sys_inv
  by unfold_locales (rule sys_push, assumption+, rule sys_pop, assumption)

end
