(* ===== verification/Block_Queue_Props.thy ===== *)
theory Block_Queue_Props
  imports Block_Queue_Laws
begin

text \<open>The correctness properties of the BlockFIFO, each with a concrete queue as its witness.\<close>

text \<open>A queue of four windows of eight blocks with two cells each, with 8-bit bitset units.\<close>

definition tiny_queue :: "(nat, 8 word) block_based_queue" where
  "tiny_queue = block_based_queue_new TYPE(8) 64 8 8 64 2"

definition no_choices :: choices where
  "no_choices = \<lparr>o_random = [3, 5], o_spurious = [True]\<rparr>"

lemma bit_ceil_4_8: "bit_ceil 4 = 4" "bit_ceil 8 = 8"
  using bit_ceil_fixed [of 2] bit_ceil_fixed [of 3] by simp_all

lemma tiny_ok: "ctor_ok TYPE(8) 8 64 2"
  using is_pow2_I [of 3] by (simp add: ctor_ok_def bit_ceil_4_8)

lemmas tiny_inv = ctor_inv [OF tiny_queue_def tiny_ok]

lemma tiny_wc: "4 \<le> window_count tiny_queue"
  using inv_dims [OF tiny_inv(1)] by (simp add: dims_ok_def)

lemma tiny_room: "n < 10 \<Longrightarrow> room n tiny_queue"
  using tiny_inv(4) le_less_trans [OF div_le_dividend [of "Suc n" "window_count tiny_queue"], of 11] unfolding room_def by simp

text \<open>
  C1: With fuel for the spurious failures to come, \<^verbatim>\<open>push\<close> of a nonzero element returns. It
  either returns true and the queue holds that one element more, or it returns false, the
  content is unchanged and every block of the write window is claimed with no window left to
  move to. The invariant and every handle of the queue survive.
\<close>
theorem push_adds_or_full:
  fixes q :: "('v::zero, 'a::len word) block_based_queue"
  assumes "bbq_inv q" and "handle_ok q h" and "t \<noteq> 0" and "room (Suc (length (o_spurious o1))) q"
    and "length (o_spurious o1) + 2 \<le> fuel"
  shows "\<exists>ok q' h' o'. push fuel t q h o1 = Some (ok, q', h', o') \<and> bbq_inv q' \<and> handle_ok q' h'
    \<and> (\<forall>g. handle_ok q g \<longrightarrow> handle_ok q' g)
    \<and> (if ok then bbq_content q' = add_mset t (bbq_content q) else bbq_content q' = bbq_content q \<and> bbq_full q')"
proof -
  obtain ok q' h' o' where "push fuel t q h o1 = Some (ok, q', h', o')" "push_post t 1 q o1 (ok, q', h', o')"
    using push_result [OF assms] by auto
  then show ?thesis
    by (intro exI [of _ ok] exI [of _ q'] exI [of _ h'] exI [of _ o']) (simp add: push_post_def keeps_def)
qed

theorem push_adds_or_full_witness:
  "\<exists>ok q' h' o'. push 3 7 tiny_queue handle_new no_choices = Some (ok, q', h', o') \<and> bbq_inv q' \<and> handle_ok q' h'
    \<and> (\<forall>g. handle_ok tiny_queue g \<longrightarrow> handle_ok q' g)
    \<and> (if ok then bbq_content q' = add_mset 7 (bbq_content tiny_queue)
       else bbq_content q' = bbq_content tiny_queue \<and> bbq_full q')"
  by (rule push_adds_or_full [OF tiny_inv(1,2)]) (simp_all add: no_choices_def tiny_room)

text \<open>
  C2: With fuel for the claimed blocks and the windows in use, \<^verbatim>\<open>pop\<close> returns. It returns a
  nonzero element that is then gone from the queue, or nothing, and that only when the queue
  is empty. The invariant and every handle survive.
\<close>
theorem pop_takes_or_empty:
  fixes q :: "('v::zero, 'a::len word) block_based_queue"
  assumes "bbq_inv q" and "handle_ok q h" and "pop_room q" and "wwin q - rwin q + 3 \<le> claim_fuel"
    and "card (fset q) + length (o_spurious o1) + 2 \<le> fuel"
  shows "\<exists>r q' h' o'. pop fuel claim_fuel q h o1 = Some (r, q', h', o') \<and> bbq_inv q' \<and> handle_ok q' h'
    \<and> (\<forall>g. handle_ok q g \<longrightarrow> handle_ok q' g)
    \<and> (case r of None \<Rightarrow> bbq_content q = {#} \<and> bbq_content q' = {#}
       | Some v \<Rightarrow> v \<noteq> 0 \<and> bbq_content q = add_mset v (bbq_content q'))"
proof -
  obtain r q' h' o' where "pop fuel claim_fuel q h o1 = Some (r, q', h', o')" "pop_post q o1 (r, q', h', o')"
    using pop_result [OF assms] by auto
  then show ?thesis
    by (intro exI [of _ r] exI [of _ q'] exI [of _ h'] exI [of _ o'])
      (simp add: pop_post_def keeps_def split: option.splits)
qed

lemma tiny_pop_room: "pop_room tiny_queue"
  using tiny_room [of 1] wpot_bounds(2) [of tiny_queue]
    div_le_mono [of "wpot tiny_queue" "wwin tiny_queue + 1" "window_count tiny_queue"]
  by (simp add: pop_room_def room_def)

theorem pop_takes_or_empty_witness:
  "\<exists>r q' h' o'. pop 4 5 tiny_queue handle_new no_choices = Some (r, q', h', o') \<and> bbq_inv q' \<and> handle_ok q' h'
    \<and> (\<forall>g. handle_ok tiny_queue g \<longrightarrow> handle_ok q' g)
    \<and> (case r of None \<Rightarrow> bbq_content tiny_queue = {#} \<and> bbq_content q' = {#}
       | Some v \<Rightarrow> v \<noteq> 0 \<and> bbq_content tiny_queue = add_mset v (bbq_content q'))"
  by (rule pop_takes_or_empty [OF tiny_inv(1,2) tiny_pop_room])
    (simp_all add: tiny_inv(4,5,6) no_choices_def)

text \<open>
  C3: The relaxation of the BlockFIFO: the element that \<^verbatim>\<open>pop\<close> returns was stored in the
  window that is the read window after the call, or in the one after it, and every window
  the read window has passed was empty. So a pop never skips more than the rest of one window.
\<close>
theorem pop_from_two_oldest_windows:
  fixes q :: "('v::zero, 'a::len word) block_based_queue"
  assumes "bbq_inv q" and "handle_ok q h" and "pop_room q" and "wwin q - rwin q + 3 \<le> claim_fuel"
    and "card (fset q) + length (o_spurious o1) + 2 \<le> fuel"
    and "pop fuel claim_fuel q h o1 = Some (Some v, q', h', o')"
  shows "(\<exists>L b i. rwin q' \<le> L \<and> L \<le> Suc (rwin q') \<and> b < blocks_per_window q \<and> i < cells_per_block q
      \<and> row_at q L b ! i = v)
    \<and> (\<forall>M b i. rwin q \<le> M \<and> M < rwin q' \<and> b < blocks_per_window q \<and> i < cells_per_block q \<longrightarrow> row_at q M b ! i = 0)"
  using pop_result [OF assms(1-5)] assms(6) by (simp add: pop_post_def passed_empty_def)

text \<open>The small queue after one push, evaluated.\<close>

definition tiny_pushed :: "(nat, 8 word) block_based_queue" where
  "tiny_pushed = fst (snd (the (push 3 7 tiny_queue handle_new no_choices)))"

lemma tiny_dims: "window_count tiny_queue = 4" "blocks_per_window tiny_queue = 8" by code_simp+

lemma tiny_pop: "map_option fst (pop 40 7 tiny_pushed handle_new no_choices) = Some (Some 7)"
  unfolding tiny_pushed_def by code_simp

lemma tiny_pushed_inv:
  "bbq_inv tiny_pushed" "handle_ok tiny_pushed handle_new" "rwin tiny_pushed = 0" "wwin tiny_pushed \<le> 3"
  "same_dims tiny_queue tiny_pushed"
proof -
  have "room (Suc (length (o_spurious no_choices))) tiny_queue" by (simp add: tiny_room no_choices_def)
  from push_result [OF tiny_inv(1,2) _ this, of 7 3] obtain ok q' h' o' where
    p: "push 3 7 tiny_queue handle_new no_choices = Some (ok, q', h', o')"
      "push_post 7 1 tiny_queue no_choices (ok, q', h', o')"
    by (auto simp: no_choices_def)
  then have q': "tiny_pushed = q'" by (simp add: tiny_pushed_def)
  show "bbq_inv tiny_pushed" "handle_ok tiny_pushed handle_new" "rwin tiny_pushed = 0" "wwin tiny_pushed \<le> 3"
    "same_dims tiny_queue tiny_pushed"
    using p(2) tiny_inv(2,4,5) unfolding q' by (simp_all add: push_post_def keeps_def no_choices_def)
qed

theorem pop_from_two_oldest_windows_witness:
  "\<exists>q' h' o'. pop 40 7 tiny_pushed handle_new no_choices = Some (Some 7, q', h', o')
    \<and> (\<exists>L b i. rwin q' \<le> L \<and> L \<le> Suc (rwin q') \<and> b < blocks_per_window tiny_pushed \<and> i < cells_per_block tiny_pushed
      \<and> row_at tiny_pushed L b ! i = 7)
    \<and> (\<forall>M b i. rwin tiny_pushed \<le> M \<and> M < rwin q' \<and> b < blocks_per_window tiny_pushed \<and> i < cells_per_block tiny_pushed
      \<longrightarrow> row_at tiny_pushed M b ! i = 0)"
proof -
  obtain q' h' o' where p: "pop 40 7 tiny_pushed handle_new no_choices = Some (Some 7, q', h', o')"
    using tiny_pop by auto
  note s = same_dims_views(3,4) [OF tiny_pushed_inv(5)] tiny_dims
  have "wpot tiny_pushed div window_count tiny_pushed \<le> 4"
    using wpot_bounds(2) [of tiny_pushed] tiny_pushed_inv(4) div_le_dividend [of "wpot tiny_pushed" "window_count tiny_pushed"]
    by linarith
  then have pr: "pop_room tiny_pushed" by (simp add: pop_room_def)
  have f1: "wwin tiny_pushed - rwin tiny_pushed + 3 \<le> 7" using tiny_pushed_inv(4) by simp
  have f2: "card (fset tiny_pushed) + length (o_spurious no_choices) + 2 \<le> 40"
    using fset_card [OF tiny_pushed_inv(1)] s by (simp add: no_choices_def)
  show ?thesis using pop_from_two_oldest_windows [OF tiny_pushed_inv(1,2) pr f1 f2 p] p by blast
qed

text \<open>
  C4: The constructor establishes the invariant: for a bitset type of 8, 16 or 32 bits, blocks of
  1 to 65535 cells and at most \<open>2 ^ 32\<close> windows the new queue is well formed, empty, and a new
  handle is valid on it.
\<close>
theorem constructor_establishes_invariant:
  fixes T :: "'a::len itself"
  assumes "LENGTH('a) \<in> {8, 16, 32}" and "0 < cpb" and "cpb < 2 ^ 16"
    and "bit_ceil (min_size div bit_ceil (max (LENGTH('a)) requested) div cpb) \<le> 2 ^ 32"
  shows "bbq_inv (block_based_queue_new T line sz requested min_size cpb :: ('v::zero, 'a word) block_based_queue)
    \<and> handle_ok (block_based_queue_new T line sz requested min_size cpb :: ('v, 'a word) block_based_queue) handle_new
    \<and> bbq_content (block_based_queue_new T line sz requested min_size cpb :: ('v, 'a word) block_based_queue) = {#}"
proof -
  have "is_pow2 (LENGTH('a))" using assms(1) is_pow2_I [of 3] is_pow2_I [of 4] is_pow2_I [of 5] by auto
  then have "ctor_ok T requested min_size cpb" using assms by (auto simp: ctor_ok_def)
  from ctor_inv [OF refl this] show ?thesis by blast
qed

theorem constructor_establishes_invariant_witness:
  "bbq_inv (block_based_queue_new TYPE(8) 64 8 8 64 2 :: (nat, 8 word) block_based_queue)
    \<and> handle_ok (block_based_queue_new TYPE(8) 64 8 8 64 2 :: (nat, 8 word) block_based_queue) handle_new
    \<and> bbq_content (block_based_queue_new TYPE(8) 64 8 8 64 2 :: (nat, 8 word) block_based_queue) = {#}"
  by (rule constructor_establishes_invariant) (simp_all add: bit_ceil_4_8)

lemma tiny_sys: "n < 8 \<Longrightarrow> bbq_sys_inv n (bbq_system_new tiny_queue no_choices)"
  using tiny_inv(1,2) tiny_room [of "n + 2"] by (simp add: bbq_system_new_def no_choices_def)

text \<open>The same queue after one push, for the witnesses that need an element.\<close>

lemma pushed_once:
  obtains q1 hs1 o1 where "bbq_push 0 7 (bbq_system_new tiny_queue no_choices) = Some (True, q1, hs1, o1)"
    and "bbq_sys_inv 6 (q1, hs1, o1)" and "bbq_content q1 = {#7#}"
proof -
  let ?s = "bbq_system_new tiny_queue no_choices"
  have ok: "map_option fst (bbq_push 0 7 ?s) = Some True" by code_simp
  obtain b s' where s': "bbq_push 0 7 ?s = Some (b, s')" "bbq_sys_inv 6 s'"
    "bbq_sys_content s' = (if b then add_mset 7 (bbq_sys_content ?s) else bbq_sys_content ?s)"
    using bbq.push_returns [of 6 ?s 7 0] tiny_sys [of 7] by auto
  have "b" using ok unfolding s'(1) by simp
  moreover have "bbq_sys_content ?s = {#}" using tiny_inv(3) by (simp add: bbq_system_new_def)
  moreover obtain q1 hs1 o1 where e: "s' = (q1, hs1, o1)" by (cases s')
  ultimately have "bbq_push 0 7 ?s = Some (True, q1, hs1, o1)" "bbq_content q1 = {#7#}" using s'(1,3) by (simp_all only: e if_True bbq_sys_content.simps)
  then show thesis using that s'(2) e by blast
qed

text \<open>
  C5: \<^verbatim>\<open>size\<close> (which sums the headers from the read to the write window) and \<^verbatim>\<open>size_full\<close> (which
  sums them all) both give the number of elements, as a 64-bit counter.
\<close>
theorem size_counts_elements:
  fixes q :: "('v::zero, 'a::len word) block_based_queue"
  assumes "bbq_inv q"
  shows "bbq_size q = of_nat (size (bbq_content q)) \<and> size_full q = bbq_size q"
  using bbq_size_content [OF assms] by simp

theorem size_counts_elements_witness:
  "\<exists>q1 hs1 o1. bbq_push 0 7 (bbq_system_new tiny_queue no_choices) = Some (True, q1, hs1, o1)
    \<and> bbq_size q1 = 1 \<and> size_full q1 = 1"
proof -
  obtain q1 hs1 o1 where q1: "bbq_push 0 7 (bbq_system_new tiny_queue no_choices) = Some (True, q1, hs1, o1)"
    "bbq_sys_inv 6 (q1, hs1, o1)" "bbq_content q1 = {#7#}" by (rule pushed_once)
  then have "bbq_inv q1" by simp
  from size_counts_elements [OF this] show ?thesis using q1(1,3) by simp
qed

text \<open>
  C6: The consistency test of \<^verbatim>\<open>main.cpp\<close>, for any interleaving of whole operations of any
  number of handles: every run of pushes of nonzero elements and pops returns, and the
  multiset of the elements pushed is the multiset of those popped and those left.
\<close>
theorem bbq_run_consistent:
  fixes q :: "('v::zero, 'a::len word) block_based_queue"
  assumes "bbq_sys_inv (length ops) (bbq_system_new q o1)" and "\<forall>h x. Push h x \<in> set ops \<longrightarrow> x \<noteq> 0"
  shows "\<exists>rs s'. bbq.run ops (bbq_system_new q o1) = Some (rs, s')
    \<and> bbq_content q + pushed_items ops rs = popped_items rs + bbq_sys_content s'"
proof -
  have "bbq.accepted ops" using assms(2) by (induction ops rule: bbq.accepted.induct) auto
  then show ?thesis using bbq.run_conserves [of ops 0 "bbq_system_new q o1"] assms(1) by (auto simp: bbq_system_new_def)
qed

theorem bbq_run_consistent_witness:
  "\<exists>rs s'. bbq.run [Push 0 5, Push 1 7, Pop 0, Pop 1, Pop 0] (bbq_system_new tiny_queue no_choices) = Some (rs, s')
    \<and> bbq_content tiny_queue + pushed_items [Push 0 5, Push 1 7, Pop 0, Pop 1, Pop 0] rs
      = popped_items rs + bbq_sys_content s'"
  by (rule bbq_run_consistent) (auto simp: tiny_sys)

text \<open>
  C7: Draining, the last part of the consistency test: as many pops as there are elements, by
  any one handle, return exactly the elements, and the next pop returns nothing.
\<close>
theorem bbq_drain_returns_all:
  fixes q :: "('v::zero, 'a::len word) block_based_queue"
  assumes "bbq_sys_inv (Suc (size (bbq_content q))) (q, hs, o1)"
  shows "\<exists>rs s'. bbq.run (replicate (size (bbq_content q)) (Pop h)) (q, hs, o1) = Some (rs, s')
    \<and> popped_items rs = bbq_content q \<and> bbq_sys_content s' = {#} \<and> (\<exists>s''. bbq_pop h s' = Some (None, s''))"
  using bbq.drain [OF assms, of h] by simp

theorem bbq_drain_returns_all_witness:
  "\<exists>s rs s'. bbq_push 0 7 (bbq_system_new tiny_queue no_choices) = Some (True, s)
    \<and> bbq.run [Pop 3] s = Some (rs, s') \<and> popped_items rs = {#7#} \<and> bbq_sys_content s' = {#} \<and> (\<exists>s''. bbq_pop 3 s' = Some (None, s''))"
proof -
  obtain q1 hs1 o1 where q1: "bbq_push 0 7 (bbq_system_new tiny_queue no_choices) = Some (True, q1, hs1, o1)"
    "bbq_sys_inv 6 (q1, hs1, o1)" "bbq_content q1 = {#7#}" by (rule pushed_once)
  have room_less: "room m q \<Longrightarrow> k \<le> m \<Longrightarrow> room k q" for m k and q :: "(nat, 8 word) block_based_queue"
    unfolding room_def using div_le_mono by (meson Suc_le_mono add_le_mono le_less_trans le_refl)
  have "bbq_sys_inv (Suc (size (bbq_content q1))) (q1, hs1, o1)" using q1(2,3) room_less by auto
  from bbq_drain_returns_all [OF this, of 3] show ?thesis using q1(1,3) by fastforce
qed

end
