(* ===== verification/Replay_Tree.thy ===== *)
theory Replay_Tree
  imports Prelude
begin

text \<open>
  \<^verbatim>\<open>replay_tree.hpp\<close>: the order-statistics B+-tree of the quality benchmark. Every inner
  node stores the size of its subtree and a delay; the delay of an entry is the sum of the
  delay in its leaf slot and those of all inner nodes above it, so that a whole subtree is
  delayed by one addition.

  A node is a value of a datatype; the used part of its arrays is a list, so \<^verbatim>\<open>slotuse\<close> is a
  length. Leaves carry an identity, which stands for their address: iterators name a leaf
  and a slot. The doubly linked chain of the leaves, with head and tail, the counters of
  \<^verbatim>\<open>stats_\<close> and the allocator (fresh leaf identities) form the record \<open>chain\<close> that the
  operations pass along. Delays and sizes are unbounded integers.
\<close>

section \<open>Nodes and traits\<close>

record ('k, 'v) traits =
  leaf_slots :: nat
  inner_slots :: nat
  bin_leaf :: bool
  bin_inner :: bool
  key_of :: "'v \<Rightarrow> 'k"

text \<open>
  The defaults: node sizes of about 256 bytes, from the sizes of a key, a value and a
  pointer; binary search in nodes larger than the threshold.
\<close>

definition default_slots :: "nat \<Rightarrow> nat" where
  "default_slots entry_size = (if 8 > 256 div entry_size then 8 else 256 div entry_size)"

definition default_traits :: "nat \<Rightarrow> nat \<Rightarrow> nat \<Rightarrow> nat \<Rightarrow> nat \<Rightarrow> ('v \<Rightarrow> 'k) \<Rightarrow> ('k, 'v) traits" where
  "default_traits sizeof_key sizeof_value sizeof_ptr sizeof_leaf sizeof_inner key =
     \<lparr>leaf_slots = default_slots sizeof_value, inner_slots = default_slots (sizeof_key + sizeof_ptr),
      bin_leaf = (sizeof_leaf > 256), bin_inner = (sizeof_inner > 256), key_of = key\<rparr>"

definition leaf_slotmin :: "('k, 'v) traits \<Rightarrow> nat" where
  "leaf_slotmin T = leaf_slots T div 2"

definition inner_slotmin :: "('k, 'v) traits \<Rightarrow> nat" where
  "inner_slotmin T = inner_slots T div 2"

datatype ('k, 'v) node =
    Leaf nat "('v \<times> int) list"
  | Inner nat nat int "'k list" "('k, 'v) node list"

fun level :: "('k, 'v) node \<Rightarrow> nat" where
  "level (Leaf i es) = 0"
| "level (Inner l s d ks cs) = l"

fun slotuse :: "('k, 'v) node \<Rightarrow> nat" where
  "slotuse (Leaf i es) = length es"
| "slotuse (Inner l s d ks cs) = length ks"

fun is_full :: "('k, 'v) traits \<Rightarrow> ('k, 'v) node \<Rightarrow> bool" where
  "is_full T (Leaf i es) \<longleftrightarrow> length es = leaf_slots T"
| "is_full T (Inner l s d ks cs) \<longleftrightarrow> length ks = inner_slots T"

fun is_few :: "('k, 'v) traits \<Rightarrow> ('k, 'v) node \<Rightarrow> bool" where
  "is_few T (Leaf i es) \<longleftrightarrow> length es \<le> leaf_slotmin T"
| "is_few T (Inner l s d ks cs) \<longleftrightarrow> length ks \<le> inner_slotmin T"

fun is_underflow :: "('k, 'v) traits \<Rightarrow> ('k, 'v) node \<Rightarrow> bool" where
  "is_underflow T (Leaf i es) \<longleftrightarrow> length es < leaf_slotmin T"
| "is_underflow T (Inner l s d ks cs) \<longleftrightarrow> length ks < inner_slotmin T"

text \<open>\<^verbatim>\<open>key\<close> of a leaf slot, and the keys of a leaf.\<close>

definition ekey :: "('k, 'v) traits \<Rightarrow> 'v \<times> int \<Rightarrow> 'k" where
  "ekey T e = key_of T (fst e)"

abbreviation ekeys :: "('k, 'v) traits \<Rightarrow> ('v \<times> int) list \<Rightarrow> 'k list" where
  "ekeys T es \<equiv> map (ekey T) es"

fun get_subtree_size :: "('k, 'v) node \<Rightarrow> nat" where
  "get_subtree_size (Leaf i es) = length es"
| "get_subtree_size (Inner l s d ks cs) = s"

text \<open>An inner node after \<^verbatim>\<open>update_subtree_size\<close>.\<close>

definition mk_inner :: "nat \<Rightarrow> int \<Rightarrow> 'k list \<Rightarrow> ('k, 'v) node list \<Rightarrow> ('k, 'v) node" where
  "mk_inner l d ks cs = Inner l (sum_list (map get_subtree_size cs)) d ks cs"

fun add_delay :: "int \<Rightarrow> ('k, 'v) node \<Rightarrow> ('k, 'v) node" where
  "add_delay x (Leaf i es) = Leaf i (map (\<lambda>(v, d). (v, d + x)) es)"
| "add_delay x (Inner l s d ks cs) = Inner l s (d + x) ks cs"

section \<open>Leaf chain, allocation and statistics\<close>

record chain =
  next_leaf :: "nat \<Rightarrow> nat option"
  prev_leaf :: "nat \<Rightarrow> nat option"
  head_leaf :: "nat option"
  tail_leaf :: "nat option"
  st_leaves :: nat
  st_inner :: nat
  fresh :: nat

record ('k, 'v) tree =
  root :: "('k, 'v) node option"
  links :: chain
  st_size :: nat

definition chain_new :: chain where
  "chain_new = \<lparr>next_leaf = (\<lambda>_. None), prev_leaf = (\<lambda>_. None), head_leaf = None, tail_leaf = None,
     st_leaves = 0, st_inner = 0, fresh = 0\<rparr>"

definition tree_new :: "('k, 'v) tree" where
  "tree_new = \<lparr>root = None, links = chain_new, st_size = 0\<rparr>"

definition allocate_leaf :: "chain \<Rightarrow> nat \<times> chain" where
  "allocate_leaf c = (fresh c, c\<lparr>next_leaf := (next_leaf c)(fresh c := None),
     prev_leaf := (prev_leaf c)(fresh c := None), st_leaves := st_leaves c + 1, fresh := fresh c + 1\<rparr>)"

definition allocate_inner :: "chain \<Rightarrow> chain" where
  "allocate_inner c = c\<lparr>st_inner := st_inner c + 1\<rparr>"

definition free_node :: "('k, 'v) node \<Rightarrow> chain \<Rightarrow> chain" where
  "free_node n c = (if level n = 0 then c\<lparr>st_leaves := st_leaves c - 1\<rparr> else c\<lparr>st_inner := st_inner c - 1\<rparr>)"

fun clear_recursive :: "('k, 'v) node \<Rightarrow> chain \<Rightarrow> chain" where
  "clear_recursive (Leaf i es) c = c"
| "clear_recursive (Inner l s d ks cs) c = fold (\<lambda>n c. free_node n (clear_recursive n c)) cs c"

definition clear :: "('k, 'v) tree \<Rightarrow> ('k, 'v) tree" where
  "clear t = (case root t of None \<Rightarrow> t
     | Some r \<Rightarrow>
         let c = free_node r (clear_recursive r (links t)) in
         \<lparr>root = None, links = c\<lparr>head_leaf := None, tail_leaf := None, st_leaves := 0, st_inner := 0\<rparr>, st_size = 0\<rparr>)"

section \<open>Search within a node\<close>

function bin_lower :: "'k::linorder list \<Rightarrow> 'k \<Rightarrow> nat \<Rightarrow> nat \<Rightarrow> nat" where
  "bin_lower ks key lo hi =
     (if lo < hi then
        let mid = (lo + hi) div 2 in
        if key \<le> ks ! mid then bin_lower ks key lo mid else bin_lower ks key (mid + 1) hi
      else lo)"
  by pat_completeness auto
termination
  by (relation "measure (\<lambda>(ks, key, lo, hi). hi - lo)") auto

function lin_lower :: "'k::linorder list \<Rightarrow> 'k \<Rightarrow> nat \<Rightarrow> nat" where
  "lin_lower ks key lo = (if lo < length ks \<and> ks ! lo < key then lin_lower ks key (lo + 1) else lo)"
  by pat_completeness auto
termination
  by (relation "measure (\<lambda>(ks, key, lo). length ks - lo)") auto

function bin_upper :: "'k::linorder list \<Rightarrow> 'k \<Rightarrow> nat \<Rightarrow> nat \<Rightarrow> nat" where
  "bin_upper ks key lo hi =
     (if lo < hi then
        let mid = (lo + hi) div 2 in
        if key < ks ! mid then bin_upper ks key lo mid else bin_upper ks key (mid + 1) hi
      else lo)"
  by pat_completeness auto
termination
  by (relation "measure (\<lambda>(ks, key, lo, hi). hi - lo)") auto

function lin_upper :: "'k::linorder list \<Rightarrow> 'k \<Rightarrow> nat \<Rightarrow> nat" where
  "lin_upper ks key lo = (if lo < length ks \<and> ks ! lo \<le> key then lin_upper ks key (lo + 1) else lo)"
  by pat_completeness auto
termination
  by (relation "measure (\<lambda>(ks, key, lo). length ks - lo)") auto

declare bin_lower.simps [simp del] lin_lower.simps [simp del] bin_upper.simps [simp del] lin_upper.simps [simp del]

definition find_lower :: "bool \<Rightarrow> 'k::linorder list \<Rightarrow> 'k \<Rightarrow> nat" where
  "find_lower binary ks key =
     (if binary then if ks = [] then 0 else bin_lower ks key 0 (length ks) else lin_lower ks key 0)"

definition find_upper :: "bool \<Rightarrow> 'k::linorder list \<Rightarrow> 'k \<Rightarrow> nat" where
  "find_upper binary ks key =
     (if binary then if ks = [] then 0 else bin_upper ks key 0 (length ks) else lin_upper ks key 0)"

section \<open>Iterators and descents\<close>

text \<open>An iterator: the leaf it points into (\<^term>\<open>None\<close> for a null pointer) and the slot.\<close>

type_synonym iter = "nat option \<times> nat"

fun leaves :: "('k, 'v) node \<Rightarrow> (nat \<times> ('v \<times> int) list) list" where
  "leaves (Leaf i es) = [(i, es)]"
| "leaves (Inner l s d ks cs) = concat (map leaves cs)"

definition tree_leaves :: "('k, 'v) tree \<Rightarrow> (nat \<times> ('v \<times> int) list) list" where
  "tree_leaves t = (case root t of None \<Rightarrow> [] | Some r \<Rightarrow> leaves r)"

text \<open>Following a leaf pointer.\<close>

definition slotdata :: "('k, 'v) tree \<Rightarrow> nat \<Rightarrow> ('v \<times> int) list" where
  "slotdata t i = (case map_of (tree_leaves t) i of None \<Rightarrow> [] | Some es \<Rightarrow> es)"

definition tree_begin :: "('k, 'v) tree \<Rightarrow> iter" where
  "tree_begin t = (head_leaf (links t), 0)"

definition tree_end :: "('k, 'v) tree \<Rightarrow> iter" where
  "tree_end t = (tail_leaf (links t), case tail_leaf (links t) of None \<Rightarrow> 0 | Some i \<Rightarrow> length (slotdata t i))"

text \<open>The value an iterator refers to; \<^term>\<open>None\<close> where the source reads past the used slots.\<close>

fun deref :: "('k, 'v) tree \<Rightarrow> iter \<Rightarrow> 'v option" where
  "deref t (None, s) = None"
| "deref t (Some i, s) = (if s < length (slotdata t i) then Some (fst (slotdata t i ! s)) else None)"

fun iter_next :: "('k, 'v) tree \<Rightarrow> iter \<Rightarrow> iter" where
  "iter_next t (None, s) = (None, s)"
| "iter_next t (Some i, s) =
     (if s + 1 < length (slotdata t i) then (Some i, s + 1)
      else case next_leaf (links t) i of
        Some j \<Rightarrow> (Some j, 0)
      | None \<Rightarrow> (Some i, length (slotdata t i)))"

fun iter_prev :: "('k, 'v) tree \<Rightarrow> iter \<Rightarrow> iter" where
  "iter_prev t (None, s) = (None, s)"
| "iter_prev t (Some i, s) =
     (if 0 < s then (Some i, s - 1)
      else case prev_leaf (links t) i of
        Some j \<Rightarrow> (Some j, length (slotdata t j) - 1)
      | None \<Rightarrow> (Some i, 0))"

text \<open>
  The child an inner node's key search leads to. The search stays within the children;
  the guard makes the recursion total.
\<close>

lemma child_smaller [termination_simp]:
  fixes cs :: "('k, 'v) node list"
  shows "i < length cs \<Longrightarrow> size (cs ! i) < Suc (size_list size cs)"
  by (rule le_imp_less_Suc, rule size_list_estimation' [OF nth_mem order_refl])

lemma child_smaller_node:
  "i < length cs \<Longrightarrow> size (cs ! i) < size (Inner l s d ks cs)"
  using child_smaller [of i cs] by simp

function descend_lower :: "('k::linorder, 'v) traits \<Rightarrow> 'k \<Rightarrow> ('k, 'v) node \<Rightarrow> iter" where
  "descend_lower T key (Leaf i es) = (Some i, find_lower (bin_leaf T) (ekeys T es) key)"
| "descend_lower T key (Inner l s d ks cs) =
     (let slot = find_lower (bin_inner T) ks key in
      if slot < length cs then descend_lower T key (cs ! slot) else (None, 0))"
  by pat_completeness auto
termination
  by (relation "measure (\<lambda>(T, key, n). size n)") (auto dest: child_smaller_node)

function descend_upper :: "('k::linorder, 'v) traits \<Rightarrow> 'k \<Rightarrow> ('k, 'v) node \<Rightarrow> iter" where
  "descend_upper T key (Leaf i es) = (Some i, find_upper (bin_leaf T) (ekeys T es) key)"
| "descend_upper T key (Inner l s d ks cs) =
     (let slot = find_upper (bin_inner T) ks key in
      if slot < length cs then descend_upper T key (cs ! slot) else (None, 0))"
  by pat_completeness auto
termination
  by (relation "measure (\<lambda>(T, key, n). size n)") (auto dest: child_smaller_node)

definition lower_bound :: "('k::linorder, 'v) traits \<Rightarrow> 'k \<Rightarrow> ('k, 'v) tree \<Rightarrow> iter" where
  "lower_bound T key t = (case root t of None \<Rightarrow> tree_end t | Some n \<Rightarrow> descend_lower T key n)"

definition upper_bound :: "('k::linorder, 'v) traits \<Rightarrow> 'k \<Rightarrow> ('k, 'v) tree \<Rightarrow> iter" where
  "upper_bound T key t = (case root t of None \<Rightarrow> tree_end t | Some n \<Rightarrow> descend_upper T key n)"

definition tree_find :: "('k::linorder, 'v) traits \<Rightarrow> 'k \<Rightarrow> ('k, 'v) tree \<Rightarrow> iter" where
  "tree_find T key t = (case root t of None \<Rightarrow> tree_end t
     | Some n \<Rightarrow>
         let it = descend_lower T key n in
         case deref t it of
           Some v \<Rightarrow> if key_of T v = key then it else tree_end t
         | None \<Rightarrow> tree_end t)"

function rank_descend :: "('k::linorder, 'v) traits \<Rightarrow> 'k \<Rightarrow> ('k, 'v) node \<Rightarrow> nat" where
  "rank_descend T key (Leaf i es) = find_lower (bin_leaf T) (ekeys T es) key"
| "rank_descend T key (Inner l s d ks cs) =
     (let slot = find_lower (bin_inner T) ks key in
      if slot < length cs
      then sum_list (map get_subtree_size (take slot cs)) + rank_descend T key (cs ! slot) else 0)"
  by pat_completeness auto
termination
  by (relation "measure (\<lambda>(T, key, n). size n)") (auto dest: child_smaller_node)

definition get_rank :: "('k::linorder, 'v) traits \<Rightarrow> 'k \<Rightarrow> ('k, 'v) tree \<Rightarrow> nat" where
  "get_rank T key t = (case root t of None \<Rightarrow> 0 | Some n \<Rightarrow> rank_descend T key n)"

definition increase_global_delay :: "('k, 'v) tree \<Rightarrow> ('k, 'v) tree" where
  "increase_global_delay t = t\<lparr>root := map_option (add_delay 1) (root t)\<rparr>"

section \<open>Insertion\<close>

definition insert_at :: "nat \<Rightarrow> 'a \<Rightarrow> 'a list \<Rightarrow> 'a list" where
  "insert_at i x xs = take i xs @ x # drop i xs"

text \<open>
  \<^verbatim>\<open>split_leaf_node\<close>: the upper half goes to a fresh leaf, linked after the old one. The result
  is the split key, the two halves and the identity of the new leaf.
\<close>

definition link_after :: "nat \<Rightarrow> nat \<Rightarrow> chain \<Rightarrow> chain" where
  "link_after i j c =
     (let nx = next_leaf c i;
          c1 = c\<lparr>next_leaf := (next_leaf c)(j := nx)\<rparr>;
          c2 = (case nx of None \<Rightarrow> c1\<lparr>tail_leaf := Some j\<rparr>
                | Some k \<Rightarrow> c1\<lparr>prev_leaf := (prev_leaf c1)(k := Some j)\<rparr>)
      in c2\<lparr>next_leaf := (next_leaf c2)(i := Some j), prev_leaf := (prev_leaf c2)(j := Some i)\<rparr>)"

definition split_leaf_node :: "('k, 'v) traits \<Rightarrow> nat \<Rightarrow> ('v \<times> int) list \<Rightarrow> chain
    \<Rightarrow> 'k \<times> ('v \<times> int) list \<times> ('v \<times> int) list \<times> nat \<times> chain" where
  "split_leaf_node T i es c =
     (let mid = length es div 2; (j, c1) = allocate_leaf c; c2 = link_after i j c1
      in (ekey T (es ! (mid - 1)), take mid es, drop mid es, j, c2))"

definition insert_leaf :: "('k::linorder, 'v) traits \<Rightarrow> 'k \<Rightarrow> 'v \<Rightarrow> int \<Rightarrow> nat \<Rightarrow> ('v \<times> int) list \<Rightarrow> chain
    \<Rightarrow> iter \<times> ('k, 'v) node \<times> ('k \<times> ('k, 'v) node) option \<times> chain" where
  "insert_leaf T key v delay i es c =
     (let slot = find_lower (bin_leaf T) (ekeys T es) key in
      if length es = leaf_slots T then
        let (sk, les, res, j, c1) = split_leaf_node T i es c in
        if slot \<ge> length les then
          let slot' = slot - length les in
          ((Some j, slot'), Leaf i les, Some (sk, Leaf j (insert_at slot' (v, - delay) res)), c1)
        else
          let les' = insert_at slot (v, - delay) les; sk' = (if slot = length les' - 1 then key else sk) in
          ((Some i, slot), Leaf i les', Some (sk', Leaf j res), c1)
      else ((Some i, slot), Leaf i (insert_at slot (v, - delay) es), None, c))"

text \<open>\<^verbatim>\<open>split_inner_node\<close>: where to split, and the two halves with the key between them.\<close>

definition split_inner_mid :: "nat \<Rightarrow> nat \<Rightarrow> nat" where
  "split_inner_mid use addslot =
     (let mid = use div 2 in if addslot \<le> mid \<and> mid > use - (mid + 1) then mid - 1 else mid)"

definition split_inner_node :: "'k list \<Rightarrow> ('k, 'v) node list \<Rightarrow> nat
    \<Rightarrow> 'k \<times> 'k list \<times> ('k, 'v) node list \<times> 'k list \<times> ('k, 'v) node list" where
  "split_inner_node ks cs addslot =
     (let mid = split_inner_mid (length ks) addslot in
      (ks ! mid, take mid ks, take (mid + 1) cs, drop (mid + 1) ks, drop (mid + 1) cs))"

text \<open>The part of \<^verbatim>\<open>insert_descend\<close> that takes the new sibling of a split child into an inner node.\<close>

definition insert_child :: "('k, 'v) traits \<Rightarrow> nat \<Rightarrow> int \<Rightarrow> 'k list \<Rightarrow> ('k, 'v) node list \<Rightarrow> nat \<Rightarrow> 'k
    \<Rightarrow> ('k, 'v) node \<Rightarrow> chain \<Rightarrow> ('k, 'v) node \<times> ('k \<times> ('k, 'v) node) option \<times> chain" where
  "insert_child T l d ks cs slot newkey newchild c =
     (if length ks = inner_slots T then
        let (sk, lks, lcs, rks, rcs) = split_inner_node ks cs slot; c1 = allocate_inner c in
        if slot = length lks + 1 \<and> length lks < length rks then
          (mk_inner l d (lks @ [sk]) (lcs @ [hd rcs]), Some (newkey, mk_inner l d rks (newchild # tl rcs)), c1)
        else if slot \<ge> length lks + 1 then
          let slot' = slot - (length lks + 1) in
          (mk_inner l d lks lcs,
           Some (sk, mk_inner l d (insert_at slot' newkey rks) (insert_at (slot' + 1) newchild rcs)), c1)
        else
          (mk_inner l d (insert_at slot newkey lks) (insert_at (slot + 1) newchild lcs),
           Some (sk, mk_inner l d rks rcs), c1)
      else (mk_inner l d (insert_at slot newkey ks) (insert_at (slot + 1) newchild cs), None, c))"

function insert_descend :: "('k::linorder, 'v) traits \<Rightarrow> 'k \<Rightarrow> 'v \<Rightarrow> int \<Rightarrow> ('k, 'v) node \<Rightarrow> chain
    \<Rightarrow> iter \<times> ('k, 'v) node \<times> ('k \<times> ('k, 'v) node) option \<times> chain" where
  "insert_descend T key v delay (Leaf i es) c = insert_leaf T key v delay i es c"
| "insert_descend T key v delay (Inner l s d ks cs) c =
     (let slot = find_lower (bin_inner T) ks key in
      if slot < length cs then
        let (r, child, new, c1) = insert_descend T key v (delay + d) (cs ! slot) c;
            cs1 = cs[slot := child]
        in case new of
             None \<Rightarrow> (r, mk_inner l d ks cs1, None, c1)
           | Some (newkey, newchild) \<Rightarrow>
               let (n', new', c2) = insert_child T l d ks cs1 slot newkey newchild c1 in (r, n', new', c2)
      else ((None, 0), Inner l s d ks cs, None, c))"
  by pat_completeness auto
termination
  by (relation "measure (\<lambda>(T, key, v, delay, n, c). size n)") (auto dest: child_smaller_node)

definition insert_start :: "('k::linorder, 'v) traits \<Rightarrow> 'k \<Rightarrow> 'v \<Rightarrow> ('k, 'v) tree \<Rightarrow> iter \<times> ('k, 'v) tree" where
  "insert_start T key v t =
     (let (r0, c0) = (case root t of Some r \<Rightarrow> (r, links t)
                      | None \<Rightarrow> let (i, c) = allocate_leaf (links t)
                                in (Leaf i [], c\<lparr>head_leaf := Some i, tail_leaf := Some i\<rparr>));
          (it, r1, new, c1) = insert_descend T key v 0 r0 c0;
          (r2, c2) = (case new of None \<Rightarrow> (r1, c1)
                      | Some (newkey, newchild) \<Rightarrow> (mk_inner (level r1 + 1) 0 [newkey] [r1, newchild], allocate_inner c1))
      in (it, \<lparr>root = Some r2, links = c2, st_size = st_size t + 1\<rparr>))"

definition tree_insert :: "('k::linorder, 'v) traits \<Rightarrow> 'v \<Rightarrow> ('k, 'v) tree \<Rightarrow> iter \<times> ('k, 'v) tree" where
  "tree_insert T v t = insert_start T (key_of T v) v t"

fun insert_range :: "('k::linorder, 'v) traits \<Rightarrow> 'v list \<Rightarrow> ('k, 'v) tree \<Rightarrow> ('k, 'v) tree" where
  "insert_range T [] t = t"
| "insert_range T (v # vs) t = insert_range T vs (snd (tree_insert T v t))"

end
