(* ===== verification/Replay_Erase.thy ===== *)
theory Replay_Erase
  imports Replay_Tree
begin

text \<open>
  Erasure in \<^verbatim>\<open>replay_tree.hpp\<close>: \<^verbatim>\<open>erase_iter_descend\<close> with its merges and shifts, \<^verbatim>\<open>erase\<close>,
  \<^verbatim>\<open>erase_val\<close>, the copy operations and the self-check \<^verbatim>\<open>verify\<close>.

  What a call of \<^verbatim>\<open>erase_iter_descend\<close> can reach of its surroundings is the record \<open>around\<close>:
  the siblings, whether each has the same parent as the node, and the keys of the parent. The
  result returns them as the call leaves them. The call only ever changes siblings below its
  own parent; where the code would change another one its assertions are violated, which the
  model reports as \<open>Broken\<close>.
\<close>

section \<open>Merging and shifting\<close>

definition delay_slots :: "int \<Rightarrow> ('v \<times> int) list \<Rightarrow> ('v \<times> int) list" where
  "delay_slots x es = map (\<lambda>(v, d). (v, d + x)) es"

text \<open>\<^verbatim>\<open>merge_leaves\<close>: the slots of the merged leaf, and the chain without the right leaf.\<close>

definition unlink_after :: "nat \<Rightarrow> nat \<Rightarrow> chain \<Rightarrow> chain" where
  "unlink_after i j c =
     (let c1 = c\<lparr>next_leaf := (next_leaf c)(i := next_leaf c j)\<rparr> in
      case next_leaf c1 i of
        Some k \<Rightarrow> c1\<lparr>prev_leaf := (prev_leaf c1)(k := Some i)\<rparr>
      | None \<Rightarrow> c1\<lparr>tail_leaf := Some i\<rparr>)"

fun merge_leaves :: "int \<Rightarrow> int \<Rightarrow> ('k, 'v) node \<Rightarrow> ('k, 'v) node \<Rightarrow> chain
    \<Rightarrow> ('k, 'v) node \<times> ('k, 'v) node \<times> chain" where
  "merge_leaves ld rd (Leaf i es) (Leaf j fs) c =
     (Leaf i (es @ delay_slots (rd - ld) fs), Leaf j [], unlink_after i j c)"
| "merge_leaves ld rd a b c = (a, b, c)"

fun merge_inner :: "int \<Rightarrow> int \<Rightarrow> ('k, 'v) node \<Rightarrow> ('k, 'v) node \<Rightarrow> 'k list \<Rightarrow> nat
    \<Rightarrow> ('k, 'v) node \<times> ('k, 'v) node" where
  "merge_inner ld rd (Inner l s d ks cs) (Inner l' s' d' ks' cs') pks ps =
     (let diff = (d' + rd) - (d + ld) in
      (mk_inner l d (ks @ [pks ! ps] @ ks') (cs @ map (add_delay diff) cs'), Inner l' 0 d' [] []))"
| "merge_inner ld rd a b pks ps = (a, b)"

text \<open>\<^verbatim>\<open>shift_left_leaf\<close>: both leaves, the parent's keys, and a last key the parent cannot hold.\<close>

fun shift_left_leaf :: "('k, 'v) traits \<Rightarrow> int \<Rightarrow> int \<Rightarrow> ('k, 'v) node \<Rightarrow> ('k, 'v) node \<Rightarrow> 'k list \<Rightarrow> nat
    \<Rightarrow> ('k, 'v) node \<times> ('k, 'v) node \<times> 'k list \<times> 'k option" where
  "shift_left_leaf T ld rd (Leaf i es) (Leaf j fs) pks ps =
     (let m = (length fs - length es) div 2;
          es' = es @ delay_slots (rd - ld) (take m fs);
          k = ekey T (es' ! (length es' - 1))
      in (Leaf i es', Leaf j (drop m fs),
          if ps < length pks then pks[ps := k] else pks, if ps < length pks then None else Some k))"
| "shift_left_leaf T ld rd a b pks ps = (a, b, pks, None)"

fun shift_left_inner :: "int \<Rightarrow> int \<Rightarrow> ('k, 'v) node \<Rightarrow> ('k, 'v) node \<Rightarrow> 'k list \<Rightarrow> nat
    \<Rightarrow> ('k, 'v) node \<times> ('k, 'v) node \<times> 'k list" where
  "shift_left_inner ld rd (Inner l s d ks cs) (Inner l' s' d' ks' cs') pks ps =
     (let m = (length ks' - length ks) div 2; diff = (d' + rd) - (d + ld) in
      (mk_inner l d (ks @ [pks ! ps] @ take (m - 1) ks') (cs @ map (add_delay diff) (take m cs')),
       mk_inner l' d' (drop m ks') (drop m cs'), pks[ps := ks' ! (m - 1)]))"
| "shift_left_inner ld rd a b pks ps = (a, b, pks)"

fun shift_right_leaf :: "('k, 'v) traits \<Rightarrow> int \<Rightarrow> int \<Rightarrow> ('k, 'v) node \<Rightarrow> ('k, 'v) node \<Rightarrow> 'k list \<Rightarrow> nat
    \<Rightarrow> ('k, 'v) node \<times> ('k, 'v) node \<times> 'k list" where
  "shift_right_leaf T ld rd (Leaf i es) (Leaf j fs) pks ps =
     (let m = (length es - length fs) div 2;
          es' = take (length es - m) es
      in (Leaf i es', Leaf j (delay_slots (ld - rd) (drop (length es - m) es) @ fs),
          pks[ps := ekey T (es' ! (length es' - 1))]))"
| "shift_right_leaf T ld rd a b pks ps = (a, b, pks)"

fun shift_right_inner :: "int \<Rightarrow> int \<Rightarrow> ('k, 'v) node \<Rightarrow> ('k, 'v) node \<Rightarrow> 'k list \<Rightarrow> nat
    \<Rightarrow> ('k, 'v) node \<times> ('k, 'v) node \<times> 'k list" where
  "shift_right_inner ld rd (Inner l s d ks cs) (Inner l' s' d' ks' cs') pks ps =
     (let m = (length ks - length ks') div 2; diff = (d + ld) - (d' + rd); n = length ks in
      (mk_inner l d (take (n - m) ks) (take (n - m + 1) cs),
       mk_inner l' d' (drop (n - m + 1) ks @ [pks ! ps] @ ks') (map (add_delay diff) (drop (n - m + 1) cs) @ cs'),
       pks[ps := ks ! (n - m)]))"
| "shift_right_inner ld rd a b pks ps = (a, b, pks)"

section \<open>Underflow\<close>

record ('k, 'v) around =
  a_left :: "('k, 'v) node option"
  a_right :: "('k, 'v) node option"
  left_own :: bool
  right_own :: bool
  pkeys :: "'k list"
  pslot :: nat
  left_delay :: int
  right_delay :: int

record ('k, 'v) erased =
  e_node :: "('k, 'v) node option"
  e_left :: "('k, 'v) node option"
  e_right :: "('k, 'v) node option"
  e_keys :: "'k list"
  e_last :: "'k option"
  e_merge :: bool
  e_delay :: int
  e_chain :: chain

datatype ('k, 'v) outcome = Not_found | Broken | Erased "('k, 'v) erased"

datatype action = Keep | Collapse | Merge_left | Merge_right | Shift_left | Shift_right

abbreviation few :: "('k, 'v) traits \<Rightarrow> ('k, 'v) node option \<Rightarrow> bool" where
  "few T n \<equiv> (case n of None \<Rightarrow> False | Some m \<Rightarrow> is_few T m)"

abbreviation plenty :: "('k, 'v) traits \<Rightarrow> ('k, 'v) node option \<Rightarrow> bool" where
  "plenty T n \<equiv> (case n of None \<Rightarrow> False | Some m \<Rightarrow> \<not> is_few T m)"

abbreviation use_of :: "('k, 'v) node option \<Rightarrow> nat" where
  "use_of n \<equiv> (case n of None \<Rightarrow> 0 | Some m \<Rightarrow> slotuse m)"

text \<open>
  The cases of the leaf branch, in order. \<^verbatim>\<open>left_parent == right_parent\<close> holds, outside the
  root, exactly when both siblings are below the node's own parent.
\<close>

definition leaf_action :: "('k, 'v) traits \<Rightarrow> bool \<Rightarrow> ('k, 'v) around \<Rightarrow> ('k, 'v) node \<Rightarrow> action" where
  "leaf_action T is_root A n =
     (if \<not> (is_underflow T n \<and> \<not> (is_root \<and> slotuse n \<ge> 1)) then Keep
      else if a_left A = None \<and> a_right A = None then Collapse
      else if (a_left A = None \<or> few T (a_left A)) \<and> (a_right A = None \<or> few T (a_right A)) then
        if left_own A then Merge_left else Merge_right
      else if few T (a_left A) \<and> plenty T (a_right A) then
        if right_own A then Shift_left else Merge_left
      else if plenty T (a_left A) \<and> few T (a_right A) then
        if left_own A then Shift_right else Merge_right
      else if left_own A \<and> right_own A then
        if use_of (a_left A) \<le> use_of (a_right A) then Shift_left else Shift_right
      else if left_own A then Shift_right else Shift_left)"

definition fix_leaf :: "('k, 'v) traits \<Rightarrow> bool \<Rightarrow> int \<Rightarrow> ('k, 'v) around \<Rightarrow> ('k, 'v) node \<Rightarrow> 'k list \<Rightarrow> 'k option
    \<Rightarrow> int \<Rightarrow> chain \<Rightarrow> ('k, 'v) outcome" where
  "fix_leaf T is_root delay A n pks lastk found c =
     (let r = \<lparr>e_node = Some n, e_left = a_left A, e_right = a_right A, e_keys = pks, e_last = lastk,
               e_merge = False, e_delay = found, e_chain = c\<rparr> in
      case leaf_action T is_root A n of
        Keep \<Rightarrow> Erased r
      | Collapse \<Rightarrow>
          if is_root then Erased (r\<lparr>e_node := None, e_last := None,
                                    e_chain := (free_node n c)\<lparr>head_leaf := None, tail_leaf := None\<rparr>\<rparr>)
          else Broken
      | Merge_left \<Rightarrow>
          (case (left_own A, a_left A) of
             (True, Some nl) \<Rightarrow>
               let (nl', n', c') = merge_leaves (left_delay A) delay nl n c in
               Erased (r\<lparr>e_node := Some n', e_left := Some nl', e_merge := True, e_chain := c'\<rparr>)
           | _ \<Rightarrow> Broken)
      | Merge_right \<Rightarrow>
          (case (right_own A, a_right A) of
             (True, Some nr) \<Rightarrow>
               let (n', nr', c') = merge_leaves delay (right_delay A) n nr c in
               Erased (r\<lparr>e_node := Some n', e_right := Some nr', e_merge := True, e_chain := c'\<rparr>)
           | _ \<Rightarrow> Broken)
      | Shift_left \<Rightarrow>
          (case (right_own A, a_right A) of
             (True, Some nr) \<Rightarrow>
               let (n', nr', pks', up) = shift_left_leaf T delay (right_delay A) n nr pks (pslot A) in
               Erased (r\<lparr>e_node := Some n', e_right := Some nr', e_keys := pks',
                         e_last := (case up of None \<Rightarrow> lastk | Some k \<Rightarrow> Some k)\<rparr>)
           | _ \<Rightarrow> Broken)
      | Shift_right \<Rightarrow>
          (case (left_own A, a_left A) of
             (True, Some nl) \<Rightarrow>
               let (nl', n', pks') = shift_right_leaf T (left_delay A) delay nl n pks (pslot A - 1) in
               Erased (r\<lparr>e_node := Some n', e_left := Some nl', e_keys := pks'\<rparr>)
           | _ \<Rightarrow> Broken))"

text \<open>The inner branch has the same cases; a root left with one child gives way to that child.\<close>

definition inner_action :: "('k, 'v) traits \<Rightarrow> bool \<Rightarrow> ('k, 'v) around \<Rightarrow> ('k, 'v) node \<Rightarrow> action" where
  "inner_action T is_root A n =
     (if \<not> (is_underflow T n \<and> \<not> (is_root \<and> slotuse n \<ge> 1)) then Keep
      else if a_left A = None \<and> a_right A = None then Collapse
      else if (a_left A = None \<or> few T (a_left A)) \<and> (a_right A = None \<or> few T (a_right A)) then
        if left_own A then Merge_left else Merge_right
      else if few T (a_left A) \<and> plenty T (a_right A) then
        if right_own A then Shift_left else Merge_left
      else if plenty T (a_left A) \<and> few T (a_right A) then
        if left_own A then Shift_right else Merge_right
      else if left_own A \<and> right_own A then
        if use_of (a_left A) \<le> use_of (a_right A) then Shift_left else Shift_right
      else if left_own A then Shift_right else Shift_left)"

fun children :: "('k, 'v) node \<Rightarrow> ('k, 'v) node list" where
  "children (Leaf i es) = []"
| "children (Inner l s d ks cs) = cs"

fun ndelay :: "('k, 'v) node \<Rightarrow> int" where
  "ndelay (Leaf i es) = 0"
| "ndelay (Inner l s d ks cs) = d"

definition fix_inner :: "('k, 'v) traits \<Rightarrow> bool \<Rightarrow> int \<Rightarrow> ('k, 'v) around \<Rightarrow> ('k, 'v) node \<Rightarrow> 'k list \<Rightarrow> 'k option
    \<Rightarrow> int \<Rightarrow> chain \<Rightarrow> ('k, 'v) outcome" where
  "fix_inner T is_root delay A n pks lastk found c =
     (let r = \<lparr>e_node = Some n, e_left = a_left A, e_right = a_right A, e_keys = pks, e_last = lastk,
               e_merge = False, e_delay = found, e_chain = c\<rparr> in
      case inner_action T is_root A n of
        Keep \<Rightarrow> Erased r
      | Collapse \<Rightarrow>
          if is_root then Erased (r\<lparr>e_node := Some (add_delay (ndelay n) (children n ! 0)), e_last := None,
                                    e_chain := free_node n c\<rparr>)
          else Broken
      | Merge_left \<Rightarrow>
          (case (left_own A, a_left A) of
             (True, Some nl) \<Rightarrow>
               let (nl', n') = merge_inner (left_delay A) delay nl n pks (pslot A - 1) in
               Erased (r\<lparr>e_node := Some n', e_left := Some nl', e_merge := True\<rparr>)
           | _ \<Rightarrow> Broken)
      | Merge_right \<Rightarrow>
          (case (right_own A, a_right A) of
             (True, Some nr) \<Rightarrow>
               let (n', nr') = merge_inner delay (right_delay A) n nr pks (pslot A) in
               Erased (r\<lparr>e_node := Some n', e_right := Some nr', e_merge := True\<rparr>)
           | _ \<Rightarrow> Broken)
      | Shift_left \<Rightarrow>
          (case (right_own A, a_right A) of
             (True, Some nr) \<Rightarrow>
               let (n', nr', pks') = shift_left_inner delay (right_delay A) n nr pks (pslot A) in
               Erased (r\<lparr>e_node := Some n', e_right := Some nr', e_keys := pks'\<rparr>)
           | _ \<Rightarrow> Broken)
      | Shift_right \<Rightarrow>
          (case (left_own A, a_left A) of
             (True, Some nl) \<Rightarrow>
               let (nl', n', pks') = shift_right_inner (left_delay A) delay nl n pks (pslot A - 1) in
               Erased (r\<lparr>e_node := Some n', e_left := Some nl', e_keys := pks'\<rparr>)
           | _ \<Rightarrow> Broken))"

section \<open>Descent\<close>

text \<open>
  A changed last key: the parent's key if the node has one there, otherwise it is passed
  on. \<^term>\<open>lk\<close> is the new last key, if it changed.
\<close>

definition note_last :: "('k, 'v) around \<Rightarrow> 'k option \<Rightarrow> 'k list \<times> 'k option" where
  "note_last A lk = (case lk of None \<Rightarrow> (pkeys A, None)
     | Some k \<Rightarrow> if pslot A < length (pkeys A) then ((pkeys A)[pslot A := k], None) else (pkeys A, Some k))"

definition erase_leaf :: "('k, 'v) traits \<Rightarrow> iter \<Rightarrow> bool \<Rightarrow> int \<Rightarrow> ('k, 'v) around \<Rightarrow> nat \<Rightarrow> ('v \<times> int) list \<Rightarrow> chain
    \<Rightarrow> ('k, 'v) outcome" where
  "erase_leaf T it is_root delay A i es c =
     (if fst it \<noteq> Some i then Not_found
      else if snd it \<ge> length es then Not_found
      else
        let slot = snd it; d = snd (es ! slot);
            es' = take slot es @ drop (slot + 1) es;
            lk = (if slot = length es' \<and> (pslot A < length (pkeys A) \<or> length es' \<ge> 1)
                  then Some (ekey T (es' ! (length es' - 1))) else None);
            (pks, up) = note_last A lk
        in fix_leaf T is_root delay A (Leaf i es') pks up (delay + d) c)"

text \<open>The siblings handed down with the child in a slot.\<close>

definition around_child :: "('k, 'v) around \<Rightarrow> int \<Rightarrow> int \<Rightarrow> 'k list \<Rightarrow> ('k, 'v) node list \<Rightarrow> nat \<Rightarrow> ('k, 'v) around" where
  "around_child A delay d ks cs slot =
     \<lparr>a_left = (if slot = 0 then map_option (\<lambda>m. children m ! (slotuse m - 1)) (a_left A) else Some (cs ! (slot - 1))),
      a_right = (if slot = length ks then map_option (\<lambda>m. children m ! 0) (a_right A) else Some (cs ! (slot + 1))),
      left_own = (slot \<noteq> 0), right_own = (slot \<noteq> length ks), pkeys = ks, pslot = slot,
      left_delay = (if slot = 0 then case a_left A of None \<Rightarrow> 0 | Some m \<Rightarrow> left_delay A + ndelay m else delay + d),
      right_delay = (if slot = length ks then case a_right A of None \<Rightarrow> 0 | Some m \<Rightarrow> right_delay A + ndelay m
                     else delay + d)\<rparr>"

text \<open>The children after the call for the child in a slot has changed it and its siblings.\<close>

definition put_back :: "nat \<Rightarrow> ('k, 'v) erased \<Rightarrow> 'k list \<Rightarrow> ('k, 'v) node list \<Rightarrow> ('k, 'v) node list" where
  "put_back slot r ks cs =
     (let put = (\<lambda>i n cs. case n of None \<Rightarrow> cs | Some m \<Rightarrow> cs[i := m]);
          cs1 = put slot (e_node r) cs;
          cs2 = (if slot = 0 then cs1 else put (slot - 1) (e_left r) cs1)
      in if slot = length ks then cs2 else put (slot + 1) (e_right r) cs2)"

text \<open>Removal of the child emptied by a merge (\<^verbatim>\<open>btree_fixmerge\<close>).\<close>

definition fix_merge :: "('k, 'v) traits \<Rightarrow> nat \<Rightarrow> nat \<Rightarrow> 'k list \<Rightarrow> ('k, 'v) node list \<Rightarrow> chain
    \<Rightarrow> 'k list \<times> ('k, 'v) node list \<times> chain" where
  "fix_merge T l slot ks cs c =
     (let slot' = (if slotuse (cs ! slot) \<noteq> 0 then slot + 1 else slot);
          c' = free_node (cs ! slot') c;
          ks' = take (slot' - 1) ks @ drop slot' ks;
          cs' = take slot' cs @ drop (slot' + 1) cs;
          ks'' = (if l = 1 then
                    case cs' ! (slot' - 1) of
                      Leaf i es \<Rightarrow> ks'[slot' - 1 := ekey T (es ! (length es - 1))]
                    | Inner _ _ _ _ _ \<Rightarrow> ks'
                  else ks')
      in (ks'', cs', c'))"

definition erase_inner :: "('k, 'v) traits \<Rightarrow> bool \<Rightarrow> int \<Rightarrow> ('k, 'v) around \<Rightarrow> nat \<Rightarrow> int \<Rightarrow> 'k list
    \<Rightarrow> ('k, 'v) node list \<Rightarrow> nat \<Rightarrow> ('k, 'v) erased \<Rightarrow> ('k, 'v) outcome" where
  "erase_inner T is_root delay A l d ks cs slot r =
     (let cs1 = put_back slot r ks cs; ks1 = e_keys r;
          (pks, up) = note_last A (e_last r);
          (ks2, cs2, c2) = (if e_merge r then fix_merge T l slot ks1 cs1 (e_chain r) else (ks1, cs1, e_chain r))
      in fix_inner T is_root delay A (mk_inner l d ks2 cs2) pks up (e_delay r) c2)"

function erase_iter_descend :: "('k::linorder, 'v) traits \<Rightarrow> iter \<Rightarrow> 'k \<Rightarrow> bool \<Rightarrow> int \<Rightarrow> ('k, 'v) around
    \<Rightarrow> ('k, 'v) node \<Rightarrow> chain \<Rightarrow> ('k, 'v) outcome"
  and erase_slots :: "('k::linorder, 'v) traits \<Rightarrow> iter \<Rightarrow> 'k \<Rightarrow> int \<Rightarrow> ('k, 'v) around \<Rightarrow> int \<Rightarrow> 'k list
    \<Rightarrow> ('k, 'v) node list \<Rightarrow> nat \<Rightarrow> chain \<Rightarrow> nat \<times> ('k, 'v) outcome" where
  "erase_iter_descend T it key is_root delay A (Leaf i es) c = erase_leaf T it is_root delay A i es c"
| "erase_iter_descend T it key is_root delay A (Inner l s d ks cs) c =
     (case erase_slots T it key delay A d ks cs (find_lower (bin_inner T) ks key) c of
        (slot, Erased r) \<Rightarrow> erase_inner T is_root delay A l d ks cs slot r
      | (slot, other) \<Rightarrow> other)"
| "erase_slots T it key delay A d ks cs slot c =
     (if slot \<le> length ks \<and> slot < length cs then
        case erase_iter_descend T it key False (delay + d) (around_child A delay d ks cs slot) (cs ! slot) c of
          Not_found \<Rightarrow> if slot < length ks \<and> ks ! slot < key then (slot, Not_found)
                       else erase_slots T it key delay A d ks cs (slot + 1) c
        | Broken \<Rightarrow> (slot, Broken)
        | Erased r \<Rightarrow> (slot, Erased r)
      else (slot, Not_found))"
  by pat_completeness auto
termination
  by (relation "measures [\<lambda>x. case x of Inl (T, it, key, is_root, delay, A, n, c) \<Rightarrow> size n
                                 | Inr (T, it, key, delay, A, d, ks, cs, slot, c) \<Rightarrow> size_list size cs,
                          \<lambda>x. case x of Inl _ \<Rightarrow> 0
                                 | Inr (T, it, key, delay, A, d, ks, cs, slot, c) \<Rightarrow> Suc (length cs - slot)]")
     (auto intro: le_neq_implies_less child_smaller [unfolded less_Suc_eq_le])

declare erase_slots.simps [simp del]

text \<open>
  \<^verbatim>\<open>erase\<close> at an iterator: success, the delay of the erased entry, and the tree. An iterator
  that points at no used slot is found in no leaf.
\<close>

definition root_around :: "('k, 'v) around" where
  "root_around = \<lparr>a_left = None, a_right = None, left_own = False, right_own = False, pkeys = [], pslot = 0,
     left_delay = 0, right_delay = 0\<rparr>"

definition erase :: "('k::linorder, 'v) traits \<Rightarrow> iter \<Rightarrow> ('k, 'v) tree \<Rightarrow> (bool \<times> int \<times> ('k, 'v) tree) option" where
  "erase T it t =
     (case root t of None \<Rightarrow> Some (False, 0, t)
      | Some n \<Rightarrow>
          (case deref t it of None \<Rightarrow> Some (False, 0, t)
           | Some v \<Rightarrow>
               (case erase_iter_descend T it (key_of T v) True 0 root_around n (links t) of
                  Not_found \<Rightarrow> Some (False, 0, t)
                | Broken \<Rightarrow> None
                | Erased r \<Rightarrow> Some (True, e_delay r, \<lparr>root = e_node r, links = e_chain r, st_size = st_size t - 1\<rparr>))))"

text \<open>
  \<^verbatim>\<open>erase_val\<close> first counts the entries with smaller keys on the way down and delays each of
  them by one, then moves on to the value itself and erases it. The walk is a partial
  function: running off the chain, or never ending, is \<^term>\<open>None\<close>.
\<close>

function val_descend :: "('k::linorder, 'v) traits \<Rightarrow> 'k \<Rightarrow> ('k, 'v) node \<Rightarrow> nat \<times> iter \<times> ('k, 'v) node" where
  "val_descend T key (Leaf i es) =
     (let slot = find_lower (bin_leaf T) (ekeys T es) key in
      (slot, (Some i, slot), Leaf i (delay_slots 1 (take slot es) @ drop slot es)))"
| "val_descend T key (Inner l s d ks cs) =
     (let slot = find_lower (bin_inner T) ks key in
      if slot < length cs then
        let (r, it, n) = val_descend T key (cs ! slot)
        in (sum_list (map get_subtree_size (take slot cs)) + r, it,
            Inner l s d ks (map (add_delay 1) (take slot cs) @ n # drop (slot + 1) cs))
      else (0, (None, 0), Inner l s d ks cs))"
  by pat_completeness auto
termination
  by (relation "measure (\<lambda>(T, key, n). size n)") (auto dest: child_smaller_node)

partial_function (option) seek :: "('k, 'v) tree \<Rightarrow> 'v \<Rightarrow> iter \<Rightarrow> iter option" where
  "seek t v it = (case deref t it of None \<Rightarrow> None
     | Some w \<Rightarrow> if w = v then Some it else seek t v (iter_next t it))"

declare seek.simps [code]

definition erase_val :: "('k::linorder, 'v) traits \<Rightarrow> 'v \<Rightarrow> ('k, 'v) tree
    \<Rightarrow> (bool \<times> nat \<times> int \<times> ('k, 'v) tree) option" where
  "erase_val T v t =
     (case root t of None \<Rightarrow> Some (False, 0, 0, t)
      | Some n \<Rightarrow>
          let (rank, it, n1) = val_descend T (key_of T v) n; t1 = t\<lparr>root := Some n1\<rparr>
          in case seek t1 v it of None \<Rightarrow> None
             | Some it' \<Rightarrow>
                 (case erase T it' t1 of None \<Rightarrow> None
                  | Some (success, delay, t2) \<Rightarrow> Some (success, rank, delay, t2)))"

section \<open>Copies\<close>

definition append_leaf :: "nat \<Rightarrow> chain \<Rightarrow> chain" where
  "append_leaf j c =
     (case (head_leaf c, tail_leaf c) of
        (Some _, Some i) \<Rightarrow> c\<lparr>prev_leaf := (prev_leaf c)(j := Some i), next_leaf := (next_leaf c)(i := Some j),
                              tail_leaf := Some j\<rparr>
      | _ \<Rightarrow> c\<lparr>head_leaf := Some j, tail_leaf := Some j, prev_leaf := (prev_leaf c)(j := None),
              next_leaf := (next_leaf c)(j := None)\<rparr>)"

fun copy_recursive :: "('k, 'v) node \<Rightarrow> chain \<Rightarrow> ('k, 'v) node \<times> chain"
  and copy_children :: "('k, 'v) node list \<Rightarrow> chain \<Rightarrow> ('k, 'v) node list \<times> chain" where
  "copy_recursive (Leaf i es) c = (let (j, c1) = allocate_leaf c in (Leaf j es, append_leaf j c1))"
| "copy_recursive (Inner l s d ks cs) c =
     (let (cs', c') = copy_children cs (allocate_inner c) in (Inner l s d ks cs', c'))"
| "copy_children [] c = ([], c)"
| "copy_children (n # ns) c =
     (let (n', c1) = copy_recursive n c; (ns', c2) = copy_children ns c1 in (n' # ns', c2))"

definition copy_tree :: "('k, 'v) tree \<Rightarrow> ('k, 'v) tree" where
  "copy_tree other =
     (let c0 = chain_new\<lparr>st_leaves := st_leaves (links other), st_inner := st_inner (links other)\<rparr> in
      if st_size other > 0 then
        let c1 = c0\<lparr>st_leaves := 0, st_inner := 0\<rparr> in
        case root other of
          None \<Rightarrow> \<lparr>root = None, links = c1, st_size = st_size other\<rparr>
        | Some n \<Rightarrow> let (n', c2) = copy_recursive n c1 in \<lparr>root = Some n', links = c2, st_size = st_size other\<rparr>
      else \<lparr>root = None, links = c0, st_size = st_size other\<rparr>)"

definition assign_tree :: "('k, 'v) tree \<Rightarrow> ('k, 'v) tree \<Rightarrow> ('k, 'v) tree" where
  "assign_tree t other =
     (let t1 = clear t in
      if st_size other \<noteq> 0 then
        let c1 = (links t1)\<lparr>st_leaves := 0, st_inner := 0\<rparr>;
            (r, c2) = (case root other of None \<Rightarrow> (root t1, c1)
                       | Some n \<Rightarrow> let (n', c') = copy_recursive n c1 in (Some n', c'))
        in \<lparr>root = r, links = c2\<lparr>st_leaves := st_leaves (links other), st_inner := st_inner (links other)\<rparr>,
            st_size = st_size other\<rparr>
      else t1)"

end
