(* ===== verification/Replay_Laws.thy ===== *)
theory Replay_Laws
  imports Replay_Erase
begin

text \<open>
  What a replay tree stands for, and its invariant. \<open>entries\<close> flattens a node into the list
  of its values with their accumulated delays; \<open>shape\<close> is the B+-tree invariant, with every
  key of an inner node equal to the last key of the child before it; \<open>chain_ok\<close> says that the
  leaf chain and the counters agree with the tree. The searches within a node are shown to
  count the smaller keys, and a descent to find the child in which that count ends.
\<close>

section \<open>Contents of a node\<close>

fun entries :: "int \<Rightarrow> ('k, 'v) node \<Rightarrow> ('v \<times> int) list" where
  "entries a (Leaf i es) = delay_slots a es"
| "entries a (Inner l s d ks cs) = concat (map (entries (a + d)) cs)"

fun nkeys :: "('k, 'v) traits \<Rightarrow> ('k, 'v) node \<Rightarrow> 'k list" where
  "nkeys T (Leaf i es) = ekeys T es"
| "nkeys T (Inner l s d ks cs) = concat (map (nkeys T) cs)"

definition lastkey :: "('k, 'v) traits \<Rightarrow> ('k, 'v) node \<Rightarrow> 'k" where
  "lastkey T n = last (nkeys T n)"

fun leaf_ids :: "('k, 'v) node \<Rightarrow> nat list" where
  "leaf_ids (Leaf i es) = [i]"
| "leaf_ids (Inner l s d ks cs) = concat (map leaf_ids cs)"

fun inner_count :: "('k, 'v) node \<Rightarrow> nat" where
  "inner_count (Leaf i es) = 0"
| "inner_count (Inner l s d ks cs) = Suc (sum_list (map inner_count cs))"

lemma delay_slots_simps [simp]:
  "delay_slots a [] = []"
  "delay_slots a (e # es) = (fst e, snd e + a) # delay_slots a es"
  "delay_slots a (es @ fs) = delay_slots a es @ delay_slots a fs"
  "length (delay_slots a es) = length es"
  "delay_slots a (delay_slots b es) = delay_slots (a + b) es"
  "delay_slots 0 es = es"
  "map fst (delay_slots a es) = map fst es"
  by (auto simp: delay_slots_def case_prod_beta algebra_simps)

lemma delay_slots_take [simp]: "delay_slots a (take n es) = take n (delay_slots a es)"
  and delay_slots_drop [simp]: "delay_slots a (drop n es) = drop n (delay_slots a es)"
  by (auto simp: delay_slots_def take_map drop_map)

lemma delay_slots_nth: "i < length es \<Longrightarrow> delay_slots a es ! i = (fst (es ! i), snd (es ! i) + a)"
  by (simp add: delay_slots_def case_prod_beta)

lemma delay_slots_concat: "delay_slots a (concat ess) = concat (map (delay_slots a) ess)"
  by (induction ess) simp_all

lemma delay_slots_eq_Nil [simp]: "delay_slots a es = [] \<longleftrightarrow> es = []"
  by (simp add: delay_slots_def)

lemma ekey_pair [simp]: "ekey T (v, d) = key_of T v"
  by (simp add: ekey_def)

lemma ekeys_delay_slots [simp]: "ekeys T (delay_slots a es) = ekeys T es"
  by (auto simp: delay_slots_def ekey_def)

lemma entries_shift: "entries (a + b) n = delay_slots b (entries a n)"
proof (induction n arbitrary: a)
  case (Leaf i es)
  then show ?case by (simp add: add.commute)
next
  case (Inner l s d ks cs)
  have "entries (a + b + d) n = delay_slots b (entries (a + d) n)" if "n \<in> set cs" for n
    using Inner [OF that, of "a + d"] by (simp add: ac_simps)
  then show ?case by (auto simp: delay_slots_concat comp_def intro!: concat_map_eq)
qed

lemma entries_add_delay [simp]: "entries a (add_delay x n) = entries (a + x) n"
  by (cases n) (simp_all add: delay_slots_def [symmetric] algebra_simps)

lemma ekeys_entries [simp]: "ekeys T (entries a n) = nkeys T n"
proof (induction n arbitrary: a)
  case (Inner l s d ks cs)
  then show ?case by (auto simp: map_concat comp_def intro!: concat_map_eq)
qed simp

lemma length_entries: "length (entries a n) = length (nkeys T n)"
  using ekeys_entries [of T a n] length_map by metis

lemma length_entries_0: "length (entries a n) = length (entries 0 n)"
  using length_entries [of a n] length_entries [of 0 n] by metis

lemma entries_nonempty: "entries a n \<noteq> [] \<longleftrightarrow> nkeys T n \<noteq> []"
  using length_entries [of a n T] by auto

lemma leaf_ids_leaves: "leaf_ids n = map fst (leaves n)"
proof (induction n)
  case (Inner l s d ks cs)
  then show ?case by (auto simp: map_concat comp_def intro!: concat_map_eq)
qed simp

lemma nkeys_add_delay [simp]: "nkeys T (add_delay x n) = nkeys T n"
  by (metis ekeys_entries entries_add_delay)

lemma add_delay_view [simp]:
  "lastkey T (add_delay x n) = lastkey T n"
  "leaf_ids (add_delay x n) = leaf_ids n" "inner_count (add_delay x n) = inner_count n"
  "level (add_delay x n) = level n" "slotuse (add_delay x n) = slotuse n"
  "is_underflow T (add_delay x n) = is_underflow T n" "get_subtree_size (add_delay x n) = get_subtree_size n"
  by (simp_all add: lastkey_def) (cases n; simp)+

lemma mk_inner_view [simp]:
  "entries a (mk_inner l d ks cs) = concat (map (entries (a + d)) cs)"
  "nkeys T (mk_inner l d ks cs) = concat (map (nkeys T) cs)"
  "leaf_ids (mk_inner l d ks cs) = concat (map leaf_ids cs)"
  "inner_count (mk_inner l d ks cs) = Suc (sum_list (map inner_count cs))"
  "leaves (mk_inner l d ks cs) = concat (map leaves cs)"
  "level (mk_inner l d ks cs) = l" "slotuse (mk_inner l d ks cs) = length ks"
  "is_underflow T (mk_inner l d ks cs) \<longleftrightarrow> length ks < inner_slotmin T"
  "is_few T (mk_inner l d ks cs) \<longleftrightarrow> length ks \<le> inner_slotmin T"
  by (simp_all add: mk_inner_def)

section \<open>Shape\<close>

definition traits_ok :: "('k, 'v) traits \<Rightarrow> bool" where
  "traits_ok T \<longleftrightarrow> 4 \<le> leaf_slots T \<and> 4 \<le> inner_slots T"

fun shape :: "('k, 'v) traits \<Rightarrow> ('k, 'v) node \<Rightarrow> bool" where
  "shape T (Leaf i es) \<longleftrightarrow> length es \<le> leaf_slots T"
| "shape T (Inner l s d ks cs) \<longleftrightarrow>
     length ks \<le> inner_slots T \<and> cs \<noteq> [] \<and> s = sum_list (map get_subtree_size cs) \<and>
     ks = map (lastkey T) (butlast cs) \<and>
     (\<forall>c \<in> set cs. Suc (level c) = l \<and> \<not> is_underflow T c \<and> shape T c)"

definition kids_ok :: "('k, 'v) traits \<Rightarrow> nat \<Rightarrow> 'k list \<Rightarrow> ('k, 'v) node list \<Rightarrow> bool" where
  "kids_ok T l ks cs \<longleftrightarrow> cs \<noteq> [] \<and> ks = map (lastkey T) (butlast cs) \<and>
     (\<forall>c \<in> set cs. Suc (level c) = l \<and> \<not> is_underflow T c \<and> shape T c)"

lemma kids_length: "kids_ok T l ks cs \<Longrightarrow> length cs = Suc (length ks)"
  by (auto simp: kids_ok_def)

lemma shape_mk_inner [simp]:
  "shape T (mk_inner l d ks cs) \<longleftrightarrow> length ks \<le> inner_slots T \<and> kids_ok T l ks cs"
  by (auto simp: mk_inner_def kids_ok_def)

lemma shape_inner:
  "shape T (Inner l s d ks cs) \<longleftrightarrow>
     length ks \<le> inner_slots T \<and> s = sum_list (map get_subtree_size cs) \<and> kids_ok T l ks cs"
  by (auto simp: kids_ok_def)

lemma shape_add_delay [simp]: "shape T (add_delay x n) = shape T n"
  by (cases n) auto

lemma shape_size: "shape T n \<Longrightarrow> get_subtree_size n = length (entries a n)"
proof (induction n arbitrary: a)
  case (Inner l s d ks cs)
  then show ?case by (auto simp: length_concat comp_def intro!: sum_list_map_eq)
qed simp

lemma slotmin_ge: "traits_ok T \<Longrightarrow> 2 \<le> leaf_slotmin T" "traits_ok T \<Longrightarrow> 2 \<le> inner_slotmin T"
  by (auto simp: traits_ok_def leaf_slotmin_def inner_slotmin_def)

lemma slotmin_twice: "2 * leaf_slotmin T \<le> leaf_slots T" "2 * inner_slotmin T \<le> inner_slots T"
  "leaf_slots T \<le> 2 * leaf_slotmin T + 1" "inner_slots T \<le> 2 * inner_slotmin T + 1"
  by (auto simp: leaf_slotmin_def inner_slotmin_def)

lemma nonempty_node:
  assumes "traits_ok T" "shape T n" "\<not> is_underflow T n"
  shows "nkeys T n \<noteq> []"
  using assms
proof (induction n)
  case (Leaf i es)
  then show ?case using slotmin_ge [of T] by auto
next
  case (Inner l s d ks cs)
  then have "cs \<noteq> []" by auto
  then have "hd cs \<in> set cs" by simp
  with Inner have "nkeys T (hd cs) \<noteq> []" by auto
  with \<open>hd cs \<in> set cs\<close> show ?case by auto
qed

lemma leaf_ids_nonempty: "shape T n \<Longrightarrow> leaf_ids n \<noteq> []"
proof (induction n)
  case (Inner l s d ks cs)
  then have "cs \<noteq> []" by auto
  then have "hd cs \<in> set cs" by simp
  with Inner show ?case by auto
qed simp

section \<open>Searching within a node\<close>

definition lower :: "'k::linorder list \<Rightarrow> 'k \<Rightarrow> nat" where
  "lower ks key = length (takeWhile (\<lambda>k. k < key) ks)"

definition upper :: "'k::linorder list \<Rightarrow> 'k \<Rightarrow> nat" where
  "upper ks key = length (takeWhile (\<lambda>k. k \<le> key) ks)"

lemma lower_unique:
  assumes "j \<le> length ks" "\<forall>i < j. ks ! i < key" "j < length ks \<longrightarrow> key \<le> ks ! j"
  shows "lower ks key = j"
  unfolding lower_def using assms
  by (subst takeWhile_eq_take_P_nth [of j]) auto

lemma upper_unique:
  assumes "j \<le> length ks" "\<forall>i < j. ks ! i \<le> key" "j < length ks \<longrightarrow> key < ks ! j"
  shows "upper ks key = j"
  unfolding upper_def using assms
  by (subst takeWhile_eq_take_P_nth [of j]) auto

lemma bin_lower_lower:
  "\<lbrakk>sorted ks; lo \<le> hi; hi \<le> length ks; \<forall>i < lo. ks ! i < key; hi < length ks \<longrightarrow> key \<le> ks ! hi\<rbrakk>
    \<Longrightarrow> bin_lower ks key lo hi = lower ks key"
proof (induction ks key lo hi rule: bin_lower.induct)
  case (1 ks key lo hi)
  show ?case
  proof (cases "lo < hi")
    case True
    define mid where "mid = (lo + hi) div 2"
    with True have mid: "lo \<le> mid" "mid < hi" by auto
    show ?thesis
    proof (cases "key \<le> ks ! mid")
      case True
      then show ?thesis using 1 mid \<open>lo < hi\<close> by (subst bin_lower.simps) (simp add: mid_def)
    next
      case False
      have "ks ! i < key" if "i < mid + 1" for i
        using sorted_nth_mono [of ks i mid] 1 mid that False by auto
      then show ?thesis using 1 mid \<open>lo < hi\<close> False by (subst bin_lower.simps) (simp add: mid_def)
    qed
  next
    case False
    then show ?thesis using 1 lower_unique [of lo ks key] by (subst bin_lower.simps) simp
  qed
qed

lemma bin_upper_upper:
  "\<lbrakk>sorted ks; lo \<le> hi; hi \<le> length ks; \<forall>i < lo. ks ! i \<le> key; hi < length ks \<longrightarrow> key < ks ! hi\<rbrakk>
    \<Longrightarrow> bin_upper ks key lo hi = upper ks key"
proof (induction ks key lo hi rule: bin_upper.induct)
  case (1 ks key lo hi)
  show ?case
  proof (cases "lo < hi")
    case True
    define mid where "mid = (lo + hi) div 2"
    with True have mid: "lo \<le> mid" "mid < hi" by auto
    show ?thesis
    proof (cases "key < ks ! mid")
      case True
      then show ?thesis using 1 mid \<open>lo < hi\<close> by (subst bin_upper.simps) (simp add: mid_def)
    next
      case False
      have "ks ! i \<le> key" if "i < mid + 1" for i
        using sorted_nth_mono [of ks i mid] 1 mid that False by auto
      then show ?thesis using 1 mid \<open>lo < hi\<close> False by (subst bin_upper.simps) (simp add: mid_def)
    qed
  next
    case False
    then show ?thesis using 1 upper_unique [of lo ks key] by (subst bin_upper.simps) simp
  qed
qed

lemma lin_lower_lower:
  "\<lbrakk>lo \<le> length ks; \<forall>i < lo. ks ! i < key\<rbrakk> \<Longrightarrow> lin_lower ks key lo = lower ks key"
proof (induction ks key lo rule: lin_lower.induct)
  case (1 ks key lo)
  then show ?case using lower_unique [of lo ks key]
    by (subst lin_lower.simps) (auto simp: less_Suc_eq not_less)
qed

lemma lin_upper_upper:
  "\<lbrakk>lo \<le> length ks; \<forall>i < lo. ks ! i \<le> key\<rbrakk> \<Longrightarrow> lin_upper ks key lo = upper ks key"
proof (induction ks key lo rule: lin_upper.induct)
  case (1 ks key lo)
  then show ?case using upper_unique [of lo ks key]
    by (subst lin_upper.simps) (auto simp: less_Suc_eq not_le)
qed

lemma find_lower_lower: "sorted ks \<Longrightarrow> find_lower b ks key = lower ks key"
  using bin_lower_lower [of ks 0 "length ks" key] lin_lower_lower [of 0 ks key]
  by (auto simp: find_lower_def lower_def)

lemma find_upper_upper: "sorted ks \<Longrightarrow> find_upper b ks key = upper ks key"
  using bin_upper_upper [of ks 0 "length ks" key] lin_upper_upper [of 0 ks key]
  by (auto simp: find_upper_def upper_def)

lemma lower_le: "lower ks key \<le> length ks"
  by (simp add: lower_def length_takeWhile_le)

lemma lower_before: "i < lower ks key \<Longrightarrow> ks ! i < key"
  unfolding lower_def by (metis nth_mem set_takeWhileD takeWhile_nth)

lemma lower_at: "lower ks key < length ks \<Longrightarrow> key \<le> ks ! lower ks key"
  unfolding lower_def by (metis linorder_not_less nth_length_takeWhile)

lemma lower_append:
  assumes "\<forall>k \<in> set xs. k < key"
    and "zs = [] \<or> (\<exists>k \<in> set ys. key \<le> k)"
  shows "lower (xs @ ys @ zs) key = length xs + lower ys key"
proof -
  have "takeWhile (\<lambda>k. k < key) (xs @ ys @ zs) = xs @ takeWhile (\<lambda>k. k < key) (ys @ zs)"
    using assms(1) by simp
  moreover have "takeWhile (\<lambda>k. k < key) (ys @ zs) = takeWhile (\<lambda>k. k < key) ys"
    using assms(2) by (auto intro: takeWhile_append1 simp: linorder_not_less)
  ultimately show ?thesis by (simp add: lower_def)
qed

section \<open>The child in which a search continues\<close>

lemma split_at: "i < length cs \<Longrightarrow> cs = take i cs @ cs ! i # drop (Suc i) cs"
  by (rule id_take_nth_drop)

lemma concat_split_at:
  "i < length cs \<Longrightarrow> concat (map f cs) = concat (map f (take i cs)) @ f (cs ! i) @ concat (map f (drop (Suc i) cs))"
  by (subst (1) split_at [of i cs]) simp_all

lemma concat_update:
  "i < length cs \<Longrightarrow>
     concat (map f (cs[i := n])) = concat (map f (take i cs)) @ f n @ concat (map f (drop (Suc i) cs))"
  by (simp add: upd_conv_take_nth_drop)

lemma sorted_last_ge: "sorted xs \<Longrightarrow> x \<in> set xs \<Longrightarrow> x \<le> last xs"
  by (induction xs) (auto simp: last_ConsL)

lemma sorted_lastkeys:
  "\<lbrakk>\<forall>c \<in> set cs. nkeys T c \<noteq> []; sorted (concat (map (nkeys T) cs))\<rbrakk>
    \<Longrightarrow> sorted (map (lastkey T) cs)"
proof (induction cs)
  case (Cons c cs)
  have "lastkey T c \<le> lastkey T c'" if "c' \<in> set cs" for c'
    using Cons.prems that by (fastforce simp: sorted_append lastkey_def)
  with Cons show ?case by (auto simp: sorted_append)
qed simp

lemma kids_nonempty: "\<lbrakk>traits_ok T; kids_ok T l ks cs; c \<in> set cs\<rbrakk> \<Longrightarrow> nkeys T c \<noteq> []"
  unfolding kids_ok_def using nonempty_node by blast

lemma kids_sorted:
  assumes "traits_ok T" "kids_ok T l ks cs" "sorted (concat (map (nkeys T) cs))"
  shows "sorted ks"
proof -
  have "sorted (map (lastkey T) cs)" using sorted_lastkeys kids_nonempty assms by blast
  then have "sorted (map (lastkey T) (butlast cs))"
    by (simp add: butlast_conv_take take_map [symmetric])
  with assms show ?thesis by (simp add: kids_ok_def)
qed

lemma kids_key: "\<lbrakk>kids_ok T l ks cs; i < length ks\<rbrakk> \<Longrightarrow> ks ! i = lastkey T (cs ! i)"
  by (auto simp: kids_ok_def nth_butlast)

lemma sorted_part: "\<lbrakk>sorted (concat (map f cs)); c \<in> set cs\<rbrakk> \<Longrightarrow> sorted (f c)"
  by (induction cs) (auto simp: sorted_append)

lemma locate:
  assumes T: "traits_ok T" and k: "kids_ok T l ks cs" and s: "sorted (concat (map (nkeys T) cs))"
  shows "lower ks key < length cs"
    and "\<forall>k \<in> set (concat (map (nkeys T) (take (lower ks key) cs))). k < key"
    and "lower ks key < length ks \<Longrightarrow> key \<le> lastkey T (cs ! lower ks key)"
    and "lower (concat (map (nkeys T) cs)) key =
           length (concat (map (nkeys T) (take (lower ks key) cs))) + lower (nkeys T (cs ! lower ks key)) key"
proof -
  let ?j = "lower ks key"
  show j: "?j < length cs" using lower_le [of ks key] kids_length [OF k] by simp
  show b: "\<forall>k \<in> set (concat (map (nkeys T) (take ?j cs))). k < key"
  proof
    fix k' assume "k' \<in> set (concat (map (nkeys T) (take ?j cs)))"
    then obtain c where "c \<in> set (take ?j cs)" "k' \<in> set (nkeys T c)" by auto
    then obtain i where i: "i < ?j" "c = cs ! i" "i < length cs" by (auto simp: in_set_conv_nth)
    then have "i < length ks" using lower_le [of ks key] by simp
    have "sorted (nkeys T c)" using i sorted_part [OF s] by simp
    then have "k' \<le> lastkey T c" using \<open>k' \<in> set (nkeys T c)\<close> by (simp add: lastkey_def sorted_last_ge)
    also have "\<dots> < key" using lower_before [OF i(1)] kids_key [OF k \<open>i < length ks\<close>] i by simp
    finally show "k' < key" .
  qed
  show c: "key \<le> lastkey T (cs ! ?j)" if "?j < length ks"
    using lower_at [OF that] kids_key [OF k that] by simp
  have "concat (map (nkeys T) (drop (Suc ?j) cs)) = [] \<or> (\<exists>k \<in> set (nkeys T (cs ! ?j)). key \<le> k)"
  proof (cases "?j < length ks")
    case True
    have "nkeys T (cs ! ?j) \<noteq> []" using kids_nonempty [OF T k] j by simp
    with c [OF True] show ?thesis by (auto simp: lastkey_def intro: last_in_set)
  next
    case False
    then show ?thesis using kids_length [OF k] by simp
  qed
  note lower_append [OF b this]
  moreover note concat_split_at [OF j, of "nkeys T"]
  ultimately show "lower (concat (map (nkeys T) cs)) key =
      length (concat (map (nkeys T) (take ?j cs))) + lower (nkeys T (cs ! ?j)) key"
    by (simp only: append_assoc)
qed

lemma kids_find_lower:
  "\<lbrakk>traits_ok T; kids_ok T l ks cs; sorted (concat (map (nkeys T) cs))\<rbrakk>
    \<Longrightarrow> find_lower b ks key = lower ks key"
  by (rule find_lower_lower, rule kids_sorted)

end
