(* ===== verification/Replay_Insert_Laws.thy ===== *)
theory Replay_Insert_Laws
  imports Replay_Laws
begin

text \<open>
  Insertion into a replay tree: the leaf chain as a doubly linked list segment, cutting and
  joining the children of an inner node, and the effect of \<^verbatim>\<open>insert_descend\<close> on contents, shape
  and chain.
\<close>

section \<open>The leaf chain\<close>

fun seg :: "chain \<Rightarrow> nat option \<Rightarrow> nat list \<Rightarrow> nat option \<Rightarrow> bool" where
  "seg c p [] q = True"
| "seg c p (i # is) q \<longleftrightarrow>
     prev_leaf c i = p \<and> next_leaf c i = (case is of [] \<Rightarrow> q | j # _ \<Rightarrow> Some j) \<and> seg c (Some i) is q"

definition linked :: "chain \<Rightarrow> nat list \<Rightarrow> bool" where
  "linked c is \<longleftrightarrow> distinct is \<and> (\<forall>i \<in> set is. i < fresh c) \<and> seg c None is None \<and>
     head_leaf c = (if is = [] then None else Some (hd is)) \<and>
     tail_leaf c = (if is = [] then None else Some (last is))"

definition chain_ok :: "chain \<Rightarrow> nat list \<Rightarrow> nat \<Rightarrow> bool" where
  "chain_ok c is k \<longleftrightarrow> linked c is \<and> st_leaves c = length is \<and> st_inner c = k"

lemma seg_append:
  "seg c p (xs @ ys) q \<longleftrightarrow>
     seg c p xs (if ys = [] then q else Some (hd ys)) \<and> seg c (if xs = [] then p else Some (last xs)) ys q"
  by (induction xs arbitrary: p) (auto split: list.splits simp: neq_Nil_conv)

lemma seg_frame:
  "\<lbrakk>seg c p is q; \<forall>i \<in> set is. next_leaf c' i = next_leaf c i \<and> prev_leaf c' i = prev_leaf c i\<rbrakk>
    \<Longrightarrow> seg c' p is q"
  by (induction "is" arbitrary: p) auto

lemma seg_frame_first:
  "\<lbrakk>seg c p (i # is) q; prev_leaf c' i = p';
    next_leaf c' i = next_leaf c i;
    \<forall>i \<in> set is. next_leaf c' i = next_leaf c i \<and> prev_leaf c' i = prev_leaf c i\<rbrakk>
    \<Longrightarrow> seg c' p' (i # is) q"
  using seg_frame [of c "Some i" "is" q c'] by auto

lemma chain_ok_st_inner: "chain_ok c is k \<Longrightarrow> chain_ok (c\<lparr>st_inner := st_inner c + x\<rparr>) is (k + x)"
  by (auto simp: chain_ok_def linked_def intro: seg_frame)

lemma linked_link_after:
  assumes "linked c (P @ i # Q)" "j = fresh c" "fresh c' = Suc j"
    and "next_leaf c' = (next_leaf c)(j := None)" "prev_leaf c' = (prev_leaf c)(j := None)"
    and "head_leaf c' = head_leaf c" "tail_leaf c' = tail_leaf c"
  shows "linked (link_after i j c') (P @ i # j # Q)"
proof -
  from assms have l: "distinct (P @ i # Q)" "\<forall>x \<in> set (P @ i # Q). x < j"
      "seg c None P (Some i)" "seg c (if P = [] then None else Some (last P)) (i # Q) None"
      "head_leaf c = Some (hd (P @ i # Q))" "tail_leaf c = Some (last (P @ i # Q))"
    by (auto simp: linked_def seg_append split: if_splits)
  then have nj: "j \<notin> set P" "j \<noteq> i" "j \<notin> set Q" by auto
  let ?c = "link_after i j c'"
  show ?thesis
  proof (cases Q)
    case Nil
    have "?c = c'\<lparr>tail_leaf := Some j, next_leaf := (next_leaf c)(j := None, i := Some j),
        prev_leaf := (prev_leaf c)(j := Some i)\<rparr>"
      using l Nil nj assms(3-) by (simp add: link_after_def Let_def)
    moreover have "seg ?c None P (Some i)"
      by (rule seg_frame [OF l(3)]) (use l nj in \<open>auto simp: calculation\<close>)
    ultimately show ?thesis using l nj Nil assms(2-)
      by (auto simp: linked_def seg_append hd_append)
  next
    case (Cons k Q')
    have c: "?c = c'\<lparr>prev_leaf := (prev_leaf c)(j := Some i, k := Some j),
        next_leaf := (next_leaf c)(j := Some k, i := Some j)\<rparr>"
      using l Cons nj assms(3-) by (auto simp: link_after_def Let_def fun_upd_twist)
    moreover have "seg ?c None P (Some i)"
      by (rule seg_frame [OF l(3)]) (use l nj Cons in \<open>auto simp: c\<close>)
    moreover have "seg c (Some i) (k # Q') None" using l(4) Cons by simp
    then have "seg ?c (Some j) (k # Q') None"
      by (rule seg_frame_first) (use l nj Cons in \<open>auto simp: c\<close>)
    ultimately show ?thesis using l nj Cons assms(2-)
      by (auto simp: linked_def seg_append hd_append less_SucI)
  qed
qed

lemma linked_unlink_after:
  assumes "linked c (P @ i # j # Q)"
  shows "linked (unlink_after i j c) (P @ i # Q)"
proof -
  from assms have l: "distinct (P @ i # j # Q)" "\<forall>x \<in> set (P @ i # j # Q). x < fresh c"
      "seg c None P (Some i)" "seg c (if P = [] then None else Some (last P)) (i # j # Q) None"
      "head_leaf c = Some (hd (P @ i # Q))" "tail_leaf c = Some (last (i # j # Q))"
    by (auto simp: linked_def seg_append hd_append split: if_splits)
  let ?c = "unlink_after i j c"
  show ?thesis
  proof (cases Q)
    case Nil
    have c: "?c = c\<lparr>next_leaf := (next_leaf c)(i := None), tail_leaf := Some i\<rparr>"
      using l Nil by (simp add: unlink_after_def)
    moreover have "seg ?c None P (Some i)"
      by (rule seg_frame [OF l(3)]) (use l in \<open>auto simp: c\<close>)
    ultimately show ?thesis using l Nil by (auto simp: linked_def seg_append hd_append)
  next
    case (Cons k Q')
    have c: "?c = c\<lparr>next_leaf := (next_leaf c)(i := Some k), prev_leaf := (prev_leaf c)(k := Some i)\<rparr>"
      using l Cons by (simp add: unlink_after_def)
    moreover have "seg ?c None P (Some i)"
      by (rule seg_frame [OF l(3)]) (use l Cons in \<open>auto simp: c\<close>)
    moreover have "seg c (Some j) (k # Q') None" using l(4) Cons by simp
    then have "seg ?c (Some i) (k # Q') None"
      by (rule seg_frame_first) (use l Cons in \<open>auto simp: c\<close>)
    ultimately show ?thesis using l Cons by (auto simp: linked_def seg_append hd_append)
  qed
qed

section \<open>Cutting and joining children\<close>

lemma lastkey_last:
  assumes "traits_ok T" "kids_ok T l ks cs"
  shows "last (concat (map (nkeys T) cs)) = lastkey T (last cs)"
proof -
  have "cs \<noteq> []" using assms by (simp add: kids_ok_def)
  then have "concat (map (nkeys T) cs) = concat (map (nkeys T) (butlast cs @ [last cs]))"
    by simp
  also have "\<dots> = concat (map (nkeys T) (butlast cs)) @ nkeys T (last cs)" by simp
  finally have "concat (map (nkeys T) cs) = concat (map (nkeys T) (butlast cs)) @ nkeys T (last cs)" .
  moreover have "nkeys T (last cs) \<noteq> []" using kids_nonempty [OF assms] \<open>cs \<noteq> []\<close> by simp
  ultimately show ?thesis by (simp add: lastkey_def)
qed

lemma kids_cut:
  assumes "kids_ok T l ks cs" "m < length ks"
  shows "kids_ok T l (take m ks) (take (Suc m) cs)" "kids_ok T l (drop (Suc m) ks) (drop (Suc m) cs)"
    and "ks ! m = lastkey T (last (take (Suc m) cs))"
proof -
  note len = kids_length [OF assms(1)]
  have ks: "ks = map (lastkey T) (butlast cs)" using assms by (simp add: kids_ok_def)
  have ok: "\<forall>c \<in> set cs. Suc (level c) = l \<and> \<not> is_underflow T c \<and> shape T c"
    using assms by (simp add: kids_ok_def)
  have "butlast (take (Suc m) cs) = take m (butlast cs)"
    using len assms(2) by (simp add: butlast_take take_butlast)
  then have "take m ks = map (lastkey T) (butlast (take (Suc m) cs))"
    using arg_cong [OF ks, of "take m"] by (simp only: take_map)
  moreover have "take (Suc m) cs \<noteq> []" using len by auto
  ultimately show "kids_ok T l (take m ks) (take (Suc m) cs)"
    unfolding kids_ok_def using ok by (blast dest: in_set_takeD)
  have "drop (Suc m) ks = map (lastkey T) (butlast (drop (Suc m) cs))"
    using arg_cong [OF ks, of "drop (Suc m)"] by (simp only: drop_map butlast_drop)
  moreover have "drop (Suc m) cs \<noteq> []" using len assms(2) by simp
  ultimately show "kids_ok T l (drop (Suc m) ks) (drop (Suc m) cs)"
    unfolding kids_ok_def using ok by (blast dest: in_set_dropD)
  have "last (take (Suc m) cs) = cs ! m"
    using len assms(2) by (simp add: take_Suc_conv_app_nth)
  then show "ks ! m = lastkey T (last (take (Suc m) cs))"
    using kids_key [OF assms] by simp
qed

lemma kids_join:
  assumes "kids_ok T l ks cs" "kids_ok T l ks' cs'" "k = lastkey T (last cs)"
  shows "kids_ok T l (ks @ k # ks') (cs @ cs')"
proof -
  have "butlast (cs @ cs') = butlast cs @ last cs # butlast cs'"
    using assms by (auto simp: kids_ok_def butlast_append)
  with assms show ?thesis by (auto simp: kids_ok_def)
qed

lemma kids_add_delay: "kids_ok T l ks cs \<Longrightarrow> kids_ok T l ks (map (add_delay x) cs)"
  by (auto simp: kids_ok_def map_butlast [symmetric])

lemma lastkey_mk_inner:
  "\<lbrakk>traits_ok T; kids_ok T l ks cs\<rbrakk> \<Longrightarrow> lastkey T (mk_inner l d ks cs) = lastkey T (last cs)"
  using lastkey_last [of T l ks cs] by (simp add: lastkey_def)

section \<open>Insertion into a leaf\<close>

lemma insert_at_simps [simp]:
  "length (insert_at i x xs) = Suc (length xs)" "insert_at 0 x xs = x # xs"
  "insert_at i x xs \<noteq> []"
  by (auto simp: insert_at_def)

lemma map_insert_at: "map f (insert_at i x xs) = insert_at i (f x) (map f xs)"
  by (simp add: insert_at_def take_map drop_map)

lemma delay_slots_insert_at: "delay_slots a (insert_at i (v, d) es) = insert_at i (v, d + a) (delay_slots a es)"
  by (simp add: insert_at_def)

lemma insert_at_append1: "i \<le> length xs \<Longrightarrow> insert_at i x (xs @ ys) = insert_at i x xs @ ys"
  by (simp add: insert_at_def)

lemma insert_at_append2: "length xs \<le> i \<Longrightarrow> insert_at i x (xs @ ys) = xs @ insert_at (i - length xs) x ys"
  by (simp add: insert_at_def)

lemma nth_insert_at [simp]: "i \<le> length xs \<Longrightarrow> insert_at i x xs ! i = x"
  by (simp add: insert_at_def nth_append)

lemma take_insert_at: "\<lbrakk>i \<le> p; i \<le> length xs\<rbrakk> \<Longrightarrow> take (Suc p) (insert_at i x xs) = insert_at i x (take p xs)"
  and drop_insert_at: "\<lbrakk>i \<le> p; i \<le> length xs\<rbrakk> \<Longrightarrow> drop (Suc p) (insert_at i x xs) = drop p xs"
  and nth_insert_at_after: "\<lbrakk>i \<le> p; i \<le> length xs\<rbrakk> \<Longrightarrow> insert_at i x xs ! Suc p = xs ! p"
  by (auto simp: insert_at_def Suc_diff_le drop_take nth_append min_def)

lemma last_insert_at: "i < length xs \<Longrightarrow> last (insert_at i x xs) = last xs"
  by (auto simp: insert_at_def)

definition sibling :: "('k \<times> ('k, 'v) node) option \<Rightarrow> ('k, 'v) node list" where
  "sibling new = (case new of None \<Rightarrow> [] | Some (k, m) \<Rightarrow> [m])"

lemma sibling_simps [simp]: "sibling None = []" "sibling (Some (k, m)) = [m]"
  by (simp_all add: sibling_def)

definition grown :: "('k, 'v) traits \<Rightarrow> ('k, 'v) node \<Rightarrow> ('k, 'v) node \<Rightarrow> ('k \<times> ('k, 'v) node) option \<Rightarrow> bool" where
  "grown T n n' new \<longleftrightarrow> shape T n' \<and> level n' = level n \<and>
     (case new of None \<Rightarrow> (is_underflow T n' \<longrightarrow> is_underflow T n) \<and> slotuse n \<le> slotuse n'
      | Some (k, m) \<Rightarrow> shape T m \<and> level m = level n \<and> \<not> is_underflow T n' \<and> \<not> is_underflow T m \<and> k = lastkey T n')"

definition contents_grown :: "('k::linorder, 'v) traits \<Rightarrow> 'k \<Rightarrow> 'v \<Rightarrow> int \<Rightarrow> ('k, 'v) node
    \<Rightarrow> ('k, 'v) node list \<Rightarrow> bool" where
  "contents_grown T key v delay n ns \<longleftrightarrow> (\<forall>a.
     concat (map (entries a) ns) = insert_at (lower (nkeys T n) key) (v, a - delay) (entries a n))"

definition chain_grown :: "('k, 'v) node \<Rightarrow> chain \<Rightarrow> ('k, 'v) node list \<Rightarrow> chain \<Rightarrow> bool" where
  "chain_grown n c ns c' \<longleftrightarrow> (\<forall>P Q k. chain_ok c (P @ leaf_ids n @ Q) (k + inner_count n) \<longrightarrow>
     chain_ok c' (P @ concat (map leaf_ids ns) @ Q) (k + sum_list (map inner_count ns)))"

definition points_at :: "iter \<Rightarrow> 'v \<Rightarrow> ('k, 'v) node list \<Rightarrow> bool" where
  "points_at it v ns \<longleftrightarrow> (\<exists>j s es n. it = (Some j, s) \<and> n \<in> set ns \<and> (j, es) \<in> set (leaves n) \<and>
     s < length es \<and> fst (es ! s) = v)"

lemma points_at_leaf:
  "\<lbrakk>Leaf j es \<in> set ns; s < length es; fst (es ! s) = v\<rbrakk> \<Longrightarrow> points_at (Some j, s) v ns"
  by (force simp: points_at_def)

lemma points_at_leaves:
  "points_at it v ns \<longleftrightarrow> (\<exists>j s es. it = (Some j, s) \<and> (j, es) \<in> set (concat (map leaves ns)) \<and>
     s < length es \<and> fst (es ! s) = v)"
  by (auto simp: points_at_def)

lemma chain_ok_split_leaf:
  assumes "chain_ok c (P @ i # Q) k" "split_leaf_node T i es c = (sk, les, res, j, c')"
  shows "chain_ok c' (P @ i # j # Q) k"
proof -
  obtain c1 where c1: "allocate_leaf c = (j, c1)" "c' = link_after i j c1"
    using assms(2) by (auto simp: split_leaf_node_def Let_def split: prod.splits)
  have "linked (link_after i j c1) (P @ i # j # Q)"
    by (rule linked_link_after [of c]) (use assms c1 in \<open>auto simp: chain_ok_def allocate_leaf_def\<close>)
  with assms c1 show ?thesis
    by (auto simp: chain_ok_def allocate_leaf_def link_after_def Let_def split: option.splits)
qed

lemma insert_leaf_post:
  assumes T: "traits_ok T" and n: "shape T (Leaf i es)" and s: "sorted (ekeys T es)"
    and r: "insert_leaf T (key_of T v) v delay i es c = (it, n', new, c')"
  shows "grown T (Leaf i es) n' new"
    and "contents_grown T (key_of T v) v delay (Leaf i es) (n' # sibling new)"
    and "chain_grown (Leaf i es) c (n' # sibling new) c'"
    and "points_at it v (n' # sibling new)"
proof -
  define slot where "slot = find_lower (bin_leaf T) (ekeys T es) (key_of T v)"
  then have slot: "slot = lower (ekeys T es) (key_of T v)" "slot \<le> length es"
    using find_lower_lower [OF s] lower_le [of "ekeys T es" "key_of T v"] by auto
  have "grown T (Leaf i es) n' new \<and>
      contents_grown T (key_of T v) v delay (Leaf i es) (n' # sibling new) \<and>
      chain_grown (Leaf i es) c (n' # sibling new) c' \<and> points_at it v (n' # sibling new)"
  proof (cases "length es = leaf_slots T")
    case False
    then show ?thesis using r n slot
      by (auto simp: insert_leaf_def slot_def [symmetric] Let_def grown_def contents_grown_def chain_grown_def
          delay_slots_insert_at points_at_def)
  next
    case True
    define m where "m = length es div 2"
    have m: "leaf_slotmin T \<le> m" "m < length es" "leaf_slotmin T \<le> length es - m" "2 \<le> m"
      using True slotmin_ge [OF T] by (auto simp: m_def leaf_slotmin_def)
    obtain sk les res j c1 where sp: "split_leaf_node T i es c = (sk, les, res, j, c1)"
      by (metis prod_cases5)
    then have e: "sk = ekey T (es ! (m - 1))" "les = take m es" "res = drop m es"
      by (auto simp: split_leaf_node_def m_def Let_def split: prod.splits)
    have ch: "chain_grown (Leaf i es) c [Leaf i xs, Leaf j ys] c1" for xs ys
      using chain_ok_split_leaf [OF _ sp] by (auto simp: chain_grown_def)
    have "take m es \<noteq> []" using m by auto
    then have "last les = es ! (m - 1)" using e m by (simp add: last_conv_nth)
    then have lk: "lastkey T (Leaf i xs) = sk" if "xs \<noteq> []" "last xs = last les" for xs
      using that e m by (simp add: lastkey_def last_map)
    show ?thesis
    proof (cases "slot \<ge> length les")
      case right: True
      then have q: "it = (Some j, slot - m)" "n' = Leaf i les" "c' = c1"
          "new = Some (sk, Leaf j (insert_at (slot - m) (v, - delay) res))"
        using r sp True e m by (auto simp: insert_leaf_def slot_def [symmetric] Let_def)
      have ia: "insert_at slot x (take m ys @ drop m ys) = take m ys @ insert_at (slot - m) x (drop m ys)"
        if "length ys = length es" for x ys
        using right e m that by (subst insert_at_append2) simp_all
      have "contents_grown T (key_of T v) v delay (Leaf i es) (n' # sibling new)"
        using q e by (simp add: contents_grown_def delay_slots_insert_at slot(1) [symmetric] ia [simplified])
      moreover have "grown T (Leaf i es) n' new"
        using q e m True lk [of les] \<open>take m es \<noteq> []\<close> by (auto simp: grown_def)
      moreover have "points_at it v (n' # sibling new)"
        using q e slot right m by (auto intro: points_at_leaf)
      ultimately show ?thesis using ch q by simp
    next
      case left: False
      then have q: "it = (Some i, slot)" "n' = Leaf i (insert_at slot (v, - delay) les)" "c' = c1"
          "new = Some (sk, Leaf j res)"
        using r sp True e m by (auto simp: insert_leaf_def slot_def [symmetric] Let_def)
      have ia: "insert_at slot x (take m ys @ drop m ys) = insert_at slot x (take m ys) @ drop m ys"
        if "length ys = length es" for x ys
        using left e m that by (subst insert_at_append1) simp_all
      have "contents_grown T (key_of T v) v delay (Leaf i es) (n' # sibling new)"
        using q e by (simp add: contents_grown_def delay_slots_insert_at slot(1) [symmetric] ia [simplified])
      moreover have "grown T (Leaf i es) n' new"
        using q e m True left lk [of "insert_at slot (v, - delay) les"]
        by (auto simp: grown_def last_insert_at)
      moreover have "points_at it v (n' # sibling new)"
        using q e slot left m by (auto intro: points_at_leaf)
      ultimately show ?thesis using ch q by simp
    qed
  qed
  then show "grown T (Leaf i es) n' new"
    and "contents_grown T (key_of T v) v delay (Leaf i es) (n' # sibling new)"
    and "chain_grown (Leaf i es) c (n' # sibling new) c'"
    and "points_at it v (n' # sibling new)" by blast+
qed

section \<open>Insertion into an inner node\<close>

lemma insert_child_cut:
  fixes T :: "('k, 'v) traits" and k :: 'k and m :: "('k, 'v) node"
  assumes T: "traits_ok T" and full: "length ks = inner_slots T" and slot: "slot \<le> length ks"
    and len: "length cs = Suc (length ks)"
  defines "ks1 \<equiv> insert_at slot k ks" and "cs1 \<equiv> insert_at (Suc slot) m cs"
  shows "\<exists>p. insert_child T l d ks cs slot k m c =
      (mk_inner l d (take p ks1) (take (Suc p) cs1),
       Some (ks1 ! p, mk_inner l d (drop (Suc p) ks1) (drop (Suc p) cs1)), allocate_inner c) \<and>
      inner_slotmin T \<le> p \<and> p + inner_slotmin T \<le> length ks"
proof -
  define mid where "mid = split_inner_mid (length ks) slot"
  have mid: "mid < length ks" "inner_slotmin T \<le> Suc mid" "mid + inner_slotmin T \<le> length ks"
      "slot \<le> mid \<or> slot = Suc mid \<and> mid < length ks - Suc mid \<Longrightarrow> Suc mid + inner_slotmin T \<le> length ks"
      "\<lbrakk>Suc mid \<le> slot; \<not> (slot = Suc mid \<and> mid < length ks - Suc mid)\<rbrakk> \<Longrightarrow> inner_slotmin T \<le> mid"
    using full T unfolding mid_def split_inner_mid_def Let_def traits_ok_def inner_slotmin_def
    by (auto split: if_splits)
  have sp: "split_inner_node ks cs slot =
      (ks ! mid, take mid ks, take (Suc mid) cs, drop (Suc mid) ks, drop (Suc mid) cs)"
    by (simp add: split_inner_node_def mid_def Let_def)
  consider (edge) "slot = Suc mid" "mid < length ks - Suc mid"
    | (right) "Suc mid \<le> slot" "\<not> (slot = Suc mid \<and> mid < length ks - Suc mid)" | (left) "slot \<le> mid"
    by linarith
  then show ?thesis
  proof cases
    case edge
    have "insert_child T l d ks cs slot k m c =
      (mk_inner l d (take (Suc mid) ks1) (take (Suc (Suc mid)) cs1),
       Some (ks1 ! Suc mid, mk_inner l d (drop (Suc (Suc mid)) ks1) (drop (Suc (Suc mid)) cs1)), allocate_inner c)"
      using edge full mid(1) len sp
      by (simp add: insert_child_def Let_def ks1_def cs1_def insert_at_def
          take_Suc_conv_app_nth hd_drop_conv_nth nth_append drop_Suc [symmetric] tl_drop)
    then show ?thesis using edge mid full by (intro exI [of _ "Suc mid"]) auto
  next
    case right
    have "insert_child T l d ks cs slot k m c =
      (mk_inner l d (take mid ks1) (take (Suc mid) cs1),
       Some (ks1 ! mid, mk_inner l d (drop (Suc mid) ks1) (drop (Suc mid) cs1)), allocate_inner c)"
      using right full mid(1) len slot sp
      by (auto simp: insert_child_def Let_def ks1_def cs1_def insert_at_def
          nth_append drop_take Suc_diff_Suc Suc_le_eq)
    then show ?thesis using right mid full by (intro exI [of _ mid]) auto
  next
    case left
    have "insert_child T l d ks cs slot k m c =
      (mk_inner l d (take (Suc mid) ks1) (take (Suc (Suc mid)) cs1),
       Some (ks1 ! Suc mid, mk_inner l d (drop (Suc (Suc mid)) ks1) (drop (Suc (Suc mid)) cs1)), allocate_inner c)"
      using left full mid(1) len sp
      by (auto simp: insert_child_def Let_def ks1_def cs1_def
          take_insert_at drop_insert_at nth_insert_at_after)
    then show ?thesis using left mid full by (intro exI [of _ "Suc mid"]) auto
  qed
qed

lemma concat_take_drop: "concat (map f (take p xs)) @ concat (map f (drop p xs)) = concat (map f xs)"
  by (simp flip: concat_append map_append)

lemma sum_list_take_drop: "sum_list (map f (take p xs)) + sum_list (map f (drop p xs)) = sum_list (map f xs)"
  for f :: "'a \<Rightarrow> nat"
  by (simp flip: sum_list_append map_append)

lemma insert_child_post:
  fixes T :: "('k, 'v) traits" and k :: 'k and m :: "('k, 'v) node"
  assumes T: "traits_ok T" and ok: "kids_ok T l (insert_at slot k ks) (insert_at (Suc slot) m cs)"
    and len: "length ks \<le> inner_slots T" "slot \<le> length ks" "length cs = Suc (length ks)"
    and r: "insert_child T l d ks cs slot k m c = (n', new, c')"
    and n: "level n = l" "is_underflow T n \<longleftrightarrow> length ks < inner_slotmin T" "slotuse n = length ks"
  defines "cs1 \<equiv> insert_at (Suc slot) m cs"
  shows "grown T n n' new"
    and "concat (map (entries a) (n' # sibling new)) = concat (map (entries (a + d)) cs1)"
    and "concat (map leaf_ids (n' # sibling new)) = concat (map leaf_ids cs1)"
    and "sum_list (map inner_count (n' # sibling new)) = sum_list (map inner_count cs1) + Suc (length (sibling new))"
    and "c' = c\<lparr>st_inner := st_inner c + length (sibling new)\<rparr>"
    and "concat (map leaves (n' # sibling new)) = concat (map leaves cs1)"
proof -
  let ?ks = "insert_at slot k ks"
  have "grown T n n' new \<and>
    concat (map (entries a) (n' # sibling new)) = concat (map (entries (a + d)) cs1) \<and>
    concat (map leaf_ids (n' # sibling new)) = concat (map leaf_ids cs1) \<and>
    sum_list (map inner_count (n' # sibling new)) = sum_list (map inner_count cs1) + Suc (length (sibling new)) \<and>
    c' = c\<lparr>st_inner := st_inner c + length (sibling new)\<rparr> \<and>
    concat (map leaves (n' # sibling new)) = concat (map leaves cs1)"
  proof (cases "length ks = inner_slots T")
    case False
    then have "n' = mk_inner l d ?ks cs1" "new = None" "c' = c"
      using r by (auto simp: insert_child_def cs1_def)
    then show ?thesis using False len n ok by (auto simp: grown_def cs1_def)
  next
    case True
    then obtain p where p: "n' = mk_inner l d (take p ?ks) (take (Suc p) cs1)" "c' = allocate_inner c"
        "new = Some (?ks ! p, mk_inner l d (drop (Suc p) ?ks) (drop (Suc p) cs1))"
      and b: "inner_slotmin T \<le> p" "p + inner_slotmin T \<le> length ks"
      using insert_child_cut [OF T True len(2,3), where k = k and m = m and l = l and d = d and c = c] r by (auto simp: cs1_def)
    have "p < length ?ks" using b by simp
    note cut = kids_cut [OF ok this, folded cs1_def]
    have "grown T n n' new"
      using cut p b len n lastkey_mk_inner [OF T cut(1)] by (auto simp: grown_def)
    then show ?thesis using p b
      by (auto simp: allocate_inner_def concat_take_drop sum_list_take_drop)
  qed
  then show "grown T n n' new"
    and "concat (map (entries a) (n' # sibling new)) = concat (map (entries (a + d)) cs1)"
    and "concat (map leaf_ids (n' # sibling new)) = concat (map leaf_ids cs1)"
    and "sum_list (map inner_count (n' # sibling new)) = sum_list (map inner_count cs1) + Suc (length (sibling new))"
    and "c' = c\<lparr>st_inner := st_inner c + length (sibling new)\<rparr>"
    and "concat (map leaves (n' # sibling new)) = concat (map leaves cs1)"
    by blast+
qed

text \<open>The children after one of them has been replaced by itself and its new sibling.\<close>

definition replace_kid :: "nat \<Rightarrow> 'a list \<Rightarrow> 'a list \<Rightarrow> 'a list" where
  "replace_kid slot ns cs = take slot cs @ ns @ drop (Suc slot) cs"

lemma replace_kid_insert:
  "slot < length cs \<Longrightarrow> replace_kid slot [n] cs = cs[slot := n]"
  "slot < length cs \<Longrightarrow> replace_kid slot [n, m] cs = insert_at (Suc slot) m (cs[slot := n])"
  by (simp_all add: replace_kid_def insert_at_def upd_conv_take_nth_drop)

lemma kids_replace:
  assumes ok: "kids_ok T l ks cs" and slot: "slot < length cs" and g: "grown T (cs ! slot) child new"
    and last: "slot < length ks \<Longrightarrow> lastkey T (last (child # sibling new)) = lastkey T (cs ! slot)"
  shows "kids_ok T l (case new of None \<Rightarrow> ks | Some (k, m) \<Rightarrow> insert_at slot k ks)
           (replace_kid slot (child # sibling new) cs)"
proof -
  define A n B where "A = take slot cs" and "n = cs ! slot" and "B = drop (Suc slot) cs"
  have cs: "cs = A @ n # B" and A: "length A = slot"
    using slot split_at [OF slot] by (auto simp: A_def n_def B_def)
  have ks: "ks = map (lastkey T) A @ map (lastkey T) (butlast (n # B))"
    using ok cs by (auto simp: kids_ok_def butlast_append)
  have "B \<noteq> [] \<Longrightarrow> slot < length ks" using ks A by simp
  note last = last [OF this]
  have el: "\<forall>c \<in> set A \<union> {n} \<union> set B. Suc (level c) = l \<and> \<not> is_underflow T c \<and> shape T c"
    using ok cs by (auto simp: kids_ok_def)
  have r: "replace_kid slot ns cs = A @ ns @ B" for ns
    by (simp add: replace_kid_def A_def B_def)
  show ?thesis
  proof (cases new)
    case None
    with g [folded n_def] el show ?thesis using last [folded n_def]
      by (cases B) (auto simp: r kids_ok_def ks grown_def butlast_append)
  next
    case (Some p)
    obtain k m where "new = Some (k, m)" using Some by (cases p) auto
    with g [folded n_def] el show ?thesis using last [folded n_def]
      by (cases B) (auto simp: r kids_ok_def ks grown_def butlast_append insert_at_def A)
  qed
qed

lemma nkeys_grown:
  assumes "contents_grown T key v delay n ns" "key = key_of T v"
  shows "concat (map (nkeys T) ns) = insert_at (lower (nkeys T n) key) key (nkeys T n)"
proof -
  have "map (ekey T) (concat (map (entries 0) ns)) =
      map (ekey T) (insert_at (lower (nkeys T n) key) (v, 0 - delay) (entries 0 n))"
    using assms by (simp add: contents_grown_def)
  then show ?thesis using assms by (simp add: map_concat comp_def map_insert_at)
qed

lemma lower_less_last:
  assumes "sorted ks" "ks \<noteq> []" "key \<le> last ks"
  shows "lower ks key < length ks"
proof (rule ccontr)
  assume "\<not> ?thesis"
  then have "length ks - 1 < lower ks key" using assms(2) by (cases ks) auto
  then have "last ks < key" using lower_before [of "length ks - 1" ks key] assms by (simp add: last_conv_nth)
  with assms show False by simp
qed

lemma last_of_siblings:
  assumes "\<forall>n \<in> set ns. nkeys T n \<noteq> []" "ns \<noteq> []"
  shows "lastkey T (last ns) = last (concat (map (nkeys T) ns))"
proof -
  have "concat (map (nkeys T) ns) = concat (map (nkeys T) (butlast ns @ [last ns]))"
    using assms by simp
  also have "\<dots> = concat (map (nkeys T) (butlast ns)) @ nkeys T (last ns)" by simp
  finally show ?thesis using assms by (simp add: lastkey_def)
qed

lemma length_concat_entries: "length (concat (map (entries a) ns)) = length (concat (map (nkeys T) ns))"
  by (induction ns) (auto simp: length_entries [of a _ T])

lemma insert_at_middle:
  "p \<le> length ys \<Longrightarrow> insert_at (length xs + p) x (xs @ ys @ zs) = xs @ insert_at p x ys @ zs"
  by (simp add: insert_at_def)

lemma insert_descend_post:
  assumes T: "traits_ok T" and "shape T n" "sorted (nkeys T n)" "key = key_of T v"
    and "insert_descend T key v delay n c = (it, n', new, c')"
  shows "grown T n n' new \<and> contents_grown T key v delay n (n' # sibling new) \<and>
    chain_grown n c (n' # sibling new) c' \<and> points_at it v (n' # sibling new)"
  using assms(2-)
proof (induction n arbitrary: delay n' new c c' it)
  case (Leaf i es)
  then show ?case using insert_leaf_post [OF T Leaf(1)] by auto
next
  case (Inner l s d ks cs)
  have ok: "kids_ok T l ks cs" and lk: "length ks \<le> inner_slots T"
    using Inner.prems(1) unfolding shape_inner by auto
  have so: "sorted (concat (map (nkeys T) cs))" using Inner.prems(2) by simp
  define slot where "slot = lower ks key"
  note loc = locate [OF T ok so, of key, folded slot_def]
  note len = kids_length [OF ok]
  have slot: "slot < length cs" "find_lower (bin_inner T) ks key = slot"
    using loc(1) kids_find_lower [OF T ok so] by (auto simp: slot_def)
  have mem: "cs ! slot \<in> set cs" using slot by simp
  obtain child new1 c1 where d: "insert_descend T key v (delay + d) (cs ! slot) c = (it, child, new1, c1)"
    using Inner.prems(4) slot by (auto simp: Let_def split: prod.splits option.splits)
  have sh: "shape T (cs ! slot)" "sorted (nkeys T (cs ! slot))" "nkeys T (cs ! slot) \<noteq> []"
    using ok mem sorted_part [OF so mem] kids_nonempty [OF T ok mem] by (auto simp: kids_ok_def)
  from Inner.IH [OF mem sh(1,2) Inner.prems(3) d]
  have g: "grown T (cs ! slot) child new1" and e: "contents_grown T key v (delay + d) (cs ! slot) (child # sibling new1)"
    and ch: "chain_grown (cs ! slot) c (child # sibling new1) c1" and pt: "points_at it v (child # sibling new1)"
    by auto
  let ?ns = "child # sibling new1"
  define cs2 where "cs2 = replace_kid slot ?ns cs"
  have last: "lastkey T (last ?ns) = lastkey T (cs ! slot)" if "slot < length ks"
  proof -
    have "lower (nkeys T (cs ! slot)) key < length (nkeys T (cs ! slot))"
      using lower_less_last [OF sh(2,3)] loc(3) [OF that] by (simp add: lastkey_def)
    moreover have "\<forall>n \<in> set ?ns. nkeys T n \<noteq> []"
      using g mem ok nonempty_node [OF T] unfolding grown_def kids_ok_def
      by (auto simp: sibling_def split: option.splits)
    ultimately show ?thesis
      using last_of_siblings [of ?ns T] nkeys_grown [OF e Inner.prems(3)] by (simp add: last_insert_at lastkey_def)
  qed
  note kids = kids_replace [OF ok slot(1) g last, folded cs2_def]
  have cat: "concat (map f cs2) = concat (map f (take slot cs)) @ concat (map f ?ns) @ concat (map f (drop (Suc slot) cs))"
    for f :: "('a, 'b) node \<Rightarrow> 'c list"
    by (simp add: cs2_def replace_kid_def)
  have cont: "concat (map (entries (a + d)) cs2) =
      insert_at (lower (nkeys T (Inner l s d ks cs)) key) (v, a - delay) (entries a (Inner l s d ks cs))" for a
  proof -
    let ?X = "concat (map (entries (a + d)) (take slot cs))" and ?Y = "entries (a + d) (cs ! slot)"
    let ?Z = "concat (map (entries (a + d)) (drop (Suc slot) cs))" and ?p = "lower (nkeys T (cs ! slot)) key"
    have "a + d - (delay + d) = a - delay" by simp
    then have "concat (map (entries (a + d)) ?ns) = insert_at ?p (v, a - delay) ?Y"
      using e [unfolded contents_grown_def, rule_format, of "a + d"] by simp
    moreover have "lower (nkeys T (Inner l s d ks cs)) key = length ?X + ?p"
      using loc(4) length_concat_entries [of "a + d" "take slot cs" T] by simp
    moreover have "entries a (Inner l s d ks cs) = ?X @ ?Y @ ?Z"
      using concat_split_at [OF slot(1), of "entries (a + d)"] by simp
    moreover have "?p \<le> length ?Y"
      using lower_le length_entries [of "a + d" "cs ! slot" T] by metis
    ultimately show ?thesis by (simp add: insert_at_middle cat)
  qed
  have chn: "chain_ok c1 (P @ concat (map leaf_ids cs2) @ Q) (k + Suc (sum_list (map inner_count cs2)))"
    if "chain_ok c (P @ leaf_ids (Inner l s d ks cs) @ Q) (k + inner_count (Inner l s d ks cs))" for P Q k
  proof -
    let ?P = "P @ concat (map leaf_ids (take slot cs))" and ?Q = "concat (map leaf_ids (drop (Suc slot) cs)) @ Q"
    let ?k = "k + Suc (sum_list (map inner_count (take slot cs)) + sum_list (map inner_count (drop (Suc slot) cs)))"
    have "sum_list (map inner_count cs) =
        sum_list (map inner_count (take slot cs)) + inner_count (cs ! slot) + sum_list (map inner_count (drop (Suc slot) cs))"
      using arg_cong [OF split_at [OF slot(1)], of "\<lambda>cs. sum_list (map inner_count cs)"] by simp
    then have "chain_ok c (?P @ leaf_ids (cs ! slot) @ ?Q) (?k + inner_count (cs ! slot))"
      using that concat_split_at [OF slot(1), of leaf_ids] by (simp add: ac_simps)
    then have "chain_ok c1 (?P @ concat (map leaf_ids ?ns) @ ?Q) (?k + sum_list (map inner_count ?ns))"
      using ch unfolding chain_grown_def by blast
    then show ?thesis by (simp add: cat cs2_def replace_kid_def ac_simps)
  qed
  have pts: "points_at it v cs2" using pt by (auto simp: points_at_def cs2_def replace_kid_def)
  show ?case
  proof (cases new1)
    case None
    then have "n' = mk_inner l d ks cs2" "new = None" "c' = c1"
      using Inner.prems(4) slot d by (auto simp: Let_def cs2_def replace_kid_insert)
    then show ?thesis using kids None lk cont chn pts
      by (auto simp: grown_def contents_grown_def chain_grown_def points_at_def)
  next
    case (Some p)
    then obtain k m where km: "new1 = Some (k, m)" by (cases p) auto
    then have "insert_child T l d ks (cs[slot := child]) slot k m c1 = (n', new, c')"
      using Inner.prems(4) slot d by (auto simp: Let_def split: prod.splits)
    note child = this
    have cs2: "cs2 = insert_at (Suc slot) m (cs[slot := child])" using km slot by (simp add: cs2_def replace_kid_insert)
    have "kids_ok T l (insert_at slot k ks) (insert_at (Suc slot) m (cs[slot := child]))"
      using kids km cs2 by simp
    note post = insert_child_post [OF T this lk _ _ child, of "Inner l s d ks cs", folded cs2]
    have len': "slot \<le> length ks" "length (cs[slot := child]) = Suc (length ks)" using len slot by auto
    have "grown T (Inner l s d ks cs) n' new" using post(1) len' by simp
    moreover have "contents_grown T key v delay (Inner l s d ks cs) (n' # sibling new)"
      unfolding contents_grown_def using post(2) [OF len'] cont by simp
    moreover have "chain_grown (Inner l s d ks cs) c (n' # sibling new) c'"
      unfolding chain_grown_def
    proof (intro allI impI)
      fix P Q k'
      assume "chain_ok c (P @ leaf_ids (Inner l s d ks cs) @ Q) (k' + inner_count (Inner l s d ks cs))"
      from chain_ok_st_inner [OF chn [OF this], of "length (sibling new)"]
      show "chain_ok c' (P @ concat (map leaf_ids (n' # sibling new)) @ Q) (k' + sum_list (map inner_count (n' # sibling new)))"
        using post(3-5) [OF len'] by (simp add: ac_simps)
    qed
    moreover have "points_at it v (n' # sibling new)"
      using pts unfolding points_at_leaves using post(6) [OF len'] by simp
    ultimately show ?thesis by blast
  qed
qed

section \<open>The whole tree\<close>

definition tree_entries :: "('k, 'v) tree \<Rightarrow> ('v \<times> int) list" where
  "tree_entries t = (case root t of None \<Rightarrow> [] | Some n \<Rightarrow> entries 0 n)"

definition tree_keys :: "('k, 'v) traits \<Rightarrow> ('k, 'v) tree \<Rightarrow> 'k list" where
  "tree_keys T t = ekeys T (tree_entries t)"

definition tree_ok :: "('k::linorder, 'v) traits \<Rightarrow> ('k, 'v) tree \<Rightarrow> bool" where
  "tree_ok T t \<longleftrightarrow> (case root t of
       None \<Rightarrow> chain_ok (links t) [] 0 \<and> st_size t = 0
     | Some n \<Rightarrow> shape T n \<and> 1 \<le> slotuse n \<and> sorted (nkeys T n) \<and> chain_ok (links t) (leaf_ids n) (inner_count n) \<and>
         st_size t = length (nkeys T n))"

lemma tree_new_ok: "tree_ok T tree_new" "tree_entries tree_new = []"
  by (auto simp: tree_ok_def tree_new_def chain_ok_def linked_def chain_new_def tree_entries_def)

lemma take_lower: "take (lower ks key) ks = takeWhile (\<lambda>k. k < key) ks"
  and drop_lower: "drop (lower ks key) ks = dropWhile (\<lambda>k. k < key) ks"
  by (simp_all add: lower_def dropWhile_eq_drop flip: takeWhile_eq_take)

lemma dropWhile_ge: "\<lbrakk>sorted ks; x \<in> set (dropWhile (\<lambda>k. k < key) ks)\<rbrakk> \<Longrightarrow> key \<le> x"
  by (induction ks) (auto split: if_splits)

lemma sorted_insert_lower: "sorted ks \<Longrightarrow> sorted (insert_at (lower ks key) key ks)"
  unfolding insert_at_def take_lower drop_lower sorted_append
  by (auto simp: sorted_wrt_dropWhile dest: dropWhile_ge)
    (metis dropWhile_ge less_imp_le order.trans set_takeWhileD)+

lemma slotdata_leaf:
  assumes "root t = Some n" "distinct (leaf_ids n)" "(j, es) \<in> set (leaves n)"
  shows "slotdata t j = es"
  using assms by (simp add: slotdata_def tree_leaves_def leaf_ids_leaves)

lemma insert_descend_tree:
  assumes T: "traits_ok T" and n: "shape T n" "sorted (nkeys T n)" "chain_ok c (leaf_ids n) (inner_count n)"
    and use: "1 \<le> slotuse n \<or> level n = 0"
    and d: "insert_descend T (key_of T v) v 0 n c = (it, n', new, c')"
    and r: "(n2, c2) = (case new of None \<Rightarrow> (n', c')
              | Some (k, m) \<Rightarrow> (mk_inner (level n' + 1) 0 [k] [n', m], allocate_inner c'))"
  defines "t \<equiv> \<lparr>root = Some n2, links = c2, st_size = Suc (length (nkeys T n))\<rparr>"
  shows "tree_ok T t" "entries 0 n2 = insert_at (lower (nkeys T n) (key_of T v)) (v, 0) (entries 0 n)"
    "deref t it = Some v"
proof -
  note p = insert_descend_post [OF T n(1,2) refl d]
  have ns: "entries a n2 = concat (map (entries a) (n' # sibling new))" "leaf_ids n2 = concat (map leaf_ids (n' # sibling new))"
      "leaves n2 = concat (map leaves (n' # sibling new))" for a
    using r by (auto split: option.splits)
  show e: "entries 0 n2 = insert_at (lower (nkeys T n) (key_of T v)) (v, 0) (entries 0 n)"
    using p ns by (simp add: contents_grown_def)
  have k: "nkeys T n2 = insert_at (lower (nkeys T n) (key_of T v)) (key_of T v) (nkeys T n)"
    using arg_cong [OF e, of "ekeys T"] by (simp add: map_insert_at)
  have "chain_ok c' (leaf_ids n2) (sum_list (map inner_count (n' # sibling new)))"
    using p n(3) ns unfolding chain_grown_def by (metis append_Nil append_Nil2 add_0)
  then have ch: "chain_ok c2 (leaf_ids n2) (inner_count n2)"
    using r chain_ok_st_inner [of c' _ _ 1] by (auto simp: allocate_inner_def split: option.splits)
  have "1 \<le> slotuse n2"
  proof (cases new)
    case None
    then have "n2 = n'" "slotuse n \<le> slotuse n'" "level n' = level n" "shape T n'" using r p by (auto simp: grown_def)
    moreover have "entries 0 n2 \<noteq> []" using e by (simp add: insert_at_def)
    ultimately show ?thesis using use by (cases n') (auto simp: kids_ok_def Suc_le_eq)
  qed (use r in auto)
  moreover have "shape T n2"
    using p r T by (auto simp: grown_def kids_ok_def traits_ok_def split: option.splits)
  moreover have "sorted (nkeys T n2)" using k n(2) by (simp add: sorted_insert_lower)
  ultimately show "tree_ok T t" using ch k by (simp add: tree_ok_def t_def)
  obtain j s es where it: "it = (Some j, s)" "(j, es) \<in> set (leaves n2)" "s < length es" "fst (es ! s) = v"
    using p ns by (auto simp: points_at_leaves)
  have "slotdata t j = es"
    using ch it by (intro slotdata_leaf [of t n2]) (auto simp: t_def chain_ok_def linked_def)
  with it show "deref t it = Some v" by simp
qed

lemma tree_insert_ok:
  assumes T: "traits_ok T" and t: "tree_ok T t" and i: "tree_insert T v t = (it, t')"
  shows "tree_ok T t'" "tree_entries t' = insert_at (lower (tree_keys T t) (key_of T v)) (v, 0) (tree_entries t)"
    "deref t' it = Some v"
proof -
  obtain n c it1 n' new c' n2 c2 where
    n: "(n, c) = (case root t of Some r \<Rightarrow> (r, links t)
         | None \<Rightarrow> let (i, c) = allocate_leaf (links t) in (Leaf i [], c\<lparr>head_leaf := Some i, tail_leaf := Some i\<rparr>))"
    and d: "insert_descend T (key_of T v) v 0 n c = (it1, n', new, c')"
    and r: "(n2, c2) = (case new of None \<Rightarrow> (n', c')
              | Some (k, m) \<Rightarrow> (mk_inner (level n' + 1) 0 [k] [n', m], allocate_inner c'))"
    and t': "it = it1" "t' = \<lparr>root = Some n2, links = c2, st_size = st_size t + 1\<rparr>"
    using i unfolding tree_insert_def insert_start_def Let_def by (auto split: prod.splits)
  have k: "nkeys T n = tree_keys T t" "entries 0 n = tree_entries t" "length (nkeys T n) = st_size t"
    using n t by (auto simp: tree_keys_def tree_entries_def tree_ok_def allocate_leaf_def split: option.splits)
  have "shape T n \<and> sorted (nkeys T n) \<and> chain_ok c (leaf_ids n) (inner_count n) \<and> (1 \<le> slotuse n \<or> level n = 0)"
    using n t by (auto simp: tree_ok_def allocate_leaf_def chain_ok_def linked_def split: option.splits)
  then have "shape T n" "sorted (nkeys T n)" "chain_ok c (leaf_ids n) (inner_count n)" "1 \<le> slotuse n \<or> level n = 0"
    by auto
  note post = insert_descend_tree [OF T this d r]
  have "t' = \<lparr>root = Some n2, links = c2, st_size = Suc (length (nkeys T n))\<rparr>" using t' k by simp
  with post k t' show "tree_ok T t'" "deref t' it = Some v"
    "tree_entries t' = insert_at (lower (tree_keys T t) (key_of T v)) (v, 0) (tree_entries t)"
    by (simp_all add: tree_entries_def [of "tree.make _ _ _", unfolded tree.make_def])
qed

end
