(* ===== verification/Replay_Erase_Laws.thy ===== *)
theory Replay_Erase_Laws
  imports Replay_Insert_Laws
begin

text \<open>
  Erasure from a replay tree. Merging and shifting two neighbouring nodes keep their joint
  contents; an underflowing child is repaired below its own parent, whatever the siblings
  are; hence \<^verbatim>\<open>erase_iter_descend\<close> removes exactly the entry under the iterator, keeps the
  shape and the chain, and returns the accumulated delay of that entry.
\<close>

section \<open>Two neighbouring nodes\<close>

fun nmin :: "('k, 'v) traits \<Rightarrow> ('k, 'v) node \<Rightarrow> nat" where
  "nmin T (Leaf i es) = leaf_slotmin T"
| "nmin T (Inner l s d ks cs) = inner_slotmin T"

lemma is_underflow_nmin: "is_underflow T n \<longleftrightarrow> slotuse n < nmin T n"
  and is_few_nmin: "is_few T n \<longleftrightarrow> slotuse n \<le> nmin T n"
  by (cases n; simp)+

lemma nmin_mk_inner [simp]: "nmin T (mk_inner l d ks cs) = inner_slotmin T"
  by (simp add: mk_inner_def)

text \<open>A node that has lost at most one entry below the minimum.\<close>

definition almost :: "('k, 'v) traits \<Rightarrow> ('k, 'v) node \<Rightarrow> bool" where
  "almost T n \<longleftrightarrow> shape T n \<and> nmin T n \<le> Suc (slotuse n)"

definition same_kind :: "('k, 'v) node \<Rightarrow> ('k, 'v) node \<Rightarrow> bool" where
  "same_kind x y \<longleftrightarrow> level x = level y"

lemma shape_level_0: "shape T n \<Longrightarrow> level n = 0 \<longleftrightarrow> (\<exists>i es. n = Leaf i es)"
proof (cases n)
  case (Inner l s d ks cs)
  assume "shape T n"
  then have "hd cs \<in> set cs" "\<forall>c \<in> set cs. Suc (level c) = l" using Inner by auto
  then have "l \<noteq> 0" by auto
  then show ?thesis using Inner by simp
qed simp

definition shifted :: "('k, 'v) traits \<Rightarrow> ('k, 'v) node \<Rightarrow> ('k, 'v) node \<Rightarrow> ('k, 'v) node \<Rightarrow> ('k, 'v) node \<Rightarrow> bool" where
  "shifted T x y x' y' \<longleftrightarrow> shape T x' \<and> shape T y' \<and> level x' = level x \<and> level y' = level y \<and>
     \<not> is_underflow T x' \<and> \<not> is_underflow T y' \<and>
     (\<forall>a. entries a x' @ entries a y' = entries a x @ entries a y) \<and>
     leaf_ids x' @ leaf_ids y' = leaf_ids x @ leaf_ids y \<and>
     inner_count x' + inner_count y' = inner_count x + inner_count y"

definition merged :: "('k, 'v) traits \<Rightarrow> ('k, 'v) node \<Rightarrow> ('k, 'v) node \<Rightarrow> chain \<Rightarrow> ('k, 'v) node \<Rightarrow> ('k, 'v) node
    \<Rightarrow> chain \<Rightarrow> bool" where
  "merged T x y c x' y' c' \<longleftrightarrow> shape T x' \<and> level x' = level x \<and> \<not> is_underflow T x' \<and>
     slotuse x' \<noteq> 0 \<and> slotuse y' = 0 \<and> (\<forall>a. entries a x' = entries a x @ entries a y) \<and>
     (\<forall>P Q k. chain_ok c (P @ leaf_ids x @ leaf_ids y @ Q) (k + inner_count x + inner_count y) \<longrightarrow>
        chain_ok (free_node y' c') (P @ leaf_ids x' @ Q) (k + inner_count x'))"

lemma chain_ok_free_leaf:
  "\<lbrakk>linked c is; st_leaves c = Suc (length is); st_inner c = k; level n = 0\<rbrakk> \<Longrightarrow> chain_ok (free_node n c) is k"
  by (auto simp: chain_ok_def linked_def free_node_def intro: seg_frame)

lemma chain_ok_free_inner: "\<lbrakk>chain_ok c is (Suc k); level n \<noteq> 0\<rbrakk> \<Longrightarrow> chain_ok (free_node n c) is k"
  by (auto simp: chain_ok_def linked_def free_node_def intro: seg_frame)

lemma merge_leaves_ok:
  assumes T: "traits_ok T" and "slotuse (Leaf i es) + slotuse (Leaf j fs) \<le> leaf_slots T"
    and "leaf_slotmin T \<le> length es + length fs"
    and r: "merge_leaves ld ld (Leaf i es) (Leaf j fs) c = (x', y', c')"
  shows "merged T (Leaf i es) (Leaf j fs) c x' y' c'"
proof -
  have "chain_ok (free_node (Leaf j []) (unlink_after i j c)) (P @ i # Q) k"
    if "chain_ok c (P @ i # j # Q) k" for P Q k
  proof (rule chain_ok_free_leaf)
    show "linked (unlink_after i j c) (P @ i # Q)"
      using that by (auto simp: chain_ok_def intro: linked_unlink_after)
  qed (use that in \<open>auto simp: chain_ok_def unlink_after_def Let_def split: option.splits\<close>)
  then show ?thesis
    using assms slotmin_ge [OF T] by (auto simp: merged_def free_node_def)
qed

lemma merge_inner_ok:
  fixes ks ks' :: "'k list"
  assumes T: "traits_ok T" and x: "shape T (Inner l s d ks cs)" and y: "shape T (Inner l s' d' ks' cs')"
    and n: "Suc (length ks + length ks') \<le> inner_slots T" "inner_slotmin T \<le> Suc (length ks + length ks')"
    and sep: "pks ! ps = lastkey T (Inner l s d ks cs)"
    and r: "merge_inner ld ld (Inner l s d ks cs) (Inner l s' d' ks' cs') pks ps = (x', y')"
  shows "merged T (Inner l s d ks cs) (Inner l s' d' ks' cs') c x' y' c"
proof -
  define diff where "diff = d' - d"
  have xk: "kids_ok T l ks cs" and yk: "kids_ok T l ks' cs'" using x y unfolding shape_inner by auto
  have e: "x' = mk_inner l d (ks @ pks ! ps # ks') (cs @ map (add_delay diff) cs')" "y' = Inner l 0 d' [] []"
    using r by (auto simp: diff_def)
  have "lastkey T (Inner l s d ks cs) = lastkey T (last cs)"
    using lastkey_last [OF T xk] by (simp add: lastkey_def)
  then have "kids_ok T l (ks @ pks ! ps # ks') (cs @ map (add_delay diff) cs')"
    using kids_join [OF xk kids_add_delay [OF yk]] sep by simp
  moreover have "l \<noteq> 0" using shape_level_0 [OF x] by auto
  ultimately show ?thesis using e n
    by (auto simp: merged_def comp_def add.assoc diff_def intro!: chain_ok_free_inner)
qed

lemma lastkey_leaf: "es \<noteq> [] \<Longrightarrow> ekey T (es ! (length es - 1)) = lastkey T (Leaf i es)"
  by (simp add: lastkey_def last_map last_conv_nth)

lemma shift_left_leaf_ok:
  assumes T: "traits_ok T" and x: "almost T (Leaf i es)" and xu: "length es < leaf_slotmin T"
    and y: "shape T (Leaf j fs)" and yf: "leaf_slotmin T < length fs" and ps: "ps < length pks"
    and r: "shift_left_leaf T ld ld (Leaf i es) (Leaf j fs) pks ps = (x', y', pks', up)"
  shows "shifted T (Leaf i es) (Leaf j fs) x' y'" "pks' = pks[ps := lastkey T x']" "up = None"
proof -
  define m where "m = (length fs - length es) div 2"
  have m: "leaf_slotmin T \<le> length es + m" "leaf_slotmin T \<le> length fs - m" "m \<le> length fs" "1 \<le> m"
    "length es + m \<le> leaf_slots T"
    using x xu y yf by (auto simp: m_def almost_def)
  have e: "x' = Leaf i (es @ take m fs)" "y' = Leaf j (drop m fs)" "up = None"
    "pks' = pks[ps := ekey T ((es @ take m fs) ! (length (es @ take m fs) - 1))]"
    using r ps by (auto simp: m_def Let_def)
  have "es @ take m fs \<noteq> []" using m by auto
  from lastkey_leaf [OF this, of T i] show "pks' = pks[ps := lastkey T x']" "up = None" using e by auto
  show "shifted T (Leaf i es) (Leaf j fs) x' y'"
    using e m y by (auto simp: shifted_def)
qed

lemma shift_right_leaf_ok:
  assumes T: "traits_ok T" and y: "almost T (Leaf j fs)" and yu: "length fs < leaf_slotmin T"
    and x: "shape T (Leaf i es)" and xf: "leaf_slotmin T < length es"
    and r: "shift_right_leaf T ld ld (Leaf i es) (Leaf j fs) pks ps = (x', y', pks')"
  shows "shifted T (Leaf i es) (Leaf j fs) x' y'" "pks' = pks[ps := lastkey T x']"
proof -
  define m where "m = (length es - length fs) div 2"
  define h where "h = length es - m"
  have m: "leaf_slotmin T \<le> length fs + m" "leaf_slotmin T \<le> h" "m \<le> length es"
    "length fs + m \<le> leaf_slots T" "1 \<le> h" "h \<le> length es" "length es - h = m"
    using x xf y yu slotmin_ge [OF T] by (auto simp: m_def almost_def h_def)
  have e: "x' = Leaf i (take h es)" "y' = Leaf j (drop h es @ fs)"
    "pks' = pks[ps := ekey T (take h es ! (length (take h es) - 1))]"
    using r by (auto simp: m_def h_def Let_def)
  have "take h es \<noteq> []" using m by auto
  from lastkey_leaf [OF this, of T i] show "pks' = pks[ps := lastkey T x']" using e by auto
  have "take h zs @ drop h zs @ ws = zs @ ws" for zs ws :: "'c list"
    by (metis append_assoc append_take_drop_id)
  then show "shifted T (Leaf i es) (Leaf j fs) x' y'"
    using e m x by (simp add: shifted_def add.commute)
qed

lemma entries_map_add_delay:
  "concat (map (entries a) (map (add_delay x) cs)) = concat (map (entries (a + x)) cs)"
  by (simp add: comp_def)

lemma shift_left_inner_ok:
  fixes ks ks' :: "'k list"
  assumes T: "traits_ok T" and x: "almost T (Inner l s d ks cs)" and xu: "length ks < inner_slotmin T"
    and y: "shape T (Inner l s' d' ks' cs')" and yf: "inner_slotmin T < length ks'"
    and sep: "pks ! ps = lastkey T (Inner l s d ks cs)"
    and r: "shift_left_inner ld ld (Inner l s d ks cs) (Inner l s' d' ks' cs') pks ps = (x', y', pks')"
  shows "shifted T (Inner l s d ks cs) (Inner l s' d' ks' cs') x' y'" "pks' = pks[ps := lastkey T x']"
proof -
  define m where "m = (length ks' - length ks) div 2 - 1"
  have m: "inner_slotmin T \<le> Suc (length ks + m)" "inner_slotmin T \<le> length ks' - Suc m" "m < length ks'"
    "Suc (length ks + m) \<le> inner_slots T" "(length ks' - length ks) div 2 = Suc m"
    using x xu y yf by (auto simp: m_def almost_def shape_inner)
  have xk: "kids_ok T l ks cs" and yk: "kids_ok T l ks' cs'" using x y unfolding almost_def shape_inner by auto
  define diff where "diff = d' - d"
  have e: "x' = mk_inner l d (ks @ pks ! ps # take m ks') (cs @ map (add_delay diff) (take (Suc m) cs'))"
    "y' = mk_inner l d' (drop (Suc m) ks') (drop (Suc m) cs')" "pks' = pks[ps := ks' ! m]"
    using r m(5) by (auto simp: diff_def Let_def)
  have ly: "length ks' \<le> inner_slots T" using y unfolding shape_inner by auto
  note cut = kids_cut [OF yk m(3)]
  have "lastkey T (Inner l s d ks cs) = lastkey T (last cs)"
    using lastkey_last [OF T xk] by (simp add: lastkey_def)
  then have k: "kids_ok T l (ks @ pks ! ps # take m ks') (cs @ map (add_delay diff) (take (Suc m) cs'))"
    using kids_join [OF xk kids_add_delay [OF cut(1)]] sep by simp
  have "take (Suc m) cs' \<noteq> []" using cut(1) by (simp add: kids_ok_def)
  then have "lastkey T x' = ks' ! m"
    using lastkey_mk_inner [OF T k] cut(3) e by (simp add: last_map)
  then show "pks' = pks[ps := lastkey T x']" using e by simp
  show "shifted T (Inner l s d ks cs) (Inner l s' d' ks' cs') x' y'"
    using e k cut(2) m ly
    by (simp add: shifted_def comp_def diff_def add.assoc concat_take_drop sum_list_take_drop)
qed

lemma shift_right_inner_ok:
  fixes ks ks' :: "'k list"
  assumes T: "traits_ok T" and y: "almost T (Inner l s' d' ks' cs')" and yu: "length ks' < inner_slotmin T"
    and x: "shape T (Inner l s d ks cs)" and xf: "inner_slotmin T < length ks"
    and sep: "pks ! ps = lastkey T (Inner l s d ks cs)"
    and r: "shift_right_inner ld ld (Inner l s d ks cs) (Inner l s' d' ks' cs') pks ps = (x', y', pks')"
  shows "shifted T (Inner l s d ks cs) (Inner l s' d' ks' cs') x' y'" "pks' = pks[ps := lastkey T x']"
proof -
  define h where "h = length ks - (length ks - length ks') div 2"
  have h: "inner_slotmin T \<le> h" "inner_slotmin T \<le> length ks' + (length ks - h)" "h < length ks"
    "length ks' + (length ks - h) \<le> inner_slots T" "length ks \<le> inner_slots T"
    using x xf y yu by (auto simp: h_def almost_def shape_inner)
  have xk: "kids_ok T l ks cs" and yk: "kids_ok T l ks' cs'" using x y unfolding almost_def shape_inner by auto
  define diff where "diff = d - d'"
  have e: "x' = mk_inner l d (take h ks) (take (Suc h) cs)"
    "y' = mk_inner l d' (drop (Suc h) ks @ pks ! ps # ks') (map (add_delay diff) (drop (Suc h) cs) @ cs')"
    "pks' = pks[ps := ks ! h]"
    using r by (auto simp: diff_def h_def Let_def)
  note cut = kids_cut [OF xk h(3)]
  have "drop (Suc h) cs \<noteq> []" using cut(2) by (simp add: kids_ok_def)
  then have "lastkey T (Inner l s d ks cs) = lastkey T (last (map (add_delay diff) (drop (Suc h) cs)))"
    using lastkey_last [OF T xk] by (simp add: lastkey_def last_map)
  then have k: "kids_ok T l (drop (Suc h) ks @ pks ! ps # ks') (map (add_delay diff) (drop (Suc h) cs) @ cs')"
    using kids_join [OF kids_add_delay [OF cut(2)] yk] sep by simp
  show "pks' = pks[ps := lastkey T x']" using e lastkey_mk_inner [OF T cut(1)] cut(3) by simp
  show "shifted T (Inner l s d ks cs) (Inner l s' d' ks' cs') x' y'"
    using e k cut(1) h
    by (auto simp: shifted_def comp_def diff_def add.assoc concat_take_drop sum_list_take_drop simp flip: append_assoc)
qed

section \<open>Repairing a child below its parent\<close>

lemma almost_nonempty:
  assumes "traits_ok T" "almost T n"
  shows "nkeys T n \<noteq> []"
proof (cases n)
  case (Leaf i es)
  then show ?thesis using assms slotmin_ge [of T] by (auto simp: almost_def)
next
  case (Inner l s d ks cs)
  then have "kids_ok T l ks cs" using assms unfolding almost_def Inner shape_inner by simp
  then have "cs \<noteq> []" "nkeys T (hd cs) \<noteq> []" using kids_nonempty [OF assms(1)] by (auto simp: kids_ok_def)
  then show ?thesis using Inner by (cases cs) auto
qed

definition kids_but :: "('k, 'v) traits \<Rightarrow> nat \<Rightarrow> 'k list \<Rightarrow> ('k, 'v) node list \<Rightarrow> nat \<Rightarrow> bool" where
  "kids_but T l ks cs slot \<longleftrightarrow> slot < length cs \<and> ks = map (lastkey T) (butlast cs) \<and> almost T (cs ! slot) \<and>
     (\<forall>j < length cs. Suc (level (cs ! j)) = l \<and> shape T (cs ! j) \<and> (j \<noteq> slot \<longrightarrow> \<not> is_underflow T (cs ! j)))"

lemma kids_but_length: "kids_but T l ks cs slot \<Longrightarrow> length cs = Suc (length ks)"
  by (cases cs) (auto simp: kids_but_def)

lemma kids_but_almost: "\<lbrakk>kids_but T l ks cs slot; j < length cs\<rbrakk> \<Longrightarrow> almost T (cs ! j)"
  by (cases "j = slot") (auto simp: kids_but_def almost_def is_underflow_nmin)

lemma kids_but_ok: "\<lbrakk>kids_but T l ks cs slot; \<not> is_underflow T (cs ! slot)\<rbrakk> \<Longrightarrow> kids_ok T l ks cs"
  by (auto simp: kids_but_def kids_ok_def in_set_conv_nth)

lemma kids_but_key: "\<lbrakk>kids_but T l ks cs slot; j < length ks\<rbrakk> \<Longrightarrow> ks ! j = lastkey T (cs ! j)"
  by (auto simp: kids_but_def nth_butlast)

lemma pair_split:
  assumes "Suc q < length cs"
  obtains X x y Y where "cs = X @ x # y # Y" "length X = q" "cs ! q = x" "cs ! Suc q = y"
proof
  show "cs = take q cs @ cs ! q # cs ! Suc q # drop (Suc (Suc q)) cs"
    using assms id_take_nth_drop [of q cs] Cons_nth_drop_Suc [of "Suc q" cs] by simp
qed (use assms in auto)

lemma kids_but_split:
  assumes "kids_but T l ks (X @ x # y # Y) slot" "slot = length X \<or> slot = Suc (length X)"
  shows "ks = map (lastkey T) X @ lastkey T x # map (lastkey T) (butlast (y # Y))"
    and "\<forall>c \<in> set X \<union> set Y. Suc (level c) = l \<and> shape T c \<and> \<not> is_underflow T c"
    and "Suc (level x) = l" "Suc (level y) = l"
proof -
  show "ks = map (lastkey T) X @ lastkey T x # map (lastkey T) (butlast (y # Y))"
    using assms by (auto simp: kids_but_def butlast_append)
  have at: "Suc (level ((X @ x # y # Y) ! j)) = l \<and> shape T ((X @ x # y # Y) ! j) \<and>
      (j \<noteq> slot \<longrightarrow> \<not> is_underflow T ((X @ x # y # Y) ! j))" if "j < length (X @ x # y # Y)" for j
    using assms that by (auto simp: kids_but_def)
  have "Suc (level (X ! j)) = l \<and> shape T (X ! j) \<and> \<not> is_underflow T (X ! j)" if "j < length X" for j
    using at [of j] that assms(2) by (auto simp: nth_append)
  moreover have "Suc (level (Y ! j)) = l \<and> shape T (Y ! j) \<and> \<not> is_underflow T (Y ! j)" if "j < length Y" for j
    using at [of "length X + Suc (Suc j)"] that assms(2) by (auto simp: nth_append)
  ultimately show "\<forall>c \<in> set X \<union> set Y. Suc (level c) = l \<and> shape T c \<and> \<not> is_underflow T c"
    by (auto simp: in_set_conv_nth)
  show "Suc (level x) = l" "Suc (level y) = l"
    using at [of "length X"] at [of "Suc (length X)"] by (auto simp: nth_append)
qed

lemma nkeys_of_entries:
  assumes "entries 0 x' @ entries 0 y' = entries 0 x @ entries 0 y"
  shows "nkeys T x' @ nkeys T y' = nkeys T x @ nkeys T y"
  using arg_cong [OF assms, of "ekeys T"] by simp

lemma kids_shift:
  assumes T: "traits_ok T" and k: "kids_but T l ks cs slot" and q: "Suc q < length cs" "slot = q \<or> slot = Suc q"
    and sh: "shifted T (cs ! q) (cs ! Suc q) x' y'"
  defines "cs' \<equiv> cs[q := x', Suc q := y']"
  shows "kids_ok T l (ks[q := lastkey T x']) cs'"
    and "concat (map (entries a) cs') = concat (map (entries a) cs)"
    and "concat (map leaf_ids cs') = concat (map leaf_ids cs)"
    and "sum_list (map inner_count cs') = sum_list (map inner_count cs)"
proof -
  obtain X x y Y where cs: "cs = X @ x # y # Y" and X: "length X = q" and xy: "cs ! q = x" "cs ! Suc q = y"
    using pair_split [OF q(1)] by metis
  have q': "slot = length X \<or> slot = Suc (length X)" using q X by simp
  note sp = kids_but_split [OF k [unfolded cs] q']
  have cs': "cs' = X @ x' # y' # Y" by (simp add: cs'_def cs X [symmetric] list_update_append)
  note sh = sh [unfolded shifted_def xy]
  have "nkeys T y \<noteq> []" using kids_but_almost [OF k q(1)] almost_nonempty [OF T] xy by auto
  moreover have "nkeys T y' \<noteq> []" using sh nonempty_node [OF T] by blast
  moreover have "nkeys T x' @ nkeys T y' = nkeys T x @ nkeys T y" using sh nkeys_of_entries by blast
  ultimately have last: "lastkey T y' = lastkey T y" unfolding lastkey_def by (metis last_appendR)
  have "ks[q := lastkey T x'] = map (lastkey T) (X @ x' # butlast (y # Y))"
    by (simp add: sp(1) X [symmetric] list_update_append)
  also have "\<dots> = map (lastkey T) (butlast cs')" using last by (auto simp: cs' butlast_append)
  finally show "kids_ok T l (ks[q := lastkey T x']) cs'"
    using sp(2-4) sh unfolding kids_ok_def by (auto simp: cs')
  show "concat (map (entries a) cs') = concat (map (entries a) cs)"
    and "concat (map leaf_ids cs') = concat (map leaf_ids cs)"
    and "sum_list (map inner_count cs') = sum_list (map inner_count cs)"
    using sh by (simp_all add: cs cs' flip: append_assoc)
qed

lemma kids_merge:
  assumes T: "traits_ok T" and k: "kids_but T l ks cs slot" and q: "Suc q < length cs" "slot = q \<or> slot = Suc q"
    and m: "merged T (cs ! q) (cs ! Suc q) c x' y' c'"
  defines "cs' \<equiv> take q cs @ x' # drop (Suc (Suc q)) cs"
  shows "kids_ok T l (take q ks @ drop (Suc q) ks) cs'"
    and "concat (map (entries a) cs') = concat (map (entries a) cs)"
    and "chain_ok c (P @ concat (map leaf_ids cs) @ Q) (k' + sum_list (map inner_count cs)) \<Longrightarrow>
         chain_ok (free_node y' c') (P @ concat (map leaf_ids cs') @ Q) (k' + sum_list (map inner_count cs'))"
proof -
  obtain X x y Y where cs: "cs = X @ x # y # Y" and X: "length X = q" and xy: "cs ! q = x" "cs ! Suc q = y"
    using pair_split [OF q(1)] by metis
  have q': "slot = length X \<or> slot = Suc (length X)" using q X by simp
  note sp = kids_but_split [OF k [unfolded cs] q']
  have cs': "cs' = X @ x' # Y" by (simp add: cs'_def cs X [symmetric])
  note m = m [unfolded merged_def xy]
  have "nkeys T y \<noteq> []" using kids_but_almost [OF k q(1)] almost_nonempty [OF T] xy by auto
  moreover have "nkeys T x' = nkeys T x @ nkeys T y" 
    using m by (metis ekeys_entries map_append)
  ultimately have last: "lastkey T x' = lastkey T y" unfolding lastkey_def by simp
  have "take q ks @ drop (Suc q) ks = map (lastkey T) (X @ butlast (y # Y))"
    by (simp add: sp(1) X [symmetric])
  also have "\<dots> = map (lastkey T) (butlast cs')" using last by (auto simp: cs' butlast_append)
  finally show "kids_ok T l (take q ks @ drop (Suc q) ks) cs'"
    using sp(2-4) m unfolding kids_ok_def by (auto simp: cs')
  show "concat (map (entries a) cs') = concat (map (entries a) cs)"
    using m by (simp add: cs cs')
  assume "chain_ok c (P @ concat (map leaf_ids cs) @ Q) (k' + sum_list (map inner_count cs))"
  then have "chain_ok c ((P @ concat (map leaf_ids X)) @ leaf_ids x @ leaf_ids y @ (concat (map leaf_ids Y) @ Q))
      ((k' + sum_list (map inner_count X) + sum_list (map inner_count Y)) + inner_count x + inner_count y)"
    by (simp add: cs ac_simps)
  with m have "chain_ok (free_node y' c') ((P @ concat (map leaf_ids X)) @ leaf_ids x' @ (concat (map leaf_ids Y) @ Q))
      ((k' + sum_list (map inner_count X) + sum_list (map inner_count Y)) + inner_count x')" by blast
  then show "chain_ok (free_node y' c') (P @ concat (map leaf_ids cs') @ Q) (k' + sum_list (map inner_count cs'))"
    by (simp add: cs' ac_simps)
qed

section \<open>Choosing and applying the repair\<close>

definition fix_node :: "('k, 'v) traits \<Rightarrow> bool \<Rightarrow> int \<Rightarrow> ('k, 'v) around \<Rightarrow> ('k, 'v) node \<Rightarrow> 'k list \<Rightarrow> 'k option
    \<Rightarrow> int \<Rightarrow> chain \<Rightarrow> ('k, 'v) outcome" where
  "fix_node T is_root delay A n pks up found c =
     (if level n = 0 then fix_leaf T is_root delay A n pks up found c
      else fix_inner T is_root delay A n pks up found c)"

lemma inner_action_eq: "inner_action = leaf_action"
  by (simp add: fun_eq_iff inner_action_def leaf_action_def)

text \<open>What the surroundings of a child say about the children of its parent.\<close>

definition sides :: "('k, 'v) around \<Rightarrow> 'k list \<Rightarrow> ('k, 'v) node list \<Rightarrow> nat \<Rightarrow> int \<Rightarrow> bool" where
  "sides A ks cs slot delay \<longleftrightarrow> pslot A = slot \<and> left_own A = (slot \<noteq> 0) \<and> right_own A = (slot \<noteq> length ks) \<and>
     (slot \<noteq> 0 \<longrightarrow> a_left A = Some (cs ! (slot - 1)) \<and> left_delay A = delay) \<and>
     (slot \<noteq> length ks \<longrightarrow> a_right A = Some (cs ! Suc slot) \<and> right_delay A = delay)"

lemma sides_around_child: "sides (around_child A delay d ks cs slot) ks cs slot (delay + d)"
  by (simp add: sides_def around_child_def)

lemma action_cases:
  assumes "sides A ks cs slot delay" "slot \<le> length ks" "ks \<noteq> []"
  shows "leaf_action T False A n \<noteq> Collapse"
    and "leaf_action T False A n = Keep \<longleftrightarrow> \<not> is_underflow T n"
    and "leaf_action T False A n = Merge_left \<Longrightarrow> 0 < slot \<and> is_few T (cs ! (slot - 1))"
    and "leaf_action T False A n = Merge_right \<Longrightarrow> slot < length ks \<and> is_few T (cs ! Suc slot)"
    and "leaf_action T False A n = Shift_left \<Longrightarrow> slot < length ks \<and> \<not> is_few T (cs ! Suc slot)"
    and "leaf_action T False A n = Shift_right \<Longrightarrow> 0 < slot \<and> \<not> is_few T (cs ! (slot - 1))"
  using assms unfolding leaf_action_def sides_def
  by (auto split: if_splits option.splits)

definition result_of :: "('k, 'v) around \<Rightarrow> ('k, 'v) node \<Rightarrow> 'k list \<Rightarrow> 'k option \<Rightarrow> int \<Rightarrow> chain \<Rightarrow> ('k, 'v) erased" where
  "result_of A n pks up found c = \<lparr>e_node = Some n, e_left = a_left A, e_right = a_right A, e_keys = pks, e_last = up,
     e_merge = False, e_delay = found, e_chain = c\<rparr>"

lemma fix_node_keep:
  "leaf_action T is_root A n = Keep \<Longrightarrow>
     fix_node T is_root delay A n pks up found c = Erased (result_of A n pks up found c)"
  by (simp add: fix_node_def fix_leaf_def fix_inner_def inner_action_eq result_of_def)

lemma nodes_same_level:
  assumes "shape T x" "shape T y" "level x = level y"
  obtains i es j fs where "x = Leaf i es" "y = Leaf j fs" "level y = 0"
  | l s d ks cs s' d' ks' cs' where "x = Inner l s d ks cs" "y = Inner l s' d' ks' cs'" "level y \<noteq> 0"
proof (cases "level x = 0")
  case True
  then show ?thesis using that(1) assms shape_level_0 by metis
next
  case False
  then show ?thesis using that(2) assms by (cases x; cases y) auto
qed

lemma fix_node_merge_left:
  assumes T: "traits_ok T" and act: "leaf_action T False A n = Merge_left"
    and A: "left_own A" "a_left A = Some x" "left_delay A = delay"
    and x: "shape T x" "\<not> is_underflow T x" "is_few T x" "level x = level n"
    and n: "almost T n" "is_underflow T n" and sep: "pks ! (pslot A - 1) = lastkey T x"
  shows "\<exists>x' n' c'. merged T x n c x' n' c' \<and> fix_node T False delay A n pks up found c =
    Erased ((result_of A n pks up found c)\<lparr>e_node := Some n', e_left := Some x', e_merge := True, e_chain := c'\<rparr>)"
proof -
  note sizes = x(2,3) n slotmin_twice [of T] slotmin_ge [OF T]
  have "shape T n" using n by (simp add: almost_def)
  from nodes_same_level [OF x(1) this x(4)] show ?thesis
  proof cases
    case (1 i es j fs)
    obtain x' n' c' where r: "merge_leaves delay delay x n c = (x', n', c')" by (metis prod_cases3)
    have "merged T x n c x' n' c'"
      unfolding 1 by (rule merge_leaves_ok [OF T _ _ r [unfolded 1]]) (use sizes 1 in \<open>auto simp: almost_def\<close>)
    with r show ?thesis using act A 1 by (auto simp: fix_node_def fix_leaf_def result_of_def)
  next
    case (2 l s d ks cs s' d' ks' cs')
    obtain x' n' where r: "merge_inner delay delay x n pks (pslot A - 1) = (x', n')" by (metis surj_pair)
    have "merged T x n c x' n' c"
      unfolding 2 by (rule merge_inner_ok [OF T _ _ _ _ _ r [unfolded 2]])
        (use sizes 2 x sep in \<open>auto simp: almost_def\<close>)
    with r show ?thesis using act A 2 by (auto simp: fix_node_def fix_inner_def inner_action_eq result_of_def)
  qed
qed

lemma fix_node_merge_right:
  assumes T: "traits_ok T" and act: "leaf_action T False A n = Merge_right"
    and A: "right_own A" "a_right A = Some y" "right_delay A = delay"
    and y: "shape T y" "\<not> is_underflow T y" "is_few T y" "level n = level y"
    and n: "almost T n" "is_underflow T n" and sep: "pks ! pslot A = lastkey T n"
  shows "\<exists>n' y' c'. merged T n y c n' y' c' \<and> fix_node T False delay A n pks up found c =
    Erased ((result_of A n pks up found c)\<lparr>e_node := Some n', e_right := Some y', e_merge := True, e_chain := c'\<rparr>)"
proof -
  note sizes = y(2,3) n slotmin_twice [of T] slotmin_ge [OF T]
  have "shape T n" using n by (simp add: almost_def)
  from nodes_same_level [OF this y(1) y(4)] show ?thesis
  proof cases
    case (1 i es j fs)
    obtain n' y' c' where r: "merge_leaves delay delay n y c = (n', y', c')" by (metis prod_cases3)
    have "merged T n y c n' y' c'"
      unfolding 1 by (rule merge_leaves_ok [OF T _ _ r [unfolded 1]]) (use sizes 1 in \<open>auto simp: almost_def\<close>)
    with r show ?thesis using act A 1 by (auto simp: fix_node_def fix_leaf_def result_of_def)
  next
    case (2 l s d ks cs s' d' ks' cs')
    obtain n' y' where r: "merge_inner delay delay n y pks (pslot A) = (n', y')" by (metis surj_pair)
    have "merged T n y c n' y' c"
      unfolding 2 by (rule merge_inner_ok [OF T _ _ _ _ _ r [unfolded 2]])
        (use sizes 2 y sep in \<open>auto simp: almost_def\<close>)
    with r show ?thesis using act A 2 by (auto simp: fix_node_def fix_inner_def inner_action_eq result_of_def)
  qed
qed

lemma fix_node_shift_left:
  assumes T: "traits_ok T" and act: "leaf_action T False A n = Shift_left"
    and A: "right_own A" "a_right A = Some y" "right_delay A = delay" "pslot A < length pks"
    and y: "shape T y" "\<not> is_few T y" "level n = level y"
    and n: "almost T n" "is_underflow T n" and sep: "pks ! pslot A = lastkey T n"
  shows "\<exists>n' y'. shifted T n y n' y' \<and> fix_node T False delay A n pks up found c =
    Erased ((result_of A n pks up found c)\<lparr>e_node := Some n', e_right := Some y', e_keys := pks[pslot A := lastkey T n']\<rparr>)"
proof -
  have "shape T n" using n by (simp add: almost_def)
  from nodes_same_level [OF this y(1) y(3)] show ?thesis
  proof cases
    case (1 i es j fs)
    obtain n' y' pks' u where r: "shift_left_leaf T delay delay n y pks (pslot A) = (n', y', pks', u)" by (metis prod_cases4)
    have "length es < leaf_slotmin T" "leaf_slotmin T < length fs" using n y 1 by auto
    from shift_left_leaf_ok [OF T n(1) [unfolded 1] this(1) y(1) [unfolded 1] this(2) A(4) r [unfolded 1]]
    show ?thesis using r act A 1 by (auto simp: fix_node_def fix_leaf_def result_of_def)
  next
    case (2 l s d ks cs s' d' ks' cs')
    obtain n' y' pks' where r: "shift_left_inner delay delay n y pks (pslot A) = (n', y', pks')" by (metis prod_cases3)
    have "length ks < inner_slotmin T" "inner_slotmin T < length ks'" using n y 2 by auto
    from shift_left_inner_ok [OF T n(1) [unfolded 2] this(1) y(1) [unfolded 2] this(2) sep [unfolded 2] r [unfolded 2]]
    show ?thesis using r act A 2 by (auto simp: fix_node_def fix_inner_def inner_action_eq result_of_def)
  qed
qed

lemma fix_node_shift_right:
  assumes T: "traits_ok T" and act: "leaf_action T False A n = Shift_right"
    and A: "left_own A" "a_left A = Some x" "left_delay A = delay"
    and x: "shape T x" "\<not> is_few T x" "level x = level n"
    and n: "almost T n" "is_underflow T n" and sep: "pks ! (pslot A - 1) = lastkey T x"
  shows "\<exists>x' n'. shifted T x n x' n' \<and> fix_node T False delay A n pks up found c =
    Erased ((result_of A n pks up found c)\<lparr>e_node := Some n', e_left := Some x', e_keys := pks[pslot A - 1 := lastkey T x']\<rparr>)"
proof -
  have "shape T n" using n by (simp add: almost_def)
  from nodes_same_level [OF x(1) this x(3)] show ?thesis
  proof cases
    case (1 i es j fs)
    obtain x' n' pks' where r: "shift_right_leaf T delay delay x n pks (pslot A - 1) = (x', n', pks')" by (metis prod_cases3)
    have "length fs < leaf_slotmin T" "leaf_slotmin T < length es" using n x 1 by auto
    from shift_right_leaf_ok [OF T n(1) [unfolded 1] this(1) x(1) [unfolded 1] this(2) r [unfolded 1]]
    show ?thesis using r act A 1 by (auto simp: fix_node_def fix_leaf_def result_of_def)
  next
    case (2 l s d ks cs s' d' ks' cs')
    obtain x' n' pks' where r: "shift_right_inner delay delay x n pks (pslot A - 1) = (x', n', pks')" by (metis prod_cases3)
    have "length ks' < inner_slotmin T" "inner_slotmin T < length ks" using n x 2 by auto
    from shift_right_inner_ok [OF T n(1) [unfolded 2] this(1) x(1) [unfolded 2] this(2) sep [unfolded 2] r [unfolded 2]]
    show ?thesis using r act A 2 by (auto simp: fix_node_def fix_inner_def inner_action_eq result_of_def)
  qed
qed

text \<open>The children of the parent after the repair.\<close>

definition repaired :: "('k, 'v) traits \<Rightarrow> nat \<Rightarrow> 'k list \<Rightarrow> ('k, 'v) node list \<Rightarrow> chain \<Rightarrow> 'k list \<Rightarrow> ('k, 'v) node list
    \<Rightarrow> chain \<Rightarrow> bool" where
  "repaired T l ks cs c ks' cs' c' \<longleftrightarrow> kids_ok T l ks' cs' \<and>
     (\<forall>a. concat (map (entries a) cs') = concat (map (entries a) cs)) \<and>
     length ks \<le> Suc (length ks') \<and> length ks' \<le> length ks \<and>
     (\<forall>P Q k. chain_ok c (P @ concat (map leaf_ids cs) @ Q) (k + sum_list (map inner_count cs)) \<longrightarrow>
        chain_ok c' (P @ concat (map leaf_ids cs') @ Q) (k + sum_list (map inner_count cs')))"

definition after_child :: "('k, 'v) traits \<Rightarrow> nat \<Rightarrow> nat \<Rightarrow> 'k list \<Rightarrow> ('k, 'v) node list \<Rightarrow> ('k, 'v) erased
    \<Rightarrow> 'k list \<times> ('k, 'v) node list \<times> chain" where
  "after_child T l slot ks cs r =
     (if e_merge r then fix_merge T l slot (e_keys r) (put_back slot r ks cs) (e_chain r)
      else (e_keys r, put_back slot r ks cs, e_chain r))"

lemma key_fix_idle:
  assumes "kids_ok T l ks cs" "q < length cs" "nkeys T (cs ! q) \<noteq> []"
  shows "(case cs ! q of Leaf i es \<Rightarrow> ks[q := ekey T (es ! (length es - 1))] | Inner _ _ _ _ _ \<Rightarrow> ks) = ks"
proof (cases "cs ! q")
  case (Leaf i es)
  then have "ekey T (es ! (length es - 1)) = lastkey T (cs ! q)" using assms(3) lastkey_leaf [of es T i] by auto
  then show ?thesis using Leaf kids_key [OF assms(1), of q]
    by (cases "q < length ks") (auto simp: list_update_same_conv list_update_beyond)
qed simp

lemma fix_merge_repairs:
  assumes T: "traits_ok T" and k: "kids_but T l ks cs slot" and q: "Suc q < length cs" "slot = q \<or> slot = Suc q"
    and m: "merged T (cs ! q) (cs ! Suc q) c x' y' c'"
  defines "r \<equiv> fix_merge T l slot ks (cs[q := x', Suc q := y']) c'"
  shows "repaired T l ks cs c (fst r) (fst (snd r)) (snd (snd r))"
proof -
  note km = kids_merge [OF T k q m]
  let ?ks = "take q ks @ drop (Suc q) ks" and ?cs = "take q cs @ x' # drop (Suc (Suc q)) cs"
  have len: "length cs = Suc (length ks)" using kids_but_length [OF k] .
  have use: "slotuse x' \<noteq> 0" "slotuse y' = 0" using m by (auto simp: merged_def)
  have tk: "take (Suc q) (cs[q := x', Suc q := y']) @ drop (Suc (Suc q)) (cs[q := x', Suc q := y']) = ?cs"
    using q(1) by (simp add: take_Suc_conv_app_nth)
  have "nkeys T x' \<noteq> []" using m nonempty_node [OF T] by (auto simp: merged_def)
  then have idle: "(case ?cs ! q of Leaf i es \<Rightarrow> ?ks[q := ekey T (es ! (length es - 1))] | Inner _ _ _ _ _ \<Rightarrow> ?ks) = ?ks"
    using key_fix_idle [OF km(1), of q] q(1) by (simp add: nth_append)
  let ?cs2 = "cs[q := x', Suc q := y']"
  have s': "(if slotuse (?cs2 ! slot) \<noteq> 0 then Suc slot else slot) = Suc q" "?cs2 ! Suc q = y'"
    using q use by auto
  have "r = (?ks, ?cs, free_node y' c')"
    unfolding r_def fix_merge_def Let_def s' diff_Suc_1 Suc_eq_plus1 [symmetric] tk idle by simp
  then show ?thesis using km len q(1) by (auto simp: repaired_def)
qed

lemma put_back_nth:
  assumes "e_node r = Some n'" "slot \<noteq> 0 \<longrightarrow> e_left r = Some x'" "slot \<noteq> length ks \<longrightarrow> e_right r = Some y'"
  shows "length (put_back slot r ks cs) = length cs"
    and "i < length cs \<Longrightarrow> put_back slot r ks cs ! i =
      (if slot \<noteq> length ks \<and> i = Suc slot then y' else if slot \<noteq> 0 \<and> i = slot - 1 then x' else if i = slot then n' else cs ! i)"
  using assms by (auto simp: put_back_def Let_def nth_list_update)

lemma put_back_left:
  assumes "sides A ks cs slot delay" "slot < length cs" "slot \<noteq> 0"
    "e_node r = Some n'" "e_left r = Some x'" "e_right r = a_right A"
  shows "put_back slot r ks cs = cs[slot := n, slot - 1 := x', Suc (slot - 1) := n']"
proof (rule nth_equalityI)
  note p = put_back_nth [of r n' slot x' ks "cs ! Suc slot"]
  show "length (put_back slot r ks cs) = length (cs[slot := n, slot - 1 := x', Suc (slot - 1) := n'])"
    using assms p(1) by (auto simp: sides_def)
  show "put_back slot r ks cs ! i = cs[slot := n, slot - 1 := x', Suc (slot - 1) := n'] ! i"
    if "i < length (put_back slot r ks cs)" for i
    using assms that p by (auto simp: sides_def nth_list_update)
qed

lemma put_back_right:
  assumes "sides A ks cs slot delay" "slot < length cs" "slot \<noteq> length ks"
    "e_node r = Some n'" "e_right r = Some y'" "e_left r = a_left A"
  shows "put_back slot r ks cs = cs[slot := n, slot := n', Suc slot := y']"
proof (rule nth_equalityI)
  note p = put_back_nth [of r n' slot "cs ! (slot - 1)" ks y']
  show "length (put_back slot r ks cs) = length (cs[slot := n, slot := n', Suc slot := y'])"
    using assms p(1) by (auto simp: sides_def)
  show "put_back slot r ks cs ! i = cs[slot := n, slot := n', Suc slot := y'] ! i"
    if "i < length (put_back slot r ks cs)" for i
    using assms that p by (auto simp: sides_def nth_list_update)
qed

lemma put_back_keep:
  assumes "sides A ks cs slot delay" "slot < length cs"
  shows "put_back slot (result_of A n pks up found c) ks cs = cs[slot := n]"
proof -
  let ?r = "result_of A n pks up found c"
  have "e_node ?r = Some n" "slot \<noteq> 0 \<longrightarrow> e_left ?r = Some (cs ! (slot - 1))"
    "slot \<noteq> length ks \<longrightarrow> e_right ?r = Some (cs ! Suc slot)"
    using assms by (simp_all add: sides_def result_of_def)
  note p = put_back_nth [OF this]
  show ?thesis
  proof (rule nth_equalityI)
    show "put_back slot ?r ks cs ! i = cs[slot := n] ! i" if "i < length (put_back slot ?r ks cs)" for i
    proof -
      have i: "i < length cs" using that unfolding p(1) .
      consider "i = slot" | "i = Suc slot" | "i \<noteq> slot" "i \<noteq> Suc slot" by blast
      then show ?thesis unfolding p(2) [OF i] by cases (cases slot; use assms(2) in simp)+
    qed
  qed (unfold p(1), simp)
qed

lemma repaired_shift:
  assumes "traits_ok T" "kids_but T l ks cs slot" "Suc q < length cs" "slot = q \<or> slot = Suc q"
    and "shifted T (cs ! q) (cs ! Suc q) x' y'"
  shows "repaired T l ks cs c (ks[q := lastkey T x']) (cs[q := x', Suc q := y']) c"
  using kids_shift [OF assms] by (simp add: repaired_def)

lemma repair:
  assumes T: "traits_ok T" and k: "kids_but T l pks (cs[slot := n]) slot" and len: "length pks = length ks" "ks \<noteq> []"
    and A: "sides A ks cs slot delay"
  shows "\<exists>r. fix_node T False delay A n pks up found c = Erased r \<and> e_delay r = found \<and> e_last r = up \<and>
    (\<exists>ks' cs' c'. after_child T l slot ks cs r = (ks', cs', c') \<and> repaired T l pks (cs[slot := n]) c ks' cs' c')"
proof -
  let ?cs = "cs[slot := n]" and ?r = "result_of A n pks up found c"
  have lc: "length cs = Suc (length ks)" using kids_but_length [OF k] len by simp
  have slot: "slot < length cs" "slot \<le> length ks" using k lc by (auto simp: kids_but_def)
  have n: "almost T n" "Suc (level n) = l" using k slot by (auto simp: kids_but_def)
  have sib: "shape T (cs ! j)" "Suc (level (cs ! j)) = l" "\<not> is_underflow T (cs ! j)" "?cs ! j = cs ! j"
    if "j < length cs" "j \<noteq> slot" for j
    using k that unfolding kids_but_def by (metis length_list_update nth_list_update_neq)+
  note key = kids_but_key [OF k]
  note act = action_cases [OF A slot(2) len(2), of T n]
  have left: "slot \<noteq> 0 \<Longrightarrow> left_own A \<and> a_left A = Some (cs ! (slot - 1)) \<and> left_delay A = delay \<and>
      pks ! (pslot A - 1) = lastkey T (cs ! (slot - 1)) \<and> slot - 1 < length cs"
    using A key [of "slot - 1"] slot len by (auto simp: sides_def)
  have right: "slot < length ks \<Longrightarrow> right_own A \<and> a_right A = Some (cs ! Suc slot) \<and> right_delay A = delay \<and>
      pks ! pslot A = lastkey T n \<and> pslot A < length pks"
    using A key [of slot] slot len by (auto simp: sides_def)
  have ps: "pslot A = slot" using A by (simp add: sides_def)
  show ?thesis
  proof (cases "leaf_action T False A n")
    case Keep
    then have "\<not> is_underflow T n" using act by simp
    then have "repaired T l pks ?cs c pks ?cs c"
      using kids_but_ok [OF k] slot by (simp add: repaired_def)
    then show ?thesis using fix_node_keep [OF Keep] put_back_keep [OF A slot(1)]
      by (simp add: after_child_def result_of_def)
  next
    case Collapse
    then show ?thesis using act by simp
  next
    case Merge_left
    then have u: "slot \<noteq> 0" "is_few T (cs ! (slot - 1))" "is_underflow T n" using act by auto
    obtain x' n' c' where m: "merged T (cs ! (slot - 1)) n c x' n' c'" "fix_node T False delay A n pks up found c =
        Erased (?r\<lparr>e_node := Some n', e_left := Some x', e_merge := True, e_chain := c'\<rparr>)"
      using fix_node_merge_left [OF T Merge_left, of "cs ! (slot - 1)" delay] left u n sib [of "slot - 1"] by force
    have "Suc (slot - 1) = slot" using u by simp
    then have "merged T (?cs ! (slot - 1)) (?cs ! Suc (slot - 1)) c x' n' c'" using m slot u by simp
    note rep = fix_merge_repairs [OF T k _ _ this]
    have "put_back slot (?r\<lparr>e_node := Some n', e_left := Some x', e_merge := True, e_chain := c'\<rparr>) ks cs
        = ?cs[slot - 1 := x', Suc (slot - 1) := n']"
      by (rule put_back_left [OF A slot(1) u(1)]) (simp_all add: result_of_def)
    then show ?thesis using rep m(2) slot u
      by (auto simp: after_child_def result_of_def split: prod.splits) (metis fst_conv snd_conv surj_pair)+
  next
    case Merge_right
    then have u: "slot < length ks" "is_few T (cs ! Suc slot)" "is_underflow T n" using act by auto
    then have sl: "Suc slot < length cs" "slot \<noteq> length ks" using lc by auto
    obtain n' y' c' where m: "merged T n (cs ! Suc slot) c n' y' c'" "fix_node T False delay A n pks up found c =
        Erased (?r\<lparr>e_node := Some n', e_right := Some y', e_merge := True, e_chain := c'\<rparr>)"
      using fix_node_merge_right [OF T Merge_right, of "cs ! Suc slot" delay] right u n sl sib [of "Suc slot"] by force
    have "merged T (?cs ! slot) (?cs ! Suc slot) c n' y' c'" using m slot u by simp
    note rep = fix_merge_repairs [OF T k _ _ this]
    have "put_back slot (?r\<lparr>e_node := Some n', e_right := Some y', e_merge := True, e_chain := c'\<rparr>) ks cs
        = ?cs[slot := n', Suc slot := y']"
      by (rule put_back_right [OF A slot(1) sl(2)]) (simp_all add: result_of_def)
    then show ?thesis using rep m(2) slot sl
      by (auto simp: after_child_def result_of_def split: prod.splits) (metis fst_conv snd_conv surj_pair)+
  next
    case Shift_left
    then have u: "slot < length ks" "\<not> is_few T (cs ! Suc slot)" "is_underflow T n" using act by auto
    then have sl: "Suc slot < length cs" "slot \<noteq> length ks" using lc by auto
    obtain n' y' where m: "shifted T n (cs ! Suc slot) n' y'" "fix_node T False delay A n pks up found c =
        Erased (?r\<lparr>e_node := Some n', e_right := Some y', e_keys := pks[slot := lastkey T n']\<rparr>)"
      using fix_node_shift_left [OF T Shift_left, of "cs ! Suc slot" delay] right u n sl ps sib [of "Suc slot"] by force
    have "shifted T (?cs ! slot) (?cs ! Suc slot) n' y'" using m slot u by simp
    note rep = repaired_shift [OF T k _ _ this]
    have "put_back slot (?r\<lparr>e_node := Some n', e_right := Some y', e_keys := pks[slot := lastkey T n']\<rparr>) ks cs
        = ?cs[slot := n', Suc slot := y']"
      by (rule put_back_right [OF A slot(1) sl(2)]) (simp_all add: result_of_def)
    then show ?thesis using rep m(2) slot sl by (simp add: after_child_def result_of_def)
  next
    case Shift_right
    then have u: "slot \<noteq> 0" "\<not> is_few T (cs ! (slot - 1))" "is_underflow T n" using act by auto
    obtain x' n' where m: "shifted T (cs ! (slot - 1)) n x' n'" "fix_node T False delay A n pks up found c =
        Erased (?r\<lparr>e_node := Some n', e_left := Some x', e_keys := pks[slot - 1 := lastkey T x']\<rparr>)"
      using fix_node_shift_right [OF T Shift_right, of "cs ! (slot - 1)" delay] left u n ps sib [of "slot - 1"] by force
    have "Suc (slot - 1) = slot" using u by simp
    then have "shifted T (?cs ! (slot - 1)) (?cs ! Suc (slot - 1)) x' n'" using m slot u by simp
    note rep = repaired_shift [OF T k _ _ this]
    have "put_back slot (?r\<lparr>e_node := Some n', e_left := Some x', e_keys := pks[slot - 1 := lastkey T x']\<rparr>) ks cs
        = ?cs[slot - 1 := x', Suc (slot - 1) := n']"
      by (rule put_back_left [OF A slot(1) u(1)]) (simp_all add: result_of_def)
    then show ?thesis using rep m(2) slot u by (simp add: after_child_def result_of_def)
  qed
qed

end
