(* ===== verification/Replay_Erase_Descend.thy ===== *)
theory Replay_Erase_Descend
  imports Replay_Erase_Laws
begin

text \<open>
  The descent of \<^verbatim>\<open>erase_iter_descend\<close>: it finds the leaf of the iterator among all children
  that may hold its key, removes the one entry, and leaves a well-formed tree; then \<^verbatim>\<open>erase\<close>
  on whole trees.
\<close>

section \<open>Positions\<close>

fun it_pos :: "nat \<Rightarrow> nat \<Rightarrow> (nat \<times> 'e list) list \<Rightarrow> nat" where
  "it_pos i s [] = 0"
| "it_pos i s ((j, es) # ls) = (if j = i then s else length es + it_pos i s ls)"

definition remove_at :: "nat \<Rightarrow> 'a list \<Rightarrow> 'a list" where
  "remove_at p xs = take p xs @ drop (Suc p) xs"

lemma it_pos_append:
  "it_pos i s (xs @ ys) =
     (if i \<in> fst ` set xs then it_pos i s xs else sum_list (map (\<lambda>e. length (snd e)) xs) + it_pos i s ys)"
  by (induction xs) (auto simp: rev_image_eqI)

lemma leaves_length: "sum_list (map (\<lambda>e. length (snd e)) (leaves n)) = length (entries a n)"
proof (induction n arbitrary: a)
  case (Inner l s d ks cs)
  then show ?case by (induction cs) auto
qed simp

lemma leaves_concat_length: "sum_list (map (\<lambda>e. length (snd e)) (concat (map leaves cs))) = length (concat (map (entries a) cs))"
  by (induction cs) (auto simp: leaves_length)

lemma it_pos_less:
  "\<lbrakk>(i, es) \<in> set ls; distinct (map fst ls); s < length es\<rbrakk> \<Longrightarrow> it_pos i s ls < sum_list (map (\<lambda>e. length (snd e)) ls)"
  by (induction ls) (auto simp: rev_image_eqI)

lemma leaf_ids_fst: "fst ` set (leaves n) = set (leaf_ids n)"
  by (simp add: leaf_ids_leaves)

lemma remove_at_middle: "p < length ys \<Longrightarrow> remove_at (length xs + p) (xs @ ys @ zs) = xs @ remove_at p ys @ zs"
  by (simp add: remove_at_def)

lemma map_remove_at: "map f (remove_at p xs) = remove_at p (map f xs)"
  by (simp add: remove_at_def take_map drop_map)

lemma length_remove_at: "p < length xs \<Longrightarrow> length (remove_at p xs) = length xs - 1"
  by (simp add: remove_at_def)

lemma sorted_remove_at: "sorted xs \<Longrightarrow> sorted (remove_at p xs)"
proof -
  assume "sorted xs"
  then have "sorted (take p xs @ drop p xs)" "sorted (drop (Suc p) xs)" by (simp_all add: sorted_wrt_drop)
  moreover have "set (drop (Suc p) xs) \<subseteq> set (drop p xs)" by (simp add: set_drop_subset_set_drop)
  ultimately show ?thesis unfolding remove_at_def sorted_append by blast
qed

lemma nkeys_leaves: "nkeys T n = ekeys T (concat (map snd (leaves n)))"
proof (induction n)
  case (Inner l s d ks cs)
  then show ?case by (induction cs) auto
qed simp

section \<open>Descent\<close>

lemma not_found:
  "i \<notin> set (leaf_ids n) \<Longrightarrow> erase_iter_descend T (Some i, s) key is_root delay A n c = Not_found"
  "\<forall>m \<in> set cs. i \<notin> set (leaf_ids m) \<Longrightarrow> snd (erase_slots T (Some i, s) key delay A d ks cs slot c) = Not_found"
proof (induction T "(Some i, s)" key is_root delay A n c and T "(Some i, s)" key delay A d ks cs slot c
    rule: erase_iter_descend_erase_slots.induct)
  case (1 T key is_root delay A j es c)
  then show ?case by (simp add: erase_leaf_def)
next
  case (2 T key is_root delay A l s' d ks cs c)
  then have "snd (erase_slots T (Some i, s) key delay A d ks cs (find_lower (bin_inner T) ks key) c) = Not_found"
    by simp
  then show ?case by (auto split: prod.splits outcome.splits)
next
  case (3 T key delay A d ks cs slot c)
  show ?case
  proof (cases "slot \<le> length ks \<and> slot < length cs")
    case True
    then have nf: "erase_iter_descend T (Some i, s) key False (delay + d) (around_child A delay d ks cs slot) (cs ! slot) c
        = Not_found"
      using 3(1) 3(3) by simp
    show ?thesis using 3(2) [OF True nf] 3(3) True nf by (subst erase_slots.simps) auto
  next
    case False
    then show ?thesis by (subst erase_slots.simps) auto
  qed
qed

lemma slots_reach:
  assumes "slot \<le> j" "j < length cs" "length cs = Suc (length ks)"
    and "\<forall>q. slot \<le> q \<and> q < j \<longrightarrow> i \<notin> set (leaf_ids (cs ! q)) \<and> \<not> ks ! q < key"
    and "erase_iter_descend T (Some i, s) key False (delay + d) (around_child A delay d ks cs j) (cs ! j) c = Erased r"
  shows "erase_slots T (Some i, s) key delay A d ks cs slot c = (j, Erased r)"
  using assms
proof (induction "j - slot" arbitrary: slot)
  case 0
  then show ?case by (subst erase_slots.simps) auto
next
  case (Suc x)
  then have "slot < j" "x = j - Suc slot" by auto
  then have nf: "i \<notin> set (leaf_ids (cs ! slot))" and nk: "\<not> ks ! slot < key" using Suc.prems(4) by auto
  have "erase_slots T (Some i, s) key delay A d ks cs (Suc slot) c = (j, Erased r)"
    using Suc.hyps(1) [OF \<open>x = j - Suc slot\<close>] Suc.prems \<open>slot < j\<close> by auto
  then show ?case using Suc.prems(2,3) \<open>slot < j\<close> nk
    by (subst erase_slots.simps) (auto simp: not_found(1) [OF nf])
qed

definition shrunk :: "('k, 'v) traits \<Rightarrow> ('k, 'v) node \<Rightarrow> ('k, 'v) node \<Rightarrow> bool" where
  "shrunk T n n' \<longleftrightarrow> shape T n' \<and> level n' = level n \<and> nmin T n' = nmin T n \<and> slotuse n \<le> Suc (slotuse n')"

definition last_noted :: "('k, 'v) traits \<Rightarrow> ('k, 'v) node \<Rightarrow> ('k, 'v) node \<Rightarrow> 'k option \<Rightarrow> bool" where
  "last_noted T n n' lk \<longleftrightarrow> (nkeys T n' \<noteq> [] \<longrightarrow>
     (case lk of None \<Rightarrow> lastkey T n' = lastkey T n | Some k \<Rightarrow> k = lastkey T n'))"

definition chain_shrunk :: "('k, 'v) node \<Rightarrow> chain \<Rightarrow> ('k, 'v) node \<Rightarrow> chain \<Rightarrow> bool" where
  "chain_shrunk n c n' c' \<longleftrightarrow> (\<forall>P Q k. chain_ok c (P @ leaf_ids n @ Q) (k + inner_count n) \<longrightarrow>
     chain_ok c' (P @ leaf_ids n' @ Q) (k + inner_count n'))"

definition descent_post :: "('k, 'v) traits \<Rightarrow> bool \<Rightarrow> int \<Rightarrow> ('k, 'v) around \<Rightarrow> ('k, 'v) node \<Rightarrow> nat \<Rightarrow> chain
    \<Rightarrow> ('k, 'v) outcome \<Rightarrow> bool" where
  "descent_post T is_root delay A n p c out \<longleftrightarrow> (\<exists>n' lk c'.
     out = fix_node T is_root delay A n' (fst (note_last A lk)) (snd (note_last A lk)) (snd (entries delay n ! p)) c' \<and>
     shrunk T n n' \<and> (\<forall>a. entries a n' = remove_at p (entries a n)) \<and> last_noted T n n' lk \<and> chain_shrunk n c n' c')"

lemma erase_leaf_post:
  assumes "shape T (Leaf i es)" "s < length es"
  shows "descent_post T is_root delay A (Leaf i es) s c (erase_leaf T (Some i, s) is_root delay A i es c)"
proof -
  define es' where "es' = remove_at s es"
  define lk where "lk = (if s = length es' \<and> (pslot A < length (pkeys A) \<or> length es' \<ge> 1)
      then Some (ekey T (es' ! (length es' - 1))) else None)"
  have len: "length es' = length es - 1" using assms by (simp add: es'_def length_remove_at)
  have last: "last es' = last es" if "s \<noteq> length es'"
    using that len assms(2) by (simp add: es'_def remove_at_def)
  have "es \<noteq> []" using assms(2) by auto
  then have "last_noted T (Leaf i es) (Leaf i es') lk"
    using last lastkey_leaf [of es' T i] assms(2)
    by (cases "es' = []") (auto simp: last_noted_def lk_def lastkey_def last_map Suc_le_eq)
  moreover have "erase_leaf T (Some i, s) is_root delay A i es c = fix_node T is_root delay A (Leaf i es')
      (fst (note_last A lk)) (snd (note_last A lk)) (snd (entries delay (Leaf i es) ! s)) c"
  proof -
    have "take s es @ drop (s + 1) es = es'" by (simp add: es'_def remove_at_def)
    then show ?thesis using assms(2)
      unfolding erase_leaf_def Let_def fst_conv snd_conv lk_def [symmetric] case_prod_beta
      by (simp only: lk_def [symmetric]) (simp add: fix_node_def delay_slots_nth add.commute)
  qed
  moreover have "shrunk T (Leaf i es) (Leaf i es')" using assms len by (auto simp: shrunk_def)
  moreover have "entries a (Leaf i es') = remove_at s (entries a (Leaf i es))" for a
    by (simp add: es'_def remove_at_def)
  moreover have "chain_shrunk (Leaf i es) c (Leaf i es') c" by (simp add: chain_shrunk_def)
  ultimately show ?thesis unfolding descent_post_def by blast
qed

lemma note_last_keys:
  assumes ok: "kids_ok T l ks cs" and j: "j < length cs" and n: "nkeys T n \<noteq> []" "last_noted T (cs ! j) n lk"
    and A: "pkeys A = ks" "pslot A = j"
  shows "fst (note_last A lk) = map (lastkey T) (butlast (cs[j := n]))"
    and "snd (note_last A lk) = (if j < length ks then None else lk)"
proof -
  have ks: "ks = map (lastkey T) (butlast cs)" using ok by (simp add: kids_ok_def)
  have len: "length cs = Suc (length ks)" using kids_length [OF ok] .
  show "snd (note_last A lk) = (if j < length ks then None else lk)"
    using A by (auto simp: note_last_def split: option.splits)
  show "fst (note_last A lk) = map (lastkey T) (butlast (cs[j := n]))"
  proof (cases "j < length ks")
    case True
    have "map (lastkey T) (butlast (cs[j := n])) = ks[j := lastkey T n]"
      using True len by (subst ks) (simp add: butlast_list_update map_update)
    moreover have "fst (note_last A lk) = ks[j := lastkey T n]"
      using True A n kids_key [OF ok True]
      by (auto simp: note_last_def last_noted_def split: option.splits) (metis list_update_id)
    ultimately show ?thesis by simp
  next
    case False
    then have "fst (note_last A lk) = ks" using A by (auto simp: note_last_def split: option.splits)
    then show ?thesis using False len j by (subst (asm) ks) (simp add: butlast_list_update)
  qed
qed

lemma erase_inner_after:
  "after_child T l slot ks cs r = (ks', cs', c') \<Longrightarrow>
   erase_inner T is_root delay A l d ks cs slot r =
     fix_inner T is_root delay A (mk_inner l d ks' cs') (fst (note_last A (e_last r))) (snd (note_last A (e_last r)))
       (e_delay r) c'"
  unfolding erase_inner_def after_child_def Let_def by (auto split: prod.split)

lemma kid_position:
  assumes "j < length cs" "distinct (concat (map leaf_ids cs))" "i \<in> set (leaf_ids (cs ! j))"
  shows "\<forall>q < length cs. q \<noteq> j \<longrightarrow> i \<notin> set (leaf_ids (cs ! q))"
    and "it_pos i s (concat (map leaves cs)) = length (concat (map (entries a) (take j cs))) + it_pos i s (leaves (cs ! j))"
    and "distinct (leaf_ids (cs ! j))"
proof -
  have d: "distinct (concat (map leaf_ids (take j cs)) @ leaf_ids (cs ! j) @ concat (map leaf_ids (drop (Suc j) cs)))"
    using assms(2) concat_split_at [OF assms(1), of leaf_ids] by simp
  then show "distinct (leaf_ids (cs ! j))" by simp
  show "\<forall>q < length cs. q \<noteq> j \<longrightarrow> i \<notin> set (leaf_ids (cs ! q))"
  proof (intro allI impI)
    fix q assume q: "q < length cs" "q \<noteq> j"
    then have "cs ! q \<in> set (take j cs) \<or> cs ! q \<in> set (drop (Suc j) cs)"
      using assms(1) by (cases "q < j") (auto simp: in_set_conv_nth nth_append intro: exI [of _ q] exI [of _ "q - Suc j"])
    then show "i \<notin> set (leaf_ids (cs ! q))" using d assms(3) by auto
  qed
  have "i \<notin> fst ` set (concat (map leaves (take j cs)))" using d assms(3) leaf_ids_fst by fastforce
  moreover have "i \<in> fst ` set (leaves (cs ! j))" using assms(3) by (simp add: leaf_ids_fst)
  ultimately show "it_pos i s (concat (map leaves cs)) =
      length (concat (map (entries a) (take j cs))) + it_pos i s (leaves (cs ! j))"
    using concat_split_at [OF assms(1), of leaves] leaves_concat_length [of "take j cs" a]
    by (simp add: it_pos_append)
qed

lemma nkeys_remove:
  assumes "\<forall>a. entries a n' = remove_at p (entries a n)"
  shows "nkeys T n' = remove_at p (nkeys T n)"
  using assms by (metis ekeys_entries map_remove_at)

lemma lower_reaches:
  assumes ok: "kids_ok T l ks cs" and so: "sorted (concat (map (nkeys T) cs))" and j: "j < length cs"
    and key: "key \<in> set (nkeys T (cs ! j))"
  shows "lower ks key \<le> j" "lower ks key \<le> q \<Longrightarrow> sorted ks \<Longrightarrow> q < length ks \<Longrightarrow> \<not> ks ! q < key"
proof -
  have "sorted (nkeys T (cs ! j))" using sorted_part [OF so] j by simp
  then have le: "key \<le> lastkey T (cs ! j)" using key by (simp add: lastkey_def sorted_last_ge)
  show "lower ks key \<le> j"
  proof (rule ccontr)
    assume "\<not> lower ks key \<le> j"
    then have "j < lower ks key" by simp
    then have "ks ! j < key" "j < length ks" using lower_before lower_le [of ks key] by auto
    then show False using le kids_key [OF ok] by fastforce
  qed
  assume "lower ks key \<le> q" "sorted ks" "q < length ks"
  then have "ks ! lower ks key \<le> ks ! q" by (simp add: sorted_nth_mono)
  moreover have "key \<le> ks ! lower ks key" using lower_at [of ks key] \<open>lower ks key \<le> q\<close> \<open>q < length ks\<close> by simp
  ultimately show "\<not> ks ! q < key" by auto
qed

lemma kid_erased:
  assumes T: "traits_ok T" and n: "shape T (Inner l s0 d ks cs)" "ks \<noteq> []"
    and j: "j < length cs"
    and post: "descent_post T False (delay + d) (around_child A delay d ks cs j) (cs ! j) p c out"
    and p: "p < length (entries 0 (cs ! j))"
  shows "\<exists>r. out = Erased r \<and>
    descent_post T is_root delay A (Inner l s0 d ks cs) (length (concat (map (entries 0) (take j cs))) + p) c
      (erase_inner T is_root delay A l d ks cs j r)"
proof -
  let ?A = "around_child A delay d ks cs j" and ?n = "Inner l s0 d ks cs"
  let ?q = "length (concat (map (entries 0) (take j cs)))"
  have ok: "kids_ok T l ks cs" and lk: "length ks \<le> inner_slots T" using n(1) unfolding shape_inner by auto
  note len = kids_length [OF ok]
  have mem: "cs ! j \<in> set cs" using j by simp
  have kid: "shape T (cs ! j)" "\<not> is_underflow T (cs ! j)" "Suc (level (cs ! j)) = l"
    using ok mem by (auto simp: kids_ok_def)
  obtain n1 lk1 c1 where out: "out = fix_node T False (delay + d) ?A n1 (fst (note_last ?A lk1)) (snd (note_last ?A lk1))
      (snd (entries (delay + d) (cs ! j) ! p)) c1"
    and sh: "shrunk T (cs ! j) n1" and e: "\<forall>a. entries a n1 = remove_at p (entries a (cs ! j))"
    and ln: "last_noted T (cs ! j) n1 lk1" and ch: "chain_shrunk (cs ! j) c n1 c1"
    using post unfolding descent_post_def by blast
  have al: "almost T n1" using sh kid by (auto simp: shrunk_def almost_def is_underflow_nmin)
  note ne = almost_nonempty [OF T al]
  have A: "pkeys ?A = ks" "pslot ?A = j" by (simp_all add: around_child_def)
  note nl = note_last_keys [OF ok j ne ln A]
  let ?pks = "fst (note_last ?A lk1)" and ?cs = "cs[j := n1]"
  have k: "kids_but T l ?pks ?cs j"
    using nl(1) al sh kid j ok by (auto simp: kids_but_def kids_ok_def shrunk_def nth_list_update)
  have lp: "length ?pks = length ks" using nl(1) len by simp
  obtain r ks' cs' c' where r: "out = Erased r" "e_delay r = snd (entries (delay + d) (cs ! j) ! p)"
      "e_last r = snd (note_last ?A lk1)" "after_child T l j ks cs r = (ks', cs', c')"
    and rep: "repaired T l ?pks ?cs c1 ks' cs' c'"
    using repair [OF T k lp n(2) sides_around_child [of A delay d ks cs j], where up = "snd (note_last ?A lk1)"
        and found = "snd (entries (delay + d) (cs ! j) ! p)" and c = c1] out
    by auto
  have ok': "kids_ok T l ks' cs'" and ent: "concat (map (entries a) cs') = concat (map (entries a) ?cs)"
    and lk': "length ks \<le> Suc (length ks')" "length ks' \<le> length ks" for a
    using rep lp by (auto simp: repaired_def)
  have l: "l \<noteq> 0" using kid by auto
  have "erase_inner T is_root delay A l d ks cs j r = fix_node T is_root delay A (mk_inner l d ks' cs')
      (fst (note_last A (e_last r))) (snd (note_last A (e_last r))) (snd (entries (delay + d) (cs ! j) ! p)) c'"
    using erase_inner_after [OF r(4)] l r(2) by (simp add: fix_node_def)
  moreover have "snd (entries (delay + d) (cs ! j) ! p) = snd (entries delay ?n ! (?q + p))"
  proof -
    have "?q = length (concat (map (entries (delay + d)) (take j cs)))"
      using length_concat_entries [of 0 "take j cs" undefined] length_concat_entries [of "delay + d" "take j cs" undefined] by simp
    moreover have "p < length (entries (delay + d) (cs ! j))" using p length_entries_0 by metis
    ultimately show ?thesis using concat_split_at [OF j, of "entries (delay + d)"] by (simp add: nth_append)
  qed
  moreover have "shrunk T ?n (mk_inner l d ks' cs')"
    using ok' lk lk' by (simp add: shrunk_def)
  moreover have "entries a (mk_inner l d ks' cs') = remove_at (?q + p) (entries a ?n)" for a
  proof -
    have "?q = length (concat (map (entries (a + d)) (take j cs)))"
      using length_concat_entries [of 0 "take j cs" undefined] length_concat_entries [of "a + d" "take j cs" undefined] by simp
    moreover have "p < length (entries (a + d) (cs ! j))" using p length_entries_0 by metis
    ultimately show ?thesis using concat_split_at [OF j, of "entries (a + d)"] e ent
      by (simp add: concat_update [OF j] remove_at_middle)
  qed
  moreover have "last_noted T ?n (mk_inner l d ks' cs') (e_last r)"
  proof -
    have "lastkey T (mk_inner l d ks' cs') = last (ekeys T (concat (map (entries 0) cs')))"
      by (simp add: lastkey_def map_concat comp_def)
    also have "\<dots> = last (concat (map (nkeys T) ?cs))" unfolding ent by (simp add: map_concat comp_def)
    also have "\<dots> = lastkey T (last ?cs)"
    proof (rule last_of_siblings [symmetric])
      show "\<forall>n \<in> set ?cs. nkeys T n \<noteq> []"
        using kids_but_almost [OF k] almost_nonempty [OF T] by (metis in_set_conv_nth)
    qed (use j in auto)
    finally have 1: "lastkey T (mk_inner l d ks' cs') = lastkey T (last ?cs)" .
    have 2: "lastkey T ?n = lastkey T (last cs)" using lastkey_last [OF T ok] by (simp add: lastkey_def)
    have "cs \<noteq> []" using j by auto
    then have "last ?cs = (if j < length ks then last cs else n1)" "j < length ks \<or> cs ! j = last cs"
      using j len by (auto simp: last_list_update last_conv_nth less_Suc_eq)
    then show ?thesis using 1 2 ln ne nl(2) r(3) by (auto simp: last_noted_def split: option.splits)
  qed
  moreover have "chain_shrunk ?n c (mk_inner l d ks' cs') c'"
  proof -
    have "chain_ok c' (P @ concat (map leaf_ids cs') @ Q) (Suc k + sum_list (map inner_count cs'))"
      if "chain_ok c (P @ concat (map leaf_ids cs) @ Q) (Suc k + sum_list (map inner_count cs))" for P Q k
    proof -
      have sum: "sum_list (map inner_count (cs[j := m])) = sum_list (map inner_count (take j cs)) + inner_count m
          + sum_list (map inner_count (drop (Suc j) cs))" for m
        using j by (simp add: upd_conv_take_nth_drop)
      let ?P = "P @ concat (map leaf_ids (take j cs))" and ?Q = "concat (map leaf_ids (drop (Suc j) cs)) @ Q"
      let ?k = "Suc k + sum_list (map inner_count (take j cs)) + sum_list (map inner_count (drop (Suc j) cs))"
      have "chain_ok c (?P @ leaf_ids (cs ! j) @ ?Q) (?k + inner_count (cs ! j))"
        using that sum [of "cs ! j"] concat_split_at [OF j, of leaf_ids] by (simp add: ac_simps)
      then have "chain_ok c1 (?P @ leaf_ids n1 @ ?Q) (?k + inner_count n1)"
        using ch unfolding chain_shrunk_def by blast
      then have "chain_ok c1 (P @ concat (map leaf_ids ?cs) @ Q) (Suc k + sum_list (map inner_count ?cs))"
        using sum [of n1] concat_update [OF j, of leaf_ids n1] by (simp add: ac_simps)
      then show ?thesis using rep unfolding repaired_def by blast
    qed
    then show ?thesis by (simp add: chain_shrunk_def)
  qed
  ultimately show ?thesis using r(1) unfolding descent_post_def by metis
qed

lemma erase_descend_post:
  assumes T: "traits_ok T" and "shape T n" "sorted (nkeys T n)" "distinct (leaf_ids n)"
    and "(i, es) \<in> set (leaves n)" "s < length es" "key = ekey T (es ! s)" "level n = 0 \<or> slotuse n \<noteq> 0"
  shows "descent_post T is_root delay A n (it_pos i s (leaves n)) c (erase_iter_descend T (Some i, s) key is_root delay A n c)"
  using assms(2-)
proof (induction n arbitrary: is_root delay A c)
  case (Leaf j fs)
  then show ?case using erase_leaf_post [of T i es s] by simp
next
  case (Inner l s0 d ks cs)
  have ok: "kids_ok T l ks cs" using Inner.prems(1) unfolding shape_inner by auto
  have so: "sorted (concat (map (nkeys T) cs))" using Inner.prems(2) by simp
  have dist: "distinct (concat (map leaf_ids cs))" using Inner.prems(3) by simp
  have "l \<noteq> 0" using shape_level_0 [OF Inner.prems(1)] by auto
  then have ks: "ks \<noteq> []" using Inner.prems(7) by auto
  obtain j where j: "j < length cs" "(i, es) \<in> set (leaves (cs ! j))"
    using Inner.prems(4) by auto (metis in_set_conv_nth)
  have mem: "cs ! j \<in> set cs" using j by simp
  have "i \<in> set (leaf_ids (cs ! j))" using j(2) by (force simp: leaf_ids_leaves)
  note kp = kid_position [OF j(1) dist this]
  have kid: "shape T (cs ! j)" "\<not> is_underflow T (cs ! j)" using ok mem by (auto simp: kids_ok_def)
  then have use: "level (cs ! j) = 0 \<or> slotuse (cs ! j) \<noteq> 0"
    using slotmin_ge [OF T] by (cases "cs ! j") auto
  have "es ! s \<in> set (concat (map snd (leaves (cs ! j))))" using j(2) Inner.prems(5) by force
  then have key: "key \<in> set (nkeys T (cs ! j))"
    using Inner.prems(6) by (simp add: nkeys_leaves del: set_concat)
  note reach = lower_reaches [OF ok so j(1) key]
  let ?A = "around_child A delay d ks cs j" and ?p = "it_pos i s (leaves (cs ! j))"
  have "descent_post T False (delay + d) ?A (cs ! j) ?p c
      (erase_iter_descend T (Some i, s) key False (delay + d) ?A (cs ! j) c)"
    by (rule Inner.IH [OF mem kid(1) sorted_part [OF so mem] kp(3) j(2) Inner.prems(5,6) use])
  moreover have "?p < length (entries 0 (cs ! j))"
    using it_pos_less [OF j(2) _ Inner.prems(5)] kp(3) leaves_length [of "cs ! j" 0] by (simp add: leaf_ids_leaves)
  ultimately obtain r where r: "erase_iter_descend T (Some i, s) key False (delay + d) ?A (cs ! j) c = Erased r"
    and post: "descent_post T is_root delay A (Inner l s0 d ks cs) (it_pos i s (concat (map leaves cs))) c
      (erase_inner T is_root delay A l d ks cs j r)"
    using kid_erased [OF T Inner.prems(1) ks j(1)] kp(2) by metis
  note len = kids_length [OF ok]
  have "erase_slots T (Some i, s) key delay A d ks cs (lower ks key) c = (j, Erased r)"
    using reach kp(1) len j(1) kids_sorted [OF T ok so] by (intro slots_reach [OF _ _ _ _ r]) auto
  then show ?case using post kids_find_lower [OF T ok so] by simp
qed

end
