(* ===== verification/Replay_Ops_Laws.thy ===== *)
theory Replay_Ops_Laws
  imports Replay_Erase_Descend
begin

text \<open>
  The operations of a whole replay tree: \<^verbatim>\<open>erase\<close> at an iterator, the walk of iterators along
  the leaf chain, and \<^verbatim>\<open>erase_val\<close> with its rank and delay.
\<close>

section \<open>Erasing at an iterator\<close>

definition at_pos :: "('k, 'v) tree \<Rightarrow> iter \<Rightarrow> nat \<Rightarrow> bool" where
  "at_pos t it p \<longleftrightarrow> (\<exists>i s es. it = (Some i, s) \<and> (i, es) \<in> set (tree_leaves t) \<and> s < length es \<and>
     p = it_pos i s (tree_leaves t))"

lemma tree_ok_leaves: "tree_ok T t \<Longrightarrow> distinct (map fst (tree_leaves t))"
  by (auto simp: tree_ok_def tree_leaves_def chain_ok_def linked_def leaf_ids_leaves split: option.splits)

lemma tree_entries_length: "length (tree_entries t) = sum_list (map (\<lambda>e. length (snd e)) (tree_leaves t))"
  by (simp add: tree_entries_def tree_leaves_def leaves_length [of _ 0] split: option.splits)

lemma at_pos_less: "tree_ok T t \<Longrightarrow> at_pos t it p \<Longrightarrow> p < length (tree_entries t)"
  using tree_ok_leaves [of T t] by (auto simp: at_pos_def tree_entries_length intro: it_pos_less)

lemma map_fst_entries: "map fst (entries a n) = map fst (concat (map snd (leaves n)))"
proof (induction n arbitrary: a)
  case (Inner l s d ks cs)
  then show ?case by (induction cs) auto
qed simp

lemma it_pos_nth:
  "\<lbrakk>(i, es) \<in> set ls; distinct (map fst ls); s < length es\<rbrakk> \<Longrightarrow> concat (map snd ls) ! it_pos i s ls = es ! s"
  by (induction ls) (auto simp: nth_append rev_image_eqI)

lemma slotdata_member: "\<lbrakk>tree_ok T t; (i, es) \<in> set (tree_leaves t)\<rbrakk> \<Longrightarrow> slotdata t i = es"
  using tree_ok_leaves [of T t] by (simp add: slotdata_def)

lemma deref_at_pos:
  assumes "tree_ok T t" "at_pos t it p"
  shows "deref t it = Some (fst (tree_entries t ! p))"
proof -
  obtain i s es where it: "it = (Some i, s)" "(i, es) \<in> set (tree_leaves t)" "s < length es"
      "p = it_pos i s (tree_leaves t)"
    using assms(2) by (auto simp: at_pos_def)
  then obtain n where n: "root t = Some n" by (auto simp: tree_leaves_def split: option.splits)
  have "p < length (tree_entries t)" using at_pos_less [OF assms] .
  then have "fst (tree_entries t ! p) = map fst (tree_entries t) ! p" by simp
  also have "map fst (tree_entries t) = map fst (concat (map snd (tree_leaves t)))"
    using n by (simp add: tree_entries_def tree_leaves_def map_fst_entries)
  also have "\<dots> ! p = fst (concat (map snd (tree_leaves t)) ! p)"
    using \<open>p < length (tree_entries t)\<close> by (simp add: tree_entries_length length_concat comp_def)
  also have "\<dots> = fst (es ! s)" using it it_pos_nth [OF it(2) tree_ok_leaves [OF assms(1)] it(3)] by simp
  finally show ?thesis using it slotdata_member [OF assms(1) it(2)] by simp
qed

lemma root_repair:
  assumes T: "traits_ok T" and sh: "shape T n" "sorted (nkeys T n)" "level n = 0 \<or> slotuse n \<noteq> 0 \<or> nkeys T n \<noteq> []"
    and ch: "chain_ok c (leaf_ids n) (inner_count n)"
  shows "\<exists>r. fix_node T True 0 root_around n pks up found c = Erased r \<and> e_delay r = found \<and>
    tree_ok T \<lparr>root = e_node r, links = e_chain r, st_size = length (nkeys T n)\<rparr> \<and>
    tree_entries \<lparr>root = e_node r, links = e_chain r, st_size = length (nkeys T n)\<rparr> = entries 0 n"
proof (cases "slotuse n \<ge> 1")
  case True
  then have "leaf_action T True root_around n = Keep" by (simp add: leaf_action_def)
  from fix_node_keep [OF this] show ?thesis using True sh ch
    by (auto simp: result_of_def tree_ok_def tree_entries_def)
next
  case False
  then have "slotuse n = 0" by simp
  then have u: "slotuse n = 0" "is_underflow T n" using slotmin_ge [OF T] by (auto simp: is_underflow_nmin) (cases n; simp)
  have act: "leaf_action T True root_around n = Collapse" using u by (simp add: leaf_action_def root_around_def)
  show ?thesis
  proof (cases n)
    case (Leaf i es)
    have "chain_ok ((free_node n c)\<lparr>head_leaf := None, tail_leaf := None\<rparr>) [] 0"
      using ch Leaf by (simp add: chain_ok_def linked_def free_node_def)
    then show ?thesis using act Leaf u
      by (auto simp: fix_node_def fix_leaf_def tree_ok_def tree_entries_def)
  next
    case (Inner l s d ks cs)
    have ok: "kids_ok T l ks cs" using sh(1) unfolding Inner shape_inner by simp
    have "ks = []" using u Inner by simp
    then obtain m where cs: "cs = [m]" using kids_length [OF ok] by (cases cs) auto
    have m: "shape T m" "\<not> is_underflow T m" using ok cs by (auto simp: kids_ok_def)
    have "l \<noteq> 0" using ok cs by (auto simp: kids_ok_def)
    moreover have "slotuse m \<ge> 1" using m slotmin_ge [OF T] by (cases m) auto
    moreover have "chain_ok (free_node n c) (leaf_ids m) (inner_count m)"
      using ch Inner cs \<open>l \<noteq> 0\<close> by (intro chain_ok_free_inner) auto
    ultimately show ?thesis using act Inner cs m sh(2)
      by (auto simp: fix_node_def fix_inner_def inner_action_eq tree_ok_def tree_entries_def)
  qed
qed

lemma erase_ok:
  fixes T :: "('k::linorder, 'v) traits"
  assumes T: "traits_ok T" and t: "tree_ok T t" and it: "at_pos t it p"
  shows "\<exists>t'. erase T it t = Some (True, snd (tree_entries t ! p), t') \<and> tree_ok T t' \<and>
    tree_entries t' = remove_at p (tree_entries t)"
proof -
  let ?A = "root_around :: ('k, 'v) around"
  obtain i s es where i: "it = (Some i, s)" "(i, es) \<in> set (tree_leaves t)" "s < length es"
      "p = it_pos i s (tree_leaves t)"
    using it by (auto simp: at_pos_def)
  then obtain n where n: "root t = Some n" by (auto simp: tree_leaves_def split: option.splits)
  then have l: "tree_leaves t = leaves n" "tree_entries t = entries 0 n" by (simp_all add: tree_leaves_def tree_entries_def)
  have ok: "shape T n" "1 \<le> slotuse n" "sorted (nkeys T n)" "chain_ok (links t) (leaf_ids n) (inner_count n)"
      "st_size t = length (nkeys T n)"
    using t n by (auto simp: tree_ok_def)
  have d: "deref t it = Some (fst (es ! s))" using i slotdata_member [OF t i(2)] by simp
  have "descent_post T True 0 root_around n p (links t)
      (erase_iter_descend T it (ekey T (es ! s)) True 0 root_around n (links t))"
    using erase_descend_post [OF T ok(1,3), of i es s] i l ok by (auto simp: chain_ok_def linked_def)
  then obtain n' lk c' where out: "erase_iter_descend T it (ekey T (es ! s)) True 0 root_around n (links t) =
      fix_node T True 0 root_around n' (fst (note_last ?A lk)) (snd (note_last ?A lk)) (snd (entries 0 n ! p)) c'"
    and sh: "shrunk T n n'" and e: "\<forall>a. entries a n' = remove_at p (entries a n)"
    and ch: "chain_shrunk n (links t) n' c'"
    unfolding descent_post_def by (elim exE conjE)
  have k: "nkeys T n' = remove_at p (nkeys T n)" using nkeys_remove [OF e] .
  have "p < length (nkeys T n)" using at_pos_less [OF t it] l length_entries [of 0 n T] by simp
  then have st: "st_size t - 1 = length (nkeys T n')" using k ok by (simp add: length_remove_at)
  have "chain_ok c' (leaf_ids n') (inner_count n')"
    using ch ok(4) unfolding chain_shrunk_def by (metis append_Nil append_Nil2 add_0)
  moreover have "sorted (nkeys T n')" using k ok by (simp add: sorted_remove_at)
  moreover have "level n' = 0 \<or> slotuse n' \<noteq> 0 \<or> nkeys T n' \<noteq> []"
  proof (cases n')
    case (Inner l s d ks cs)
    then have "kids_ok T l ks cs" using sh unfolding shrunk_def Inner shape_inner by blast
    then have "cs \<noteq> []" "\<forall>m \<in> set cs. nkeys T m \<noteq> []" using kids_nonempty [OF T] by (auto simp: kids_ok_def)
    then show ?thesis using Inner by (cases cs) auto
  qed simp
  moreover have "shape T n'" using sh by (simp add: shrunk_def)
  ultimately obtain r where "fix_node T True 0 root_around n' (fst (note_last ?A lk)) (snd (note_last ?A lk))
      (snd (entries 0 n ! p)) c' = Erased r" "e_delay r = snd (entries 0 n ! p)"
      "tree_ok T \<lparr>root = e_node r, links = e_chain r, st_size = length (nkeys T n')\<rparr>"
      "tree_entries \<lparr>root = e_node r, links = e_chain r, st_size = length (nkeys T n')\<rparr> = entries 0 n'"
    using root_repair [OF T, of n' c'] by blast
  then show ?thesis using n d out e l st by (simp add: erase_def ekey_def)
qed

section \<open>Walking along the chain\<close>

lemma leaves_nonempty:
  assumes T: "traits_ok T" and "shape T n" "1 \<le> slotuse n" "(i, es) \<in> set (leaves n)"
  shows "es \<noteq> []"
  using assms(2-)
proof (induction n)
  case (Inner l s d ks cs)
  then obtain m where m: "m \<in> set cs" "(i, es) \<in> set (leaves m)" by auto
  then have sm: "shape T m" "\<not> is_underflow T m" using Inner.prems by auto
  then have "1 \<le> slotuse m" using slotmin_ge [OF T] by (cases m) auto
  then show ?case using Inner.IH [OF m(1) sm(1)] m by auto
qed auto

lemma seg_next:
  "\<lbrakk>seg c p (xs @ i # ys) q\<rbrakk> \<Longrightarrow> next_leaf c i = (case ys of [] \<Rightarrow> q | j # _ \<Rightarrow> Some j)"
  by (simp add: seg_append)

lemma iter_next_at_pos:
  assumes T: "traits_ok T" and t: "tree_ok T t" and it: "at_pos t it p" and p: "Suc p < length (tree_entries t)"
  shows "at_pos t (iter_next t it) (Suc p)"
proof -
  obtain i s es where i: "it = (Some i, s)" "(i, es) \<in> set (tree_leaves t)" "s < length es"
      "p = it_pos i s (tree_leaves t)"
    using it by (auto simp: at_pos_def)
  then obtain n where n: "root t = Some n" by (auto simp: tree_leaves_def split: option.splits)
  have sd: "slotdata t i = es" using slotdata_member [OF t i(2)] .
  obtain L1 L2 where L: "tree_leaves t = L1 @ (i, es) # L2" using i(2) by (meson split_list)
  have di: "distinct (map fst (tree_leaves t))" using tree_ok_leaves [OF t] .
  then have n1: "i \<notin> fst ` set L1" "i \<notin> fst ` set L2" unfolding L by auto
  show ?thesis
  proof (cases "s + 1 < length es")
    case True
    then have "it_pos i (s + 1) (tree_leaves t) = Suc p" using i(4) n1 by (simp add: L it_pos_append)
    then show ?thesis using True i sd by (auto simp: at_pos_def)
  next
    case False
    then have s: "s = length es - 1" using i(3) by simp
    have pv: "p = sum_list (map (\<lambda>e. length (snd e)) L1) + s" using i(4) n1 by (simp add: L it_pos_append)
    have "L2 \<noteq> []" using p pv s i(3) by (auto simp: tree_entries_length L)
    then obtain j fs L3 where L2: "L2 = (j, fs) # L3" by (cases L2) auto
    have "seg (links t) None (map fst (tree_leaves t)) None"
      using t n by (simp add: tree_ok_def tree_leaves_def chain_ok_def linked_def leaf_ids_leaves)
    then have nx: "next_leaf (links t) i = Some j"
      using seg_next [of "links t" None "map fst L1" i "map fst L2" None] by (simp add: L L2)
    have "(j, fs) \<in> set (leaves n)" using L L2 n by (simp add: tree_leaves_def)
    then have "fs \<noteq> []" using leaves_nonempty [OF T] t n by (auto simp: tree_ok_def)
    moreover have "it_pos j 0 (tree_leaves t) = Suc p"
      using di pv s i(3) by (auto simp: L L2 it_pos_append)
    ultimately show ?thesis using False i(1) sd nx L L2 by (auto simp: at_pos_def)
  qed
qed

lemma seek_at_pos:
  assumes T: "traits_ok T" and t: "tree_ok T t" and "at_pos t it p" "p \<le> q" "q < length (tree_entries t)"
    and "fst (tree_entries t ! q) = v" "\<forall>m. p \<le> m \<and> m < q \<longrightarrow> fst (tree_entries t ! m) \<noteq> v"
  shows "\<exists>it'. seek t v it = Some it' \<and> at_pos t it' q"
  using assms(3-)
proof (induction "q - p" arbitrary: p it)
  case 0
  then have "p = q" by simp
  then show ?case using 0 deref_at_pos [OF t 0(2)] by (subst seek.simps) auto
next
  case (Suc x)
  then have "p < q" "x = q - Suc p" by auto
  have "at_pos t (iter_next t it) (Suc p)"
    using iter_next_at_pos [OF T t Suc.prems(1)] \<open>p < q\<close> Suc.prems(3) by simp
  from Suc.hyps(1) [OF \<open>x = q - Suc p\<close> this] Suc.prems \<open>p < q\<close>
  have "\<exists>it'. seek t v (iter_next t it) = Some it' \<and> at_pos t it' q" by simp
  then show ?case using deref_at_pos [OF t Suc.prems(1)] Suc.prems(5) \<open>p < q\<close>
    by (subst seek.simps) auto
qed

end
