(* ===== verification/Replay_Val_Laws.thy ===== *)
theory Replay_Val_Laws
  imports Replay_Ops_Laws
begin

text \<open>
  Ranks: \<^verbatim>\<open>get_rank\<close>, the descents of the bound searches, and \<^verbatim>\<open>erase_val\<close>, which delays every
  entry with a smaller key by one and erases the value.
\<close>

section \<open>Descents by key\<close>

lemma kids_sizes:
  assumes "kids_ok T l ks cs"
  shows "sum_list (map get_subtree_size (take j cs)) = length (concat (map (nkeys T) (take j cs)))"
proof -
  have "get_subtree_size m = length (nkeys T m)" if "m \<in> set (take j cs)" for m
    using assms in_set_takeD [OF that] shape_size [of T m 0] length_entries [of 0 m T] by (auto simp: kids_ok_def)
  then show ?thesis by (auto simp: length_concat comp_def intro!: sum_list_map_eq)
qed

lemma rank_descend_lower:
  "\<lbrakk>traits_ok T; shape T n; sorted (nkeys T n)\<rbrakk> \<Longrightarrow> rank_descend T key n = lower (nkeys T n) key"
proof (induction n)
  case (Leaf i es)
  then show ?case by (simp add: find_lower_lower)
next
  case (Inner l s d ks cs)
  have ok: "kids_ok T l ks cs" using Inner.prems unfolding shape_inner by auto
  have so: "sorted (concat (map (nkeys T) cs))" using Inner.prems by simp
  note loc = locate [OF Inner.prems(1) ok so, of key]
  have mem: "cs ! lower ks key \<in> set cs" using loc(1) by simp
  have "rank_descend T key (cs ! lower ks key) = lower (nkeys T (cs ! lower ks key)) key"
    using Inner.IH [OF mem Inner.prems(1)] ok mem sorted_part [OF so mem] by (auto simp: kids_ok_def)
  moreover have "sum_list (map get_subtree_size (take (lower ks key) cs)) =
      length (concat (map (nkeys T) (take (lower ks key) cs)))"
    by (rule kids_sizes [OF ok])
  ultimately show ?case using kids_find_lower [OF Inner.prems(1) ok so] loc(1,4) by (simp add: Let_def)
qed

definition delay_first :: "nat \<Rightarrow> ('v \<times> int) list \<Rightarrow> ('v \<times> int) list" where
  "delay_first r es = delay_slots 1 (take r es) @ drop r es"

lemma delay_slots_delay_first: "delay_slots a (delay_first r es) = delay_first r (delay_slots a es)"
  by (simp add: delay_first_def add.commute)

lemma length_delay_first [simp]: "length (delay_first r es) = length es"
  by (simp add: delay_first_def)

lemma ekeys_delay_first [simp]: "ekeys T (delay_first r es) = ekeys T es"
  by (simp add: delay_first_def flip: take_map drop_map)

lemma map_fst_delay_first: "map fst (delay_first r es) = map fst es"
  by (simp add: delay_first_def flip: take_map drop_map)

lemma delay_first_nth:
  assumes "p < length es"
  shows "fst (delay_first r es ! p) = fst (es ! p)" "r \<le> p \<Longrightarrow> delay_first r es ! p = es ! p"
  using assms by (auto simp: delay_first_def nth_append min_def delay_slots_nth)

lemma delay_first_middle:
  "p \<le> length ys \<Longrightarrow> delay_first (length xs + p) (xs @ ys @ zs) = delay_slots 1 xs @ delay_first p ys @ zs"
  by (simp add: delay_first_def)

text \<open>The node after the descent of \<^verbatim>\<open>erase_val\<close>: same structure, the first entries delayed.\<close>

definition delayed :: "('k, 'v) traits \<Rightarrow> nat \<Rightarrow> ('k, 'v) node \<Rightarrow> ('k, 'v) node \<Rightarrow> bool" where
  "delayed T r n n' \<longleftrightarrow> (\<forall>a. entries a n' = delay_first r (entries a n)) \<and> leaf_ids n' = leaf_ids n \<and>
     inner_count n' = inner_count n \<and> level n' = level n \<and> slotuse n' = slotuse n \<and> nkeys T n' = nkeys T n \<and>
     get_subtree_size n' = get_subtree_size n \<and> shape T n' \<and> is_underflow T n' = is_underflow T n"

lemma leaves_len_add_delay: "map (\<lambda>e. (fst e, length (snd e))) (leaves (add_delay x n)) = map (\<lambda>e. (fst e, length (snd e))) (leaves n)"
  by (cases n) simp_all

lemma delayed_inner:
  fixes T :: "('k, 'v) traits"
  assumes ok: "kids_ok T l ks cs" and j: "j < length cs" and lk: "length ks \<le> inner_slots T"
    and s: "s = sum_list (map get_subtree_size cs)" and n: "delayed T r (cs ! j) n" and r: "r \<le> length (nkeys T (cs ! j))"
  defines "cs' \<equiv> map (add_delay 1) (take j cs) @ n # drop (Suc j) cs"
  shows "delayed T (length (concat (map (nkeys T) (take j cs))) + r) (Inner l s d ks cs) (Inner l s d ks cs')"
proof -
  note n = n [unfolded delayed_def]
  have cs: "cs = take j cs @ cs ! j # drop (Suc j) cs" using split_at [OF j] .
  have view: "map f cs' = map f cs" if "\<And>x m. f (add_delay x m) = f m" "f n = f (cs ! j)" for f :: "('k, 'v) node \<Rightarrow> 'c"
  proof -
    have "map f cs = map f (take j cs) @ f (cs ! j) # map f (drop (Suc j) cs)" using arg_cong [OF cs, of "map f"] by simp
    then show ?thesis by (simp add: cs'_def that)
  qed
  have "lastkey T n = lastkey T (cs ! j)" using n by (simp add: lastkey_def)
  then have "map (lastkey T) cs' = map (lastkey T) cs" by (intro view) auto
  then have "map (lastkey T) (butlast cs') = map (lastkey T) (butlast cs)" by (simp add: map_butlast)
  moreover have "cs' \<noteq> []" by (simp add: cs'_def)
  moreover have "\<forall>c \<in> set cs'. Suc (level c) = l \<and> \<not> is_underflow T c \<and> shape T c"
    using ok n j nth_mem [OF j] by (auto simp: cs'_def kids_ok_def dest: in_set_takeD in_set_dropD)
  ultimately have ok': "kids_ok T l ks cs'" using ok by (simp add: kids_ok_def)
  have "entries a (Inner l s d ks cs') = delay_first (length (concat (map (nkeys T) (take j cs))) + r) (entries a (Inner l s d ks cs))" for a
  proof -
    let ?X = "concat (map (entries (a + d)) (take j cs))"
    have "concat (map (entries (a + d)) cs') = delay_slots 1 ?X @ delay_first r (entries (a + d) (cs ! j))
        @ concat (map (entries (a + d)) (drop (Suc j) cs))"
      using n by (simp add: cs'_def comp_def entries_shift delay_slots_concat)
    moreover have "length ?X = length (concat (map (nkeys T) (take j cs)))" by (rule length_concat_entries)
    moreover have "r \<le> length (entries (a + d) (cs ! j))" using r length_entries [of "a + d" "cs ! j" T] by simp
    ultimately show ?thesis using concat_split_at [OF j, of "entries (a + d)"] delay_first_middle [of r _ ?X] by simp
  qed
  moreover have "concat (map leaf_ids cs') = concat (map leaf_ids cs)" "sum_list (map inner_count cs') = sum_list (map inner_count cs)"
    "concat (map (nkeys T) cs') = concat (map (nkeys T) cs)" "sum_list (map get_subtree_size cs') = sum_list (map get_subtree_size cs)"
    using n by (auto intro!: arg_cong [where f = concat] arg_cong [where f = sum_list] view)
  ultimately show ?thesis using ok' lk s unfolding delayed_def shape_inner by simp
qed

lemma val_descend_post:
  assumes T: "traits_ok T" and "shape T n" "sorted (nkeys T n)" "val_descend T key n = (r, it, n')"
  shows "r = lower (nkeys T n) key \<and> delayed T r n n' \<and>
    (r < length (nkeys T n) \<longrightarrow> (\<exists>i s es. it = (Some i, s) \<and> (i, es) \<in> set (leaves n') \<and> s < length es \<and>
       (distinct (leaf_ids n) \<longrightarrow> it_pos i s (leaves n') = r)))"
  using assms(2-)
proof (induction n arbitrary: r it n')
  case (Leaf i es)
  define slot where "slot = lower (ekeys T es) key"
  have "slot \<le> length es" using lower_le [of "ekeys T es" key] by (simp add: slot_def)
  moreover have "r = slot" "it = (Some i, slot)" "n' = Leaf i (delay_first slot es)"
    using Leaf.prems by (auto simp: find_lower_lower Let_def slot_def delay_first_def)
  ultimately show ?case using Leaf.prems by (auto simp: delayed_def slot_def delay_slots_delay_first)
next
  case (Inner l s0 d ks cs)
  have ok: "kids_ok T l ks cs" and lk: "length ks \<le> inner_slots T" and s0: "s0 = sum_list (map get_subtree_size cs)"
    using Inner.prems(1) unfolding shape_inner by auto
  have so: "sorted (concat (map (nkeys T) cs))" using Inner.prems by simp
  define j where "j = lower ks key"
  note loc = locate [OF T ok so, of key, folded j_def]
  have mem: "cs ! j \<in> set cs" using loc(1) by simp
  obtain r1 n1 where v: "val_descend T key (cs ! j) = (r1, it, n1)"
    and r: "r = sum_list (map get_subtree_size (take j cs)) + r1"
    and n': "n' = Inner l s0 d ks (map (add_delay 1) (take j cs) @ n1 # drop (Suc j) cs)"
    using Inner.prems(3) loc(1) kids_find_lower [OF T ok so, of "bin_inner T" key]
    by (auto simp: Let_def j_def [symmetric] split: prod.splits)
  have kid: "shape T (cs ! j)" "sorted (nkeys T (cs ! j))" using ok mem sorted_part [OF so mem] by (auto simp: kids_ok_def)
  note ih = Inner.IH [OF mem kid v]
  have rr: "sum_list (map get_subtree_size (take j cs)) = length (concat (map (nkeys T) (take j cs)))"
    by (rule kids_sizes [OF ok])
  have "r1 \<le> length (nkeys T (cs ! j))" using ih lower_le [of "nkeys T (cs ! j)" key] by simp
  moreover have "delayed T r1 (cs ! j) n1" using ih by blast
  ultimately have del: "delayed T r (Inner l s0 d ks cs) n'"
    using delayed_inner [OF ok loc(1) lk s0, of r1 n1 d] unfolding r rr n' by simp
  moreover have rl: "r = lower (nkeys T (Inner l s0 d ks cs)) key" using loc(4) ih r rr by simp
  moreover have "\<exists>i s es. it = (Some i, s) \<and> (i, es) \<in> set (leaves n') \<and> s < length es \<and>
      (distinct (leaf_ids (Inner l s0 d ks cs)) \<longrightarrow> it_pos i s (leaves n') = r)" if less: "r < length (nkeys T (Inner l s0 d ks cs))"
  proof -
    have "r1 < length (nkeys T (cs ! j))"
    proof (cases "j < length ks")
      case True
      then show ?thesis using lower_less_last [OF kid(2)] kids_nonempty [OF T ok mem] loc(3) ih by (simp add: lastkey_def)
    next
      case False
      then have "drop (Suc j) cs = []" using kids_length [OF ok] by simp
      then show ?thesis using less r rr concat_split_at [OF loc(1), of "nkeys T"] by simp
    qed
    then obtain i s es where i: "it = (Some i, s)" "(i, es) \<in> set (leaves n1)" "s < length es"
        "distinct (leaf_ids (cs ! j)) \<longrightarrow> it_pos i s (leaves n1) = r1"
      using ih by blast
    let ?cs = "map (add_delay 1) (take j cs) @ n1 # drop (Suc j) cs"
    have "it_pos i s (leaves n') = r" if d: "distinct (leaf_ids (Inner l s0 d ks cs))"
    proof -
      have j': "j < length ?cs" "?cs ! j = n1" "take j ?cs = map (add_delay 1) (take j cs)"
        using loc(1) by (auto simp: nth_append)
      have "distinct (concat (map leaf_ids ?cs))" "leaf_ids n1 = leaf_ids (cs ! j)"
        using del d n' ih unfolding delayed_def by auto
      moreover have "i \<in> set (leaf_ids n1)" using i(2) by (force simp: leaf_ids_leaves)
      ultimately have "it_pos i s (leaves n') = length (concat (map (entries 0) (take j ?cs))) + it_pos i s (leaves n1)"
        and "distinct (leaf_ids (cs ! j))"
        using kid_position [OF j'(1), of i] j' n' by auto
      moreover have "length (concat (map (entries 0) (take j ?cs))) = sum_list (map get_subtree_size (take j cs))"
        unfolding rr j'(3) length_concat_entries [of 0 _ T] by (simp add: comp_def)
      ultimately show ?thesis using i(4) r by simp
    qed
    moreover have "(i, es) \<in> set (leaves n')" using i(2) n' by auto
    ultimately show ?thesis using i by blast
  qed
  ultimately show ?case by blast
qed

section \<open>Erasing a value\<close>

lemma erase_val_ok:
  assumes T: "traits_ok T" and t: "tree_ok T t"
    and q: "q < length (tree_entries t)" "fst (tree_entries t ! q) = v" "\<forall>m < q. fst (tree_entries t ! m) \<noteq> v"
  shows "\<exists>t'. erase_val T v t = Some (True, lower (tree_keys T t) (key_of T v), snd (tree_entries t ! q), t') \<and>
    tree_ok T t' \<and> tree_entries t' = remove_at q (delay_first (lower (tree_keys T t) (key_of T v)) (tree_entries t))"
proof -
  obtain n where n: "root t = Some n" using q(1) by (auto simp: tree_entries_def split: option.splits)
  then have ent: "tree_entries t = entries 0 n" "tree_keys T t = nkeys T n" by (simp_all add: tree_entries_def tree_keys_def)
  have ok: "shape T n" "1 \<le> slotuse n" "sorted (nkeys T n)" "chain_ok (links t) (leaf_ids n) (inner_count n)"
      "st_size t = length (nkeys T n)"
    using t n by (auto simp: tree_ok_def)
  obtain r it n1 where v: "val_descend T (key_of T v) n = (r, it, n1)" by (metis prod_cases3)
  define t1 where "t1 = t\<lparr>root := Some n1\<rparr>"
  note post = val_descend_post [OF T ok(1,3) v]
  have r: "r = lower (nkeys T n) (key_of T v)" and del: "delayed T r n n1" using post by auto
  have dl: "shape T n1" "slotuse n1 = slotuse n" "nkeys T n1 = nkeys T n" "leaf_ids n1 = leaf_ids n"
      "inner_count n1 = inner_count n" "entries 0 n1 = delay_first r (entries 0 n)"
    using del unfolding delayed_def by blast+
  then have t1: "tree_ok T t1" "tree_entries t1 = delay_first r (tree_entries t)"
    using ok n ent by (auto simp: tree_ok_def t1_def tree_entries_def)
  have "ekeys T (entries 0 n) ! q = key_of T v" using q ent by (simp add: ekey_def del: ekeys_entries)
  then have kq: "nkeys T n ! q = key_of T v" "q < length (nkeys T n)"
    using q(1) ent length_entries [of 0 n T] by simp_all
  have rq: "r \<le> q"
  proof (rule ccontr)
    assume "\<not> r \<le> q"
    then have "nkeys T n ! q < key_of T v" using lower_before [of q "nkeys T n"] r by simp
    then show False using kq by simp
  qed
  then have "r < length (nkeys T n)" using kq by simp
  then have "at_pos t1 it r"
    using post ok(4) by (auto simp: at_pos_def t1_def tree_leaves_def chain_ok_def linked_def)
  then have "\<exists>it'. seek t1 v it = Some it' \<and> at_pos t1 it' q"
    by (rule seek_at_pos [OF T t1(1) _ rq]) (use q t1(2) in \<open>auto simp: delay_first_nth(1)\<close>)
  then obtain it' where s: "seek t1 v it = Some it'" "at_pos t1 it' q" by blast
  obtain t' where "erase T it' t1 = Some (True, snd (tree_entries t1 ! q), t')" "tree_ok T t'"
      "tree_entries t' = remove_at q (tree_entries t1)"
    using erase_ok [OF T t1(1) s(2)] by blast
  moreover have "tree_entries t1 ! q = tree_entries t ! q" using delay_first_nth(2) [OF q(1) rq] t1(2) by simp
  ultimately show ?thesis using n v s r ent t1 by (simp add: erase_val_def t1_def [symmetric])
qed

end
