(* ===== verification/Replay_Verify.thy ===== *)
theory Replay_Verify
  imports Replay_Val_Laws
begin

text \<open>
  The self-check \<^verbatim>\<open>verify\<close> of \<^verbatim>\<open>replay_tree.hpp\<close>, with \<^term>\<open>None\<close> (or \<^term>\<open>False\<close>) for a failed
  assertion, and the proof that on a well-formed tree no assertion fails but the last one, which compares the size with
  a count of the entries in a 32-bit \<^verbatim>\<open>unsigned int\<close> and fails from \<open>2 ^ 32\<close> entries on.
\<close>

section \<open>The checks\<close>

text \<open>Adjacent slots are in order.\<close>

definition in_order :: "'k::linorder list \<Rightarrow> bool" where
  "in_order ks \<longleftrightarrow> (\<forall>slot < length ks - 1. ks ! slot \<le> ks ! (slot + 1))"

fun leaf_id :: "('k, 'v) node \<Rightarrow> nat option" where
  "leaf_id (Leaf i es) = Some i"
| "leaf_id (Inner l s d ks cs) = None"

definition adjacent :: "chain \<Rightarrow> ('k, 'v) node \<Rightarrow> ('k, 'v) node \<Rightarrow> bool" where
  "adjacent c a b \<longleftrightarrow> (case (leaf_id a, leaf_id b) of
     (Some i, Some j) \<Rightarrow> next_leaf c i = Some j \<and> prev_leaf c j = Some i
   | _ \<Rightarrow> False)"

definition neighbours_linked :: "chain \<Rightarrow> nat \<Rightarrow> ('k, 'v) node \<Rightarrow> ('k, 'v) node \<Rightarrow> bool" where
  "neighbours_linked c l a b \<longleftrightarrow>
     (l = 1 \<longrightarrow> adjacent c a b) \<and> (l = 2 \<longrightarrow> adjacent c (children a ! slotuse a) (children b ! 0))"

text \<open>The smallest and largest key of the subtree, and its numbers of entries, leaves and inner nodes.\<close>

type_synonym 'k vstats = "'k \<times> 'k \<times> nat \<times> nat \<times> nat"

fun verify_node :: "('k::linorder, 'v) traits \<Rightarrow> chain \<Rightarrow> bool \<Rightarrow> ('k, 'v) node \<Rightarrow> 'k vstats option"
  and verify_slots :: "('k::linorder, 'v) traits \<Rightarrow> chain \<Rightarrow> nat \<Rightarrow> 'k list \<Rightarrow> ('k, 'v) node list \<Rightarrow> nat
    \<Rightarrow> 'k vstats list option" where
  "verify_node T c is_root (Leaf i es) =
     (if (is_root \<or> \<not> is_underflow T (Leaf i es)) \<and> length es > 0 \<and> in_order (ekeys T es)
      then Some (ekey T (es ! 0), ekey T (es ! (length es - 1)), length es, 1, 0) else None)"
| "verify_node T c is_root (Inner l s d ks cs) =
     (if (is_root \<or> \<not> is_underflow T (Inner l s d ks cs)) \<and> length ks > 0 \<and> in_order ks then
        case verify_slots T c l ks cs 0 of
          None \<Rightarrow> None
        | Some [] \<Rightarrow> None
        | Some (r # rs) \<Rightarrow>
            Some (fst r, fst (snd (last (r # rs))),
              sum_list (map (\<lambda>(mn, mx, n, lv, inn). n) (r # rs)), sum_list (map (\<lambda>(mn, mx, n, lv, inn). lv) (r # rs)),
              1 + sum_list (map (\<lambda>(mn, mx, n, lv, inn). inn) (r # rs)))
      else None)"
| "verify_slots T c l ks [] slot = Some []"
| "verify_slots T c l ks (m # ms) slot =
     (if level m + 1 = l then
        case verify_node T c False m of
          None \<Rightarrow> None
        | Some (mn, mx, st) \<Rightarrow>
            if (slot = 0 \<or> ks ! (slot - 1) \<le> mn) \<and> (slot = length ks \<or> ks ! slot = mx) \<and>
               (case ms of [] \<Rightarrow> True | m' # _ \<Rightarrow> neighbours_linked c l m m')
            then case verify_slots T c l ks ms (slot + 1) of None \<Rightarrow> None | Some rs \<Rightarrow> Some ((mn, mx, st) # rs)
            else None
      else None)"

text \<open>The loop over the leaves; \<open>testcount\<close> is the \<^verbatim>\<open>unsigned int\<close> of the source and wraps.\<close>

partial_function (option) leaflinks :: "('k::linorder, 'v) traits \<Rightarrow> ('k, 'v) tree \<Rightarrow> nat \<Rightarrow> u32 \<Rightarrow> u32 option" where
  "leaflinks T t i testcount =
     (let es = slotdata t i in
      if length es > 0 \<and> in_order (ekeys T es) then
        case next_leaf (links t) i of
          Some j \<Rightarrow>
            if ekey T (es ! (length es - 1)) \<le> ekey T (slotdata t j ! 0) \<and> prev_leaf (links t) j = Some i
            then leaflinks T t j (testcount + of_nat (length es)) else None
        | None \<Rightarrow> if tail_leaf (links t) = Some i then Some (testcount + of_nat (length es)) else None
      else None)"

declare leaflinks.simps [code]

definition verify_leaflinks :: "('k::linorder, 'v) traits \<Rightarrow> ('k, 'v) tree \<Rightarrow> bool" where
  "verify_leaflinks T t = (case head_leaf (links t) of None \<Rightarrow> False
     | Some i \<Rightarrow> prev_leaf (links t) i = None \<and>
         (case leaflinks T t i 0 of None \<Rightarrow> False | Some testcount \<Rightarrow> unat testcount = st_size t))"

definition verify :: "('k::linorder, 'v) traits \<Rightarrow> ('k, 'v) tree \<Rightarrow> bool" where
  "verify T t = (case root t of None \<Rightarrow> True
     | Some n \<Rightarrow> (case verify_node T (links t) True n of None \<Rightarrow> False
        | Some (mn, mx, n, lv, inn) \<Rightarrow>
            n = st_size t \<and> lv = st_leaves (links t) \<and> inn = st_inner (links t) \<and> verify_leaflinks T t))"

section \<open>No assertion fails\<close>

lemma in_order_sorted: "sorted ks \<Longrightarrow> in_order ks"
  by (auto simp: in_order_def sorted_iff_nth_mono)

lemma shape_first_leaf:
  assumes "shape T n"
  shows "level n = 0 \<Longrightarrow> leaf_id n = Some (hd (leaf_ids n)) \<and> hd (leaf_ids n) = last (leaf_ids n)"
    and "level n = 1 \<Longrightarrow> leaf_id (children n ! 0) = Some (hd (leaf_ids n)) \<and>
           leaf_id (children n ! slotuse n) = Some (last (leaf_ids n))"
proof -
  show "level n = 0 \<Longrightarrow> leaf_id n = Some (hd (leaf_ids n)) \<and> hd (leaf_ids n) = last (leaf_ids n)"
    using shape_level_0 [OF assms] by auto
  assume l: "level n = 1"
  then obtain s d ks cs where n: "n = Inner 1 s d ks cs" by (cases n) auto
  have ok: "kids_ok T 1 ks cs" using assms unfolding n shape_inner by simp
  have leafy: "\<exists>i es. c = Leaf i es" if "c \<in> set cs" for c
    using ok that shape_level_0 [of T c] by (auto simp: kids_ok_def)
  have cs: "cs \<noteq> []" "length cs = Suc (length ks)" using ok kids_length by (auto simp: kids_ok_def)
  have "leaf_id (hd cs) = Some (hd (leaf_ids n))" using leafy [of "hd cs"] cs n by (cases cs) auto
  moreover have "leaf_id (last cs) = Some (last (leaf_ids n))"
  proof -
    have "leaf_ids n = concat (map leaf_ids (butlast cs)) @ leaf_ids (last cs)"
      unfolding n leaf_ids.simps by (rule concat_map_last [OF cs(1)])
    moreover obtain i es where "last cs = Leaf i es" using leafy [of "last cs"] cs(1) by auto
    ultimately show ?thesis by simp
  qed
  ultimately show "leaf_id (children n ! 0) = Some (hd (leaf_ids n)) \<and> leaf_id (children n ! slotuse n) = Some (last (leaf_ids n))"
    using n cs by (simp add: hd_conv_nth last_conv_nth)
qed

lemma neighbours_linked_ok:
  assumes "shape T a" "shape T b" "Suc (level a) = l" "Suc (level b) = l" "seg c p (leaf_ids a @ leaf_ids b @ R) q"
  shows "neighbours_linked c l a b"
proof -
  have ne: "leaf_ids a \<noteq> []" "leaf_ids b \<noteq> []" using assms leaf_ids_nonempty by auto
  then obtain xs x y ys where "leaf_ids a = xs @ [x]" "leaf_ids b = y # ys" by (metis rev_exhaust neq_Nil_conv)
  then have "next_leaf c (last (leaf_ids a)) = Some (hd (leaf_ids b))" "prev_leaf c (hd (leaf_ids b)) = Some (last (leaf_ids a))"
    using assms(5) by (simp_all add: seg_append)
  then show ?thesis using shape_first_leaf [OF assms(1)] shape_first_leaf [OF assms(2)] assms(3,4)
    by (auto simp: neighbours_linked_def adjacent_def)
qed

definition node_stats :: "('k, 'v) traits \<Rightarrow> ('k, 'v) node \<Rightarrow> 'k vstats" where
  "node_stats T n = (hd (nkeys T n), lastkey T n, length (nkeys T n), length (leaf_ids n), inner_count n)"

lemma seg_part: "\<lbrakk>seg c p (concat (map leaf_ids (X @ m # Y))) q\<rbrakk> \<Longrightarrow> \<exists>p' q'. seg c p' (leaf_ids m) q'"
  by (auto simp: seg_append)

lemma verify_slots_ok:
  assumes T: "traits_ok T" and ok: "kids_ok T l ks cs" and so: "sorted (concat (map (nkeys T) cs))"
    and sg: "seg c p (concat (map leaf_ids cs)) q" and cs: "cs = X @ Y"
    and ih: "\<And>m. m \<in> set cs \<Longrightarrow> verify_node T c False m = Some (node_stats T m)"
  shows "verify_slots T c l ks Y (length X) = Some (map (node_stats T) Y)"
  using cs
proof (induction Y arbitrary: X)
  case (Cons m Y)
  note len = kids_length [OF ok]
  have mem: "m \<in> set cs" using Cons.prems by simp
  have l: "Suc (level m) = l" and sm: "shape T m" using ok mem by (auto simp: kids_ok_def)
  have at: "cs ! length X = m" using Cons.prems by simp
  have "ks ! (length X - 1) \<le> hd (nkeys T m)" if X: "X \<noteq> []"
  proof -
    have lX: "last X \<in> set cs" "cs ! (length X - 1) = last X"
      using X Cons.prems by (auto simp: nth_append last_conv_nth)
    have "length X - 1 < length ks" using Cons.prems len X by (cases X) auto
    then have "ks ! (length X - 1) = lastkey T (last X)" using kids_key [OF ok] lX by simp
    moreover have "lastkey T (last X) \<in> set (concat (map (nkeys T) X))"
      using X kids_nonempty [OF T ok lX(1)] by (auto simp: lastkey_def intro!: bexI [of _ "last X"])
    moreover have "hd (nkeys T m) \<in> set (nkeys T m)" using kids_nonempty [OF T ok mem] by simp
    ultimately show ?thesis using so Cons.prems by (auto simp: sorted_append)
  qed
  moreover have "length X = length ks \<or> ks ! length X = lastkey T m"
    using kids_key [OF ok, of "length X"] at Cons.prems len by (cases "length X < length ks") auto
  moreover have "case Y of [] \<Rightarrow> True | m' # _ \<Rightarrow> neighbours_linked c l m m'"
  proof (cases Y)
    case (Cons m' Z)
    have "m' \<in> set cs" using Cons.prems Cons \<open>cs = X @ m # Y\<close> by simp
    moreover have "seg c (if concat (map leaf_ids X) = [] then p else Some (last (concat (map leaf_ids X))))
        (leaf_ids m @ leaf_ids m' @ concat (map leaf_ids Z)) q"
      using sg unfolding \<open>cs = X @ m # Y\<close> Cons by (simp add: seg_append [of c p "concat (map leaf_ids X)"])
    ultimately show ?thesis using neighbours_linked_ok [OF sm _ l] ok Cons by (auto simp: kids_ok_def)
  qed simp
  moreover have "verify_slots T c l ks Y (Suc (length X)) = Some (map (node_stats T) Y)"
    using Cons.IH [of "X @ [m]"] Cons.prems by simp
  ultimately show ?case using l ih [OF mem] by (auto simp: node_stats_def)
qed simp

lemma verify_node_ok:
  assumes T: "traits_ok T" and "shape T n" "sorted (nkeys T n)" "seg c p (leaf_ids n) q" "is_root \<or> \<not> is_underflow T n"
    "1 \<le> slotuse n"
  shows "verify_node T c is_root n = Some (node_stats T n)"
  using assms(2-)
proof (induction n arbitrary: is_root p q)
  case (Leaf i es)
  then have "es \<noteq> []" by auto
  then show ?case using Leaf lastkey_leaf [of es T i]
    by (auto simp: in_order_sorted node_stats_def hd_map hd_conv_nth)
next
  case (Inner l s d ks cs)
  have ok: "kids_ok T l ks cs" using Inner.prems(1) unfolding shape_inner by simp
  have so: "sorted (concat (map (nkeys T) cs))" using Inner.prems by simp
  have sg: "seg c p (concat (map leaf_ids cs)) q" using Inner.prems by simp
  have "verify_node T c False m = Some (node_stats T m)" if m: "m \<in> set cs" for m
  proof -
    obtain X Y where "cs = X @ m # Y" using split_list [OF m] by blast
    then obtain p' q' where "seg c p' (leaf_ids m) q'" using seg_part [of c p X m Y q] sg by auto
    moreover have "shape T m" "\<not> is_underflow T m" using ok m by (auto simp: kids_ok_def)
    moreover have "1 \<le> slotuse m" using \<open>\<not> is_underflow T m\<close> slotmin_ge [OF T] by (cases m) auto
    ultimately show ?thesis using Inner.IH [OF m] sorted_part [OF so m] by blast
  qed
  from verify_slots_ok [OF T ok so sg, of "[]", OF _ this]
  have vs: "verify_slots T c l ks cs 0 = Some (map (node_stats T) cs)" by simp
  have ne: "cs \<noteq> []" using ok by (simp add: kids_ok_def)
  then obtain m ms where cs: "cs = m # ms" by (cases cs) auto
  have "hd (concat (map (nkeys T) cs)) = hd (nkeys T m)" using kids_nonempty [OF T ok, of m] cs by simp
  moreover have "last (concat (map (nkeys T) cs)) = lastkey T (last cs)" by (rule lastkey_last [OF T ok])
  moreover have "in_order ks" using kids_sorted [OF T ok so] in_order_sorted by blast
  moreover have "fst (snd (last (map (node_stats T) cs))) = lastkey T (last cs)"
    using ne by (simp add: last_map node_stats_def)
  moreover have "verify_node T c is_root (Inner l s d ks cs) = (case map (node_stats T) cs of [] \<Rightarrow> None
      | r # rs \<Rightarrow> Some (fst r, fst (snd (last (map (node_stats T) cs))), length (concat (map (nkeys T) cs)),
          length (concat (map leaf_ids cs)), Suc (sum_list (map inner_count cs))))"
    using Inner.prems(4,5) \<open>in_order ks\<close> vs
    by (auto simp: node_stats_def length_concat comp_def cs simp del: last.simps verify_slots.simps)
  ultimately show ?case using cs by (simp add: node_stats_def lastkey_def del: verify_node.simps last.simps)
qed

lemma leaflinks_ok:
  assumes T: "traits_ok T" and t: "tree_ok T t" and r: "root t = Some n" and l: "leaves n = L1 @ (i, es) # L2"
  shows "leaflinks T t i (of_nat (length (concat (map snd L1)))) = Some (of_nat (length (concat (map snd (leaves n)))))"
  using l
proof (induction L2 arbitrary: L1 i es)
  case Nil
  have tl: "tree_leaves t = leaves n" using r by (simp add: tree_leaves_def)
  have ok: "shape T n" "1 \<le> slotuse n" "sorted (nkeys T n)" "linked (links t) (leaf_ids n)"
    using t r by (auto simp: tree_ok_def chain_ok_def)
  have "slotdata t i = es" using slotdata_member [OF t, of i es] Nil tl by simp
  moreover have "es \<noteq> []" using leaves_nonempty [OF T ok(1,2), of i es] Nil by simp
  moreover have "sorted (ekeys T es)" using ok(3) Nil by (simp add: nkeys_leaves sorted_append)
  moreover have "next_leaf (links t) i = None" "tail_leaf (links t) = Some i"
    using ok(4) Nil seg_next [of "links t" None "map fst L1" i "[]" None] by (auto simp: linked_def leaf_ids_leaves)
  ultimately show ?case using Nil by (subst leaflinks.simps) (auto simp: in_order_sorted)
next
  case (Cons e L2)
  obtain j fs where e: "e = (j, fs)" by (cases e)
  have tl: "tree_leaves t = leaves n" using r by (simp add: tree_leaves_def)
  have ok: "shape T n" "1 \<le> slotuse n" "sorted (nkeys T n)" "linked (links t) (leaf_ids n)"
    using t r by (auto simp: tree_ok_def chain_ok_def)
  have sd: "slotdata t i = es" "slotdata t j = fs"
    using slotdata_member [OF t, of i es] slotdata_member [OF t, of j fs] Cons.prems tl e by auto
  have ne: "es \<noteq> []" "fs \<noteq> []"
    using leaves_nonempty [OF T ok(1,2), of i es] leaves_nonempty [OF T ok(1,2), of j fs] Cons.prems e by auto
  have so: "sorted (ekeys T es)" "\<forall>k \<in> set (ekeys T es). \<forall>k' \<in> set (ekeys T fs). k \<le> k'"
    using ok(3) Cons.prems e by (auto simp: nkeys_leaves sorted_append)
  have "ekey T (es ! (length es - 1)) \<in> set (ekeys T es)" "ekey T (fs ! 0) \<in> set (ekeys T fs)" using ne by auto
  then have "ekey T (es ! (length es - 1)) \<le> ekey T (fs ! 0)" using so(2) by blast
  moreover have "seg (links t) None (map fst L1 @ i # j # map fst L2) None"
    using ok(4) Cons.prems e by (simp add: linked_def leaf_ids_leaves)
  then have "next_leaf (links t) i = Some j" "prev_leaf (links t) j = Some i" by (simp_all add: seg_append)
  moreover have "leaflinks T t j (of_nat (length (concat (map snd (L1 @ [(i, es)]))))) = Some (of_nat (length (concat (map snd (leaves n)))))"
    using Cons.IH [of "L1 @ [(i, es)]" j fs] Cons.prems e by simp
  ultimately show ?case using sd ne so(1) by (subst leaflinks.simps) (simp add: in_order_sorted)
qed

lemma verify_iff:
  assumes T: "traits_ok T" and t: "tree_ok T t"
  shows "verify T t \<longleftrightarrow> st_size t < 2 ^ 32"
proof (cases "root t")
  case (Some n)
  then have ok: "shape T n" "1 \<le> slotuse n" "sorted (nkeys T n)" "linked (links t) (leaf_ids n)"
      "st_leaves (links t) = length (leaf_ids n)" "st_inner (links t) = inner_count n" "st_size t = length (nkeys T n)"
    using t by (auto simp: tree_ok_def chain_ok_def)
  have v: "verify_node T (links t) True n = Some (node_stats T n)"
    using verify_node_ok [OF T ok(1,3), of "links t" None None True] ok by (simp add: linked_def)
  have "leaf_ids n \<noteq> []" using leaf_ids_nonempty [OF ok(1)] .
  then obtain i es L2 where l: "leaves n = (i, es) # L2" by (cases "leaves n") (auto simp: leaf_ids_leaves)
  have "seg (links t) None (i # map fst L2) None" "head_leaf (links t) = Some i"
    using ok(4) l by (auto simp: linked_def leaf_ids_leaves)
  moreover have "leaflinks T t i 0 = Some (of_nat (st_size t))"
    using leaflinks_ok [OF T t Some, of "[]" i es L2] l ok(7) nkeys_leaves [of T n] by (simp add: length_concat comp_def)
  ultimately have "verify_leaflinks T t \<longleftrightarrow> unat (of_nat (st_size t) :: u32) = st_size t"
    by (simp add: verify_leaflinks_def)
  also have "\<dots> \<longleftrightarrow> st_size t mod 2 ^ 32 = st_size t" by (simp add: unat_of_nat)
  also have "\<dots> \<longleftrightarrow> st_size t < 2 ^ 32" by (metis mod_less mod_less_divisor zero_less_numeral zero_less_power)
  finally show ?thesis using Some v ok by (simp add: verify_def node_stats_def)
next
  case None
  then show ?thesis using t by (simp add: verify_def tree_ok_def)
qed

end
