(* ===== verification/Replay_Copy.thy ===== *)
theory Replay_Copy
  imports Replay_Verify
begin

text \<open>
  Copies, clearing and delays of whole replay trees, and the states a tree can reach through
  its public operations.
\<close>

section \<open>Copying\<close>

lemma linked_append_leaf:
  assumes "linked c is" "j = fresh c" "fresh c' = Suc j"
    and "next_leaf c' = (next_leaf c)(j := None)" "prev_leaf c' = (prev_leaf c)(j := None)"
    and "head_leaf c' = head_leaf c" "tail_leaf c' = tail_leaf c"
  shows "linked (append_leaf j c') (is @ [j])"
proof (cases "is" rule: rev_cases)
  case Nil
  then show ?thesis using assms by (simp add: linked_def append_leaf_def)
next
  case (snoc xs i)
  from assms snoc have l: "distinct (xs @ [i])" "\<forall>x \<in> set (xs @ [i]). x < j"
      "seg c None xs (Some i)" "prev_leaf c i = (if xs = [] then None else Some (last xs))"
      "head_leaf c = Some (hd (xs @ [i]))" "tail_leaf c = Some i"
    by (auto simp: linked_def seg_append split: if_splits)
  let ?c = "append_leaf j c'"
  have c: "?c = c'\<lparr>prev_leaf := (prev_leaf c)(j := Some i), next_leaf := (next_leaf c)(j := None, i := Some j), tail_leaf := Some j\<rparr>"
    using l assms(4-) by (simp add: append_leaf_def)
  have "seg ?c None xs (Some i)"
    by (rule seg_frame [OF l(3)]) (use l in \<open>auto simp: c\<close>)
  then show ?thesis using l assms(2,3,6) c snoc
    by (auto simp: linked_def seg_append hd_append less_SucI)
qed

lemma chain_ok_append_leaf:
  assumes "chain_ok c is k" "allocate_leaf c = (j, c')"
  shows "chain_ok (append_leaf j c') (is @ [j]) k"
proof -
  have "linked (append_leaf j c') (is @ [j])"
    by (rule linked_append_leaf [of c]) (use assms in \<open>auto simp: chain_ok_def allocate_leaf_def\<close>)
  then show ?thesis using assms
    by (auto simp: chain_ok_def allocate_leaf_def append_leaf_def split: option.splits)
qed

text \<open>A copy of a node agrees with it in everything but the identities of the leaves.\<close>

definition same_node :: "('k, 'v) traits \<Rightarrow> ('k, 'v) node \<Rightarrow> ('k, 'v) node \<Rightarrow> bool" where
  "same_node T n n' \<longleftrightarrow> (\<forall>a. entries a n' = entries a n) \<and> inner_count n' = inner_count n \<and> level n' = level n \<and>
     slotuse n' = slotuse n \<and> get_subtree_size n' = get_subtree_size n \<and> is_underflow T n' = is_underflow T n \<and>
     (shape T n \<longrightarrow> shape T n') \<and> nkeys T n' = nkeys T n"

lemma same_inner:
  fixes T :: "('k, 'v) traits"
  assumes "list_all2 (same_node T) cs cs'"
  shows "same_node T (Inner l s d ks cs) (Inner l s d ks cs')"
proof -
  note len = list_all2_lengthD [OF assms]
  have m: "map f cs' = map f cs" if f: "\<And>n n'. same_node T n n' \<Longrightarrow> f n' = f n" for f :: "('k, 'v) node \<Rightarrow> 'c"
  proof (rule nth_equalityI)
    show "map f cs' ! i = map f cs ! i" if "i < length (map f cs')" for i
      using f [of "cs ! i" "cs' ! i"] list_all2_nthD2 [OF assms, of i] that len by simp
  qed (simp add: len)
  have "map (lastkey T) cs' = map (lastkey T) cs" by (rule m) (simp add: same_node_def lastkey_def)
  then have lk: "map (lastkey T) (butlast cs') = map (lastkey T) (butlast cs)" by (simp add: map_butlast)
  have "cs \<noteq> [] \<longrightarrow> cs' \<noteq> []" using list_all2_lengthD [OF assms] by auto
  moreover have "\<forall>c \<in> set cs'. Suc (level c) = l \<and> \<not> is_underflow T c \<and> shape T c"
    if "\<forall>c \<in> set cs. Suc (level c) = l \<and> \<not> is_underflow T c \<and> shape T c"
  proof
    fix c assume "c \<in> set cs'"
    then obtain i where i: "i < length cs'" "c = cs' ! i" by (auto simp: in_set_conv_nth)
    then have "same_node T (cs ! i) c" "cs ! i \<in> set cs" using list_all2_nthD2 [OF assms i(1)] len by auto
    then show "Suc (level c) = l \<and> \<not> is_underflow T c \<and> shape T c" using that by (auto simp: same_node_def)
  qed
  moreover have "map get_subtree_size cs' = map get_subtree_size cs" by (rule m) (unfold same_node_def, blast)
  moreover have "map inner_count cs' = map inner_count cs" by (rule m) (unfold same_node_def, blast)
  moreover have "map (nkeys T) cs' = map (nkeys T) cs" by (rule m) (unfold same_node_def, blast)
  moreover have "map (entries a) cs' = map (entries a) cs" for a by (rule m) (unfold same_node_def, blast)
  ultimately show ?thesis
    unfolding same_node_def entries.simps nkeys.simps inner_count.simps level.simps slotuse.simps
      get_subtree_size.simps is_underflow.simps shape.simps lk by metis
qed

lemma copy_recursive_leaves:
  fixes n :: "('k, 'v) node" and ns :: "('k, 'v) node list"
  shows "length (leaf_ids (fst (copy_recursive n c))) = length (leaf_ids n)"
  "length (concat (map leaf_ids (fst (copy_children ns c)))) = length (concat (map leaf_ids ns))"
  by (induction n c and ns c rule: copy_recursive_copy_children.induct) (auto simp: Let_def split: prod.splits)

lemma copy_recursive_ok:
  shows "\<lbrakk>copy_recursive n c = (n', c'); chain_ok c is k\<rbrakk> \<Longrightarrow>
      same_node T n n' \<and> chain_ok c' (is @ leaf_ids n') (k + inner_count n')"
    and "\<lbrakk>copy_children ns c = (ns', c'); chain_ok c is k\<rbrakk> \<Longrightarrow>
      list_all2 (same_node T) ns ns' \<and> chain_ok c' (is @ concat (map leaf_ids ns')) (k + sum_list (map inner_count ns'))"
proof (induction n c and ns c arbitrary: n' c' "is" k and ns' c' "is" k rule: copy_recursive_copy_children.induct)
  case (1 i es c)
  then show ?case using chain_ok_append_leaf
    by (fastforce simp: same_node_def Let_def split: prod.splits)
next
  case (2 l s d ks cs c)
  obtain cs' where c: "copy_children cs (allocate_inner c) = (cs', c')" "n' = Inner l s d ks cs'"
    using 2(2) by (auto split: prod.splits)
  have "chain_ok (allocate_inner c) is (k + 1)"
    using chain_ok_st_inner [OF 2(3), of 1] by (simp add: allocate_inner_def)
  from 2(1) [OF c(1) this] show ?case using same_inner [of T cs cs'] c by auto
next
  case (4 n ns c)
  obtain m c1 ms where c: "copy_recursive n c = (m, c1)" "copy_children ns c1 = (ms, c')" "ns' = m # ms"
    using 4(3) by (auto split: prod.splits)
  from 4(1) [OF c(1) 4(4)] have m: "same_node T n m" "chain_ok c1 (is @ leaf_ids m) (k + inner_count m)" by auto
  from 4(2) [OF c(1)[symmetric] refl c(2) m(2)] show ?case using m c by (auto simp: add.assoc)
qed auto

lemma tree_ok_size: "tree_ok T t \<Longrightarrow> st_size t = length (tree_entries t)"
  by (auto simp: tree_ok_def tree_entries_def length_entries [of 0 _ T] split: option.splits)

lemma tree_ok_nonempty:
  assumes "traits_ok T" "tree_ok T t" "root t = Some n"
  shows "0 < st_size t"
proof -
  have "shape T n" "1 \<le> slotuse n" using assms by (auto simp: tree_ok_def)
  moreover obtain i es where "(i, es) \<in> set (leaves n)"
    using leaf_ids_nonempty [OF \<open>shape T n\<close>] by (cases "leaves n") (auto simp: leaf_ids_leaves)
  ultimately have "nkeys T n \<noteq> []" using leaves_nonempty [OF assms(1)] by (force simp: nkeys_leaves)
  then show ?thesis using assms by (simp add: tree_ok_def)
qed

lemma chain_new_ok: "chain_ok (c\<lparr>head_leaf := None, tail_leaf := None, st_leaves := 0, st_inner := 0\<rparr>) [] 0"
  by (simp add: chain_ok_def linked_def)

lemma copy_root_ok:
  assumes t: "tree_ok T t" "root t = Some n" and c: "chain_ok c [] 0" "copy_recursive n c = (n', c')"
  defines "t' \<equiv> \<lparr>root = Some n', links = c', st_size = st_size t\<rparr>"
  shows "tree_ok T t'" "tree_entries t' = tree_entries t"
    "st_leaves c' = st_leaves (links t)" "st_inner c' = st_inner (links t)"
proof -
  have s: "same_node T n n'" "chain_ok c' (leaf_ids n') (inner_count n')"
    using copy_recursive_ok(1) [OF c(2,1), of T] by auto
  then show "tree_ok T t'" "tree_entries t' = tree_entries t"
    using t by (auto simp: t'_def tree_ok_def tree_entries_def same_node_def)
  have "length (leaf_ids n') = length (leaf_ids n)"
    using copy_recursive_leaves(1) [of n c] c(2) by simp
  then show "st_leaves c' = st_leaves (links t)" "st_inner c' = st_inner (links t)"
    using s t by (auto simp: chain_ok_def tree_ok_def same_node_def)
qed

lemma copy_tree_ok:
  assumes T: "traits_ok T" and t: "tree_ok T t"
  shows "tree_ok T (copy_tree t)" "tree_entries (copy_tree t) = tree_entries t"
proof -
  let ?c = "chain_new\<lparr>st_leaves := 0, st_inner := 0\<rparr>"
  have c: "chain_ok ?c [] 0" by (simp add: chain_ok_def linked_def chain_new_def)
  have "tree_ok T (copy_tree t) \<and> tree_entries (copy_tree t) = tree_entries t"
  proof (cases "root t")
    case None
    then have "st_size t = 0" "st_leaves (links t) = 0" "st_inner (links t) = 0"
      using t by (auto simp: tree_ok_def chain_ok_def)
    then show ?thesis using None by (simp add: copy_tree_def tree_ok_def tree_entries_def chain_ok_def linked_def chain_new_def)
  next
    case (Some n)
    obtain n' c' where r: "copy_recursive n ?c = (n', c')" by fastforce
    have "copy_tree t = \<lparr>root = Some n', links = c', st_size = st_size t\<rparr>"
      using Some tree_ok_nonempty [OF T t Some] r by (simp add: copy_tree_def Let_def)
    then show ?thesis using copy_root_ok [OF t Some c r] by simp
  qed
  then show "tree_ok T (copy_tree t)" "tree_entries (copy_tree t) = tree_entries t" by auto
qed

lemma clear_ok: "tree_ok T t \<Longrightarrow> tree_ok T (clear t) \<and> tree_entries (clear t) = []"
  using chain_new_ok by (auto simp: clear_def tree_ok_def tree_entries_def Let_def split: option.splits)

lemma assign_tree_ok:
  assumes T: "traits_ok T" and t: "tree_ok T t" and u: "tree_ok T u"
  shows "tree_ok T (assign_tree t u) \<and> tree_entries (assign_tree t u) = tree_entries u"
proof (cases "root u")
  case None
  then have "st_size u = 0" "tree_entries u = []" using u by (auto simp: tree_ok_def tree_entries_def)
  then show ?thesis using clear_ok [OF t] by (simp add: assign_tree_def Let_def)
next
  case (Some n)
  let ?c = "(links (clear t))\<lparr>st_leaves := 0, st_inner := 0\<rparr>"
  have "root (clear t) = None" by (simp add: clear_def Let_def split: option.splits)
  then have "chain_ok (links (clear t)) [] 0" using clear_ok [OF t] by (simp add: tree_ok_def)
  then have c: "chain_ok ?c [] 0" by (simp add: chain_ok_def linked_def)
  obtain n' c' where r: "copy_recursive n ?c = (n', c')" by fastforce
  note ok = copy_root_ok [OF u Some c r]
  have "c'\<lparr>st_leaves := st_leaves (links u), st_inner := st_inner (links u)\<rparr> = c'"
    unfolding ok(3,4) [symmetric] by simp
  then have "assign_tree t u = \<lparr>root = Some n', links = c', st_size = st_size u\<rparr>"
    using Some tree_ok_nonempty [OF T u Some] r by (simp add: assign_tree_def Let_def)
  then show ?thesis using ok by simp
qed

lemma increase_global_delay_ok:
  assumes "tree_ok T t"
  shows "tree_ok T (increase_global_delay t)" "tree_entries (increase_global_delay t) = delay_slots 1 (tree_entries t)"
  using assms entries_shift [of 0 1]
  by (auto simp: increase_global_delay_def tree_ok_def tree_entries_def split: option.splits)

end
