(* ===== verification/Replay_Props.thy ===== *)
theory Replay_Props
  imports Replay_Copy
begin

text \<open>
  The properties of the replay tree. Their witnesses use small nodes, so that a few
  entries already fill several leaves.
\<close>

section \<open>Sequences of operations\<close>

inductive reaches :: "('k::linorder, 'v) traits \<Rightarrow> ('k, 'v) tree \<Rightarrow> bool" for T where
  reach_new: "reaches T tree_new"
| reach_insert: "\<lbrakk>reaches T t; tree_insert T v t = (it, t')\<rbrakk> \<Longrightarrow> reaches T t'"
| reach_erase: "\<lbrakk>reaches T t; erase T it t = Some (b, d, t')\<rbrakk> \<Longrightarrow> reaches T t'"
| reach_erase_val: "\<lbrakk>reaches T t; v \<in> fst ` set (tree_entries t); erase_val T v t = Some (b, r, d, t')\<rbrakk> \<Longrightarrow> reaches T t'"
| reach_delay: "reaches T t \<Longrightarrow> reaches T (increase_global_delay t)"
| reach_clear: "reaches T t \<Longrightarrow> reaches T (clear t)"
| reach_copy: "reaches T t \<Longrightarrow> reaches T (copy_tree t)"
| reach_assign: "\<lbrakk>reaches T t; reaches T u\<rbrakk> \<Longrightarrow> reaches T (assign_tree t u)"

lemma deref_at:
  assumes "tree_ok T t" "deref t it = Some v"
  obtains p where "at_pos t it p" "p < length (tree_entries t)" "fst (tree_entries t ! p) = v"
proof -
  obtain i s where it: "it = (Some i, s)" "s < length (slotdata t i)"
    using assms(2) by (cases it; cases "fst it") (auto split: if_splits)
  then obtain es where "map_of (tree_leaves t) i = Some es" "s < length es"
    by (auto simp: slotdata_def split: option.splits)
  then have p: "at_pos t it (it_pos i s (tree_leaves t))" using it by (auto simp: at_pos_def dest: map_of_SomeD)
  show thesis using that [OF p at_pos_less [OF assms(1) p]] deref_at_pos [OF assms(1) p] assms(2) by simp
qed

lemma first_position:
  assumes "v \<in> fst ` set es"
  obtains q where "q < length es" "fst (es ! q) = v" "\<forall>m < q. fst (es ! m) \<noteq> v"
proof -
  define q where "q = (LEAST q. q < length es \<and> fst (es ! q) = v)"
  have ex: "\<exists>q. q < length es \<and> fst (es ! q) = v" using assms by (force simp: in_set_conv_nth)
  note q = LeastI_ex [OF ex, folded q_def]
  have "\<forall>m < q. fst (es ! m) \<noteq> v"
  proof (intro allI impI)
    fix m assume "m < q"
    then show "fst (es ! m) \<noteq> v" using not_less_Least [of m "\<lambda>q. q < length es \<and> fst (es ! q) = v"] q by (auto simp: q_def)
  qed
  then show thesis using that q by blast
qed

lemma reaches_ok:
  assumes T: "traits_ok T"
  shows "reaches T t \<Longrightarrow> tree_ok T t"
proof (induction rule: reaches.induct)
  case (reach_erase t it b d t')
  show ?case
  proof (cases "deref t it")
    case None
    then show ?thesis using reach_erase by (auto simp: erase_def split: option.splits)
  next
    case (Some v)
    then obtain p where "at_pos t it p" using deref_at [OF reach_erase.IH] by blast
    from erase_ok [OF T reach_erase.IH this] show ?thesis using reach_erase by auto
  qed
next
  case (reach_erase_val t v b r d t')
  obtain q where "q < length (tree_entries t)" "fst (tree_entries t ! q) = v" "\<forall>m < q. fst (tree_entries t ! m) \<noteq> v"
    using first_position [OF reach_erase_val.hyps(2)] by blast
  from erase_val_ok [OF T reach_erase_val.IH this] show ?case using reach_erase_val by auto
qed (auto simp: tree_new_ok clear_ok assign_tree_ok [OF T] copy_tree_ok(1) [OF T] increase_global_delay_ok
    dest: tree_insert_ok(1) [OF T])

lemma lower_filter: "sorted ks \<Longrightarrow> lower ks key = length (filter (\<lambda>k. k < key) ks)"
proof (induction ks)
  case (Cons k ks)
  show ?case
  proof (cases "k < key")
    case False
    then have "filter (\<lambda>k. k < key) ks = []" using Cons.prems by (auto simp: filter_empty_conv)
    then show ?thesis using False by (simp add: lower_def)
  qed (use Cons in \<open>auto simp: lower_def\<close>)
qed (simp add: lower_def)

lemma tree_keys_sorted: "tree_ok T t \<Longrightarrow> sorted (tree_keys T t)"
  by (auto simp: tree_ok_def tree_keys_def tree_entries_def split: option.splits)

lemma insert_range_reaches: "reaches T t \<Longrightarrow> reaches T (insert_range T vs t)"
proof (induction vs arbitrary: t)
  case (Cons v vs)
  then show ?case using reach_insert [OF Cons.prems, of v "fst (tree_insert T v t)" "snd (tree_insert T v t)"] by simp
qed simp

definition tiny_traits :: "(nat, nat) traits" where
  "tiny_traits = \<lparr>leaf_slots = 4, inner_slots = 4, bin_leaf = True, bin_inner = False, key_of = id\<rparr>"

definition tiny_tree :: "(nat, nat) tree" where
  "tiny_tree = insert_range tiny_traits [50, 10, 40, 20, 30, 60, 15] tree_new"

lemma tiny_tree_ok: "traits_ok tiny_traits" "tree_ok tiny_traits tiny_tree"
proof -
  show T: "traits_ok tiny_traits" by (simp add: traits_ok_def tiny_traits_def)
  show "tree_ok tiny_traits tiny_tree"
    unfolding tiny_tree_def by (rule reaches_ok [OF T insert_range_reaches [OF reach_new]])
qed

section \<open>Properties\<close>

text \<open>
  C13: The rank and delay that \<^verbatim>\<open>erase_val\<close> returns. For a value in the tree the call succeeds and
  returns the number of entries with a smaller key and the accumulated delay of the erased
  entry, the first one with that value; afterwards exactly that entry is gone, every entry with
  a smaller key has one unit of delay more, and the tree is well formed.
\<close>

theorem erase_val_rank_and_delay:
  assumes "traits_ok T" "tree_ok T t" "v \<in> fst ` set (tree_entries t)"
  shows "\<exists>q r t'. q < length (tree_entries t) \<and> fst (tree_entries t ! q) = v \<and>
    r = length (filter (\<lambda>k. k < key_of T v) (tree_keys T t)) \<and>
    erase_val T v t = Some (True, r, snd (tree_entries t ! q), t') \<and> tree_ok T t' \<and>
    tree_entries t' = remove_at q (delay_slots 1 (take r (tree_entries t)) @ drop r (tree_entries t))"
proof -
  obtain q where q: "q < length (tree_entries t)" "fst (tree_entries t ! q) = v" "\<forall>m < q. fst (tree_entries t ! m) \<noteq> v"
    using first_position [OF assms(3)] by blast
  from erase_val_ok [OF assms(1,2) q] q(1,2) show ?thesis
    unfolding lower_filter [OF tree_keys_sorted [OF assms(2)]] delay_first_def by blast
qed

theorem erase_val_rank_and_delay_witness:
  "traits_ok tiny_traits \<and> tree_ok tiny_traits tiny_tree \<and> 40 \<in> fst ` set (tree_entries tiny_tree) \<and>
   (\<exists>r d t'. erase_val tiny_traits 40 tiny_tree = Some (True, r, d, t') \<and> tree_ok tiny_traits t')"
proof -
  have m: "40 \<in> fst ` set (tree_entries tiny_tree)" by code_simp
  show ?thesis using tiny_tree_ok m erase_val_rank_and_delay [OF tiny_tree_ok m] by blast
qed

text \<open>
  C14: \<^verbatim>\<open>insert\<close> puts the value, with delay zero, before the first entry whose key is not smaller,
  whatever leaves and inner nodes are split on the way; the iterator it returns refers to the
  value, and the tree stays well formed.
\<close>

theorem insert_at_lower_bound:
  assumes "traits_ok T" "tree_ok T t"
  shows "case tree_insert T v t of (it, t') \<Rightarrow> tree_ok T t' \<and> deref t' it = Some v \<and>
    (\<exists>xs ys. tree_entries t = xs @ ys \<and> tree_entries t' = xs @ (v, 0) # ys \<and>
       list_all (\<lambda>e. ekey T e < key_of T v) xs \<and> list_all (\<lambda>e. key_of T v \<le> ekey T e) ys)"
proof -
  obtain it t' where i: "tree_insert T v t = (it, t')" by fastforce
  note post = tree_insert_ok [OF assms i]
  let ?r = "lower (tree_keys T t) (key_of T v)"
  let ?xs = "take ?r (tree_entries t)" and ?ys = "drop ?r (tree_entries t)"
  have "ekeys T ?xs = takeWhile (\<lambda>k. k < key_of T v) (tree_keys T t)"
    by (simp add: tree_keys_def take_lower flip: take_map)
  then have "\<forall>k \<in> set (ekeys T ?xs). k < key_of T v" by (auto dest: set_takeWhileD)
  then have x: "list_all (\<lambda>e. ekey T e < key_of T v) ?xs" by (simp add: list_all_iff)
  have "ekeys T ?ys = dropWhile (\<lambda>k. k < key_of T v) (tree_keys T t)"
    by (simp add: tree_keys_def drop_lower flip: drop_map)
  then have "\<forall>k \<in> set (ekeys T ?ys). key_of T v \<le> k"
    using dropWhile_ge [OF tree_keys_sorted [OF assms(2)]] by auto
  then have y: "list_all (\<lambda>e. key_of T v \<le> ekey T e) ?ys" by (simp add: list_all_iff)
  have "tree_entries t' = ?xs @ (v, 0) # ?ys" using post(2) by (simp add: insert_at_def)
  moreover have "tree_entries t = ?xs @ ?ys" by simp
  ultimately have "\<exists>xs ys. tree_entries t = xs @ ys \<and> tree_entries t' = xs @ (v, 0) # ys \<and>
       list_all (\<lambda>e. ekey T e < key_of T v) xs \<and> list_all (\<lambda>e. key_of T v \<le> ekey T e) ys"
    using x y by blast
  then show ?thesis using i post(1,3) by simp
qed

theorem insert_at_lower_bound_witness:
  "case tree_insert tiny_traits 35 tiny_tree of (it, t') \<Rightarrow> tree_ok tiny_traits t' \<and> deref t' it = Some 35"
  using insert_at_lower_bound [OF tiny_tree_ok, of 35] by (auto split: prod.splits)

text \<open>
  C15: \<^verbatim>\<open>erase\<close> at an iterator that refers to an entry removes exactly that entry, through every
  merge and shift of leaves and inner nodes and every root collapse, and returns its
  accumulated delay; none of the assertions on siblings can be violated.
\<close>

theorem erase_removes_the_entry:
  assumes "traits_ok T" "tree_ok T t" "deref t it = Some v"
  shows "\<exists>xs d ys t'. tree_entries t = xs @ (v, d) # ys \<and> erase T it t = Some (True, d, t') \<and> tree_ok T t' \<and>
    tree_entries t' = xs @ ys"
proof -
  obtain p where p: "at_pos t it p" "p < length (tree_entries t)" "fst (tree_entries t ! p) = v"
    using deref_at [OF assms(2,3)] by blast
  have "tree_entries t = take p (tree_entries t) @ (v, snd (tree_entries t ! p)) # drop (Suc p) (tree_entries t)"
    using id_take_nth_drop [OF p(2)] p(3) by (metis prod.collapse)
  with erase_ok [OF assms(1,2) p(1)] show ?thesis unfolding remove_at_def by metis
qed

theorem erase_removes_the_entry_witness:
  "\<exists>xs d ys t'. tree_entries tiny_tree = xs @ (10, d) # ys \<and>
    erase tiny_traits (tree_begin tiny_tree) tiny_tree = Some (True, d, t') \<and> tree_ok tiny_traits t' \<and>
    tree_entries t' = xs @ ys"
proof -
  have "deref tiny_tree (tree_begin tiny_tree) = Some 10" by code_simp
  then show ?thesis by (rule erase_removes_the_entry [OF tiny_tree_ok])
qed

text \<open>
  C16: A tree that the public operations can produce passes its own self-check exactly when it has fewer
  than \<open>2 ^ 32\<close> entries: no assertion of \<^verbatim>\<open>verify\<close>, \<^verbatim>\<open>verify_node\<close> and \<^verbatim>\<open>verify_leaflinks\<close> fails below that size, so
  key order, fill bounds, separator keys, leaf links and the counters are always consistent; from \<open>2 ^ 32\<close>
  entries on, the 32-bit counter of \<^verbatim>\<open>verify_leaflinks\<close> has wrapped and its last assertion fails.
\<close>

theorem reachable_trees_verify:
  assumes "traits_ok T" "reaches T t"
  shows "verify T t \<longleftrightarrow> length (tree_entries t) < 2 ^ 32"
  using verify_iff [OF assms(1) reaches_ok [OF assms]] tree_ok_size [OF reaches_ok [OF assms]] by simp

theorem reachable_trees_verify_witness: "verify tiny_traits tiny_tree"
proof -
  have "verify tiny_traits tiny_tree \<longleftrightarrow> length (tree_entries tiny_tree) < 2 ^ 32"
    unfolding tiny_tree_def by (rule reachable_trees_verify [OF tiny_tree_ok(1) insert_range_reaches [OF reach_new]])
  moreover have "length (tree_entries tiny_tree) < 100" by code_simp
  ultimately show ?thesis by simp
qed

text \<open>
  C17: \<^verbatim>\<open>get_rank\<close>, which reads only the stored subtree sizes on one path, returns the number of
  entries with a smaller key.
\<close>

theorem get_rank_counts_smaller:
  assumes "traits_ok T" "tree_ok T t"
  shows "get_rank T key t = length (filter (\<lambda>k. k < key) (tree_keys T t))"
proof (cases "root t")
  case None
  then show ?thesis by (simp add: get_rank_def tree_keys_def tree_entries_def)
next
  case (Some n)
  then have n: "shape T n" "sorted (nkeys T n)" "tree_keys T t = nkeys T n"
    using assms(2) by (simp_all add: tree_ok_def tree_keys_def tree_entries_def)
  then show ?thesis using Some rank_descend_lower [OF assms(1) n(1,2)] lower_filter [OF n(2)] by (simp add: get_rank_def)
qed

theorem get_rank_counts_smaller_witness:
  "get_rank tiny_traits 40 tiny_tree = length (filter (\<lambda>k. k < 40) (tree_keys tiny_traits tiny_tree))"
  by (rule get_rank_counts_smaller [OF tiny_tree_ok])

text \<open>
  C18: Binary and linear search within a node agree on sorted keys, for both bounds: the choice
  made by the node-size threshold does not change any result.
\<close>

theorem node_searches_agree:
  assumes "sorted ks"
  shows "find_lower True ks key = find_lower False ks key \<and> find_upper True ks key = find_upper False ks key"
  using find_lower_lower [OF assms] find_upper_upper [OF assms] by simp

theorem node_searches_agree_witness:
  "find_lower True [1, 3, 3, 7 :: nat] 3 = find_lower False [1, 3, 3, 7 :: nat] 3 \<and>
   find_upper True [1, 3, 3, 7 :: nat] 3 = find_upper False [1, 3, 3, 7 :: nat] 3"
  by (rule node_searches_agree) simp

text \<open>
  C19: A copy, by the copy constructor or by assignment over any tree, has the same entries with
  the same delays, in a structure of its own that is well formed.
\<close>

theorem copies_have_the_same_entries:
  assumes "traits_ok T" "tree_ok T t" "tree_ok T u"
  shows "tree_entries (copy_tree t) = tree_entries t \<and> tree_ok T (copy_tree t) \<and>
    tree_entries (assign_tree u t) = tree_entries t \<and> tree_ok T (assign_tree u t)"
  using copy_tree_ok [OF assms(1,2)] assign_tree_ok [OF assms(1,3,2)] by simp

theorem copies_have_the_same_entries_witness:
  "tree_entries (copy_tree tiny_tree) = tree_entries tiny_tree \<and> tree_ok tiny_traits (copy_tree tiny_tree) \<and>
   tree_entries (assign_tree tree_new tiny_tree) = tree_entries tiny_tree \<and>
   tree_ok tiny_traits (assign_tree tree_new tiny_tree)"
  by (rule copies_have_the_same_entries [OF tiny_tree_ok tree_new_ok(1)])

end
