(* ===== verification/Quality.thy ===== *)
theory Quality
  imports Replay_Props
begin

text \<open>
  \<^verbatim>\<open>benchmarks/benchmark_quality.hpp\<close>: the replay of recorded pushes and pops. Every thread
  records, for each of its pops, the time at which the popped element was pushed and the time
  of the pop. The replay sorts both kinds of events by time, runs them through a replay tree
  and reports for every pop its rank error and its delay. Time stamps are naturals. The
  averages and deviations of \<^verbatim>\<open>analyze\<close> are floating point and left out; its maximum and its
  distribution are modelled.
\<close>

section \<open>The replay\<close>

fun collect :: "(nat \<times> nat) list list \<Rightarrow> (nat \<times> nat) list \<times> nat list" where
  "collect [] = ([], [])"
| "collect (thread_result # rest) =
     (let (pops, pushes) = collect rest
      in (map (\<lambda>(pushed, popped). (popped, pushed)) thread_result @ pops, map fst thread_result @ pushes))"

fun insert_due :: "(nat, nat) traits \<Rightarrow> nat \<Rightarrow> nat list \<Rightarrow> (nat, nat) tree \<Rightarrow> nat list \<times> (nat, nat) tree" where
  "insert_due T pop_time [] t = ([], t)"
| "insert_due T pop_time (p # ps) t =
     (if p \<le> pop_time then insert_due T pop_time ps (snd (tree_insert T p t)) else (p # ps, t))"

text \<open>\<^term>\<open>None\<close> where one of the two assertions of the loop fails.\<close>

fun replay_loop :: "(nat, nat) traits \<Rightarrow> nat list \<Rightarrow> (nat \<times> nat) list \<Rightarrow> (nat, nat) tree
    \<Rightarrow> (nat list \<times> int list) option" where
  "replay_loop T pushes [] t = Some ([], [])"
| "replay_loop T pushes ((pop_time, push_time) # pops) t =
     (let (pushes', t1) = insert_due T pop_time pushes t in
      if st_size t1 = 0 then None
      else case erase_val T push_time t1 of
             None \<Rightarrow> None
           | Some (success, rank_error, delay, t2) \<Rightarrow>
               if \<not> success then None
               else case replay_loop T pushes' pops t2 of
                      None \<Rightarrow> None
                    | Some (rank_errors, delays) \<Rightarrow> Some (rank_error # rank_errors, delay # delays))"

text \<open>
  \<^verbatim>\<open>std::sort\<close> is not stable, so the order of pops with equal times is up to the library: the
  sort of the pops is the parameter \<open>order\<close>.
\<close>

definition sorts :: "((nat \<times> nat) list \<Rightarrow> (nat \<times> nat) list) \<Rightarrow> (nat \<times> nat) list \<Rightarrow> bool" where
  "sorts order pops \<longleftrightarrow> mset (order pops) = mset pops \<and> sorted (map fst (order pops))"

definition quality_replay :: "(nat, nat) traits \<Rightarrow> ((nat \<times> nat) list \<Rightarrow> (nat \<times> nat) list)
    \<Rightarrow> (nat \<times> nat) list list \<Rightarrow> (nat list \<times> int list) option" where
  "quality_replay T order results =
     (let (pops, pushes) = collect results
      in replay_loop T (sort pushes) (order pops) tree_new)"

definition analyze_max :: "nat list \<Rightarrow> nat" where
  "analyze_max data = foldl max 0 data"

definition analyze_distribution :: "nat list \<Rightarrow> nat \<Rightarrow> nat" where
  "analyze_distribution data = foldl (\<lambda>d x. d(x := d x + 1)) (\<lambda>_. 0) data"

section \<open>What the replay measures\<close>

text \<open>
  The reference: an element is alive at a pop if it was pushed no later than that pop and has
  not been popped before. The rank error of a pop is the number of older elements alive; its
  delay is the number of earlier pops that took a younger element while it was alive.
\<close>

definition rank_error_spec :: "nat set \<Rightarrow> (nat \<times> nat) list \<Rightarrow> nat \<Rightarrow> nat" where
  "rank_error_spec U pops i =
     card {u \<in> U. u \<le> fst (pops ! i) \<and> u < snd (pops ! i) \<and> u \<notin> snd ` set (take i pops)}"

definition delay_spec :: "(nat \<times> nat) list \<Rightarrow> nat \<Rightarrow> nat" where
  "delay_spec pops i = card {j. j < i \<and> snd (pops ! i) \<le> fst (pops ! j) \<and> snd (pops ! i) < snd (pops ! j)}"

definition pending :: "(nat \<times> nat) list \<Rightarrow> nat \<Rightarrow> nat \<Rightarrow> nat" where
  "pending pops i u = card {j. j < i \<and> u \<le> fst (pops ! j) \<and> u < snd (pops ! j)}"

lemma insert_due_spec:
  assumes T: "traits_ok T" "key_of T = id"
    and "tree_ok T t" "sorted ps" "insert_due T pt ps t = (ps', t')"
  shows "tree_ok T t' \<and> ps' = dropWhile (\<lambda>p. p \<le> pt) ps \<and>
    set (tree_entries t') = set (tree_entries t) \<union> (\<lambda>p. (p, 0)) ` set (takeWhile (\<lambda>p. p \<le> pt) ps) \<and>
    length (tree_entries t') = length (tree_entries t) + length (takeWhile (\<lambda>p. p \<le> pt) ps)"
  using assms(3-)
proof (induction ps arbitrary: t)
  case (Cons p ps)
  show ?case
  proof (cases "p \<le> pt")
    case True
    obtain it t1 where i: "tree_insert T p t = (it, t1)" by fastforce
    note post = tree_insert_ok [OF T(1) Cons.prems(1) i]
    have "set (insert_at k x xs) = insert x (set xs)" for k and x :: "nat \<times> int" and xs
      by (metis append_take_drop_id insert_at_def list.simps(15) set_append Un_insert_right)
    then have "set (tree_entries t1) = insert (p, 0) (set (tree_entries t))"
      "length (tree_entries t1) = Suc (length (tree_entries t))" using post by auto
    moreover have "insert_due T pt ps t1 = (ps', t')" "sorted ps" using Cons.prems True i by auto
    ultimately show ?thesis using Cons.IH [OF post(1)] True by auto
  qed (use Cons in auto)
qed auto

lemma delay_first_map:
  assumes "sorted (map fst es)"
  shows "delay_first (lower (map fst es) v) es = map (\<lambda>(u, d). (u, if u < v then d + 1 else d)) es"
  using assms
proof (induction es)
  case (Cons e es)
  obtain u d where e: "e = (u, d)" by (cases e)
  show ?case
  proof (cases "u < v")
    case True
    then show ?thesis using Cons e by (simp add: lower_def delay_first_def)
  next
    case False
    have "map (\<lambda>(u, d). (u, if u < v then d + 1 else d)) es = es"
      using False Cons.prems e by (intro map_idI) auto
    then show ?thesis using False e by (simp add: lower_def delay_first_def)
  qed
qed (simp add: lower_def delay_first_def)

lemma set_remove_at:
  assumes "distinct (map fst zs)" "q < length zs" "fst (zs ! q) = v"
  shows "set (remove_at q zs) = {z \<in> set zs. fst z \<noteq> v}" "distinct (map fst (remove_at q zs))"
proof -
  have zs: "zs = take q zs @ zs ! q # drop (Suc q) zs" using id_take_nth_drop [OF assms(2)] .
  have "distinct (map fst (take q zs) @ v # map fst (drop (Suc q) zs))"
    using assms(1,3) by (subst (asm) zs) simp
  then have d: "v \<notin> fst ` set (take q zs)" "v \<notin> fst ` set (drop (Suc q) zs)"
    "distinct (map fst (take q zs) @ map fst (drop (Suc q) zs))" by auto
  have all: "set zs = set (take q zs) \<union> {zs ! q} \<union> set (drop (Suc q) zs)" using arg_cong [OF zs, of set] by auto
  have "\<forall>z \<in> set (take q zs) \<union> set (drop (Suc q) zs). fst z \<noteq> v" using d(1,2) by blast
  then show "set (remove_at q zs) = {z \<in> set zs. fst z \<noteq> v}" unfolding all remove_at_def using assms(3) by auto
  show "distinct (map fst (remove_at q zs))" using d(3) by (simp add: remove_at_def)
qed

lemma erase_val_set:
  fixes T :: "(nat, nat) traits"
  assumes T: "traits_ok T" "key_of T = id" and t: "tree_ok T t" and d: "distinct (map fst (tree_entries t))"
    and v: "(v, dv) \<in> set (tree_entries t)"
  shows "\<exists>t'. erase_val T v t = Some (True, card {u \<in> fst ` set (tree_entries t). u < v}, dv, t') \<and> tree_ok T t' \<and>
    distinct (map fst (tree_entries t')) \<and>
    set (tree_entries t') = (\<lambda>(u, d). (u, if u < v then d + 1 else d)) ` {e \<in> set (tree_entries t). fst e \<noteq> v}"
proof -
  let ?es = "tree_entries t" and ?f = "\<lambda>(u :: nat, d :: int). (u, if u < v then d + 1 else d)"
  obtain q where q: "q < length ?es" "?es ! q = (v, dv)" using v by (metis in_set_conv_nth)
  have u: "\<forall>m < q. fst (?es ! m) \<noteq> v"
    using d q by (metis (no_types, opaque_lifting) distinct_conv_nth fst_conv length_map less_trans nat_neq_iff nth_map)
  have k: "tree_keys T t = map fst ?es" using T(2) by (simp add: tree_keys_def ekey_def)
  have so: "sorted (map fst ?es)" using tree_keys_sorted [OF t] k by simp
  obtain t' where t': "erase_val T v t = Some (True, lower (map fst ?es) v, dv, t')" "tree_ok T t'"
      "tree_entries t' = remove_at q (map ?f ?es)"
    using erase_val_ok [OF T(1) t q(1) _ u] q T(2) k delay_first_map [OF so] by auto
  have "card {u \<in> fst ` set ?es. u < v} = card (set (filter (\<lambda>u. u < v) (map fst ?es)))"
    by (rule arg_cong [where f = card]) auto
  also have "\<dots> = length (filter (\<lambda>u. u < v) (map fst ?es))" using d by (intro distinct_card distinct_filter)
  also have "\<dots> = lower (map fst ?es) v" using lower_filter [OF so] by simp
  finally have r: "card {u \<in> fst ` set ?es. u < v} = lower (map fst ?es) v" .
  have m: "map fst (map ?f ?es) = map fst ?es" by auto
  have "fst (map ?f ?es ! q) = v" using q by simp
  note rem = set_remove_at [of "map ?f ?es" q v, unfolded m, OF d _ this]
  have "set (tree_entries t') = {z \<in> ?f ` set ?es. fst z \<noteq> v}" using rem(1) q(1) t'(3) by simp
  also have "\<dots> = ?f ` {e \<in> set ?es. fst e \<noteq> v}" by force
  finally show ?thesis using t' r rem(2) q(1) by auto
qed

lemma pending_Suc: "pending pops (Suc i) u = pending pops i u + (if u \<le> fst (pops ! i) \<and> u < snd (pops ! i) then 1 else 0)"
proof -
  let ?P = "\<lambda>j. u \<le> fst (pops ! j) \<and> u < snd (pops ! j)"
  have "{j. j < Suc i \<and> ?P j} = (if ?P i then insert i {j. j < i \<and> ?P j} else {j. j < i \<and> ?P j})"
    by (auto simp: less_Suc_eq)
  then show ?thesis by (simp add: pending_def)
qed

text \<open>The state of the replay before pop number \<^term>\<open>i\<close>.\<close>

definition replay_state :: "(nat, nat) traits \<Rightarrow> nat set \<Rightarrow> (nat \<times> nat) list \<Rightarrow> nat \<Rightarrow> nat list \<Rightarrow> (nat, nat) tree \<Rightarrow> bool" where
  "replay_state T U pops i ps t \<longleftrightarrow> tree_ok T t \<and> sorted ps \<and> distinct ps \<and>
     set ps = {u \<in> U. \<forall>j < i. fst (pops ! j) < u} \<and> distinct (map fst (tree_entries t)) \<and>
     set (tree_entries t) = (\<lambda>u. (u, int (pending pops i u))) `
       {u \<in> U. (\<exists>j < i. u \<le> fst (pops ! j)) \<and> u \<notin> snd ` set (take i pops)}"

definition recorded :: "nat set \<Rightarrow> (nat \<times> nat) list \<Rightarrow> bool" where
  "recorded U pops \<longleftrightarrow> sorted (map fst pops) \<and> distinct (map snd pops) \<and> U = snd ` set pops \<and>
     (\<forall>(pop_time, push_time) \<in> set pops. push_time \<le> pop_time)"

lemma replay_step:
  assumes T: "traits_ok T" "key_of T = id" and rec: "recorded U pops" and i: "i < length pops"
    and st: "replay_state T U pops i ps t" and due: "insert_due T (fst (pops ! i)) ps t = (ps', t1)"
  shows "0 < st_size t1"
    and "\<exists>t2. erase_val T (snd (pops ! i)) t1 = Some (True, rank_error_spec U pops i, int (delay_spec pops i), t2) \<and>
      replay_state T U pops (Suc i) ps' t2"
proof -
  let ?pt = "fst (pops ! i)" and ?v = "snd (pops ! i)"
  have so: "fst (pops ! j) \<le> ?pt" if "j \<le> i" for j
    using rec i that sorted_nth_mono [of "map fst pops" j i] by (simp add: recorded_def)
  have le: "snd (pops ! j) \<le> fst (pops ! j)" if "j < length pops" for j
    using rec that nth_mem [OF that] by (auto simp: recorded_def case_prod_beta)
  have popped: "snd ` set (take k pops) = (\<lambda>j. snd (pops ! j)) ` {j. j < k}" if "k \<le> length pops" for k
    unfolding nth_image [OF that, symmetric] by (auto simp: image_image)
  have vnew: "?v \<notin> snd ` set (take i pops)"
  proof
    assume "?v \<in> snd ` set (take i pops)"
    then obtain j where j: "j < i" "snd (pops ! j) = ?v" using popped [of i] i by auto
    moreover have "distinct (map snd pops)" using rec by (simp add: recorded_def)
    ultimately have "j = i" using i nth_eq_iff_index_eq [of "map snd pops" j i] by simp
    then show False using j by simp
  qed
  have s: "tree_ok T t" "sorted ps" "distinct ps" "set ps = {u \<in> U. \<forall>j < i. fst (pops ! j) < u}"
    "distinct (map fst (tree_entries t))" "set (tree_entries t) = (\<lambda>u. (u, int (pending pops i u))) `
       {u \<in> U. (\<exists>j < i. u \<le> fst (pops ! j)) \<and> u \<notin> snd ` set (take i pops)}"
    using st by (auto simp: replay_state_def)
  note ins = insert_due_spec [OF T s(1,2) due]
  have tw: "set (takeWhile (\<lambda>p. p \<le> ?pt) ps) = {u \<in> set ps. u \<le> ?pt}"
    "set (dropWhile (\<lambda>p. p \<le> ?pt) ps) = {u \<in> set ps. ?pt < u}"
    using s(2) by (induction ps) (auto simp: not_le less_le_trans)
  let ?L = "{u \<in> U. u \<le> ?pt \<and> u \<notin> snd ` set (take i pops)}"
  have fresh: "pending pops i u = 0" if "\<forall>j < i. fst (pops ! j) < u" for u
    using that by (auto simp: pending_def not_le)
  have alive: "?L = {u \<in> U. (\<exists>j < i. u \<le> fst (pops ! j)) \<and> u \<notin> snd ` set (take i pops)} \<union> {u \<in> set ps. u \<le> ?pt}"
  proof -
    have "u \<notin> snd ` set (take i pops)" if "\<forall>j < i. fst (pops ! j) < u" for u
      using that le i by (auto simp: popped) (metis less_trans not_le)
    then show ?thesis using so s(4) by (auto simp: not_less) (metis le_trans less_imp_le)+
  qed
  have ent: "set (tree_entries t1) = (\<lambda>u. (u, int (pending pops i u))) ` ?L"
    unfolding alive image_Un using ins s(4,6) tw fresh by (auto simp: image_iff)
  have "card (fst ` set (tree_entries t1)) = length (tree_entries t1)"
  proof -
    have "fst ` set (tree_entries t1) = fst ` set (tree_entries t) \<union> {u \<in> set ps. u \<le> ?pt}"
      using ins tw by (auto simp: image_Un image_image)
    moreover have "fst ` set (tree_entries t) \<inter> {u \<in> set ps. u \<le> ?pt} = {}" using s(4,6) by (force simp: not_less)
    moreover have "card (fst ` set (tree_entries t)) = length (tree_entries t)" using distinct_card [OF s(5)] by simp
    moreover have "card {u \<in> set ps. u \<le> ?pt} = length (takeWhile (\<lambda>p. p \<le> ?pt) ps)"
      using distinct_card [of "takeWhile (\<lambda>p. p \<le> ?pt) ps"] s(3) tw by simp
    ultimately show ?thesis using ins by (simp add: card_Un_disjoint)
  qed
  then have d: "distinct (map fst (tree_entries t1))" by (simp add: card_distinct)
  have vL: "?v \<in> ?L" using rec i le [OF i] vnew by (auto simp: recorded_def)
  then have v: "(?v, int (pending pops i ?v)) \<in> set (tree_entries t1)" unfolding ent by blast
  then have "tree_entries t1 \<noteq> []" by auto
  moreover have "tree_ok T t1" using ins by simp
  ultimately show "0 < st_size t1" using tree_ok_size by (metis length_greater_0_conv)
  obtain t2 where e: "erase_val T ?v t1 = Some (True, card {u \<in> fst ` set (tree_entries t1). u < ?v}, int (pending pops i ?v), t2)"
    and ok: "tree_ok T t2" "distinct (map fst (tree_entries t2))"
    and set2: "set (tree_entries t2) = (\<lambda>(u, d). (u, if u < ?v then d + 1 else d)) ` {e \<in> set (tree_entries t1). fst e \<noteq> ?v}"
    using erase_val_set [OF T _ d v] ins by blast
  have "{u \<in> fst ` set (tree_entries t1). u < ?v} = {u \<in> U. u \<le> ?pt \<and> u < ?v \<and> u \<notin> snd ` set (take i pops)}"
    unfolding ent by (auto simp: image_image)
  moreover have "pending pops i ?v = delay_spec pops i" by (simp add: pending_def delay_spec_def)
  moreover have "replay_state T U pops (Suc i) ps' t2"
  proof -
    have "set (tree_entries t2) = (\<lambda>u. (u, int (pending pops (Suc i) u))) ` (?L - {?v})"
    proof -
      have "(u, int (pending pops (Suc i) u)) = (\<lambda>(u, d). (u, if u < ?v then d + 1 else d)) (u, int (pending pops i u))"
        if "u \<le> ?pt" for u using that by (simp add: pending_Suc)
      then show ?thesis unfolding set2 ent by (force simp: image_iff)
    qed
    moreover have "?L - {?v} = {u \<in> U. (\<exists>j < Suc i. u \<le> fst (pops ! j)) \<and> u \<notin> snd ` set (take (Suc i) pops)}"
      using so i by (auto simp: take_Suc_conv_app_nth less_Suc_eq intro: le_trans)
    moreover have "set ps' = {u \<in> U. \<forall>j < Suc i. fst (pops ! j) < u}"
      using ins tw s(4) by (auto simp: less_Suc_eq)
    moreover have "sorted ps'" "distinct ps'" using ins s(2,3) by (auto simp: sorted_wrt_dropWhile)
    ultimately show ?thesis using ok by (simp add: replay_state_def)
  qed
  ultimately show "\<exists>t2. erase_val T ?v t1 = Some (True, rank_error_spec U pops i, int (delay_spec pops i), t2) \<and>
      replay_state T U pops (Suc i) ps' t2"
    using e by (auto simp: rank_error_spec_def)
qed

lemma replay_loop_spec:
  assumes T: "traits_ok T" "key_of T = id" and rec: "recorded U pops"
  shows "\<lbrakk>replay_state T U pops i ps t; i \<le> length pops\<rbrakk> \<Longrightarrow>
    replay_loop T ps (drop i pops) t =
      Some (map (rank_error_spec U pops) [i..<length pops], map (\<lambda>i. int (delay_spec pops i)) [i..<length pops])"
proof (induction "length pops - i" arbitrary: i ps t)
  case (Suc n)
  then have i: "i < length pops" "n = length pops - Suc i" by auto
  obtain ps' t1 where due: "insert_due T (fst (pops ! i)) ps t = (ps', t1)" by fastforce
  note step = replay_step [OF T rec i(1) Suc.prems(1) due]
  obtain t2 where e: "erase_val T (snd (pops ! i)) t1 = Some (True, rank_error_spec U pops i, int (delay_spec pops i), t2)"
    and st: "replay_state T U pops (Suc i) ps' t2" using step(2) by blast
  have dr: "drop i pops = (fst (pops ! i), snd (pops ! i)) # drop (Suc i) pops" using i(1) by (simp add: Cons_nth_drop_Suc)
  have up: "[i..<length pops] = i # [Suc i..<length pops]" using i(1) by (simp add: upt_conv_Cons)
  show ?case using Suc.hyps(1) [OF i(2) st] i step(1) e due unfolding dr up by (simp del: prod.collapse)
qed simp

section \<open>The replay of a recorded run\<close>

lemma collect_concat:
  "collect results = (map (\<lambda>(pushed, popped). (popped, pushed)) (concat results), map fst (concat results))"
  by (induction results) auto

lemma analyze_spec:
  "analyze_max data = Max (insert 0 (set data))" "analyze_distribution data x = count_list data x"
proof -
  show "analyze_max data = Max (insert 0 (set data))"
    unfolding analyze_max_def by (induction data rule: rev_induct) (simp_all add: insert_commute [of 0] max.commute)
  have "foldl (\<lambda>d x. d(x := d x + 1)) f data x = f x + count_list data x" for f :: "nat \<Rightarrow> nat"
    by (induction data arbitrary: f) auto
  then show "analyze_distribution data x = count_list data x" by (simp add: analyze_distribution_def)
qed

lemma replay_state_init:
  assumes "distinct pushes" "U = set pushes"
  shows "replay_state T U pops 0 (sort pushes) tree_new"
  using assms by (simp add: replay_state_def tree_new_ok)

text \<open>
  C20: the quality benchmark measures what it reports. For recorded pushes and pops, with distinct
  push times and no pop before its push, the replay passes all its assertions and its lists hold,
  for every pop in the order of the pop times, the number of older elements still in the queue and
  the number of earlier pops that overtook the element.
\<close>

theorem quality_replay_measures:
  fixes T :: "(nat, nat) traits"
  assumes "traits_ok T" "key_of T = id" "distinct (map fst (concat results))"
    and "\<forall>(pushed, popped) \<in> set (concat results). pushed \<le> popped"
    and "sorts order (fst (collect results))"
  defines "pops \<equiv> order (fst (collect results))" and "U \<equiv> set (snd (collect results))"
  shows "quality_replay T order results =
    Some (map (rank_error_spec U pops) [0..<length pops], map (\<lambda>i. int (delay_spec pops i)) [0..<length pops])"
proof -
  let ?pops = "map (\<lambda>(pushed, popped). (popped, pushed)) (concat results)"
  have so: "mset pops = mset ?pops" "sorted (map fst pops)"
    using assms(5) by (simp_all add: sorts_def pops_def collect_concat)
  have sn: "map snd ?pops = map fst (concat results)" by (simp add: case_prod_beta comp_def)
  have d: "distinct (map snd pops)"
    using assms(3) so(1) sn by (metis mset_eq_imp_distinct_iff mset_map)
  have s: "set pops = set ?pops" using so(1) by (rule mset_eq_setD)
  have "U = snd ` set pops" unfolding s U_def collect_concat by (force simp: image_iff)
  moreover have "\<forall>(pop_time, push_time) \<in> set pops. push_time \<le> pop_time" unfolding s using assms(4) by auto
  ultimately have rec: "recorded U pops" using so(2) d by (simp add: recorded_def)
  have "replay_state T U pops 0 (sort (map fst (concat results))) tree_new"
    using assms(3) by (intro replay_state_init) (simp_all add: U_def collect_concat)
  from replay_loop_spec [OF assms(1,2) rec this] show ?thesis
    by (simp add: quality_replay_def collect_concat pops_def)
qed

theorem quality_replay_measures_witness:
  "quality_replay tiny_traits (sort_key fst) [[(1, 4), (3, 9)], [(2, 6), (5, 7)]] =
     Some (map (rank_error_spec {1, 2, 3, 5} [(4, 1), (6, 2), (7, 5), (9, 3)]) [0..<4],
       map (\<lambda>i. int (delay_spec [(4, 1), (6, 2), (7, 5), (9, 3)] i)) [0..<4]) \<and>
   quality_replay tiny_traits (sort_key fst) [[(1, 4), (3, 9)], [(2, 6), (5, 7)]] = Some ([0, 0, 1, 0], [0, 0, 0, 1])"
proof
  let ?r = "[[(1, 4), (3, 9)], [(2, 6), (5, 7)]] :: (nat \<times> nat) list list"
  have "quality_replay tiny_traits (sort_key fst) ?r =
      Some (map (rank_error_spec (set (snd (collect ?r))) (sort_key fst (fst (collect ?r)))) [0..<length (sort_key fst (fst (collect ?r)))],
       map (\<lambda>i. int (delay_spec (sort_key fst (fst (collect ?r))) i)) [0..<length (sort_key fst (fst (collect ?r)))])"
    by (rule quality_replay_measures) (use tiny_tree_ok in \<open>simp_all add: tiny_traits_def sorts_def\<close>)
  moreover have "sort_key fst (fst (collect ?r)) = [(4, 1), (6, 2), (7, 5), (9, 3)]" by simp
  moreover have "set (snd (collect ?r)) = {1, 2, 3, 5}" by auto
  moreover have "length [(4 :: nat, 1 :: nat), (6, 2), (7, 5), (9, 3)] = 4" by simp
  ultimately show "quality_replay tiny_traits (sort_key fst) ?r =
     Some (map (rank_error_spec {1, 2, 3, 5} [(4, 1), (6, 2), (7, 5), (9, 3)]) [0..<4],
       map (\<lambda>i. int (delay_spec [(4, 1), (6, 2), (7, 5), (9, 3)] i)) [0..<4])" by (simp only:)
  show "quality_replay tiny_traits (sort_key fst) ?r = Some ([0, 0, 1, 0], [0, 0, 0, 1])" by code_simp
qed

end
