(* ===== verification/Multi_Fifo.thy ===== *)
theory Multi_Fifo
  imports Ring_Buffer Utility
begin

text \<open>
  \<^verbatim>\<open>contenders/multififo/multififo.hpp\<close> and \<^verbatim>\<open>handle.hpp\<close>: the MultiFifo spreads its elements over
  several ring buffers, each behind its own try-lock. A \<^verbatim>\<open>Context\<close> is the buffer of all queues with
  their guards; the byte pointer the source passes around is the number of the queue it points to.
  The queue data of a guard and the shared data of the context belong to the mode and are type
  parameters, as in the template. A handle first asks its mode for a queue and then scans all of
  them. The time stamp a push may take is an argument: a push reads the clock at most once.
\<close>

section \<open>The context\<close>

record 'a Element =
  tick :: u64
  elem_value :: 'a

record 'd QueueGuard =
  queue_data :: 'd
  lock :: u32
  q_head :: u64
  q_tail :: u64

record ('d, 'a) storage = "'d QueueGuard" +
  elems :: "'a Element list"

record ('d, 's, 'a) Context =
  num_queues :: nat
  size_per_queue :: u64
  buffer :: "('d, 'a) storage list"
  index_mask :: u64
  id_count :: int
  stickiness :: int
  seed :: int
  shared_data :: 's

text \<open>
  The constructor. \<open>d\<close> is the queue data of a fresh guard and \<open>sh\<close> builds the shared data of the
  mode. \<^term>\<open>None\<close> where the assertion on the number of queues fails.
\<close>

definition Context_new :: "'d \<Rightarrow> (nat \<Rightarrow> 's) \<Rightarrow> nat \<Rightarrow> u64 \<Rightarrow> int \<Rightarrow> int \<Rightarrow> ('d, 's, 'a::zero) Context option" where
  "Context_new d sh queue_count sz sticky sd =
     (if queue_count = 0 then None
      else let spq = bit_ceil (unat ((sz + of_nat queue_count - 1) div of_nat queue_count));
               s = \<lparr>queue_data = d, lock = 0, q_head = 0, q_tail = 0,
                    elems = replicate spq \<lparr>tick = 0, elem_value = 0\<rparr>\<rparr>
           in Some \<lparr>num_queues = queue_count, size_per_queue = of_nat spq, buffer = replicate queue_count s,
                    index_mask = of_nat spq - 1, id_count = 0, stickiness = sticky, seed = sd,
                    shared_data = sh queue_count\<rparr>)"

definition MultiFifo_new :: "'d \<Rightarrow> (nat \<Rightarrow> 's) \<Rightarrow> nat \<Rightarrow> u64 \<Rightarrow> nat \<Rightarrow> int \<Rightarrow> int \<Rightarrow> ('d, 's, 'a::zero) Context option" where
  "MultiFifo_new d sh num_threads sz thread_multiplier sticky sd =
     Context_new d sh (num_threads * thread_multiplier) sz sticky sd"

definition upd_storage :: "nat \<Rightarrow> (('d, 'a) storage \<Rightarrow> ('d, 'a) storage) \<Rightarrow> ('d, 's, 'a) Context \<Rightarrow> ('d, 's, 'a) Context" where
  "upd_storage i f c = c\<lparr>buffer := (buffer c)[i := f (buffer c ! i)]\<rparr>"

definition top_elem :: "nat \<Rightarrow> ('d, 's, 'a) Context \<Rightarrow> 'a Element" where
  "top_elem i c = elems (buffer c ! i) ! unat (q_tail (buffer c ! i) AND index_mask c)"

definition bottom_elem :: "nat \<Rightarrow> ('d, 's, 'a) Context \<Rightarrow> 'a Element" where
  "bottom_elem i c = elems (buffer c ! i) ! unat (q_head (buffer c ! i) AND index_mask c)"

definition ctx_top :: "nat \<Rightarrow> ('d, 's, 'a) Context \<Rightarrow> 'a" where
  "ctx_top i c = elem_value (top_elem i c)"

definition try_lock :: "nat \<Rightarrow> ('d, 's, 'a) Context \<Rightarrow> bool \<times> ('d, 's, 'a) Context" where
  "try_lock i c =
     (if lock (buffer c ! i) AND 1 = 0
      then (lock (buffer c ! i) AND 1 = 0, upd_storage i (lock_update (\<lambda>_. 1)) c)
      else (False, c))"

definition unlock :: "nat \<Rightarrow> ('d, 's, 'a) Context \<Rightarrow> ('d, 's, 'a) Context" where
  "unlock i c = upd_storage i (lock_update (\<lambda>_. 0)) c"

definition unsafe_empty :: "nat \<Rightarrow> ('d, 's, 'a) Context \<Rightarrow> bool" where
  "unsafe_empty i c \<longleftrightarrow> q_head (buffer c ! i) = q_tail (buffer c ! i)"

definition unsafe_size :: "nat \<Rightarrow> ('d, 's, 'a) Context \<Rightarrow> u64" where
  "unsafe_size i c = q_head (buffer c ! i) - q_tail (buffer c ! i)"

definition ctx_pop :: "nat \<Rightarrow> ('d, 's, 'a) Context \<Rightarrow> ('d, 's, 'a) Context" where
  "ctx_pop i c = upd_storage i (q_tail_update (\<lambda>t. t + 1)) c"

definition ctx_push :: "nat \<Rightarrow> 'a Element \<Rightarrow> ('d, 's, 'a) Context \<Rightarrow> ('d, 's, 'a) Context" where
  "ctx_push i e c =
     upd_storage i (\<lambda>s. s\<lparr>elems := (elems s)[unat (q_head s AND index_mask c) := e], q_head := q_head s + 1\<rparr>) c"

definition new_id :: "('d, 's, 'a) Context \<Rightarrow> int \<times> ('d, 's, 'a) Context" where
  "new_id c = (id_count c, c\<lparr>id_count := id_count c + 1\<rparr>)"

definition set_queue_data :: "nat \<Rightarrow> 'd \<Rightarrow> ('d, 's, 'a) Context \<Rightarrow> ('d, 's, 'a) Context" where
  "set_queue_data i d c = upd_storage i (queue_data_update (\<lambda>_. d)) c"

section \<open>The handle\<close>

text \<open>
  The block every push shares: try the lock, test for a full queue, push and tell the mode, release
  the lock. The result is \<^term>\<open>None\<close> where the lock is taken and \<^term>\<open>Some False\<close> on a full queue;
  in the same way for a pop.
\<close>

definition locked_push :: "(nat \<Rightarrow> ('d, 's, 'a) Context \<Rightarrow> ('d, 's, 'a) Context) \<Rightarrow> u64 \<Rightarrow> 'a \<Rightarrow> nat
    \<Rightarrow> ('d, 's, 'a) Context \<Rightarrow> bool option \<times> ('d, 's, 'a) Context" where
  "locked_push pushed now v i c =
     (let (ok, c1) = try_lock i c in
      if \<not> ok then (None, c1)
      else if unsafe_size i c1 = size_per_queue c1 then (Some False, unlock i c1)
      else (Some True, unlock i (pushed i (ctx_push i \<lparr>tick = now, elem_value = v\<rparr> c1))))"

definition locked_pop :: "(nat \<Rightarrow> ('d, 's, 'a) Context \<Rightarrow> ('d, 's, 'a) Context) \<Rightarrow> nat
    \<Rightarrow> ('d, 's, 'a) Context \<Rightarrow> 'a option option \<times> ('d, 's, 'a) Context" where
  "locked_pop popped i c =
     (let (ok, c1) = try_lock i c in
      if \<not> ok then (None, c1)
      else if unsafe_empty i c1 then (Some None, unlock i c1)
      else (Some (Some (ctx_top i c1)), unlock i (popped i (ctx_pop i c1))))"

fun scan_push :: "(nat \<Rightarrow> ('d, 's, 'a) Context \<Rightarrow> ('d, 's, 'a) Context) \<Rightarrow> u64 \<Rightarrow> 'a \<Rightarrow> nat list
    \<Rightarrow> ('d, 's, 'a) Context \<Rightarrow> bool \<times> ('d, 's, 'a) Context" where
  "scan_push pushed now v [] c = (False, c)"
| "scan_push pushed now v (i # is) c =
     (case locked_push pushed now v i c of
        (Some True, c1) \<Rightarrow> (True, c1)
      | (_, c1) \<Rightarrow> scan_push pushed now v is c1)"

fun scan_pop :: "(nat \<Rightarrow> ('d, 's, 'a) Context \<Rightarrow> ('d, 's, 'a) Context) \<Rightarrow> nat list
    \<Rightarrow> ('d, 's, 'a) Context \<Rightarrow> 'a option \<times> ('d, 's, 'a) Context" where
  "scan_pop popped [] c = (None, c)"
| "scan_pop popped (i # is) c =
     (case locked_pop popped i c of
        (Some (Some v), c1) \<Rightarrow> (Some v, c1)
      | (_, c1) \<Rightarrow> scan_pop popped is c1)"

text \<open>The mode's own attempt is an argument; \<^term>\<open>None\<close> where it does not return.\<close>

definition handle_push :: "(u64 \<Rightarrow> 'a \<Rightarrow> ('d, 's, 'a) Context \<Rightarrow> 'h \<Rightarrow> (bool \<times> ('d, 's, 'a) Context \<times> 'h) option)
    \<Rightarrow> (nat \<Rightarrow> ('d, 's, 'a) Context \<Rightarrow> ('d, 's, 'a) Context) \<Rightarrow> u64 \<Rightarrow> 'a \<Rightarrow> ('d, 's, 'a) Context \<Rightarrow> 'h
    \<Rightarrow> (bool \<times> ('d, 's, 'a) Context \<times> 'h) option" where
  "handle_push try_push pushed now v c h =
     (case try_push now v c h of
        None \<Rightarrow> None
      | Some (success, c1, h1) \<Rightarrow>
          if success then Some (True, c1, h1)
          else let (b, c2) = scan_push pushed now v [0..<num_queues c1] c1 in Some (b, c2, h1))"

definition handle_pop :: "(('d, 's, 'a) Context \<Rightarrow> 'h \<Rightarrow> ('a option \<times> ('d, 's, 'a) Context \<times> 'h) option)
    \<Rightarrow> (nat \<Rightarrow> ('d, 's, 'a) Context \<Rightarrow> ('d, 's, 'a) Context) \<Rightarrow> ('d, 's, 'a) Context \<Rightarrow> 'h
    \<Rightarrow> ('a option \<times> ('d, 's, 'a) Context \<times> 'h) option" where
  "handle_pop try_pop popped c h =
     (case try_pop c h of
        None \<Rightarrow> None
      | Some (Some v, c1, h1) \<Rightarrow> Some (Some v, c1, h1)
      | Some (None, c1, h1) \<Rightarrow> let (r, c2) = scan_pop popped [0..<num_queues c1] c1 in Some (r, c2, h1))"

section \<open>The queues of a context\<close>

definition ring_of :: "u64 \<Rightarrow> ('d, 'a) storage \<Rightarrow> 'a Element RingBuffer" where
  "ring_of m s = \<lparr>rb_c = elems s, rb_head = q_head s, rb_tail = q_tail s, rb_mask = m\<rparr>"

text \<open>What a context holds: the elements of every queue, oldest first, and the lock words.\<close>

definition queues :: "('d, 's, 'a) Context \<Rightarrow> 'a Element list list" where
  "queues c = map (\<lambda>s. rb_items (ring_of (index_mask c) s)) (buffer c)"

definition locks :: "('d, 's, 'a) Context \<Rightarrow> u32 list" where
  "locks c = map lock (buffer c)"

definition unheld :: "('d, 's, 'a) Context \<Rightarrow> nat \<Rightarrow> bool" where
  "unheld c i \<longleftrightarrow> i < num_queues c \<and> lock (buffer c ! i) = 0"

definition mf_inv :: "('d, 's, 'a) Context \<Rightarrow> bool" where
  "mf_inv c \<longleftrightarrow> length (buffer c) = num_queues c \<and> 0 < num_queues c \<and>
     (\<forall>s \<in> set (buffer c). rb_invar (ring_of (index_mask c) s) \<and> length (elems s) = unat (size_per_queue c) \<and>
        lock s \<in> {0, 1})"

definition mf_frame :: "('d, 's, 'a) Context \<Rightarrow> ('d, 's, 'a) Context \<Rightarrow> bool" where
  "mf_frame c c' \<longleftrightarrow> num_queues c' = num_queues c \<and> size_per_queue c' = size_per_queue c \<and>
     index_mask c' = index_mask c \<and> stickiness c' = stickiness c \<and> shared_data c' = shared_data c"

end
