(* ===== verification/Multi_Fifo_Laws.thy ===== *)
theory Multi_Fifo_Laws
  imports Multi_Fifo
begin

text \<open>
  The operations of a MultiFifo context on the abstract lists of queues: every queue behaves like
  the ring buffer, a queue whose lock is held is never touched, and the lock words are restored.
  The locale \<open>mf_mode\<close> states what a handle relies on of its mode; the guarantees of the handle
  are proved once, in the locale, and every mode interprets it.
\<close>

section \<open>Updates of one queue\<close>

lemma upd_storage_fields [simp]:
  "num_queues (upd_storage i f c) = num_queues c" "size_per_queue (upd_storage i f c) = size_per_queue c"
  "index_mask (upd_storage i f c) = index_mask c" "stickiness (upd_storage i f c) = stickiness c"
  "shared_data (upd_storage i f c) = shared_data c" "id_count (upd_storage i f c) = id_count c"
  "buffer (upd_storage i f c) = (buffer c)[i := f (buffer c ! i)]"
  by (simp_all add: upd_storage_def)

lemma mf_frame_refl [simp]: "mf_frame c c"
  and mf_frame_upd [simp]: "mf_frame c (upd_storage i f c') \<longleftrightarrow> mf_frame c c'"
  by (simp_all add: mf_frame_def)

lemma mf_frame_trans: "mf_frame a b \<Longrightarrow> mf_frame b c \<Longrightarrow> mf_frame a c"
  by (simp add: mf_frame_def)

text \<open>
  Between taking and releasing the lock of queue \<open>i\<close> an operation replaces the storage of that
  queue, and the mode adds queue data to it; what counts is the storage the sequence ends with.
\<close>

lemma lock_sequence:
  "unlock i (set_queue_data i d (upd_storage i f (upd_storage i (lock_update (\<lambda>_. 1)) c))) =
   (if i < length (buffer c)
    then upd_storage i (\<lambda>s. lock_update (\<lambda>_. 0) (queue_data_update (\<lambda>_. d) (f (lock_update (\<lambda>_. 1) s)))) c else c)"
  by (simp add: unlock_def set_queue_data_def upd_storage_def list_update_beyond)

lemma unlock_relock:
  "i < length (buffer c) \<Longrightarrow> lock (buffer c ! i) = 0 \<Longrightarrow> unlock i (upd_storage i (lock_update (\<lambda>_. 1)) c) = c"
proof -
  assume "i < length (buffer c)" "lock (buffer c ! i) = 0"
  then have "(buffer c)[i := (buffer c ! i)\<lparr>lock := 0\<rparr>] = buffer c"
    by (metis (mono_tags) QueueGuard.surjective QueueGuard.update_convs(2) list_update_id)
  with \<open>i < length (buffer c)\<close> show ?thesis by (simp add: unlock_def upd_storage_def)
qed

section \<open>One attempt at one queue\<close>

text \<open>The two outcomes of an attempt, on the abstract queues.\<close>

definition pushes :: "'a Element \<Rightarrow> ('d, 's, 'a) Context \<Rightarrow> bool \<Rightarrow> ('d, 's, 'a) Context \<Rightarrow> bool" where
  "pushes e c b c' \<longleftrightarrow> mf_inv c' \<and> locks c' = locks c \<and> num_queues c' = num_queues c \<and>
     size_per_queue c' = size_per_queue c \<and>
     (if b then \<exists>i. unheld c i \<and> length (queues c ! i) < unat (size_per_queue c) \<and>
                  queues c' = (queues c)[i := queues c ! i @ [e]]
      else queues c' = queues c)"

definition pops :: "('d, 's, 'a) Context \<Rightarrow> 'a option \<Rightarrow> ('d, 's, 'a) Context \<Rightarrow> bool" where
  "pops c r c' \<longleftrightarrow> mf_inv c' \<and> locks c' = locks c \<and> num_queues c' = num_queues c \<and>
     size_per_queue c' = size_per_queue c \<and>
     (case r of None \<Rightarrow> queues c' = queues c
      | Some v \<Rightarrow> \<exists>i e es. unheld c i \<and> queues c ! i = e # es \<and> elem_value e = v \<and>
          queues c' = (queues c)[i := es])"

definition mode_note :: "(nat \<Rightarrow> ('d, 's, 'a) Context \<Rightarrow> ('d, 's, 'a) Context) \<Rightarrow> bool" where
  "mode_note f \<longleftrightarrow> (\<forall>i c. \<exists>d. f i c = set_queue_data i d c)"

lemma queues_nth: "i < length (buffer c) \<Longrightarrow> queues c ! i = rb_items (ring_of (index_mask c) (buffer c ! i))"
  by (simp add: queues_def)

lemma mf_inv_nth:
  assumes "mf_inv c" "i < num_queues c"
  shows "i < length (buffer c)" "rb_invar (ring_of (index_mask c) (buffer c ! i))"
    "length (elems (buffer c ! i)) = unat (size_per_queue c)" "lock (buffer c ! i) \<in> {0, 1}"
    "lock (buffer c ! i) AND 1 = 0 \<longleftrightarrow> unheld c i"
proof -
  show i: "i < length (buffer c)" using assms by (simp add: mf_inv_def)
  then have "buffer c ! i \<in> set (buffer c)" by simp
  with assms(1) show "rb_invar (ring_of (index_mask c) (buffer c ! i))"
    "length (elems (buffer c ! i)) = unat (size_per_queue c)" "lock (buffer c ! i) \<in> {0, 1}"
    unfolding mf_inv_def by blast+
  then show "lock (buffer c ! i) AND 1 = 0 \<longleftrightarrow> unheld c i" using assms(2) by (auto simp: unheld_def)
qed

text \<open>Replacing the storage of one queue by one with good elements.\<close>

lemma upd_storage_effect:
  assumes "mf_inv c" "i < num_queues c" "rb_invar (ring_of (index_mask c) (f (buffer c ! i)))"
    and "length (elems (f (buffer c ! i))) = length (elems (buffer c ! i))" "lock (f (buffer c ! i)) = lock (buffer c ! i)"
  shows "mf_inv (upd_storage i f c)" "locks (upd_storage i f c) = locks c"
    "queues (upd_storage i f c) = (queues c)[i := rb_items (ring_of (index_mask c) (f (buffer c ! i)))]"
proof -
  note n = mf_inv_nth [OF assms(1,2)]
  have "set ((buffer c)[i := f (buffer c ! i)]) \<subseteq> insert (f (buffer c ! i)) (set (buffer c))"
    by (rule set_update_subset_insert)
  moreover let ?P = "\<lambda>s. rb_invar (ring_of (index_mask c) s) \<and> length (elems s) = unat (size_per_queue c) \<and> lock s \<in> {0, 1}"
  have "?P (f (buffer c ! i))" using assms(3-) n(3,4) by simp
  moreover have "\<forall>s \<in> set (buffer c). ?P s" using assms(1) unfolding mf_inv_def by blast
  ultimately have "\<forall>s \<in> set ((buffer c)[i := f (buffer c ! i)]). ?P s" by blast
  then show "mf_inv (upd_storage i f c)" using assms(1) by (simp add: mf_inv_def)
  show "locks (upd_storage i f c) = locks c" using assms(5) by (simp add: locks_def map_update list_update_same_conv n(1))
  show "queues (upd_storage i f c) = (queues c)[i := rb_items (ring_of (index_mask c) (f (buffer c ! i)))]"
    by (simp add: queues_def map_update)
qed

lemma locked_push_cases:
  fixes c :: "('d, 's, 'a) Context"
  assumes "mf_inv c" "i < num_queues c" "mode_note pushed" "locked_push pushed now v i c = (r, c')"
  shows "case r of None \<Rightarrow> \<not> unheld c i \<and> c' = c
    | Some False \<Rightarrow> unheld c i \<and> length (queues c ! i) = unat (size_per_queue c) \<and> c' = c
    | Some True \<Rightarrow> unheld c i \<and> length (queues c ! i) < unat (size_per_queue c) \<and> mf_frame c c' \<and> mf_inv c' \<and>
        locks c' = locks c \<and> queues c' = (queues c)[i := queues c ! i @ [\<lparr>tick = now, elem_value = v\<rparr>]]"
proof (cases "unheld c i")
  case False
  then show ?thesis using assms mf_inv_nth(5) [OF assms(1,2)] by (auto simp: locked_push_def try_lock_def)
next
  case True
  let ?c1 = "upd_storage i (lock_update (\<lambda>_. 1)) c" and ?e = "\<lparr>tick = now, elem_value = v\<rparr>" and ?s = "buffer c ! i"
  let ?b = "ring_of (index_mask c) ?s"
  note n = mf_inv_nth [OF assms(1,2)]
  have l: "try_lock i c = (True, ?c1)" using True n(5) by (simp add: try_lock_def)
  have sz: "unsafe_size i ?c1 = rb_size ?b" using n(1) by (simp add: unsafe_size_def rb_size_def ring_of_def)
  have len: "length (queues c ! i) = unat (rb_size ?b)" using n(1) by (simp add: queues_nth rb_items_length)
  have cap: "rb_capacity ?b = unat (size_per_queue c)" using n(3) by (simp add: rb_capacity_def ring_of_def)
  have full: "unsafe_size i ?c1 = size_per_queue ?c1 \<longleftrightarrow> length (queues c ! i) = unat (size_per_queue c)"
    unfolding sz len by (simp add: word_eq_unat)
  show ?thesis
  proof (cases "length (queues c ! i) = unat (size_per_queue c)")
    case True
    then show ?thesis using assms(4) l full unlock_relock [OF n(1)] \<open>unheld c i\<close>
      by (auto simp: locked_push_def unheld_def)
  next
    case False
    then have lt: "length (rb_items ?b) < rb_capacity ?b"
      using n(2,3) unfolding queues_nth [OF n(1)] cap [symmetric]
      by (simp add: rb_items_length rb_invar_def rb_capacity_def)
    define g where "g = (\<lambda>s :: ('d, 'a) storage. s\<lparr>elems := (elems s)[unat (q_head s AND index_mask c) := ?e], q_head := q_head s + 1\<rparr>)"
    obtain d where d: "pushed i (ctx_push i ?e ?c1) = set_queue_data i d (ctx_push i ?e ?c1)"
      using assms(3) unfolding mode_note_def by blast
    define f where "f = (\<lambda>s. lock_update (\<lambda>_. 0) (queue_data_update (\<lambda>_. d) (g (lock_update (\<lambda>_. 1) s))))"
    have c': "c' = upd_storage i f c" "r = Some True"
      using assms(4) l full False d lock_sequence [of i d g c] n(1)
      by (auto simp: locked_push_def ctx_push_def g_def f_def)
    have rf: "ring_of (index_mask c) (f ?s) = rb_push ?e ?b" by (simp add: f_def g_def ring_of_def rb_push_def)
    note p = rb_push_items [OF n(2) lt, of ?e]
    have "lock (f ?s) = lock ?s" using \<open>unheld c i\<close> by (simp add: f_def unheld_def)
    moreover have "length (elems (f ?s)) = length (elems ?s)" by (simp add: f_def g_def)
    ultimately show ?thesis
      using upd_storage_effect [OF assms(1,2), of f] p lt unfolding c' rf cap [symmetric] queues_nth [OF n(1)]
      by (simp add: \<open>unheld c i\<close>)
  qed
qed

lemma locked_pop_cases:
  fixes c :: "('d, 's, 'a) Context"
  assumes "mf_inv c" "i < num_queues c" "mode_note popped" "locked_pop popped i c = (r, c')"
  shows "case r of None \<Rightarrow> \<not> unheld c i \<and> c' = c
    | Some None \<Rightarrow> unheld c i \<and> queues c ! i = [] \<and> c' = c
    | Some (Some v) \<Rightarrow> unheld c i \<and> mf_frame c c' \<and> mf_inv c' \<and> locks c' = locks c \<and>
        (\<exists>e es. queues c ! i = e # es \<and> elem_value e = v \<and> queues c' = (queues c)[i := es])"
proof (cases "unheld c i")
  case False
  then show ?thesis using assms mf_inv_nth(5) [OF assms(1,2)] by (auto simp: locked_pop_def try_lock_def)
next
  case True
  let ?c1 = "upd_storage i (lock_update (\<lambda>_. 1)) c" and ?s = "buffer c ! i"
  let ?b = "ring_of (index_mask c) ?s"
  note n = mf_inv_nth [OF assms(1,2)]
  have l: "try_lock i c = (True, ?c1)" using True n(5) by (simp add: try_lock_def)
  have "unsafe_empty i ?c1 \<longleftrightarrow> rb_empty ?b" using n(1) by (simp add: unsafe_empty_def rb_empty_def rb_size_def ring_of_def)
  then have empty: "unsafe_empty i ?c1 \<longleftrightarrow> queues c ! i = []" using n(1) by (simp add: queues_nth rb_empty_iff)
  show ?thesis
  proof (cases "queues c ! i")
    case Nil
    then show ?thesis using assms(4) l empty unlock_relock [OF n(1)] True by (auto simp: locked_pop_def unheld_def)
  next
    case (Cons e es)
    then have items: "rb_items ?b = e # es" using n(1) by (simp add: queues_nth)
    note p = rb_pop_items [OF n(2) items]
    obtain d where d: "popped i (ctx_pop i ?c1) = set_queue_data i d (ctx_pop i ?c1)"
      using assms(3) unfolding mode_note_def by blast
    define f where "f = (\<lambda>s :: ('d, 'a) storage. lock_update (\<lambda>_. 0) (queue_data_update (\<lambda>_. d) (q_tail_update (\<lambda>t. t + 1) (lock_update (\<lambda>_. 1) s))))"
    have top: "ctx_top i ?c1 = elem_value e"
      using p n(1) by (simp add: ctx_top_def top_elem_def rb_top_def ring_of_def)
    have c': "c' = upd_storage i f c" "r = Some (Some (elem_value e))"
      using assms(4) l empty Cons d top lock_sequence [of i d "q_tail_update (\<lambda>t. t + 1)" c] n(1)
      by (auto simp: locked_pop_def ctx_pop_def f_def)
    have rf: "ring_of (index_mask c) (f ?s) = rb_pop ?b" by (simp add: f_def ring_of_def rb_pop_def)
    have "lock (f ?s) = lock ?s" using True by (simp add: f_def unheld_def)
    moreover have "length (elems (f ?s)) = length (elems ?s)" by (simp add: f_def)
    ultimately show ?thesis
      using upd_storage_effect [OF assms(1,2), of f] p Cons unfolding c' rf by (simp add: True)
  qed
qed

lemma locked_push_pushes:
  assumes "mf_inv c" "i < num_queues c" "mode_note pushed" "locked_push pushed now v i c = (Some b, c')"
  shows "pushes \<lparr>tick = now, elem_value = v\<rparr> c b c' \<and> mf_frame c c'"
  using locked_push_cases [OF assms] assms(1) by (cases b) (auto simp: pushes_def mf_frame_def)

lemma locked_pop_pops:
  assumes "mf_inv c" "i < num_queues c" "mode_note popped" "locked_pop popped i c = (Some r, c')"
  shows "pops c r c' \<and> mf_frame c c'"
proof (cases r)
  case None
  then show ?thesis using locked_pop_cases [OF assms] assms(1) by (simp add: pops_def)
next
  case (Some v)
  then obtain e es where "queues c ! i = e # es" "elem_value e = v" "queues c' = (queues c)[i := es]" "unheld c i"
    "mf_frame c c'" "mf_inv c'" "locks c' = locks c" using locked_pop_cases [OF assms] by auto
  then show ?thesis unfolding pops_def Some mf_frame_def by (auto intro!: exI [of _ i])
qed

lemma locked_held:
  assumes "mf_inv c" "i < num_queues c"
  shows "mode_note pushed \<Longrightarrow> locked_push pushed now v i c = (None, c') \<Longrightarrow> c' = c \<and> \<not> unheld c i"
    and "mode_note popped \<Longrightarrow> locked_pop popped i c = (None, c') \<Longrightarrow> c' = c \<and> \<not> unheld c i"
  using locked_push_cases [OF assms] locked_pop_cases [OF assms] by fastforce+

section \<open>The scans\<close>

lemma scan_push_spec:
  assumes "mf_inv c" "set is \<subseteq> {..<num_queues c}" "mode_note pushed" "scan_push pushed now v is c = (b, c')"
  shows "mf_frame c c' \<and> pushes \<lparr>tick = now, elem_value = v\<rparr> c b c' \<and>
    (\<not> b \<longrightarrow> c' = c \<and> (\<forall>i \<in> set is. unheld c i \<longrightarrow> length (queues c ! i) = unat (size_per_queue c)))"
  using assms(2,4)
proof (induction "is")
  case Nil
  then show ?case using assms(1) by (auto simp: pushes_def)
next
  case (Cons i "is")
  obtain r c1 where r: "locked_push pushed now v i c = (r, c1)" by fastforce
  have i: "i < num_queues c" using Cons.prems by simp
  note l = locked_push_cases [OF assms(1) i assms(3) r]
  show ?case
  proof (cases "r = Some True")
    case True
    then have "b" "c' = c1" using Cons.prems r by auto
    then show ?thesis using l True by (auto simp: pushes_def mf_frame_def)
  next
    case False
    then have c1: "c1 = c" "unheld c i \<longrightarrow> length (queues c ! i) = unat (size_per_queue c)"
      using l by (auto split: option.splits bool.splits)
    have "scan_push pushed now v is c = (b, c')"
      using Cons.prems r False unfolding c1 by (auto split: option.splits bool.splits)
    from Cons.IH [OF _ this] Cons.prems c1(2) show ?thesis by auto
  qed
qed

lemma scan_pop_spec:
  assumes "mf_inv c" "set is \<subseteq> {..<num_queues c}" "mode_note popped" "scan_pop popped is c = (r, c')"
  shows "mf_frame c c' \<and> pops c r c' \<and> (r = None \<longrightarrow> c' = c \<and> (\<forall>i \<in> set is. unheld c i \<longrightarrow> queues c ! i = []))"
  using assms(2,4)
proof (induction "is")
  case Nil
  then show ?case using assms(1) by (auto simp: pops_def)
next
  case (Cons i "is")
  obtain a c1 where a: "locked_pop popped i c = (a, c1)" by fastforce
  have i: "i < num_queues c" using Cons.prems by simp
  note l = locked_pop_cases [OF assms(1) i assms(3) a]
  show ?case
  proof (cases "\<exists>v. a = Some (Some v)")
    case True
    then obtain v where v: "a = Some (Some v)" by blast
    then have "r = Some v" "c' = c1" using Cons.prems a by auto
    then show ?thesis using l v by (auto simp: pops_def mf_frame_def)
  next
    case False
    then have c1: "c1 = c" "unheld c i \<longrightarrow> queues c ! i = []" using l by (auto split: option.splits)
    have "scan_pop popped is c = (r, c')" using Cons.prems a False unfolding c1 by (auto split: option.splits)
    from Cons.IH [OF _ this] Cons.prems c1(2) show ?thesis by auto
  qed
qed

lemma unheld_locks: "locks c' = locks c \<Longrightarrow> num_queues c' = num_queues c \<Longrightarrow> mf_inv c \<Longrightarrow> unheld c' i \<longleftrightarrow> unheld c i"
  unfolding unheld_def locks_def mf_inv_def by (metis length_map nth_map)

text \<open>Two attempts in a row, of which the first changed no queue.\<close>

lemma pushes_after:
  assumes "mf_inv c" "pushes e c False c1" "pushes e c1 b c'" shows "pushes e c b c'"
  using assms unheld_locks [of c1 c] by (auto simp: pushes_def)

lemma pops_after:
  assumes "mf_inv c" "pops c None c1" "pops c1 r c'" shows "pops c r c'"
  using assms unheld_locks [of c1 c] by (cases r) (auto simp: pops_def)

section \<open>The contents of a context\<close>

definition mf_content :: "('d, 's, 'a) Context \<Rightarrow> 'a multiset" where
  "mf_content c = mset (map elem_value (concat (queues c)))"

lemma mset_concat_replace:
  "i < length xss \<Longrightarrow> mset (concat (xss[i := ys])) + mset (xss ! i) = mset (concat xss) + mset ys"
  by (induction xss arbitrary: i) (auto split: nat.splits simp: ac_simps)

lemma unheld_queue: "mf_inv c \<Longrightarrow> unheld c i \<Longrightarrow> i < length (queues c)"
  by (simp add: unheld_def mf_inv_def queues_def)

lemma pushes_content:
  assumes "mf_inv c" "pushes e c b c'"
  shows "mf_content c' = (if b then add_mset (elem_value e) (mf_content c) else mf_content c)"
proof (cases b)
  case True
  then obtain i where i: "unheld c i" "queues c' = (queues c)[i := queues c ! i @ [e]]" using assms(2) by (auto simp: pushes_def)
  have "mset (concat (queues c')) = add_mset e (mset (concat (queues c)))"
    using mset_concat_replace [OF unheld_queue [OF assms(1) i(1)], of "queues c ! i @ [e]"] by (simp add: i(2))
  then show ?thesis using True by (simp add: mf_content_def del: mset_concat)
qed (use assms in \<open>simp add: pushes_def mf_content_def\<close>)

lemma pops_content:
  assumes "mf_inv c" "pops c (Some v) c'"
  shows "mf_content c = add_mset v (mf_content c')"
proof -
  obtain i e es where i: "unheld c i" "queues c ! i = e # es" "elem_value e = v" "queues c' = (queues c)[i := es]"
    using assms(2) by (auto simp: pops_def)
  have "mset (concat (queues c)) = add_mset e (mset (concat (queues c')))"
    using mset_concat_replace [OF unheld_queue [OF assms(1) i(1)], of es] by (simp add: i)
  then show ?thesis using i(3) by (simp add: mf_content_def del: mset_concat)
qed

section \<open>The constructor\<close>

lemma Context_new_ok:
  fixes c :: "('d, 's, 'a::zero) Context"
  assumes "Context_new d sh queue_count sz sticky sd = Some c"
    and "unat ((sz + of_nat queue_count - 1) div of_nat queue_count) \<le> 2 ^ 63"
  shows "mf_inv c" "\<forall>i < num_queues c. unheld c i" "num_queues c = queue_count" "shared_data c = sh queue_count"
    "concat (queues c) = []" "mf_content c = {#}" "stickiness c = sticky"
    "\<forall>s \<in> set (buffer c). queue_data s = d \<and> q_head s = 0 \<and> q_tail s = 0 \<and> (\<forall>e \<in> set (elems s). tick e = 0)"
proof -
  let ?n = "unat ((sz + of_nat queue_count - 1) div of_nat queue_count)"
  let ?e = "\<lparr>tick = 0, elem_value = 0\<rparr> :: 'a Element"
  let ?s = "\<lparr>queue_data = d, lock = 0, q_head = 0, q_tail = 0, elems = replicate (bit_ceil ?n) ?e\<rparr>"
  have q: "queue_count \<noteq> 0" and c: "c = \<lparr>num_queues = queue_count, size_per_queue = of_nat (bit_ceil ?n),
      buffer = replicate queue_count ?s, index_mask = of_nat (bit_ceil ?n) - 1,
      id_count = 0, stickiness = sticky, seed = sd, shared_data = sh queue_count\<rparr>"
    using assms(1) by (simp_all add: Context_new_def Let_def split: if_splits)
  obtain k where k: "bit_ceil ?n = 2 ^ k" "k \<le> 63" using bit_ceil_bound [OF assms(2)] by blast
  have small: "bit_ceil ?n < 2 ^ 64" using k power_increasing [of k 63 "2 :: nat"] by simp
  have m: "(of_nat (bit_ceil ?n) - 1 :: u64) = mask k" using k by (simp add: mask_eq_exp_minus_1)
  have empty: "rb_items (ring_of m ?s) = []" for m by (simp add: ring_of_def rb_items_def rb_size_def)
  have "ring_shape (replicate (bit_ceil ?n) ?e) (mask k)" using k by (auto simp: ring_shape_def)
  then have "rb_invar (ring_of (mask k) ?s)" by (simp add: ring_of_def rb_invar_def rb_size_def)
  then show "mf_inv c" using q unat_of_nat_small [of "bit_ceil ?n", where 'a = 64] small
    unfolding c mf_inv_def m by simp
  show "\<forall>i < num_queues c. unheld c i" by (simp add: c unheld_def)
  show "concat (queues c) = []" using empty by (simp add: c queues_def concat_replicate_trivial)
  then show "mf_content c = {#}" by (simp add: mf_content_def)
qed (use assms(1) in \<open>auto simp: Context_new_def Let_def split: if_splits\<close>)

section \<open>What a handle relies on\<close>

text \<open>
  A system: the context, the handles by number, and the readings of the clock still to come.
\<close>

type_synonym ('d, 's, 'a, 'h) mf_system = "('d, 's, 'a) Context \<times> (nat \<Rightarrow> 'h) \<times> u64 list"

definition sys_push :: "(u64 \<Rightarrow> 'a \<Rightarrow> ('d, 's, 'a) Context \<Rightarrow> 'h \<Rightarrow> (bool \<times> ('d, 's, 'a) Context \<times> 'h) option)
    \<Rightarrow> (nat \<Rightarrow> ('d, 's, 'a) Context \<Rightarrow> ('d, 's, 'a) Context) \<Rightarrow> nat \<Rightarrow> 'a \<Rightarrow> ('d, 's, 'a, 'h) mf_system
    \<Rightarrow> (bool \<times> ('d, 's, 'a, 'h) mf_system) option" where
  "sys_push try_push pushed n x = (\<lambda>(c, hs, clock).
     case clock of [] \<Rightarrow> None
     | now # rest \<Rightarrow> map_option (\<lambda>(b, c', h'). (b, c', hs(n := h'), rest)) (handle_push try_push pushed now x c (hs n)))"

definition sys_pop :: "(('d, 's, 'a) Context \<Rightarrow> 'h \<Rightarrow> ('a option \<times> ('d, 's, 'a) Context \<times> 'h) option)
    \<Rightarrow> (nat \<Rightarrow> ('d, 's, 'a) Context \<Rightarrow> ('d, 's, 'a) Context) \<Rightarrow> nat \<Rightarrow> ('d, 's, 'a, 'h) mf_system
    \<Rightarrow> ('a option \<times> ('d, 's, 'a, 'h) mf_system) option" where
  "sys_pop try_pop popped n = (\<lambda>(c, hs, clock).
     map_option (\<lambda>(r, c', h'). (r, c', hs(n := h'), clock)) (handle_pop try_pop popped c (hs n)))"

definition sys_content :: "('d, 's, 'a, 'h) mf_system \<Rightarrow> 'a multiset" where
  "sys_content = (\<lambda>(c, hs, clock). mf_content c)"

definition sys_inv :: "(('d, 's, 'a) Context \<Rightarrow> bool) \<Rightarrow> (nat \<Rightarrow> nat \<Rightarrow> 'h \<Rightarrow> bool) \<Rightarrow> nat \<Rightarrow> ('d, 's, 'a, 'h) mf_system \<Rightarrow> bool" where
  "sys_inv ctx_ok ready n = (\<lambda>(c, hs, clock). mf_inv c \<and> ctx_ok c \<and> (\<forall>i < num_queues c. unheld c i) \<and>
     n \<le> length clock \<and> (\<forall>h. ready n (num_queues c) (hs h)))"

text \<open>
  The contract of a mode. \<open>ctx_ok\<close> is its invariant on the context and \<open>ready n q h\<close> says that
  the random numbers of the handle \<open>h\<close> last for \<open>n\<close> more operations on \<open>q\<close> queues. An attempt
  that returns did one step on the queues or none; it returns when no lock is held.
\<close>

locale mf_mode =
  fixes try_push :: "u64 \<Rightarrow> 'a \<Rightarrow> ('d, 's, 'a) Context \<Rightarrow> 'h \<Rightarrow> (bool \<times> ('d, 's, 'a) Context \<times> 'h) option"
    and try_pop :: "('d, 's, 'a) Context \<Rightarrow> 'h \<Rightarrow> ('a option \<times> ('d, 's, 'a) Context \<times> 'h) option"
    and pushed popped :: "nat \<Rightarrow> ('d, 's, 'a) Context \<Rightarrow> ('d, 's, 'a) Context"
    and ctx_ok :: "('d, 's, 'a) Context \<Rightarrow> bool"
    and ready :: "nat \<Rightarrow> nat \<Rightarrow> 'h \<Rightarrow> bool"
  assumes pushed_note: "mode_note pushed" and popped_note: "mode_note popped"
    and ctx_ok_frame: "mf_frame c c' \<Longrightarrow> ctx_ok c \<Longrightarrow> ctx_ok c'"
    and ready_mono: "ready (Suc n) q h \<Longrightarrow> ready n q h"
    and try_push_step: "mf_inv c \<Longrightarrow> ctx_ok c \<Longrightarrow> ready (Suc n) (num_queues c) h \<Longrightarrow>
      try_push now v c h = Some (b, c', h') \<Longrightarrow> pushes \<lparr>tick = now, elem_value = v\<rparr> c b c' \<and> ctx_ok c'"
    and try_push_returns: "mf_inv c \<Longrightarrow> ctx_ok c \<Longrightarrow> ready (Suc n) (num_queues c) h \<Longrightarrow> \<forall>i < num_queues c. unheld c i \<Longrightarrow>
      \<exists>b c' h'. try_push now v c h = Some (b, c', h') \<and> ready n (num_queues c) h'"
    and try_pop_step: "mf_inv c \<Longrightarrow> ctx_ok c \<Longrightarrow> ready (Suc n) (num_queues c) h \<Longrightarrow>
      try_pop c h = Some (r, c', h') \<Longrightarrow> pops c r c' \<and> ctx_ok c'"
    and try_pop_returns: "mf_inv c \<Longrightarrow> ctx_ok c \<Longrightarrow> ready (Suc n) (num_queues c) h \<Longrightarrow> \<forall>i < num_queues c. unheld c i \<Longrightarrow>
      \<exists>r c' h'. try_pop c h = Some (r, c', h') \<and> ready n (num_queues c) h'"
begin

text \<open>
  A push that returns appended its element to one queue that nobody else held, or found every
  queue full or held; a pop that returns took the oldest element of one such queue, or found every
  queue empty or held. Held queues are left alone.
\<close>

lemma handle_push_step:
  assumes "mf_inv c" "ctx_ok c" "ready (Suc n) (num_queues c) h"
    and "handle_push try_push pushed now v c h = Some (b, c', h')"
  shows "pushes \<lparr>tick = now, elem_value = v\<rparr> c b c' \<and> ctx_ok c' \<and>
    (\<not> b \<longrightarrow> (\<forall>i < num_queues c. unheld c i \<longrightarrow> length (queues c ! i) = unat (size_per_queue c)))"
proof -
  let ?e = "\<lparr>tick = now, elem_value = v\<rparr>"
  obtain b1 c1 h1 where t: "try_push now v c h = Some (b1, c1, h1)"
    using assms(4) by (auto simp: handle_push_def split: option.splits)
  note s = try_push_step [OF assms(1-3) t]
  show ?thesis
  proof (cases b1)
    case True
    then show ?thesis using s t assms(4) by (auto simp: handle_push_def)
  next
    case False
    obtain b2 c2 where sc: "scan_push pushed now v [0..<num_queues c1] c1 = (b2, c2)" by fastforce
    have r: "b = b2" "c' = c2" using t False sc assms(4) by (auto simp: handle_push_def)
    have inv1: "mf_inv c1" and q1: "queues c1 = queues c" "num_queues c1 = num_queues c"
      "size_per_queue c1 = size_per_queue c" "locks c1 = locks c" using s False by (auto simp: pushes_def)
    have "set [0..<num_queues c1] \<subseteq> {..<num_queues c1}" by auto
    note p = scan_push_spec [OF inv1 this pushed_note sc]
    have "pushes ?e c b c'" using pushes_after [OF assms(1)] s False p r by auto
    moreover have "ctx_ok c'" using ctx_ok_frame s p r by auto
    moreover have "\<not> b \<longrightarrow> (\<forall>i < num_queues c. unheld c i \<longrightarrow> length (queues c ! i) = unat (size_per_queue c))"
      using p r q1 unheld_locks [OF q1(4,2) assms(1)] by auto
    ultimately show ?thesis by blast
  qed
qed

lemma handle_pop_step:
  assumes "mf_inv c" "ctx_ok c" "ready (Suc n) (num_queues c) h"
    and "handle_pop try_pop popped c h = Some (r, c', h')"
  shows "pops c r c' \<and> ctx_ok c' \<and> (r = None \<longrightarrow> (\<forall>i < num_queues c. unheld c i \<longrightarrow> queues c ! i = []))"
proof -
  obtain r1 c1 h1 where t: "try_pop c h = Some (r1, c1, h1)"
    using assms(4) by (auto simp: handle_pop_def split: option.splits)
  note s = try_pop_step [OF assms(1-3) t]
  show ?thesis
  proof (cases r1)
    case (Some v)
    then show ?thesis using s t assms(4) by (auto simp: handle_pop_def)
  next
    case None
    obtain r2 c2 where sc: "scan_pop popped [0..<num_queues c1] c1 = (r2, c2)" by fastforce
    have r: "r = r2" "c' = c2" using t None sc assms(4) by (auto simp: handle_pop_def)
    have inv1: "mf_inv c1" and q1: "queues c1 = queues c" "num_queues c1 = num_queues c" "locks c1 = locks c"
      using s None by (auto simp: pops_def)
    have "set [0..<num_queues c1] \<subseteq> {..<num_queues c1}" by auto
    note p = scan_pop_spec [OF inv1 this popped_note sc]
    have "pops c r c'" using pops_after [OF assms(1)] s None p r by auto
    moreover have "ctx_ok c'" using ctx_ok_frame s p r by auto
    moreover have "r = None \<longrightarrow> (\<forall>i < num_queues c. unheld c i \<longrightarrow> queues c ! i = [])"
      using p r q1 unheld_locks [OF q1(3,2) assms(1)] by auto
    ultimately show ?thesis by blast
  qed
qed

lemma sys_push_returns:
  assumes "sys_inv ctx_ok ready (Suc n) q"
  shows "\<exists>b q'. sys_push try_push pushed k x q = Some (b, q') \<and> sys_inv ctx_ok ready n q' \<and>
    sys_content q' = (if b then add_mset x (sys_content q) else sys_content q)"
proof -
  obtain c hs clock where q: "q = (c, hs, clock)" by (cases q)
  have i: "mf_inv c" "ctx_ok c" "\<forall>i < num_queues c. unheld c i" "Suc n \<le> length clock" "\<forall>h. ready (Suc n) (num_queues c) (hs h)"
    using assms by (auto simp: sys_inv_def q)
  obtain now rest where cl: "clock = now # rest" using i(4) by (cases clock) auto
  obtain b1 c1 h1 where t: "try_push now x c (hs k) = Some (b1, c1, h1)" "ready n (num_queues c) h1"
    using try_push_returns [OF i(1,2) spec [OF i(5)] i(3)] by blast
  then obtain b c' where hp: "handle_push try_push pushed now x c (hs k) = Some (b, c', h1)"
    by (cases b1; cases "scan_push pushed now x [0..<num_queues c1] c1") (auto simp: handle_push_def)
  note s = handle_push_step [OF i(1,2) spec [OF i(5)] hp]
  have "\<forall>i < num_queues c'. unheld c' i" using i(1,3) s unheld_locks [of c' c] by (auto simp: pushes_def)
  then have "sys_inv ctx_ok ready n (c', hs(k := h1), rest)"
    using i s t(2) cl ready_mono by (auto simp: sys_inv_def pushes_def)
  then show ?thesis using hp pushes_content [OF i(1)] s by (auto simp: sys_push_def q cl sys_content_def)
qed

lemma sys_pop_returns:
  assumes "sys_inv ctx_ok ready (Suc n) q"
  shows "\<exists>r q'. sys_pop try_pop popped k q = Some (r, q') \<and> sys_inv ctx_ok ready n q' \<and>
    (case r of None \<Rightarrow> sys_content q = {#} \<and> sys_content q' = {#}
     | Some x \<Rightarrow> sys_content q = add_mset x (sys_content q'))"
proof -
  obtain c hs clock where q: "q = (c, hs, clock)" by (cases q)
  have i: "mf_inv c" "ctx_ok c" "\<forall>i < num_queues c. unheld c i" "Suc n \<le> length clock" "\<forall>h. ready (Suc n) (num_queues c) (hs h)"
    using assms by (auto simp: sys_inv_def q)
  obtain r1 c1 h1 where t: "try_pop c (hs k) = Some (r1, c1, h1)" "ready n (num_queues c) h1"
    using try_pop_returns [OF i(1,2) spec [OF i(5)] i(3)] by blast
  then obtain r c' where hp: "handle_pop try_pop popped c (hs k) = Some (r, c', h1)"
    by (cases r1; cases "scan_pop popped [0..<num_queues c1] c1") (auto simp: handle_pop_def)
  note s = handle_pop_step [OF i(1,2) spec [OF i(5)] hp]
  have "\<forall>i < num_queues c'. unheld c' i" using i(1,3) s unheld_locks [of c' c] by (auto simp: pops_def)
  then have inv: "sys_inv ctx_ok ready n (c', hs(k := h1), clock)"
    using i s t(2) ready_mono by (auto simp: sys_inv_def pops_def)
  have "mf_content c = {#} \<and> mf_content c' = {#}" if "r = None"
  proof -
    have "length (queues c) = num_queues c" using i(1) by (simp add: mf_inv_def queues_def)
    then have "\<forall>qs \<in> set (queues c). qs = []" using s i(3) that by (metis in_set_conv_nth)
    then have "concat (queues c) = []" by simp
    moreover have "queues c' = queues c" using s that by (simp add: pops_def)
    ultimately show ?thesis by (simp add: mf_content_def)
  qed
  then show ?thesis using hp inv pops_content [OF i(1)] s by (auto simp: sys_pop_def q sys_content_def split: option.splits)
qed

end

sublocale mf_mode \<subseteq> pool "sys_push try_push pushed" "sys_pop try_pop popped" sys_content "\<lambda>_. True" "sys_inv ctx_ok ready"
  by unfold_locales (rule sys_push_returns sys_pop_returns, assumption)+

end
