(* ===== verification/Multi_Modes.thy ===== *)
theory Multi_Modes
  imports Multi_Fifo_Laws
begin

text \<open>
  The three modes of the MultiFifo: \<^verbatim>\<open>stick_random.hpp\<close>, \<^verbatim>\<open>stick_random_symmetric.hpp\<close> and
  \<^verbatim>\<open>stick_swap.hpp\<close>. A handle of a mode carries the random numbers it is going to draw; an operation
  that would draw more than there are does not return (\<^term>\<open>None\<close>). Every retry of a loop draws at
  least one number, so the number of draws left bounds the loop. \<open>k\<close> is the template parameter
  \<^verbatim>\<open>num_pop_candidates\<close>.
\<close>

definition no_tick :: u64 where
  "no_tick = - 1"

section \<open>Drawing candidates\<close>

record stick_handle =
  draws :: "nat list"
  pop_index :: "nat list"
  count :: int

text \<open>The draw of one index, repeated while the index is among those drawn before.\<close>

fun draw_index :: "nat \<Rightarrow> nat list \<Rightarrow> nat list \<Rightarrow> (nat \<times> nat list) option" where
  "draw_index num seen [] = None"
| "draw_index num seen (r # rs) =
     (if r mod num \<in> set seen then draw_index num seen rs else Some (r mod num, rs))"

fun fill_index :: "nat \<Rightarrow> nat \<Rightarrow> nat list \<Rightarrow> nat list \<Rightarrow> (nat list \<times> nat list) option" where
  "fill_index num 0 seen rs = Some (seen, rs)"
| "fill_index num (Suc k) seen rs =
     (case draw_index num seen rs of None \<Rightarrow> None | Some (x, rs') \<Rightarrow> fill_index num k (seen @ [x]) rs')"

definition refresh_pop_index :: "nat \<Rightarrow> nat \<Rightarrow> stick_handle \<Rightarrow> stick_handle option" where
  "refresh_pop_index k num h =
     map_option (\<lambda>(ix, rs). h\<lparr>pop_index := ix, draws := rs\<rparr>) (fill_index num k [] (draws h))"

definition new_round :: "nat \<Rightarrow> ('d, 's, 'a) Context \<Rightarrow> stick_handle \<Rightarrow> stick_handle option" where
  "new_round k c h = map_option (count_update (\<lambda>_. stickiness c)) (refresh_pop_index k (num_queues c) h)"

definition start_round :: "nat \<Rightarrow> ('d, 's, 'a) Context \<Rightarrow> stick_handle \<Rightarrow> stick_handle option" where
  "start_round k c h = (if count h = 0 then new_round k c h else Some h)"

fun best_from :: "(nat \<Rightarrow> u64) \<Rightarrow> nat \<Rightarrow> u64 \<Rightarrow> nat list \<Rightarrow> nat \<times> u64" where
  "best_from t best best_tick [] = (best, best_tick)"
| "best_from t best best_tick (i # is) =
     (if t i < best_tick then best_from t i (t i) is else best_from t best best_tick is)"

fun best_candidate :: "(nat \<Rightarrow> u64) \<Rightarrow> nat list \<Rightarrow> nat \<times> u64" where
  "best_candidate t [] = (0, no_tick)"
| "best_candidate t (i # is) = best_from t i (t i) is"

section \<open>StickRandom\<close>

record sr_data =
  oldest_tick :: u64

definition sr_handle_new :: "nat list \<Rightarrow> stick_handle" where
  "sr_handle_new rs = \<lparr>draws = rs, pop_index = [], count = 0\<rparr>"

definition sr_data_new :: sr_data where
  "sr_data_new = \<lparr>oldest_tick = no_tick\<rparr>"

definition sr_popped :: "nat \<Rightarrow> (sr_data, 's, 'a) Context \<Rightarrow> (sr_data, 's, 'a) Context" where
  "sr_popped i c = set_queue_data i \<lparr>oldest_tick = (if unsafe_empty i c then no_tick else tick (top_elem i c))\<rparr> c"

definition sr_pushed :: "nat \<Rightarrow> (sr_data, 's, 'a) Context \<Rightarrow> (sr_data, 's, 'a) Context" where
  "sr_pushed i c =
     (if oldest_tick (queue_data (buffer c ! i)) = no_tick
      then set_queue_data i \<lparr>oldest_tick = tick (top_elem i c)\<rparr> c else c)"

text \<open>
  The pop of the two random modes, over the tick a mode keeps of its oldest element. The bound of
  the loop is the number of draws left.
\<close>

fun stick_pop_loop :: "('d \<Rightarrow> u64) \<Rightarrow> (nat \<Rightarrow> ('d, 's, 'a) Context \<Rightarrow> ('d, 's, 'a) Context) \<Rightarrow> nat \<Rightarrow> nat
    \<Rightarrow> ('d, 's, 'a) Context \<Rightarrow> stick_handle \<Rightarrow> ('a option \<times> ('d, 's, 'a) Context \<times> stick_handle) option" where
  "stick_pop_loop oldest popped k 0 c h = None"
| "stick_pop_loop oldest popped k (Suc fuel) c h =
     (let (best, best_tick) = best_candidate (\<lambda>i. oldest (queue_data (buffer c ! i))) (pop_index h) in
      if best_tick = no_tick then Some (None, c, h\<lparr>count := 0\<rparr>)
      else case locked_pop popped best c of
             (Some None, c1) \<Rightarrow> Some (None, c1, h\<lparr>count := 0\<rparr>)
           | (Some (Some v), c1) \<Rightarrow> Some (Some v, c1, h\<lparr>count := count h - 1\<rparr>)
           | (None, c1) \<Rightarrow>
               (case new_round k c1 h of None \<Rightarrow> None
                | Some h1 \<Rightarrow> stick_pop_loop oldest popped k fuel c1 h1))"

definition stick_try_pop :: "('d \<Rightarrow> u64) \<Rightarrow> (nat \<Rightarrow> ('d, 's, 'a) Context \<Rightarrow> ('d, 's, 'a) Context) \<Rightarrow> nat
    \<Rightarrow> ('d, 's, 'a) Context \<Rightarrow> stick_handle \<Rightarrow> ('a option \<times> ('d, 's, 'a) Context \<times> stick_handle) option" where
  "stick_try_pop oldest popped k c h =
     (case start_round k c h of None \<Rightarrow> None
      | Some h1 \<Rightarrow> stick_pop_loop oldest popped k (Suc (length (draws h1))) c h1)"

definition sr_try_pop :: "nat \<Rightarrow> (sr_data, 's, 'a) Context \<Rightarrow> stick_handle
    \<Rightarrow> ('a option \<times> (sr_data, 's, 'a) Context \<times> stick_handle) option" where
  "sr_try_pop k = stick_try_pop oldest_tick sr_popped k"

fun sr_push_loop :: "nat \<Rightarrow> nat \<Rightarrow> u64 \<Rightarrow> 'a \<Rightarrow> nat \<Rightarrow> (sr_data, 's, 'a) Context \<Rightarrow> stick_handle
    \<Rightarrow> (bool \<times> (sr_data, 's, 'a) Context \<times> stick_handle) option" where
  "sr_push_loop k push_index now v 0 c h = None"
| "sr_push_loop k push_index now v (Suc fuel) c h =
     (case locked_push sr_pushed now v (pop_index h ! push_index) c of
        (Some False, c1) \<Rightarrow> Some (False, c1, h\<lparr>count := 0\<rparr>)
      | (Some True, c1) \<Rightarrow> Some (True, c1, h\<lparr>count := count h - 1\<rparr>)
      | (None, c1) \<Rightarrow>
          (case new_round k c1 h of None \<Rightarrow> None
           | Some h1 \<Rightarrow> sr_push_loop k push_index now v fuel c1 h1))"

definition sr_try_push :: "nat \<Rightarrow> u64 \<Rightarrow> 'a \<Rightarrow> (sr_data, 's, 'a) Context \<Rightarrow> stick_handle
    \<Rightarrow> (bool \<times> (sr_data, 's, 'a) Context \<times> stick_handle) option" where
  "sr_try_push k now v c h =
     (case start_round k c h of None \<Rightarrow> None
      | Some h1 \<Rightarrow>
          (case draws h1 of [] \<Rightarrow> None
           | r # rs \<Rightarrow> sr_push_loop k (r mod k) now v (Suc (length rs)) c (h1\<lparr>draws := rs\<rparr>)))"

section \<open>StickRandomSymmetric\<close>

record sym_data =
  sym_oldest_tick :: u64
  newest_tick :: u64

definition sym_data_new :: sym_data where
  "sym_data_new = \<lparr>sym_oldest_tick = no_tick, newest_tick = 0\<rparr>"

definition sym_popped :: "nat \<Rightarrow> (sym_data, 's, 'a) Context \<Rightarrow> (sym_data, 's, 'a) Context" where
  "sym_popped i c =
     (if unsafe_empty i c then set_queue_data i \<lparr>sym_oldest_tick = no_tick, newest_tick = 0\<rparr> c
      else set_queue_data i ((queue_data (buffer c ! i))\<lparr>sym_oldest_tick := tick (top_elem i c)\<rparr>) c)"

definition sym_pushed :: "nat \<Rightarrow> (sym_data, 's, 'a) Context \<Rightarrow> (sym_data, 's, 'a) Context" where
  "sym_pushed i c =
     (let t = tick (bottom_elem i c); d = (queue_data (buffer c ! i))\<lparr>newest_tick := t\<rparr>
      in if unsafe_size i c = 1 then set_queue_data i (d\<lparr>sym_oldest_tick := t\<rparr>) c else set_queue_data i d c)"

definition sym_try_pop :: "nat \<Rightarrow> (sym_data, 's, 'a) Context \<Rightarrow> stick_handle
    \<Rightarrow> ('a option \<times> (sym_data, 's, 'a) Context \<times> stick_handle) option" where
  "sym_try_pop k = stick_try_pop sym_oldest_tick sym_popped k"

fun sym_push_loop :: "nat \<Rightarrow> u64 \<Rightarrow> 'a \<Rightarrow> nat \<Rightarrow> (sym_data, 's, 'a) Context \<Rightarrow> stick_handle
    \<Rightarrow> (bool \<times> (sym_data, 's, 'a) Context \<times> stick_handle) option" where
  "sym_push_loop k now v 0 c h = None"
| "sym_push_loop k now v (Suc fuel) c h =
     (let (best, best_tick) = best_candidate (\<lambda>i. newest_tick (queue_data (buffer c ! i))) (pop_index h) in
      case locked_push sym_pushed now v best c of
        (Some False, c1) \<Rightarrow> Some (False, c1, h\<lparr>count := 0\<rparr>)
      | (Some True, c1) \<Rightarrow> Some (True, c1, h\<lparr>count := count h - 1\<rparr>)
      | (None, c1) \<Rightarrow>
          (case new_round k c1 h of None \<Rightarrow> None
           | Some h1 \<Rightarrow> sym_push_loop k now v fuel c1 h1))"

definition sym_try_push :: "nat \<Rightarrow> u64 \<Rightarrow> 'a \<Rightarrow> (sym_data, 's, 'a) Context \<Rightarrow> stick_handle
    \<Rightarrow> (bool \<times> (sym_data, 's, 'a) Context \<times> stick_handle) option" where
  "sym_try_push k now v c h =
     (case start_round k c h of None \<Rightarrow> None
      | Some h1 \<Rightarrow> sym_push_loop k now v (Suc (length (draws h1))) c h1)"

section \<open>StickSwap\<close>

text \<open>
  The shared data is a permutation of the queues; a handle owns \<open>k\<close> consecutive slots of it from
  its offset and exchanges their entries with random others. A draw is a random number and
  whether the weak exchange it is used for fails spuriously. Slots outside the permutation, which
  the source would access out of bounds, give \<^term>\<open>None\<close>.
\<close>

record swap_handle =
  sw_draws :: "(nat \<times> bool) list"
  sw_count :: int
  sw_offset :: nat

definition swapping :: u64 where
  "swapping = - 1"

definition permutation_new :: "nat \<Rightarrow> u64 list" where
  "permutation_new num_fifos = map of_nat [0..<num_fifos]"

definition sw_handle_new :: "(nat \<times> bool) list \<Rightarrow> nat \<Rightarrow> nat \<Rightarrow> swap_handle" where
  "sw_handle_new rs k h_id = \<lparr>sw_draws = rs, sw_count = 0, sw_offset = h_id * k\<rparr>"

fun swap_loop :: "u64 \<Rightarrow> u64 list \<Rightarrow> (nat \<times> bool) list \<Rightarrow> (u64 list \<times> u64 \<times> (nat \<times> bool) list) option" where
  "swap_loop old_target perm [] = None"
| "swap_loop old_target perm ((r, weak) # rs) =
     (let perm_index = r mod 2 ^ 32 AND (length perm - 1); new_target = perm ! perm_index in
      if new_target = swapping \<or> weak then swap_loop old_target perm rs
      else Some (perm[perm_index := old_target], new_target, rs))"

definition swap_assignment :: "nat \<Rightarrow> u64 list \<Rightarrow> swap_handle \<Rightarrow> (u64 list \<times> swap_handle) option" where
  "swap_assignment index perm h =
     (let slot = sw_offset h + index in
      if length perm \<le> slot then None
      else case swap_loop (perm ! slot) (perm[slot := swapping]) (sw_draws h) of
             None \<Rightarrow> None
           | Some (perm1, new_target, rs) \<Rightarrow> Some (perm1[slot := new_target], h\<lparr>sw_draws := rs\<rparr>))"

fun swap_all :: "nat list \<Rightarrow> u64 list \<Rightarrow> swap_handle \<Rightarrow> (u64 list \<times> swap_handle) option" where
  "swap_all [] perm h = Some (perm, h)"
| "swap_all (i # is) perm h =
     (case swap_assignment i perm h of None \<Rightarrow> None | Some (perm1, h1) \<Rightarrow> swap_all is perm1 h1)"

definition swap_round :: "nat \<Rightarrow> ('d, u64 list, 'a) Context \<Rightarrow> swap_handle
    \<Rightarrow> (('d, u64 list, 'a) Context \<times> swap_handle) option" where
  "swap_round k c h = map_option (\<lambda>(perm, h1). (c\<lparr>shared_data := perm\<rparr>, h1\<lparr>sw_count := stickiness c\<rparr>))
     (swap_all [0..<k] (shared_data c) h)"

definition swap_start :: "nat \<Rightarrow> ('d, u64 list, 'a) Context \<Rightarrow> swap_handle
    \<Rightarrow> (('d, u64 list, 'a) Context \<times> swap_handle) option" where
  "swap_start k c h = (if sw_count h = 0 then swap_round k c h else Some (c, h))"

definition best_pop_queue :: "nat \<Rightarrow> (sr_data, u64 list, 'a) Context \<Rightarrow> swap_handle \<Rightarrow> nat option" where
  "best_pop_queue k c h =
     (let (best, best_tick) = best_candidate (\<lambda>i. oldest_tick (queue_data (buffer c ! i)))
            (map (\<lambda>i. unat (shared_data c ! (sw_offset h + i))) [0..<k])
      in if best_tick = no_tick then None else Some best)"

fun sw_pop_loop :: "nat \<Rightarrow> nat \<Rightarrow> (sr_data, u64 list, 'a) Context \<Rightarrow> swap_handle
    \<Rightarrow> ('a option \<times> (sr_data, u64 list, 'a) Context \<times> swap_handle) option" where
  "sw_pop_loop k 0 c h = None"
| "sw_pop_loop k (Suc fuel) c h =
     (case best_pop_queue k c h of
        None \<Rightarrow> Some (None, c, h\<lparr>sw_count := 0\<rparr>)
      | Some best \<Rightarrow>
          (case locked_pop sr_popped best c of
             (Some None, c1) \<Rightarrow> Some (None, c1, h\<lparr>sw_count := 0\<rparr>)
           | (Some (Some v), c1) \<Rightarrow> Some (Some v, c1, h\<lparr>sw_count := sw_count h - 1\<rparr>)
           | (None, c1) \<Rightarrow>
               (case swap_round k c1 h of None \<Rightarrow> None
                | Some (c2, h1) \<Rightarrow> sw_pop_loop k fuel c2 h1)))"

definition sw_try_pop :: "nat \<Rightarrow> (sr_data, u64 list, 'a) Context \<Rightarrow> swap_handle
    \<Rightarrow> ('a option \<times> (sr_data, u64 list, 'a) Context \<times> swap_handle) option" where
  "sw_try_pop k c h =
     (case swap_start k c h of None \<Rightarrow> None
      | Some (c1, h1) \<Rightarrow> sw_pop_loop k (Suc (length (sw_draws h1))) c1 h1)"

fun sw_push_loop :: "nat \<Rightarrow> u64 \<Rightarrow> 'a \<Rightarrow> nat \<Rightarrow> (sr_data, u64 list, 'a) Context \<Rightarrow> swap_handle
    \<Rightarrow> (bool \<times> (sr_data, u64 list, 'a) Context \<times> swap_handle) option" where
  "sw_push_loop push_index now v 0 c h = None"
| "sw_push_loop push_index now v (Suc fuel) c h =
     (case locked_push sr_pushed now v (unat (shared_data c ! (sw_offset h + push_index))) c of
        (Some False, c1) \<Rightarrow> Some (False, c1, h\<lparr>sw_count := 0\<rparr>)
      | (Some True, c1) \<Rightarrow> Some (True, c1, h\<lparr>sw_count := sw_count h - 1\<rparr>)
      | (None, c1) \<Rightarrow>
          (case swap_assignment push_index (shared_data c1) h of None \<Rightarrow> None
           | Some (perm, h1) \<Rightarrow> sw_push_loop push_index now v fuel (c1\<lparr>shared_data := perm\<rparr>) h1))"

definition sw_try_push :: "nat \<Rightarrow> u64 \<Rightarrow> 'a \<Rightarrow> (sr_data, u64 list, 'a) Context \<Rightarrow> swap_handle
    \<Rightarrow> (bool \<times> (sr_data, u64 list, 'a) Context \<times> swap_handle) option" where
  "sw_try_push k now v c h =
     (case swap_start k c h of None \<Rightarrow> None
      | Some (c1, h1) \<Rightarrow>
          (case sw_draws h1 of [] \<Rightarrow> None
           | (r, _) # rs \<Rightarrow> sw_push_loop (r mod k) now v (Suc (length rs)) c1 (h1\<lparr>sw_draws := rs\<rparr>)))"

end
