(* ===== verification/Multi_Modes_Laws.thy ===== *)
theory Multi_Modes_Laws
  imports Multi_Modes
begin

text \<open>
  The modes keep the contract \<open>mf_mode\<close>. The random numbers enter through \<open>rounds\<close>: a list of draws
  that holds enough different values for a number of refreshes.
\<close>

section \<open>The draws\<close>

text \<open>
  \<open>rounds P m rs\<close>: the draws \<open>rs\<close> fall into \<open>m\<close> stretches that satisfy \<open>P\<close> each, and a rest. The
  property \<open>P\<close> of a stretch is kept under more draws and fails of none.
\<close>

fun rounds :: "('a list \<Rightarrow> bool) \<Rightarrow> nat \<Rightarrow> 'a list \<Rightarrow> bool" where
  "rounds P 0 rs = True"
| "rounds P (Suc m) rs = (\<exists>xs ys. rs = xs @ ys \<and> P xs \<and> rounds P m ys)"

definition stretch :: "('a list \<Rightarrow> bool) \<Rightarrow> bool" where
  "stretch P \<longleftrightarrow> \<not> P [] \<and> (\<forall>xs zs. P xs \<longrightarrow> P (zs @ xs))"

lemma rounds_prepend: "stretch P \<Longrightarrow> rounds P m ys \<Longrightarrow> rounds P m (zs @ ys)"
proof (cases m)
  case (Suc m')
  assume P: "stretch P" and "rounds P m ys"
  then obtain xs ws where x: "ys = xs @ ws" "P xs" "rounds P m' ws" using Suc by auto
  then have "P (zs @ xs)" using P by (simp add: stretch_def)
  then have "\<exists>as bs. zs @ ys = as @ bs \<and> P as \<and> rounds P m' bs"
    using x(1,3) by (intro exI [of _ "zs @ xs"] exI [of _ ws]) simp
  then show ?thesis using Suc by simp
qed simp

lemma rounds_Suc: "stretch P \<Longrightarrow> rounds P (Suc m) rs \<Longrightarrow> rounds P m rs"
  using rounds_prepend by auto

lemma rounds_le: "stretch P \<Longrightarrow> m \<le> n \<Longrightarrow> rounds P n rs \<Longrightarrow> rounds P m rs"
  by (induction n arbitrary: m) (auto simp: le_Suc_eq simp del: rounds.simps(2) dest: rounds_Suc)

lemma rounds_draw:
  assumes "stretch P" "rounds P (Suc m) rs" shows "\<exists>r rs'. rs = r # rs' \<and> rounds P m rs'"
proof -
  obtain xs ys where x: "rs = xs @ ys" "P xs" "rounds P m ys" using assms(2) by auto
  then obtain r xs' where "xs = r # xs'" using assms(1) by (cases xs) (auto simp: stretch_def)
  then show ?thesis using rounds_prepend [OF assms(1) x(3)] x(1) by simp
qed

lemma rounds_replicate: "P xs \<Longrightarrow> rounds P m (concat (replicate m xs))"
  by (induction m) auto

text \<open>A stretch with \<open>k\<close> different queues is enough for one refresh.\<close>

definition covers :: "nat \<Rightarrow> nat \<Rightarrow> nat list \<Rightarrow> bool" where
  "covers k num xs \<longleftrightarrow> k \<le> card ((\<lambda>r. r mod num) ` set xs)"

lemma covers_stretch: "0 < k \<Longrightarrow> stretch (covers k num)"
proof -
  have "card ((\<lambda>r. r mod num) ` set xs) \<le> card ((\<lambda>r. r mod num) ` set (zs @ xs))" for xs zs by (intro card_mono) auto
  then show "0 < k \<Longrightarrow> stretch (covers k num)" by (auto simp: stretch_def covers_def intro: order_trans)
qed

lemma covers_all: "k \<le> num \<Longrightarrow> covers k num [0..<num]"
proof -
  have "(\<lambda>r. r mod num) ` set [0..<num] = {0..<num}" by force
  then show "k \<le> num \<Longrightarrow> covers k num [0..<num]" by (simp add: covers_def)
qed

lemma draw_index_Some:
  assumes "draw_index num seen rs = Some (x, rs')"
  shows "x \<notin> set seen \<and> length rs' < length rs \<and> (0 < num \<longrightarrow> x < num)"
  using assms by (induction num seen rs rule: draw_index.induct) (auto split: if_splits)

lemma draw_index_returns:
  assumes "\<exists>r \<in> set xs. r mod num \<notin> set seen"
  shows "\<exists>us r zs. xs = us @ r # zs \<and> (\<forall>u \<in> set us. u mod num \<in> set seen) \<and> r mod num \<notin> set seen \<and>
    draw_index num seen (xs @ ys) = Some (r mod num, zs @ ys)"
  using assms
proof (induction xs)
  case (Cons a xs)
  show ?case
  proof (cases "a mod num \<in> set seen")
    case True
    then obtain us r zs where "xs = us @ r # zs" "\<forall>u \<in> set us. u mod num \<in> set seen" "r mod num \<notin> set seen"
      "draw_index num seen (xs @ ys) = Some (r mod num, zs @ ys)" using Cons by auto
    then show ?thesis using True by (intro exI [of _ "a # us"] exI [of _ r] exI [of _ zs]) simp
  next
    case False
    then show ?thesis by (intro exI [of _ "[]"] exI [of _ a] exI [of _ xs]) simp
  qed
qed simp

lemma fill_index_Some:
  assumes "fill_index num k seen rs = Some (ix, rs')" "distinct seen" "\<forall>i \<in> set seen. i < num" "0 < num"
  shows "distinct ix \<and> length ix = length seen + k \<and> (\<forall>i \<in> set ix. i < num) \<and> length rs' + k \<le> length rs"
  using assms
proof (induction k arbitrary: seen rs)
  case (Suc k)
  obtain x rs1 where x: "draw_index num seen rs = Some (x, rs1)" "fill_index num k (seen @ [x]) rs1 = Some (ix, rs')"
    using Suc.prems(1) by (auto split: option.splits)
  note d = draw_index_Some [OF x(1)]
  have "distinct (seen @ [x])" "\<forall>i \<in> set (seen @ [x]). i < num" using Suc.prems d by auto
  from Suc.IH [OF x(2) this Suc.prems(4)] d show ?case by auto
qed simp

lemma fill_index_returns:
  assumes "distinct seen" "length seen + k \<le> card (set seen \<union> (\<lambda>r. r mod num) ` set xs)"
  shows "\<exists>ix zs. fill_index num k seen (xs @ ys) = Some (ix, zs @ ys)"
  using assms
proof (induction k arbitrary: seen xs)
  case (Suc k)
  have "card (set seen) = length seen" using Suc.prems(1) by (rule distinct_card)
  then have "\<not> (\<lambda>r. r mod num) ` set xs \<subseteq> set seen" using Suc.prems(2) by (metis Un_absorb2 add_Suc_right le_add1 not_less_eq_eq)
  then have "\<exists>r \<in> set xs. r mod num \<notin> set seen" by auto
  from draw_index_returns [OF this, of ys] obtain us r zs where
    r: "xs = us @ r # zs" "\<forall>u \<in> set us. u mod num \<in> set seen" "r mod num \<notin> set seen"
      "draw_index num seen (xs @ ys) = Some (r mod num, zs @ ys)" by blast
  have "set seen \<union> (\<lambda>r. r mod num) ` set xs = set (seen @ [r mod num]) \<union> (\<lambda>r. r mod num) ` set zs"
    using r(1,2) by auto
  then have "length (seen @ [r mod num]) + k \<le> card (set (seen @ [r mod num]) \<union> (\<lambda>r. r mod num) ` set zs)"
    using Suc.prems(2) by simp
  moreover have "distinct (seen @ [r mod num])" using Suc.prems(1) r(3) by simp
  ultimately show ?case using Suc.IH [of "seen @ [r mod num]" zs] r(4) by auto
qed auto

text \<open>The candidates of a handle are different queues of the context.\<close>

definition candidates_ok :: "nat \<Rightarrow> nat \<Rightarrow> nat list \<Rightarrow> bool" where
  "candidates_ok k num ix \<longleftrightarrow> length ix = k \<and> distinct ix \<and> (\<forall>i \<in> set ix. i < num)"

lemma new_round_Some:
  assumes "new_round k c h = Some h'" "0 < num_queues c"
  shows "candidates_ok k (num_queues c) (pop_index h') \<and> count h' = stickiness c \<and> length (draws h') + k \<le> length (draws h)"
  using assms fill_index_Some [of "num_queues c" k "[]" "draws h" "pop_index h'" "draws h'"]
  by (auto simp: new_round_def refresh_pop_index_def candidates_ok_def)

lemma new_round_returns:
  assumes "rounds (covers k (num_queues c)) (Suc m) (draws h)" "0 < k"
  shows "\<exists>h'. new_round k c h = Some h' \<and> rounds (covers k (num_queues c)) m (draws h')"
proof -
  obtain xs ys where x: "draws h = xs @ ys" "covers k (num_queues c) xs" "rounds (covers k (num_queues c)) m ys"
    using assms by auto
  obtain ix zs where "fill_index (num_queues c) k [] (xs @ ys) = Some (ix, zs @ ys)"
    using fill_index_returns [of "[]" k "num_queues c" xs ys] x(2) by (auto simp: covers_def)
  then show ?thesis using x(1) rounds_prepend [OF covers_stretch [OF assms(2)] x(3), of zs]
    by (simp add: new_round_def refresh_pop_index_def)
qed

lemma start_round_Some:
  assumes "start_round k c h = Some h'" "0 < num_queues c" "count h \<noteq> 0 \<longrightarrow> candidates_ok k (num_queues c) (pop_index h)"
  shows "candidates_ok k (num_queues c) (pop_index h')"
  using assms new_round_Some [of k c h h'] by (auto simp: start_round_def split: if_splits)

lemma start_round_returns:
  assumes "rounds (covers k (num_queues c)) (Suc m) (draws h)" "0 < k"
  shows "\<exists>h'. start_round k c h = Some h' \<and> rounds (covers k (num_queues c)) m (draws h')"
  using new_round_returns [OF assms] rounds_Suc [OF covers_stretch [OF assms(2)] assms(1)] by (auto simp: start_round_def)

section \<open>The best candidate\<close>

lemma best_from_min:
  assumes "best_from t b (t b) is = (best, bt)"
  shows "best \<in> insert b (set is) \<and> bt = t best \<and> (\<forall>i \<in> insert b (set is). bt \<le> t i)"
  using assms
proof (induction "is" arbitrary: b)
  case (Cons i "is")
  show ?case
  proof (cases "t i < t b")
    case True
    then show ?thesis using Cons.IH [of i] Cons.prems by (auto intro: order_trans less_imp_le)
  next
    case False
    then show ?thesis using Cons.IH [of b] Cons.prems by (auto intro: order_trans)
  qed
qed auto

lemma best_candidate_min:
  assumes "best_candidate t is = (best, bt)" "is \<noteq> []"
  shows "best \<in> set is \<and> bt = t best \<and> (\<forall>i \<in> set is. bt \<le> t i)"
  using assms best_from_min [of t "hd is" "tl is" best bt] by (cases "is") auto

section \<open>The random modes\<close>

lemma set_queue_data_id: "set_queue_data i (queue_data (buffer c ! i)) c = c"
  by (simp add: set_queue_data_def upd_storage_def)

lemma random_mode_notes: "mode_note sr_pushed" "mode_note sr_popped" "mode_note sym_pushed" "mode_note sym_popped"
  unfolding mode_note_def sr_pushed_def sr_popped_def sym_pushed_def sym_popped_def Let_def
  by (metis set_queue_data_id)+

lemma stick_pop_loop_step:
  assumes "mf_inv c" "mode_note popped" "candidates_ok k (num_queues c) (pop_index h)" "0 < k"
    and "stick_pop_loop oldest popped k fuel c h = Some (r, c', h')"
  shows "pops c r c' \<and> (count h' \<noteq> 0 \<longrightarrow> candidates_ok k (num_queues c) (pop_index h'))"
  using assms(3,5)
proof (induction fuel arbitrary: h)
  case (Suc fuel)
  obtain best bt where b: "best_candidate (\<lambda>i. oldest (queue_data (buffer c ! i))) (pop_index h) = (best, bt)" by fastforce
  have "pop_index h \<noteq> []" using Suc.prems(1) assms(4) by (auto simp: candidates_ok_def)
  then have best: "best < num_queues c" using best_candidate_min [OF b] Suc.prems(1) by (auto simp: candidates_ok_def)
  obtain a c1 where a: "locked_pop popped best c = (a, c1)" by fastforce
  note l = locked_pop_cases [OF assms(1) best assms(2) a]
  show ?case
  proof (cases "bt = no_tick")
    case True
    then show ?thesis using Suc.prems b assms(1) by (auto simp: pops_def)
  next
    case False
    show ?thesis
    proof (cases a)
      case None
      then have c1: "c1 = c" using l by simp
      then obtain h1 where h1: "new_round k c h = Some h1" "stick_pop_loop oldest popped k fuel c h1 = Some (r, c', h')"
        using Suc.prems b a None False by (auto split: option.splits)
      have "0 < num_queues c" using assms(1) by (simp add: mf_inv_def)
      then show ?thesis using Suc.IH [OF _ h1(2)] new_round_Some [OF h1(1)] by blast
    next
      case (Some w)
      then have "pops c w c1" using locked_pop_pops [OF assms(1) best assms(2)] a by blast
      then show ?thesis using Suc.prems b a False Some by (cases w) auto
    qed
  qed
qed simp

lemma stick_pop_loop_free:
  assumes "mf_inv c" "mode_note popped" "candidates_ok k (num_queues c) (pop_index h)" "0 < k" "\<forall>i < num_queues c. unheld c i"
  shows "\<exists>r c' h'. stick_pop_loop oldest popped k (Suc fuel) c h = Some (r, c', h') \<and> draws h' = draws h"
proof -
  obtain best bt where b: "best_candidate (\<lambda>i. oldest (queue_data (buffer c ! i))) (pop_index h) = (best, bt)" by fastforce
  have "pop_index h \<noteq> []" using assms(3,4) by (auto simp: candidates_ok_def)
  then have best: "best < num_queues c" using best_candidate_min [OF b] assms(3) by (auto simp: candidates_ok_def)
  obtain a c1 where a: "locked_pop popped best c = (a, c1)" by fastforce
  have "a \<noteq> None" using locked_pop_cases [OF assms(1) best assms(2) a] assms(5) best by (cases a) auto
  then show ?thesis using b a by (auto split: option.splits)
qed

lemma sr_push_loop_step:
  assumes "mf_inv c" "candidates_ok k (num_queues c) (pop_index h)" "p < k"
    and "sr_push_loop k p now v fuel c h = Some (b, c', h')"
  shows "pushes \<lparr>tick = now, elem_value = v\<rparr> c b c' \<and> (count h' \<noteq> 0 \<longrightarrow> candidates_ok k (num_queues c) (pop_index h'))"
  using assms(2,4)
proof (induction fuel arbitrary: h)
  case (Suc fuel)
  have i: "pop_index h ! p < num_queues c" using Suc.prems(1) assms(3) by (auto simp: candidates_ok_def)
  obtain a c1 where a: "locked_push sr_pushed now v (pop_index h ! p) c = (a, c1)" by fastforce
  note l = locked_push_cases [OF assms(1) i random_mode_notes(1) a]
  show ?case
  proof (cases a)
    case None
    then have c1: "c1 = c" using l by simp
    then obtain h1 where h1: "new_round k c h = Some h1" "sr_push_loop k p now v fuel c h1 = Some (b, c', h')"
      using Suc.prems a None by (auto split: option.splits)
    have "0 < num_queues c" using assms(1) by (simp add: mf_inv_def)
    then show ?thesis using Suc.IH [OF _ h1(2)] new_round_Some [OF h1(1)] by blast
  next
    case (Some w)
    then show ?thesis using Suc.prems a l assms(1) by (cases w) (auto simp: pushes_def mf_frame_def)
  qed
qed simp

lemma sr_push_loop_free:
  assumes "mf_inv c" "candidates_ok k (num_queues c) (pop_index h)" "p < k" "\<forall>i < num_queues c. unheld c i"
  shows "\<exists>b c' h'. sr_push_loop k p now v (Suc fuel) c h = Some (b, c', h') \<and> draws h' = draws h"
proof -
  have i: "pop_index h ! p < num_queues c" using assms(2,3) by (auto simp: candidates_ok_def)
  obtain a c1 where a: "locked_push sr_pushed now v (pop_index h ! p) c = (a, c1)" by fastforce
  have "a \<noteq> None" using locked_push_cases [OF assms(1) i random_mode_notes(1) a] assms(4) i by (cases a) auto
  then show ?thesis using a by (auto split: option.splits bool.splits)
qed

lemma sym_push_loop_step:
  assumes "mf_inv c" "candidates_ok k (num_queues c) (pop_index h)" "0 < k"
    and "sym_push_loop k now v fuel c h = Some (b, c', h')"
  shows "pushes \<lparr>tick = now, elem_value = v\<rparr> c b c' \<and> (count h' \<noteq> 0 \<longrightarrow> candidates_ok k (num_queues c) (pop_index h'))"
  using assms(2,4)
proof (induction fuel arbitrary: h)
  case (Suc fuel)
  obtain best bt where be: "best_candidate (\<lambda>i. newest_tick (queue_data (buffer c ! i))) (pop_index h) = (best, bt)" by fastforce
  have "pop_index h \<noteq> []" using Suc.prems(1) assms(3) by (auto simp: candidates_ok_def)
  then have i: "best < num_queues c" using best_candidate_min [OF be] Suc.prems(1) by (auto simp: candidates_ok_def)
  obtain a c1 where a: "locked_push sym_pushed now v best c = (a, c1)" by fastforce
  note l = locked_push_cases [OF assms(1) i random_mode_notes(3) a]
  show ?case
  proof (cases a)
    case None
    then have c1: "c1 = c" using l by simp
    then obtain h1 where h1: "new_round k c h = Some h1" "sym_push_loop k now v fuel c h1 = Some (b, c', h')"
      using Suc.prems a be None by (auto split: option.splits)
    have "0 < num_queues c" using assms(1) by (simp add: mf_inv_def)
    then show ?thesis using Suc.IH [OF _ h1(2)] new_round_Some [OF h1(1)] by blast
  next
    case (Some w)
    then show ?thesis using Suc.prems a be l assms(1) by (cases w) (auto simp: pushes_def mf_frame_def)
  qed
qed simp

lemma sym_push_loop_free:
  assumes "mf_inv c" "candidates_ok k (num_queues c) (pop_index h)" "0 < k" "\<forall>i < num_queues c. unheld c i"
  shows "\<exists>b c' h'. sym_push_loop k now v (Suc fuel) c h = Some (b, c', h') \<and> draws h' = draws h"
proof -
  obtain best bt where be: "best_candidate (\<lambda>i. newest_tick (queue_data (buffer c ! i))) (pop_index h) = (best, bt)" by fastforce
  have "pop_index h \<noteq> []" using assms(2,3) by (auto simp: candidates_ok_def)
  then have i: "best < num_queues c" using best_candidate_min [OF be] assms(2) by (auto simp: candidates_ok_def)
  obtain a c1 where a: "locked_push sym_pushed now v best c = (a, c1)" by fastforce
  have "a \<noteq> None" using locked_push_cases [OF assms(1) i random_mode_notes(3) a] assms(4) i by (cases a) auto
  then show ?thesis using a be by (auto split: option.splits bool.splits)
qed

text \<open>
  A handle is ready for \<open>n\<close> more operations: each refreshes the candidates at most once when no lock
  is held, and a push draws one number more.
\<close>

definition stick_ready :: "nat \<Rightarrow> nat \<Rightarrow> nat \<Rightarrow> stick_handle \<Rightarrow> bool" where
  "stick_ready k n num h \<longleftrightarrow> rounds (covers k num) (2 * n) (draws h) \<and>
     (count h \<noteq> 0 \<longrightarrow> candidates_ok k num (pop_index h))"

lemma stick_ready_mono: "0 < k \<Longrightarrow> stick_ready k (Suc n) num h \<Longrightarrow> stick_ready k n num h"
  using rounds_le [OF covers_stretch, of k "2 * n" "2 * Suc n"] unfolding stick_ready_def by simp

lemma stick_try_pop_ok:
  assumes "mf_inv c" "mode_note popped" "0 < k" "stick_ready k (Suc n) (num_queues c) h"
  shows "stick_try_pop oldest popped k c h = Some (r, c', h') \<Longrightarrow> pops c r c'"
    and "\<forall>i < num_queues c. unheld c i \<Longrightarrow>
      \<exists>r c' h'. stick_try_pop oldest popped k c h = Some (r, c', h') \<and> stick_ready k n (num_queues c) h'"
proof -
  have nz: "0 < num_queues c" using assms(1) by (simp add: mf_inv_def)
  have ready: "count h \<noteq> 0 \<longrightarrow> candidates_ok k (num_queues c) (pop_index h)" using assms(4) by (simp add: stick_ready_def)
  have "rounds (covers k (num_queues c)) (Suc (Suc (2 * n))) (draws h)" using assms(4) by (simp add: stick_ready_def)
  from start_round_returns [OF this assms(3)] obtain h1 where
    h1: "start_round k c h = Some h1" "rounds (covers k (num_queues c)) (Suc (2 * n)) (draws h1)" by blast
  note cand = start_round_Some [OF h1(1) nz ready]
  note step = stick_pop_loop_step [OF assms(1,2) cand assms(3)]
  show "stick_try_pop oldest popped k c h = Some (r, c', h') \<Longrightarrow> pops c r c'"
    using h1(1) step by (auto simp: stick_try_pop_def simp del: stick_pop_loop.simps)
  assume "\<forall>i < num_queues c. unheld c i"
  then obtain r c' h' where l: "stick_pop_loop oldest popped k (Suc (length (draws h1))) c h1 = Some (r, c', h')"
    "draws h' = draws h1" using stick_pop_loop_free [OF assms(1,2) cand assms(3)] by blast
  then show "\<exists>r c' h'. stick_try_pop oldest popped k c h = Some (r, c', h') \<and> stick_ready k n (num_queues c) h'"
    using step [OF l(1)] h1 rounds_Suc [OF covers_stretch [OF assms(3)] h1(2)] by (simp add: stick_try_pop_def stick_ready_def del: stick_pop_loop.simps)
qed

lemma sr_try_push_ok:
  assumes "mf_inv c" "0 < k" "stick_ready k (Suc n) (num_queues c) h"
  shows "sr_try_push k now v c h = Some (b, c', h') \<Longrightarrow> pushes \<lparr>tick = now, elem_value = v\<rparr> c b c'"
    and "\<forall>i < num_queues c. unheld c i \<Longrightarrow>
      \<exists>b c' h'. sr_try_push k now v c h = Some (b, c', h') \<and> stick_ready k n (num_queues c) h'"
proof -
  have nz: "0 < num_queues c" using assms(1) by (simp add: mf_inv_def)
  have ready: "count h \<noteq> 0 \<longrightarrow> candidates_ok k (num_queues c) (pop_index h)" using assms(3) by (simp add: stick_ready_def)
  have "rounds (covers k (num_queues c)) (Suc (Suc (2 * n))) (draws h)" using assms(3) by (simp add: stick_ready_def)
  from start_round_returns [OF this assms(2)] obtain h1 where
    h1: "start_round k c h = Some h1" "rounds (covers k (num_queues c)) (Suc (2 * n)) (draws h1)" by blast
  obtain x rs where d: "draws h1 = x # rs" "rounds (covers k (num_queues c)) (2 * n) rs"
    using rounds_draw [OF covers_stretch [OF assms(2)] h1(2)] by blast
  have cand: "candidates_ok k (num_queues c) (pop_index (h1\<lparr>draws := rs\<rparr>))" using start_round_Some [OF h1(1) nz ready] by simp
  have p: "x mod k < k" using assms(2) by simp
  note step = sr_push_loop_step [OF assms(1) cand p]
  show "sr_try_push k now v c h = Some (b, c', h') \<Longrightarrow> pushes \<lparr>tick = now, elem_value = v\<rparr> c b c'"
    using h1(1) d(1) step by (auto simp: sr_try_push_def simp del: sr_push_loop.simps)
  assume "\<forall>i < num_queues c. unheld c i"
  then obtain b c' h' where l: "sr_push_loop k (x mod k) now v (Suc (length rs)) c (h1\<lparr>draws := rs\<rparr>) = Some (b, c', h')"
    "draws h' = draws (h1\<lparr>draws := rs\<rparr>)" using sr_push_loop_free [OF assms(1) cand p] by blast
  then show "\<exists>b c' h'. sr_try_push k now v c h = Some (b, c', h') \<and> stick_ready k n (num_queues c) h'"
    using step [OF l(1)] h1(1) d by (simp add: sr_try_push_def stick_ready_def del: sr_push_loop.simps)
qed

lemma sym_try_push_ok:
  assumes "mf_inv c" "0 < k" "stick_ready k (Suc n) (num_queues c) h"
  shows "sym_try_push k now v c h = Some (b, c', h') \<Longrightarrow> pushes \<lparr>tick = now, elem_value = v\<rparr> c b c'"
    and "\<forall>i < num_queues c. unheld c i \<Longrightarrow>
      \<exists>b c' h'. sym_try_push k now v c h = Some (b, c', h') \<and> stick_ready k n (num_queues c) h'"
proof -
  have nz: "0 < num_queues c" using assms(1) by (simp add: mf_inv_def)
  have ready: "count h \<noteq> 0 \<longrightarrow> candidates_ok k (num_queues c) (pop_index h)" using assms(3) by (simp add: stick_ready_def)
  have "rounds (covers k (num_queues c)) (Suc (Suc (2 * n))) (draws h)" using assms(3) by (simp add: stick_ready_def)
  from start_round_returns [OF this assms(2)] obtain h1 where
    h1: "start_round k c h = Some h1" "rounds (covers k (num_queues c)) (Suc (2 * n)) (draws h1)" by blast
  note cand = start_round_Some [OF h1(1) nz ready]
  note step = sym_push_loop_step [OF assms(1) cand assms(2)]
  show "sym_try_push k now v c h = Some (b, c', h') \<Longrightarrow> pushes \<lparr>tick = now, elem_value = v\<rparr> c b c'"
    using h1(1) step by (auto simp: sym_try_push_def simp del: sym_push_loop.simps)
  assume "\<forall>i < num_queues c. unheld c i"
  then obtain b c' h' where l: "sym_push_loop k now v (Suc (length (draws h1))) c h1 = Some (b, c', h')"
    "draws h' = draws h1" using sym_push_loop_free [OF assms(1) cand assms(2)] by blast
  then show "\<exists>b c' h'. sym_try_push k now v c h = Some (b, c', h') \<and> stick_ready k n (num_queues c) h'"
    using step [OF l(1)] h1 rounds_Suc [OF covers_stretch [OF assms(2)] h1(2)] by (simp add: sym_try_push_def stick_ready_def del: sym_push_loop.simps)
qed

interpretation stick_random: mf_mode "sr_try_push (Suc k)" "sr_try_pop (Suc k)" sr_pushed sr_popped "\<lambda>_. True"
  "stick_ready (Suc k)" for k
proof unfold_locales
  fix c :: "(sr_data, 'b, 'a) Context" and n h r c' h'
  assume i: "mf_inv c" "stick_ready (Suc k) (Suc n) (num_queues c) h"
  note po = stick_try_pop_ok [OF i(1) random_mode_notes(2) _ i(2), of oldest_tick, folded sr_try_pop_def]
  note pu = sr_try_push_ok [OF i(1) _ i(2)]
  show "sr_try_pop (Suc k) c h = Some (r, c', h') \<Longrightarrow> pops c r c' \<and> True" using po(1) by blast
  show "\<forall>i < num_queues c. unheld c i \<Longrightarrow> \<exists>r c' h'. sr_try_pop (Suc k) c h = Some (r, c', h') \<and>
    stick_ready (Suc k) n (num_queues c) h'" using po(2) by blast
  show "sr_try_push (Suc k) now v c h = Some (b, c', h') \<Longrightarrow> pushes \<lparr>tick = now, elem_value = v\<rparr> c b c' \<and> True"
    for now v b using pu(1) by blast
  show "\<forall>i < num_queues c. unheld c i \<Longrightarrow> \<exists>b c' h'. sr_try_push (Suc k) now v c h = Some (b, c', h') \<and>
    stick_ready (Suc k) n (num_queues c) h'" for now v using pu(2) by blast
qed (simp_all add: random_mode_notes stick_ready_mono)

interpretation stick_symmetric: mf_mode "sym_try_push (Suc k)" "sym_try_pop (Suc k)" sym_pushed sym_popped "\<lambda>_. True"
  "stick_ready (Suc k)" for k
proof unfold_locales
  fix c :: "(sym_data, 'b, 'a) Context" and n h r c' h'
  assume i: "mf_inv c" "stick_ready (Suc k) (Suc n) (num_queues c) h"
  note po = stick_try_pop_ok [OF i(1) random_mode_notes(4) _ i(2), of sym_oldest_tick, folded sym_try_pop_def]
  note pu = sym_try_push_ok [OF i(1) _ i(2)]
  show "sym_try_pop (Suc k) c h = Some (r, c', h') \<Longrightarrow> pops c r c' \<and> True" using po(1) by blast
  show "\<forall>i < num_queues c. unheld c i \<Longrightarrow> \<exists>r c' h'. sym_try_pop (Suc k) c h = Some (r, c', h') \<and>
    stick_ready (Suc k) n (num_queues c) h'" using po(2) by blast
  show "sym_try_push (Suc k) now v c h = Some (b, c', h') \<Longrightarrow> pushes \<lparr>tick = now, elem_value = v\<rparr> c b c' \<and> True"
    for now v b using pu(1) by blast
  show "\<forall>i < num_queues c. unheld c i \<Longrightarrow> \<exists>b c' h'. sym_try_push (Suc k) now v c h = Some (b, c', h') \<and>
    stick_ready (Suc k) n (num_queues c) h'" for now v using pu(2) by blast
qed (simp_all add: random_mode_notes stick_ready_mono)

end
