(* ===== verification/Multi_Swap_Laws.thy ===== *)
theory Multi_Swap_Laws
  imports Multi_Modes_Laws
begin

text \<open>
  The mode StickSwap keeps the contract \<open>mf_mode\<close>: its assignments exchange two entries of the
  shared list, which therefore stays a permutation of the queues.
\<close>

section \<open>The permutation\<close>

definition perm_ok :: "nat \<Rightarrow> u64 list \<Rightarrow> bool" where
  "perm_ok num perm \<longleftrightarrow> num < 2 ^ 64 - 1 \<and> mset perm = mset (permutation_new num)"

lemma perm_ok_new: "num < 2 ^ 64 - 1 \<Longrightarrow> perm_ok num (permutation_new num)"
  by (simp add: perm_ok_def)

lemma perm_ok_length: "perm_ok num perm \<Longrightarrow> length perm = num"
  using mset_eq_length [of perm "permutation_new num"] by (simp add: perm_ok_def permutation_new_def)

lemma perm_ok_entry:
  assumes "perm_ok num perm" "p \<in> set perm"
  shows "unat p < num" "p \<noteq> swapping"
proof -
  have "p \<in> set (permutation_new num)" using assms mset_eq_setD [of perm "permutation_new num"] by (simp add: perm_ok_def)
  then obtain i where i: "i < num" "p = of_nat i" by (auto simp: permutation_new_def)
  have "num < 2 ^ 64 - 1" using assms(1) by (simp add: perm_ok_def)
  then have u: "unat p = i" using i by (simp add: unat_of_nat_small)
  show "unat p < num" using u i by simp
  have "unat swapping = 2 ^ 64 - 1" by (simp add: swapping_def unsigned_minus_1_eq_mask mask_eq_exp_minus_1)
  then show "p \<noteq> swapping" using u i \<open>num < 2 ^ 64 - 1\<close> by (metis less_trans nat_neq_iff)
qed

lemma perm_ok_nth: "perm_ok num perm \<Longrightarrow> i < num \<Longrightarrow> unat (perm ! i) < num \<and> perm ! i \<noteq> swapping"
  using perm_ok_entry [of num perm "perm ! i"] perm_ok_length [of num perm] by simp

text \<open>Different slots hold different queues.\<close>

lemma perm_ok_distinct: "perm_ok num perm \<Longrightarrow> distinct (map unat perm)"
proof -
  assume p: "perm_ok num perm"
  have "map unat (permutation_new num) = [0..<num]"
    using p by (auto simp: permutation_new_def perm_ok_def unat_of_nat_small intro!: map_idI)
  then have "mset (map unat perm) = mset [0..<num]" using p by (metis mset_map perm_ok_def)
  then show "distinct (map unat perm)" by (metis distinct_upt mset_eq_imp_distinct_iff)
qed

definition swap_index :: "nat \<Rightarrow> nat \<Rightarrow> nat" where
  "swap_index num r = r mod 2 ^ 32 AND (num - 1)"

lemma nat_and_le: "a AND b \<le> (b :: nat)"
proof -
  have "int (a AND b) \<le> int b" by (simp add: of_nat_and_eq AND_upper2)
  then show ?thesis by simp
qed

lemma swap_index_less: "0 < num \<Longrightarrow> swap_index num r < num"
  using nat_and_le [of "r mod 2 ^ 32" "num - 1"] by (simp add: swap_index_def)

lemma swap_loop_Some:
  assumes "swap_loop old perm rs = Some (perm', new, rs')" "perm \<noteq> []"
  shows "\<exists>i < length perm. perm ! i = new \<and> new \<noteq> swapping \<and> perm' = perm[i := old] \<and> length rs' < length rs"
  using assms
proof (induction rs)
  case (Cons a rs)
  obtain r w where a: "a = (r, w)" by (cases a)
  let ?i = "swap_index (length perm) r"
  have i: "?i < length perm" using Cons.prems(2) swap_index_less by simp
  show ?case
  proof (cases "perm ! ?i = swapping \<or> w")
    case True
    then have "swap_loop old perm rs = Some (perm', new, rs')" using Cons.prems(1) a by (simp add: swap_index_def)
    from Cons.IH [OF this Cons.prems(2)] show ?thesis by auto
  next
    case False
    then show ?thesis using Cons.prems(1) a i by (intro exI [of _ ?i]) (auto simp: swap_index_def Let_def)
  qed
qed simp

lemma swap_assignment_Some:
  assumes "perm_ok num perm" "swap_assignment index perm h = Some (perm', h')"
  shows "perm_ok num perm' \<and> sw_offset h' = sw_offset h \<and> sw_count h' = sw_count h \<and> length (sw_draws h') < length (sw_draws h)"
proof -
  let ?s = "sw_offset h + index"
  have s: "?s < length perm" using assms(2) by (simp add: swap_assignment_def Let_def split: if_splits)
  then obtain perm1 new rs where l: "swap_loop (perm ! ?s) (perm[?s := swapping]) (sw_draws h) = Some (perm1, new, rs)"
    and r: "perm' = perm1[?s := new]" "h' = h\<lparr>sw_draws := rs\<rparr>"
    using assms(2) by (auto simp: swap_assignment_def Let_def split: option.splits)
  have "perm[?s := swapping] \<noteq> []" using s by auto
  from swap_loop_Some [OF l this] obtain i where i: "i < length perm" "perm[?s := swapping] ! i = new" "new \<noteq> swapping"
    "perm1 = perm[?s := swapping, i := perm ! ?s]" "length rs < length (sw_draws h)" by auto
  have ne: "i \<noteq> ?s" using i(2,3) s by auto
  then have "perm' = perm[i := perm ! ?s, ?s := perm ! i]"
    using i(2,4) r(1) s by (simp add: list_update_swap [of i ?s])
  then have "mset perm' = mset perm" using mset_swap [OF s i(1)] by simp
  then show ?thesis using assms(1) r(2) i(5) by (simp add: perm_ok_def)
qed

lemma swap_all_Some:
  assumes "perm_ok num perm" "swap_all is perm h = Some (perm', h')"
  shows "perm_ok num perm' \<and> sw_offset h' = sw_offset h \<and> length (sw_draws h') + length is \<le> length (sw_draws h)"
  using assms
proof (induction "is" arbitrary: perm h)
  case (Cons i "is")
  obtain perm1 h1 where s: "swap_assignment i perm h = Some (perm1, h1)" "swap_all is perm1 h1 = Some (perm', h')"
    using Cons.prems(2) by (auto split: option.splits)
  note a = swap_assignment_Some [OF Cons.prems(1) s(1)]
  from Cons.IH [OF _ s(2)] a show ?case by auto
qed simp

section \<open>The draws of a swap\<close>

text \<open>A stretch of draws with two different slots, not failing spuriously, is enough for one swap.\<close>

definition swaps :: "nat \<Rightarrow> (nat \<times> bool) list \<Rightarrow> bool" where
  "swaps num xs \<longleftrightarrow> (\<forall>slot. \<exists>r. (r, False) \<in> set xs \<and> swap_index num r \<noteq> slot)"

lemma swaps_stretch: "stretch (swaps num)"
  by (auto simp: stretch_def swaps_def)

lemma swap_loop_returns:
  assumes "\<exists>r. (r, False) \<in> set xs \<and> perm ! swap_index (length perm) r \<noteq> swapping"
  shows "\<exists>perm' new zs. swap_loop old perm (xs @ ys) = Some (perm', new, zs @ ys)"
  using assms
proof (induction xs)
  case (Cons a xs)
  obtain r w where a: "a = (r, w)" by (cases a)
  show ?case
  proof (cases "perm ! swap_index (length perm) r = swapping \<or> w")
    case True
    then have "\<exists>r. (r, False) \<in> set xs \<and> perm ! swap_index (length perm) r \<noteq> swapping" using Cons.prems a by auto
    from Cons.IH [OF this] show ?thesis using True a by (simp add: swap_index_def)
  next
    case False
    then have "swap_loop old perm ((a # xs) @ ys) =
      Some (perm[swap_index (length perm) r := old], perm ! swap_index (length perm) r, xs @ ys)"
      using a by (simp add: swap_index_def Let_def)
    then show ?thesis by blast
  qed
qed simp

lemma swap_assignment_returns:
  assumes "perm_ok num perm" "sw_offset h + index < num" "rounds (swaps num) (Suc m) (sw_draws h)"
  shows "\<exists>perm' h'. swap_assignment index perm h = Some (perm', h') \<and> rounds (swaps num) m (sw_draws h')"
proof -
  let ?s = "sw_offset h + index"
  note len = perm_ok_length [OF assms(1)]
  obtain xs ys where x: "sw_draws h = xs @ ys" "swaps num xs" "rounds (swaps num) m ys" using assms(3) by auto
  obtain r where r: "(r, False) \<in> set xs" "swap_index num r \<noteq> ?s" using x(2) by (auto simp: swaps_def)
  have "0 < num" using assms(2) by simp
  then have "perm[?s := swapping] ! swap_index (length (perm[?s := swapping])) r \<noteq> swapping"
    using r(2) perm_ok_nth [OF assms(1) swap_index_less] by (simp add: len)
  then obtain perm1 new zs where "swap_loop (perm ! ?s) (perm[?s := swapping]) (xs @ ys) = Some (perm1, new, zs @ ys)"
    using swap_loop_returns [of xs "perm[?s := swapping]"] r(1) by blast
  then show ?thesis using assms(2) len x(1) rounds_prepend [OF swaps_stretch x(3), of zs]
    by (simp add: swap_assignment_def)
qed

lemma swap_all_returns:
  assumes "perm_ok num perm" "\<forall>i \<in> set is. sw_offset h + i < num" "rounds (swaps num) (length is + m) (sw_draws h)"
  shows "\<exists>perm' h'. swap_all is perm h = Some (perm', h') \<and> rounds (swaps num) m (sw_draws h')"
  using assms
proof (induction "is" arbitrary: perm h)
  case (Cons i "is")
  have "rounds (swaps num) (Suc (length is + m)) (sw_draws h)" "sw_offset h + i < num" using Cons.prems by simp_all
  from swap_assignment_returns [OF Cons.prems(1) this(2,1)] obtain perm1 h1 where
    s: "swap_assignment i perm h = Some (perm1, h1)" "rounds (swaps num) (length is + m) (sw_draws h1)" by blast
  note a = swap_assignment_Some [OF Cons.prems(1) s(1)]
  from Cons.IH [OF _ _ s(2)] a Cons.prems(2) s(1) show ?case by simp
qed simp

section \<open>The operations\<close>

text \<open>
  The permutation is no part of the queues: changing it changes neither them nor the locks.
\<close>

lemma shared_data_irrelevant [simp]:
  "mf_inv (c\<lparr>shared_data := p\<rparr>) = mf_inv c" "queues (c\<lparr>shared_data := p\<rparr>) = queues c" "locks (c\<lparr>shared_data := p\<rparr>) = locks c"
  "unheld (c\<lparr>shared_data := p\<rparr>) = unheld c"
  "pops (c\<lparr>shared_data := p\<rparr>) r c' = pops c r c'" "pushes e (c\<lparr>shared_data := p\<rparr>) b c' = pushes e c b c'"
proof -
  show s: "mf_inv (c\<lparr>shared_data := p\<rparr>) = mf_inv c" "queues (c\<lparr>shared_data := p\<rparr>) = queues c"
    "locks (c\<lparr>shared_data := p\<rparr>) = locks c" "unheld (c\<lparr>shared_data := p\<rparr>) = unheld c"
    by (simp_all add: mf_inv_def queues_def locks_def unheld_def fun_eq_iff)
  show "pops (c\<lparr>shared_data := p\<rparr>) r c' = pops c r c'" "pushes e (c\<lparr>shared_data := p\<rparr>) b c' = pushes e c b c'"
    unfolding pops_def pushes_def s by simp_all
qed

definition sw_ctx_ok :: "('d, u64 list, 'a) Context \<Rightarrow> bool" where
  "sw_ctx_ok c \<longleftrightarrow> perm_ok (num_queues c) (shared_data c)"

definition sw_ready :: "nat \<Rightarrow> nat \<Rightarrow> nat \<Rightarrow> swap_handle \<Rightarrow> bool" where
  "sw_ready k n num h \<longleftrightarrow> sw_offset h + k \<le> num \<and> rounds (swaps num) (Suc k * n) (sw_draws h)"

lemma sw_ready_mono: "sw_ready k (Suc n) num h \<Longrightarrow> sw_ready k n num h"
  unfolding sw_ready_def using rounds_le [OF swaps_stretch, of "Suc k * n" "Suc k * Suc n"] by simp

lemma swap_round_Some:
  assumes "sw_ctx_ok c" "swap_round k c h = Some (c', h')"
  shows "sw_ctx_ok c' \<and> (\<exists>p. c' = c\<lparr>shared_data := p\<rparr>) \<and> sw_offset h' = sw_offset h"
proof -
  obtain p h1 where s: "swap_all [0..<k] (shared_data c) h = Some (p, h1)" "c' = c\<lparr>shared_data := p\<rparr>"
    "h' = h1\<lparr>sw_count := stickiness c\<rparr>" using assms(2) by (auto simp: swap_round_def)
  have "perm_ok (num_queues c) (shared_data c)" using assms(1) by (simp add: sw_ctx_ok_def)
  from swap_all_Some [OF this s(1)] s(2,3) show ?thesis by (auto simp: sw_ctx_ok_def)
qed

lemma swap_start_Some:
  assumes "sw_ctx_ok c" "swap_start k c h = Some (c', h')"
  shows "sw_ctx_ok c' \<and> (\<exists>p. c' = c\<lparr>shared_data := p\<rparr>) \<and> sw_offset h' = sw_offset h"
proof (cases "sw_count h = 0")
  case True
  then show ?thesis using assms swap_round_Some [of c k h c' h'] by (simp add: swap_start_def)
next
  case False
  then have "c' = c" "h' = h" using assms(2) by (simp_all add: swap_start_def)
  then show ?thesis using assms(1) by (auto intro: exI [of _ "shared_data c"])
qed

lemma swap_start_returns:
  assumes "sw_ctx_ok c" "sw_ready k (Suc n) (num_queues c) h"
  shows "\<exists>c' h'. swap_start k c h = Some (c', h') \<and> rounds (swaps (num_queues c)) (Suc (Suc k * n)) (sw_draws h')"
proof (cases "sw_count h = 0")
  case True
  have o: "\<forall>i \<in> set [0..<k]. sw_offset h + i < num_queues c" using assms(2) by (auto simp: sw_ready_def)
  have "rounds (swaps (num_queues c)) (length [0..<k] + Suc (Suc k * n)) (sw_draws h)"
    using assms(2) by (simp add: sw_ready_def add_ac)
  with swap_all_returns [OF _ o] assms(1) obtain p h' where "swap_all [0..<k] (shared_data c) h = Some (p, h')"
    "rounds (swaps (num_queues c)) (Suc (Suc k * n)) (sw_draws h')" unfolding sw_ctx_ok_def by blast
  then show ?thesis using True by (simp add: swap_start_def swap_round_def)
next
  case False
  then show ?thesis using assms(2) rounds_le [OF swaps_stretch, of "Suc (Suc k * n)" "Suc k * Suc n"]
    by (simp add: swap_start_def sw_ready_def)
qed

lemma sw_candidates:
  assumes "sw_ctx_ok c" "sw_offset h + k \<le> num_queues c" "i < k"
  shows "unat (shared_data c ! (sw_offset h + i)) < num_queues c"
  using assms perm_ok_nth [of "num_queues c" "shared_data c" "sw_offset h + i"] by (simp add: sw_ctx_ok_def)

lemma best_pop_queue_less:
  assumes "sw_ctx_ok c" "sw_offset h + k \<le> num_queues c" "0 < k" "best_pop_queue k c h = Some best"
  shows "best < num_queues c"
proof -
  let ?is = "map (\<lambda>i. unat (shared_data c ! (sw_offset h + i))) [0..<k]"
  let ?t = "\<lambda>i. oldest_tick (queue_data (buffer c ! i))"
  obtain b bt where b: "best_candidate ?t ?is = (b, bt)" by fastforce
  then have "b = best" using assms(4) by (simp add: best_pop_queue_def split: if_splits)
  moreover have "?is \<noteq> []" using assms(3) by simp
  ultimately have "best \<in> set ?is" using best_candidate_min [OF b] by blast
  then show ?thesis using sw_candidates [OF assms(1,2)] by auto
qed

lemma sw_pop_loop_step:
  assumes "mf_inv c" "sw_ctx_ok c" "sw_offset h + k \<le> num_queues c" "0 < k" "sw_pop_loop k fuel c h = Some (r, c', h')"
  shows "pops c r c' \<and> sw_ctx_ok c' \<and> sw_offset h' = sw_offset h"
  using assms(1-3,5)
proof (induction fuel arbitrary: c h)
  case (Suc fuel)
  show ?case
  proof (cases "best_pop_queue k c h")
    case None
    then show ?thesis using Suc.prems by (auto simp: pops_def)
  next
    case (Some best)
    note best = best_pop_queue_less [OF Suc.prems(2,3) assms(4) Some]
    obtain a c1 where a: "locked_pop sr_popped best c = (a, c1)" by fastforce
    show ?thesis
    proof (cases a)
      case None
      then have c1: "c1 = c" using locked_held(2) [OF Suc.prems(1) best random_mode_notes(2)] a by blast
      then obtain c2 h1 where l: "swap_round k c h = Some (c2, h1)" "sw_pop_loop k fuel c2 h1 = Some (r, c', h')"
        using Suc.prems Some a None by (auto split: option.splits)
      note s = swap_round_Some [OF Suc.prems(2) l(1)]
      then obtain p where p: "c2 = c\<lparr>shared_data := p\<rparr>" by blast
      have "pops c2 r c' \<and> sw_ctx_ok c' \<and> sw_offset h' = sw_offset h1"
        using Suc.IH [OF _ _ _ l(2)] s Suc.prems(1,3) p by simp
      then show ?thesis using s p by simp
    next
      case (Some w)
      then have "pops c w c1" "mf_frame c c1" using locked_pop_pops [OF Suc.prems(1) best random_mode_notes(2)] a by blast+
      then show ?thesis using Suc.prems(2,4) \<open>best_pop_queue k c h = Some best\<close> a Some
        by (cases w) (auto simp: sw_ctx_ok_def mf_frame_def)
    qed
  qed
qed simp

lemma sw_push_loop_step:
  assumes "mf_inv c" "sw_ctx_ok c" "sw_offset h + k \<le> num_queues c" "i < k" "sw_push_loop i now v fuel c h = Some (b, c', h')"
  shows "pushes \<lparr>tick = now, elem_value = v\<rparr> c b c' \<and> sw_ctx_ok c' \<and> sw_offset h' = sw_offset h"
  using assms(1-3,5)
proof (induction fuel arbitrary: c h)
  case (Suc fuel)
  let ?q = "unat (shared_data c ! (sw_offset h + i))"
  note q = sw_candidates [OF Suc.prems(2,3) assms(4)]
  obtain a c1 where a: "locked_push sr_pushed now v ?q c = (a, c1)" by fastforce
  show ?case
  proof (cases a)
    case None
    then have c1: "c1 = c" using locked_held(1) [OF Suc.prems(1) q random_mode_notes(1)] a by blast
    then obtain p h1 where l: "swap_assignment i (shared_data c) h = Some (p, h1)"
      "sw_push_loop i now v fuel (c\<lparr>shared_data := p\<rparr>) h1 = Some (b, c', h')"
      using Suc.prems a None by (auto split: option.splits)
    have "perm_ok (num_queues c) p \<and> sw_offset h1 = sw_offset h"
      using swap_assignment_Some [OF _ l(1)] Suc.prems(2) by (simp add: sw_ctx_ok_def)
    then show ?thesis using Suc.IH [OF _ _ _ l(2)] Suc.prems(1,3) by (simp add: sw_ctx_ok_def)
  next
    case (Some w)
    then have "pushes \<lparr>tick = now, elem_value = v\<rparr> c w c1" "mf_frame c c1"
      using locked_push_pushes [OF Suc.prems(1) q random_mode_notes(1)] a by blast+
    then show ?thesis using Suc.prems(2,4) a Some by (cases w) (auto simp: sw_ctx_ok_def mf_frame_def)
  qed
qed simp

lemma sw_pop_loop_free:
  assumes "mf_inv c" "sw_ctx_ok c" "sw_offset h + k \<le> num_queues c" "0 < k" "\<forall>i < num_queues c. unheld c i"
  shows "\<exists>r c' h'. sw_pop_loop k (Suc fuel) c h = Some (r, c', h') \<and> sw_draws h' = sw_draws h"
proof (cases "best_pop_queue k c h")
  case (Some best)
  note best = best_pop_queue_less [OF assms(2-4) Some]
  obtain a c1 where a: "locked_pop sr_popped best c = (a, c1)" by fastforce
  have "a \<noteq> None" using locked_held(2) [OF assms(1) best random_mode_notes(2)] a assms(5) best by (cases a) auto
  then show ?thesis using a Some by (auto split: option.splits)
qed simp

lemma sw_push_loop_free:
  assumes "mf_inv c" "sw_ctx_ok c" "sw_offset h + k \<le> num_queues c" "i < k" "\<forall>i < num_queues c. unheld c i"
  shows "\<exists>b c' h'. sw_push_loop i now v (Suc fuel) c h = Some (b, c', h') \<and> sw_draws h' = sw_draws h"
proof -
  note q = sw_candidates [OF assms(2-4)]
  obtain a c1 where a: "locked_push sr_pushed now v (unat (shared_data c ! (sw_offset h + i))) c = (a, c1)" by fastforce
  have "a \<noteq> None" using locked_held(1) [OF assms(1) q random_mode_notes(1)] a assms(5) q by (cases a) auto
  then show ?thesis using a by (auto split: option.splits bool.splits)
qed

lemma sw_try_pop_ok:
  assumes "mf_inv c" "sw_ctx_ok c" "0 < k" "sw_ready k (Suc n) (num_queues c) h"
  shows "sw_try_pop k c h = Some (r, c', h') \<Longrightarrow> pops c r c' \<and> sw_ctx_ok c'"
    and "\<forall>i < num_queues c. unheld c i \<Longrightarrow> \<exists>r c' h'. sw_try_pop k c h = Some (r, c', h') \<and> sw_ready k n (num_queues c) h'"
proof -
  obtain c1 h1 where s: "swap_start k c h = Some (c1, h1)" "rounds (swaps (num_queues c)) (Suc (Suc k * n)) (sw_draws h1)"
    using swap_start_returns [OF assms(2,4)] by blast
  note ss = swap_start_Some [OF assms(2) s(1)]
  then obtain p where p: "c1 = c\<lparr>shared_data := p\<rparr>" by blast
  have ok: "mf_inv c1" "sw_ctx_ok c1" "sw_offset h1 + k \<le> num_queues c1" using ss p assms(1,4) by (simp_all add: sw_ready_def)
  note step = sw_pop_loop_step [OF ok assms(3)]
  show "sw_try_pop k c h = Some (r, c', h') \<Longrightarrow> pops c r c' \<and> sw_ctx_ok c'"
    using step s(1) p by (fastforce simp: sw_try_pop_def simp del: sw_pop_loop.simps)
  assume "\<forall>i < num_queues c. unheld c i"
  then have "\<forall>i < num_queues c1. unheld c1 i" using p by simp
  then obtain r c' h' where l: "sw_pop_loop k (Suc (length (sw_draws h1))) c1 h1 = Some (r, c', h')" "sw_draws h' = sw_draws h1"
    using sw_pop_loop_free [OF ok assms(3)] by blast
  then show "\<exists>r c' h'. sw_try_pop k c h = Some (r, c', h') \<and> sw_ready k n (num_queues c) h'"
    using step [OF l(1)] s ok p rounds_Suc [OF swaps_stretch s(2)] by (simp add: sw_try_pop_def sw_ready_def del: sw_pop_loop.simps)
qed

lemma sw_try_push_ok:
  assumes "mf_inv c" "sw_ctx_ok c" "0 < k" "sw_ready k (Suc n) (num_queues c) h"
  shows "sw_try_push k now v c h = Some (b, c', h') \<Longrightarrow> pushes \<lparr>tick = now, elem_value = v\<rparr> c b c' \<and> sw_ctx_ok c'"
    and "\<forall>i < num_queues c. unheld c i \<Longrightarrow> \<exists>b c' h'. sw_try_push k now v c h = Some (b, c', h') \<and> sw_ready k n (num_queues c) h'"
proof -
  obtain c1 h1 where s: "swap_start k c h = Some (c1, h1)" "rounds (swaps (num_queues c)) (Suc (Suc k * n)) (sw_draws h1)"
    using swap_start_returns [OF assms(2,4)] by blast
  note ss = swap_start_Some [OF assms(2) s(1)]
  then obtain p where p: "c1 = c\<lparr>shared_data := p\<rparr>" by blast
  obtain x rs where d: "sw_draws h1 = x # rs" "rounds (swaps (num_queues c)) (Suc k * n) rs"
    using rounds_draw [OF swaps_stretch s(2)] by blast
  have ok: "mf_inv c1" "sw_ctx_ok c1" "sw_offset (h1\<lparr>sw_draws := rs\<rparr>) + k \<le> num_queues c1"
    using ss p assms(1,4) by (simp_all add: sw_ready_def)
  have i: "fst x mod k < k" using assms(3) by simp
  note step = sw_push_loop_step [OF ok i]
  show "sw_try_push k now v c h = Some (b, c', h') \<Longrightarrow> pushes \<lparr>tick = now, elem_value = v\<rparr> c b c' \<and> sw_ctx_ok c'"
    using step s(1) d(1) p by (cases x) (fastforce simp: sw_try_push_def simp del: sw_push_loop.simps)
  assume "\<forall>i < num_queues c. unheld c i"
  then have "\<forall>i < num_queues c1. unheld c1 i" using p by simp
  then obtain b c' h' where l: "sw_push_loop (fst x mod k) now v (Suc (length rs)) c1 (h1\<lparr>sw_draws := rs\<rparr>) = Some (b, c', h')"
    "sw_draws h' = sw_draws (h1\<lparr>sw_draws := rs\<rparr>)" using sw_push_loop_free [OF ok i] by blast
  then show "\<exists>b c' h'. sw_try_push k now v c h = Some (b, c', h') \<and> sw_ready k n (num_queues c) h'"
    using step [OF l(1)] s ok p d by (cases x) (simp add: sw_try_push_def sw_ready_def del: sw_push_loop.simps)
qed

interpretation stick_swap: mf_mode "sw_try_push (Suc k)" "sw_try_pop (Suc k)" sr_pushed sr_popped sw_ctx_ok "sw_ready (Suc k)" for k
proof unfold_locales
  fix c :: "(sr_data, u64 list, 'a) Context" and n h r c' h'
  assume i: "mf_inv c" "sw_ctx_ok c" "sw_ready (Suc k) (Suc n) (num_queues c) h"
  note po = sw_try_pop_ok [OF i(1,2) _ i(3)]
  note pu = sw_try_push_ok [OF i(1,2) _ i(3)]
  show "sw_try_pop (Suc k) c h = Some (r, c', h') \<Longrightarrow> pops c r c' \<and> sw_ctx_ok c'" using po(1) by blast
  show "\<forall>i < num_queues c. unheld c i \<Longrightarrow> \<exists>r c' h'. sw_try_pop (Suc k) c h = Some (r, c', h') \<and>
    sw_ready (Suc k) n (num_queues c) h'" using po(2) by blast
  show "sw_try_push (Suc k) now v c h = Some (b, c', h') \<Longrightarrow> pushes \<lparr>tick = now, elem_value = v\<rparr> c b c' \<and> sw_ctx_ok c'"
    for now v b using pu(1) by blast
  show "\<forall>i < num_queues c. unheld c i \<Longrightarrow> \<exists>b c' h'. sw_try_push (Suc k) now v c h = Some (b, c', h') \<and>
    sw_ready (Suc k) n (num_queues c) h'" for now v using pu(2) by blast
qed (auto simp: random_mode_notes sw_ready_mono sw_ctx_ok_def mf_frame_def)

end
