(* ===== verification/Multi_Ticks.thy ===== *)
theory Multi_Ticks
  imports Multi_Swap_Laws
begin

text \<open>
  What the ticks of a queue are for: in the modes StickRandom and StickSwap the guard of a queue
  publishes the tick of the oldest element, so that a pop can choose the queue with the oldest
  element without a lock. The invariant \<open>ticks_ok\<close> says that what is published is true; the
  operations keep it. In the mode StickRandomSymmetric it is not true: the tick is read from the
  slot behind the newest element.
\<close>

section \<open>Reading a queue\<close>

lemma unsafe_empty_queue: "mf_inv c \<Longrightarrow> i < num_queues c \<Longrightarrow> unsafe_empty i c \<longleftrightarrow> queues c ! i = []"
  using mf_inv_nth(1) [of c i] rb_empty_iff [of "ring_of (index_mask c) (buffer c ! i)"]
  by (simp add: unsafe_empty_def queues_nth rb_empty_def rb_size_def ring_of_def)

lemma top_elem_queue:
  assumes "mf_inv c" "i < num_queues c" "queues c ! i \<noteq> []"
  shows "top_elem i c = hd (queues c ! i)"
proof -
  note n = mf_inv_nth [OF assms(1,2)]
  obtain e es where "rb_items (ring_of (index_mask c) (buffer c ! i)) = e # es"
    using assms(3) by (cases "queues c ! i") (auto simp: queues_nth [OF n(1)])
  from rb_pop_items [OF n(2) this] this show ?thesis
    by (simp add: top_elem_def queues_nth [OF n(1)] rb_top_def ring_of_def)
qed

section \<open>The published ticks\<close>

definition tick_ok :: "(sr_data, 's, 'a) Context \<Rightarrow> nat \<Rightarrow> bool" where
  "tick_ok c i \<longleftrightarrow> oldest_tick (queue_data (buffer c ! i)) = (if queues c ! i = [] then no_tick else tick (hd (queues c ! i)))"

definition ticks_ok :: "(sr_data, 's, 'a) Context \<Rightarrow> bool" where
  "ticks_ok c \<longleftrightarrow> (\<forall>i < num_queues c. tick_ok c i \<and> (\<forall>e \<in> set (queues c ! i). tick e \<noteq> no_tick))"

lemma ticks_ok_new:
  fixes c :: "(sr_data, 's, 'a::zero) Context"
  assumes "Context_new sr_data_new sh queue_count sz sticky sd = Some c"
    and "unat ((sz + of_nat queue_count - 1) div of_nat queue_count) \<le> 2 ^ 63"
  shows "ticks_ok c"
proof -
  note n = Context_new_ok [OF assms]
  have q: "queues c ! i = []" if "i < num_queues c" for i
  proof -
    have "i < length (queues c)" using that n(1) by (simp add: queues_def mf_inv_def)
    then show ?thesis using n(5) by (metis concat_eq_Nil_conv nth_mem)
  qed
  have "queue_data (buffer c ! i) = sr_data_new" if "i < num_queues c" for i
    using n(8) mf_inv_nth(1) [OF n(1) that] by simp
  then show ?thesis using q by (simp add: ticks_ok_def tick_ok_def sr_data_new_def)
qed

text \<open>Steps on queue \<open>i\<close> do not touch what is published of the others.\<close>

lemma locked_push_shape:
  assumes "locked_push sr_pushed now v i c = (Some True, c')"
  shows "\<exists>c2. c' = unlock i (sr_pushed i c2) \<and> c2 = ctx_push i \<lparr>tick = now, elem_value = v\<rparr> (upd_storage i (lock_update (\<lambda>_. 1)) c)"
  using assms by (auto simp: locked_push_def try_lock_def split: if_splits)

lemma locked_pop_shape:
  assumes "locked_pop sr_popped i c = (Some (Some v), c')"
  shows "\<exists>c2. c' = unlock i (sr_popped i c2) \<and> c2 = ctx_pop i (upd_storage i (lock_update (\<lambda>_. 1)) c)"
  using assms by (auto simp: locked_pop_def try_lock_def split: if_splits)

lemmas storage_steps = unlock_def sr_pushed_def sr_popped_def set_queue_data_def ctx_push_def ctx_pop_def

lemma locked_push_ticks:
  fixes c :: "(sr_data, 's, 'a) Context"
  assumes "mf_inv c" "i < num_queues c" "ticks_ok c" "now \<noteq> no_tick" "locked_push sr_pushed now v i c = (Some True, c')"
  shows "ticks_ok c'"
proof -
  let ?e = "\<lparr>tick = now, elem_value = v\<rparr>"
  have c': "mf_inv c'" "num_queues c' = num_queues c" "queues c' = (queues c)[i := queues c ! i @ [?e]]"
    using locked_push_cases [OF assms(1,2) random_mode_notes(1) assms(5)] by (auto simp: mf_frame_def)
  have li: "i < length (buffer c)" "i < length (queues c)" using assms(1,2) by (simp_all add: mf_inv_def queues_def)
  obtain c2 where c2: "c' = unlock i (sr_pushed i c2)" "c2 = ctx_push i ?e (upd_storage i (lock_update (\<lambda>_. 1)) c)"
    using locked_push_shape [OF assms(5)] by blast
  have other: "queue_data (buffer c' ! j) = queue_data (buffer c ! j)" if "j \<noteq> i" for j
    using that by (simp add: c2 storage_steps)
  have d: "oldest_tick (queue_data (buffer c2 ! i)) = oldest_tick (queue_data (buffer c ! i))"
    using li by (simp add: c2 ctx_push_def)
  have t: "top_elem i c2 = top_elem i c'" using li by (simp add: c2 storage_steps top_elem_def)
  have own: "oldest_tick (queue_data (buffer c' ! i)) =
      (if oldest_tick (queue_data (buffer c ! i)) = no_tick then tick (top_elem i c2) else oldest_tick (queue_data (buffer c ! i)))"
    unfolding d [symmetric] using li by (simp add: c2(1) unlock_def sr_pushed_def set_queue_data_def) (simp add: c2(2) ctx_push_def)
  have q: "queues c' ! i = queues c ! i @ [?e]" using c'(3) li(2) by simp
  have top: "top_elem i c' = hd (queues c' ! i)" using top_elem_queue [OF c'(1)] assms(2) c'(2) q by simp
  have ok: "tick_ok c i" "\<forall>e \<in> set (queues c ! i). tick e \<noteq> no_tick" using assms(2,3) by (simp_all add: ticks_ok_def)
  have "tick_ok c' i"
    using ok own top q by (cases "queues c ! i") (auto simp: tick_ok_def t)
  moreover have "tick_ok c' j" if "j \<noteq> i" "j < num_queues c" for j
    using that other [OF that(1)] c'(3) assms(3) by (simp add: tick_ok_def ticks_ok_def)
  moreover have "\<forall>e \<in> set (queues c' ! j). tick e \<noteq> no_tick" if "j < num_queues c" for j
    using that c'(3) assms(3,4) li(2) by (cases "j = i") (auto simp: ticks_ok_def)
  ultimately show ?thesis unfolding ticks_ok_def c'(2) by metis
qed

lemma locked_pop_ticks:
  fixes c :: "(sr_data, 's, 'a) Context"
  assumes "mf_inv c" "i < num_queues c" "ticks_ok c" "locked_pop sr_popped i c = (Some (Some v), c')"
  shows "ticks_ok c'"
proof -
  obtain e es where c': "mf_inv c'" "num_queues c' = num_queues c" "queues c ! i = e # es" "queues c' = (queues c)[i := es]"
    using locked_pop_cases [OF assms(1,2) random_mode_notes(2) assms(4)] by (auto simp: mf_frame_def)
  have li: "i < length (buffer c)" "i < length (queues c)" using assms(1,2) by (simp_all add: mf_inv_def queues_def)
  obtain c2 where c2: "c' = unlock i (sr_popped i c2)" "c2 = ctx_pop i (upd_storage i (lock_update (\<lambda>_. 1)) c)"
    using locked_pop_shape [OF assms(4)] by blast
  have other: "queue_data (buffer c' ! j) = queue_data (buffer c ! j)" if "j \<noteq> i" for j
    using that by (simp add: c2 storage_steps)
  have t: "top_elem i c2 = top_elem i c'" "unsafe_empty i c2 = unsafe_empty i c'"
    using li by (simp_all add: c2 storage_steps top_elem_def unsafe_empty_def)
  have own: "oldest_tick (queue_data (buffer c' ! i)) = (if unsafe_empty i c2 then no_tick else tick (top_elem i c2))"
    using li by (simp add: c2(1) unlock_def sr_popped_def set_queue_data_def) (simp add: c2(2) ctx_pop_def)
  have i': "i < num_queues c'" using assms(2) c'(2) by simp
  have "tick_ok c' i"
    using own t unsafe_empty_queue [OF c'(1) i'] top_elem_queue [OF c'(1) i'] by (simp add: tick_ok_def)
  moreover have "tick_ok c' j" if "j \<noteq> i" "j < num_queues c" for j
    using that other [OF that(1)] c'(4) assms(3) by (simp add: tick_ok_def ticks_ok_def)
  moreover have "\<forall>x \<in> set (queues c' ! j). tick x \<noteq> no_tick" if "j < num_queues c" for j
  proof (cases "j = i")
    case True
    have "\<forall>x \<in> set (queues c ! i). tick x \<noteq> no_tick" using assms(2,3) by (simp add: ticks_ok_def)
    then show ?thesis using True c'(3,4) li(2) by simp
  next
    case False
    then show ?thesis using that c'(4) assms(3) by (simp add: ticks_ok_def)
  qed
  ultimately show ?thesis unfolding ticks_ok_def c'(2) by metis
qed

section \<open>The pop of StickRandom\<close>

lemma sr_try_pop_best:
  fixes c :: "(sr_data, 's, 'a) Context"
  assumes "mf_inv c" "ticks_ok c" "0 < k" "\<forall>i < num_queues c. unheld c i" "stick_ready k (Suc n) (num_queues c) h"
    and "sr_try_pop k c h = Some (r, c', h')"
  shows "candidates_ok k (num_queues c) (pop_index h')"
    and "case r of None \<Rightarrow> c' = c \<and> (\<forall>j \<in> set (pop_index h'). queues c ! j = [])
      | Some v \<Rightarrow> ticks_ok c' \<and> (\<exists>i \<in> set (pop_index h'). \<exists>e es. queues c ! i = e # es \<and> elem_value e = v \<and>
          queues c' = (queues c)[i := es] \<and> (\<forall>j \<in> set (pop_index h'). queues c ! j \<noteq> [] \<longrightarrow> tick e \<le> tick (hd (queues c ! j))))"
proof -
  have nz: "0 < num_queues c" using assms(1) by (simp add: mf_inv_def)
  have ready: "count h \<noteq> 0 \<longrightarrow> candidates_ok k (num_queues c) (pop_index h)" using assms(5) by (simp add: stick_ready_def)
  obtain h1 where h1: "start_round k c h = Some h1"
    and l: "stick_pop_loop oldest_tick sr_popped k (Suc (length (draws h1))) c h1 = Some (r, c', h')"
    using assms(6) by (auto simp: sr_try_pop_def stick_try_pop_def simp del: stick_pop_loop.simps split: option.splits)
  note cand = start_round_Some [OF h1 nz ready]
  let ?t = "\<lambda>i. oldest_tick (queue_data (buffer c ! i))"
  obtain best bt where b: "best_candidate ?t (pop_index h1) = (best, bt)" by fastforce
  have "pop_index h1 \<noteq> []" using cand assms(3) by (auto simp: candidates_ok_def)
  note m = best_candidate_min [OF b this]
  have lt: "j < num_queues c" if "j \<in> set (pop_index h1)" for j using cand that by (simp add: candidates_ok_def)
  have best: "best < num_queues c" using m lt by blast
  obtain a c1 where a: "locked_pop sr_popped best c = (a, c1)" by fastforce
  have an: "a \<noteq> None" using locked_held(2) [OF assms(1) best random_mode_notes(2)] a assms(4) best by (cases a) auto
  then have ix: "pop_index h' = pop_index h1" using l b a by (auto split: if_splits option.splits)
  then show "candidates_ok k (num_queues c) (pop_index h')" using cand by simp
  have t: "?t j = (if queues c ! j = [] then no_tick else tick (hd (queues c ! j)))" if "j < num_queues c" for j
    using assms(2) that by (simp add: ticks_ok_def tick_ok_def)
  have front: "queues c ! j \<noteq> [] \<Longrightarrow> tick (hd (queues c ! j)) \<noteq> no_tick" if "j < num_queues c" for j
    using assms(2) that by (simp add: ticks_ok_def)
  have max: "w \<le> no_tick" for w by (simp add: no_tick_def)
  show "case r of None \<Rightarrow> c' = c \<and> (\<forall>j \<in> set (pop_index h'). queues c ! j = [])
      | Some v \<Rightarrow> ticks_ok c' \<and> (\<exists>i \<in> set (pop_index h'). \<exists>e es. queues c ! i = e # es \<and> elem_value e = v \<and>
          queues c' = (queues c)[i := es] \<and> (\<forall>j \<in> set (pop_index h'). queues c ! j \<noteq> [] \<longrightarrow> tick e \<le> tick (hd (queues c ! j))))"
  proof (cases "bt = no_tick")
    case True
    have "queues c ! j = []" if "j \<in> set (pop_index h1)" for j
    proof (rule ccontr)
      assume "queues c ! j \<noteq> []"
      then have "?t j \<noteq> no_tick" using t front lt [OF that] by simp
      moreover have "no_tick \<le> ?t j" using m that True by metis
      ultimately show False using max [of "?t j"] by simp
    qed
    then show ?thesis using True l b ix by auto
  next
    case False
    then have ne: "queues c ! best \<noteq> []" using m t [OF best] by auto
    then obtain v where v: "a = Some (Some v)"
      using locked_pop_cases [OF assms(1) best random_mode_notes(2) a] an by (auto split: option.splits)
    obtain e es where e: "queues c ! best = e # es" "elem_value e = v" "queues c1 = (queues c)[best := es]"
      using locked_pop_cases [OF assms(1) best random_mode_notes(2) a] v by auto
    have r: "r = Some v" "c' = c1" using l b a v False by auto
    have "tick e \<le> tick (hd (queues c ! j))" if "j \<in> set (pop_index h1)" "queues c ! j \<noteq> []" for j
      using m that(1) t [OF lt [OF that(1)]] t [OF best] e(1) that(2) by auto
    then show ?thesis using r e ix m locked_pop_ticks [OF assms(1) best assms(2)] a v by auto
  qed
qed

end
