(* ===== verification/Multi_Conc.thy ===== *)
theory Multi_Conc
  imports Multi_Ticks
begin

text \<open>
  The MultiFifo under interleaving. Two protocols are stated as step relations in which any thread
  may move at any time: the try-lock of a queue with the push or pop it protects
  (\<^verbatim>\<open>Context::try_lock\<close> reads the lock word and then exchanges it, two separate steps), and the
  exchange of two entries of the permutation of StickSwap (\<^verbatim>\<open>swap_assignment\<close>). The steps are the
  atomic accesses of the source, sequentially consistent.
\<close>

section \<open>Operations under the lock\<close>

datatype 'a mf_phase =
    Mf_idle
  | Push_tested nat "'a Element" | Push_locked nat "'a Element" | Push_stored nat
  | Pop_tested nat | Pop_locked nat | Pop_taken nat
  | Mf_unlocking nat

fun holds :: "'a mf_phase \<Rightarrow> nat option" where
  "holds (Push_locked i e) = Some i"
| "holds (Push_stored i) = Some i"
| "holds (Pop_locked i) = Some i"
| "holds (Pop_taken i) = Some i"
| "holds (Mf_unlocking i) = Some i"
| "holds _ = None"

fun targets :: "'a mf_phase \<Rightarrow> nat option" where
  "targets (Push_tested i e) = Some i"
| "targets (Pop_tested i) = Some i"
| "targets p = holds p"

text \<open>The state: the context, the phases of the threads, and what was pushed and popped so far.\<close>

record ('d, 's, 'a) mf_conc =
  ctx :: "('d, 's, 'a) Context"
  phases :: "'a mf_phase list"
  in_log :: "'a multiset"
  out_log :: "'a multiset"

definition lock_free :: "nat \<Rightarrow> ('d, 's, 'a) Context \<Rightarrow> bool" where
  "lock_free i c \<longleftrightarrow> lock (buffer c ! i) AND 1 = 0"

definition set_lock :: "nat \<Rightarrow> ('d, 's, 'a) Context \<Rightarrow> ('d, 's, 'a) Context" where
  "set_lock i c = upd_storage i (lock_update (\<lambda>_. 1)) c"

inductive mf_step :: "(nat \<Rightarrow> ('d, 's, 'a) Context \<Rightarrow> ('d, 's, 'a) Context) \<Rightarrow> (nat \<Rightarrow> ('d, 's, 'a) Context \<Rightarrow> ('d, 's, 'a) Context)
    \<Rightarrow> ('d, 's, 'a) mf_conc \<Rightarrow> ('d, 's, 'a) mf_conc \<Rightarrow> bool" for pushed popped where
  push_test: "\<lbrakk>t < length (phases s); phases s ! t = Mf_idle; i < num_queues (ctx s); lock_free i (ctx s)\<rbrakk> \<Longrightarrow>
    mf_step pushed popped s (s\<lparr>phases := (phases s)[t := Push_tested i e]\<rparr>)"
| pop_test: "\<lbrakk>t < length (phases s); phases s ! t = Mf_idle; i < num_queues (ctx s); lock_free i (ctx s)\<rbrakk> \<Longrightarrow>
    mf_step pushed popped s (s\<lparr>phases := (phases s)[t := Pop_tested i]\<rparr>)"
| push_exchange: "\<lbrakk>t < length (phases s); phases s ! t = Push_tested i e\<rbrakk> \<Longrightarrow>
    mf_step pushed popped s (s\<lparr>ctx := set_lock i (ctx s),
      phases := (phases s)[t := if lock_free i (ctx s) then Push_locked i e else Mf_idle]\<rparr>)"
| pop_exchange: "\<lbrakk>t < length (phases s); phases s ! t = Pop_tested i\<rbrakk> \<Longrightarrow>
    mf_step pushed popped s (s\<lparr>ctx := set_lock i (ctx s),
      phases := (phases s)[t := if lock_free i (ctx s) then Pop_locked i else Mf_idle]\<rparr>)"
| push_full: "\<lbrakk>t < length (phases s); phases s ! t = Push_locked i e; unsafe_size i (ctx s) = size_per_queue (ctx s)\<rbrakk> \<Longrightarrow>
    mf_step pushed popped s (s\<lparr>phases := (phases s)[t := Mf_unlocking i]\<rparr>)"
| push_store: "\<lbrakk>t < length (phases s); phases s ! t = Push_locked i e; unsafe_size i (ctx s) \<noteq> size_per_queue (ctx s)\<rbrakk> \<Longrightarrow>
    mf_step pushed popped s (s\<lparr>ctx := ctx_push i e (ctx s), phases := (phases s)[t := Push_stored i],
      in_log := add_mset (elem_value e) (in_log s)\<rparr>)"
| push_note: "\<lbrakk>t < length (phases s); phases s ! t = Push_stored i\<rbrakk> \<Longrightarrow>
    mf_step pushed popped s (s\<lparr>ctx := pushed i (ctx s), phases := (phases s)[t := Mf_unlocking i]\<rparr>)"
| pop_empty: "\<lbrakk>t < length (phases s); phases s ! t = Pop_locked i; unsafe_empty i (ctx s)\<rbrakk> \<Longrightarrow>
    mf_step pushed popped s (s\<lparr>phases := (phases s)[t := Mf_unlocking i]\<rparr>)"
| pop_take: "\<lbrakk>t < length (phases s); phases s ! t = Pop_locked i; \<not> unsafe_empty i (ctx s)\<rbrakk> \<Longrightarrow>
    mf_step pushed popped s (s\<lparr>ctx := ctx_pop i (ctx s), phases := (phases s)[t := Pop_taken i],
      out_log := add_mset (ctx_top i (ctx s)) (out_log s)\<rparr>)"
| pop_note: "\<lbrakk>t < length (phases s); phases s ! t = Pop_taken i\<rbrakk> \<Longrightarrow>
    mf_step pushed popped s (s\<lparr>ctx := popped i (ctx s), phases := (phases s)[t := Mf_unlocking i]\<rparr>)"
| release: "\<lbrakk>t < length (phases s); phases s ! t = Mf_unlocking i\<rbrakk> \<Longrightarrow>
    mf_step pushed popped s (s\<lparr>ctx := unlock i (ctx s), phases := (phases s)[t := Mf_idle]\<rparr>)"

definition conc_start :: "('d, 's, 'a) Context \<Rightarrow> nat \<Rightarrow> ('d, 's, 'a) mf_conc" where
  "conc_start c threads = \<lparr>ctx = c, phases = replicate threads Mf_idle, in_log = {#}, out_log = {#}\<rparr>"

text \<open>
  The invariant: a lock word is 1 exactly while one thread is between its exchange and its
  release, no two threads hold the same queue, and the elements are those pushed and not popped.
\<close>

definition mf_conc_inv :: "('d, 's, 'a) mf_conc \<Rightarrow> bool" where
  "mf_conc_inv s \<longleftrightarrow> mf_inv (ctx s) \<and> in_log s = out_log s + mf_content (ctx s) \<and>
     (\<forall>t < length (phases s). \<forall>i. targets (phases s ! t) = Some i \<longrightarrow> i < num_queues (ctx s)) \<and>
     (\<forall>i < num_queues (ctx s). lock (buffer (ctx s) ! i) = (if \<exists>t < length (phases s). holds (phases s ! t) = Some i then 1 else 0)) \<and>
     (\<forall>t u i. t < length (phases s) \<longrightarrow> u < length (phases s) \<longrightarrow> holds (phases s ! t) = Some i \<longrightarrow> holds (phases s ! u) = Some i \<longrightarrow> t = u)"

section \<open>Steps on the context\<close>

lemma set_lock_word:
  assumes "mf_inv c" "i < num_queues c" "w \<in> {0, 1}"
  shows "mf_inv (upd_storage i (lock_update (\<lambda>_. w)) c)" "queues (upd_storage i (lock_update (\<lambda>_. w)) c) = queues c"
proof -
  note n = mf_inv_nth [OF assms(1,2)]
  let ?P = "\<lambda>s. rb_invar (ring_of (index_mask c) s) \<and> length (elems s) = unat (size_per_queue c) \<and> lock s \<in> {0, 1}"
  have "\<forall>s \<in> set (buffer c). ?P s" using assms(1) unfolding mf_inv_def by blast
  moreover have "?P (lock_update (\<lambda>_. w) (buffer c ! i))" using n(2,3) assms(3) by (simp add: ring_of_def)
  ultimately have "\<forall>s \<in> set ((buffer c)[i := lock_update (\<lambda>_. w) (buffer c ! i)]). ?P s"
    using set_update_subset_insert [of "buffer c" i "lock_update (\<lambda>_. w) (buffer c ! i)"] by blast
  then show "mf_inv (upd_storage i (lock_update (\<lambda>_. w)) c)" using assms(1) by (simp add: mf_inv_def)
  have "rb_items (ring_of (index_mask c) (lock_update (\<lambda>_. w) (buffer c ! i))) = queues c ! i"
    by (simp add: queues_nth [OF n(1)] ring_of_def)
  then show "queues (upd_storage i (lock_update (\<lambda>_. w)) c) = queues c" by (simp add: queues_def map_update)
qed

lemma note_effect:
  assumes "mf_inv c" "i < num_queues c" "mode_note f"
  shows "mf_inv (f i c)" "queues (f i c) = queues c" "locks (f i c) = locks c" "num_queues (f i c) = num_queues c"
proof -
  obtain d where d: "f i c = upd_storage i (queue_data_update (\<lambda>_. d)) c"
    using assms(3) unfolding mode_note_def set_queue_data_def by blast
  note n = mf_inv_nth [OF assms(1,2)]
  have r: "ring_of (index_mask c) (queue_data_update (\<lambda>_. d) (buffer c ! i)) = ring_of (index_mask c) (buffer c ! i)"
    by (simp add: ring_of_def)
  have e: "rb_invar (ring_of (index_mask c) (queue_data_update (\<lambda>_. d) (buffer c ! i)))"
    "length (elems (queue_data_update (\<lambda>_. d) (buffer c ! i))) = length (elems (buffer c ! i))"
    "lock (queue_data_update (\<lambda>_. d) (buffer c ! i)) = lock (buffer c ! i)" using n(2) by (simp_all add: r)
  from upd_storage_effect [where f = "queue_data_update (\<lambda>_. d)", OF assms(1,2) e] show "mf_inv (f i c)" "queues (f i c) = queues c" "locks (f i c) = locks c"
    unfolding d r by (simp_all add: queues_nth [OF n(1), symmetric])
  show "num_queues (f i c) = num_queues c" by (simp add: d)
qed

lemma ctx_push_effect:
  assumes "mf_inv c" "i < num_queues c" "unsafe_size i c \<noteq> size_per_queue c"
  shows "mf_inv (ctx_push i e c)" "queues (ctx_push i e c) = (queues c)[i := queues c ! i @ [e]]"
    "locks (ctx_push i e c) = locks c" "num_queues (ctx_push i e c) = num_queues c"
proof -
  note n = mf_inv_nth [OF assms(1,2)]
  let ?b = "ring_of (index_mask c) (buffer c ! i)"
  let ?f = "\<lambda>s :: ('a, 'c) storage. s\<lparr>elems := (elems s)[unat (q_head s AND index_mask c) := e], q_head := q_head s + 1\<rparr>"
  have "unat (rb_size ?b) \<noteq> unat (size_per_queue c)" using assms(3) by (simp add: unsafe_size_def rb_size_def ring_of_def word_eq_unat)
  then have lt: "length (rb_items ?b) < rb_capacity ?b"
    using n(2,3) by (simp add: rb_items_length rb_capacity_def rb_invar_def) (simp add: ring_of_def)
  have r: "ring_of (index_mask c) (?f (buffer c ! i)) = rb_push e ?b" by (simp add: ring_of_def rb_push_def)
  note p = rb_push_items [OF n(2) lt, of e]
  have u: "rb_invar (ring_of (index_mask c) (?f (buffer c ! i)))" "length (elems (?f (buffer c ! i))) = length (elems (buffer c ! i))"
    "lock (?f (buffer c ! i)) = lock (buffer c ! i)" unfolding r using p by simp_all
  from upd_storage_effect [where f = ?f, OF assms(1,2) u] p show "mf_inv (ctx_push i e c)" "locks (ctx_push i e c) = locks c"
    "queues (ctx_push i e c) = (queues c)[i := queues c ! i @ [e]]"
    unfolding ctx_push_def r by (simp_all add: queues_nth [OF n(1)])
  show "num_queues (ctx_push i e c) = num_queues c" by (simp add: ctx_push_def)
qed

lemma ctx_pop_effect:
  assumes "mf_inv c" "i < num_queues c" "\<not> unsafe_empty i c"
  shows "mf_inv (ctx_pop i c)" "locks (ctx_pop i c) = locks c" "num_queues (ctx_pop i c) = num_queues c"
    "\<exists>e es. queues c ! i = e # es \<and> ctx_top i c = elem_value e \<and> queues (ctx_pop i c) = (queues c)[i := es]"
proof -
  note n = mf_inv_nth [OF assms(1,2)]
  let ?b = "ring_of (index_mask c) (buffer c ! i)"
  obtain e es where q: "queues c ! i = e # es" using unsafe_empty_queue [OF assms(1,2)] assms(3) by (cases "queues c ! i") auto
  then have items: "rb_items ?b = e # es" by (simp add: queues_nth [OF n(1)])
  note p = rb_pop_items [OF n(2) items]
  let ?f = "q_tail_update (\<lambda>t. t + 1) :: ('a, 'c) storage \<Rightarrow> ('a, 'c) storage"
  have r: "ring_of (index_mask c) (?f (buffer c ! i)) = rb_pop ?b" by (simp add: ring_of_def rb_pop_def)
  have u: "rb_invar (ring_of (index_mask c) (?f (buffer c ! i)))" "length (elems (?f (buffer c ! i))) = length (elems (buffer c ! i))"
    "lock (?f (buffer c ! i)) = lock (buffer c ! i)" unfolding r using p by simp_all
  note eff = upd_storage_effect [where f = ?f, OF assms(1,2) u]
  show "mf_inv (ctx_pop i c)" "locks (ctx_pop i c) = locks c" "num_queues (ctx_pop i c) = num_queues c"
    using eff by (simp_all add: ctx_pop_def)
  have "ctx_top i c = elem_value e" using top_elem_queue [OF assms(1,2)] q by (simp add: ctx_top_def)
  then show "\<exists>e es. queues c ! i = e # es \<and> ctx_top i c = elem_value e \<and> queues (ctx_pop i c) = (queues c)[i := es]"
    using eff(3) p q unfolding ctx_pop_def r by auto
qed

section \<open>The invariant of the interleaving\<close>

lemma locks_nth: "mf_inv c \<Longrightarrow> i < num_queues c \<Longrightarrow> lock (buffer c ! i) = locks c ! i"
  by (simp add: locks_def mf_inv_def)

lemma conc_invD:
  assumes "mf_conc_inv s"
  shows "mf_inv (ctx s)" "in_log s = out_log s + mf_content (ctx s)"
    "t < length (phases s) \<Longrightarrow> targets (phases s ! t) = Some i \<Longrightarrow> i < num_queues (ctx s)"
    "i < num_queues (ctx s) \<Longrightarrow> locks (ctx s) ! i = (if \<exists>t < length (phases s). holds (phases s ! t) = Some i then 1 else 0)"
    "t < length (phases s) \<Longrightarrow> u < length (phases s) \<Longrightarrow> holds (phases s ! t) = Some i \<Longrightarrow> holds (phases s ! u) = Some i \<Longrightarrow> t = u"
proof -
  show c: "mf_inv (ctx s)" "in_log s = out_log s + mf_content (ctx s)" using assms by (simp_all add: mf_conc_inv_def)
  show "t < length (phases s) \<Longrightarrow> targets (phases s ! t) = Some i \<Longrightarrow> i < num_queues (ctx s)"
    using assms by (simp add: mf_conc_inv_def)
  show "i < num_queues (ctx s) \<Longrightarrow> locks (ctx s) ! i = (if \<exists>t < length (phases s). holds (phases s ! t) = Some i then 1 else 0)"
    using assms locks_nth [OF c(1)] by (simp add: mf_conc_inv_def)
  show "t < length (phases s) \<Longrightarrow> u < length (phases s) \<Longrightarrow> holds (phases s ! t) = Some i \<Longrightarrow> holds (phases s ! u) = Some i \<Longrightarrow> t = u"
    using assms unfolding mf_conc_inv_def by metis
qed

lemma conc_invI:
  assumes "mf_inv (ctx s)" "in_log s = out_log s + mf_content (ctx s)"
    and "\<And>t i. t < length (phases s) \<Longrightarrow> targets (phases s ! t) = Some i \<Longrightarrow> i < num_queues (ctx s)"
    and "\<And>i. i < num_queues (ctx s) \<Longrightarrow> locks (ctx s) ! i = (if \<exists>t < length (phases s). holds (phases s ! t) = Some i then 1 else 0)"
    and "\<And>t u i. t < length (phases s) \<Longrightarrow> u < length (phases s) \<Longrightarrow> holds (phases s ! t) = Some i \<Longrightarrow> holds (phases s ! u) = Some i \<Longrightarrow> t = u"
  shows "mf_conc_inv s"
  using assms locks_nth [OF assms(1)] unfolding mf_conc_inv_def by simp

text \<open>A step in which the moving thread holds after it what it held before.\<close>

lemma conc_keep:
  assumes inv: "mf_conc_inv s" and t: "t < length (phases s)" and p: "phases s' = (phases s)[t := p]" "holds p = holds (phases s ! t)"
    and c: "mf_inv (ctx s')" "num_queues (ctx s') = num_queues (ctx s)" "locks (ctx s') = locks (ctx s)"
    and "\<And>i. targets p = Some i \<Longrightarrow> i < num_queues (ctx s)" and "in_log s' = out_log s' + mf_content (ctx s')"
  shows "mf_conc_inv s'"
proof (rule conc_invI)
  have h: "holds (phases s' ! u) = holds (phases s ! u)" if "u < length (phases s)" for u
    using p that by (cases "u = t") auto
  have l: "length (phases s') = length (phases s)" using p by simp
  show "locks (ctx s') ! i = (if \<exists>t < length (phases s'). holds (phases s' ! t) = Some i then 1 else 0)" if "i < num_queues (ctx s')" for i
    using conc_invD(4) [OF inv, of i] that h unfolding l c(2,3) by (auto split: if_splits)
  show "u = w" if "u < length (phases s')" "w < length (phases s')" "holds (phases s' ! u) = Some i" "holds (phases s' ! w) = Some i" for u w i
    using conc_invD(5) [OF inv] that h unfolding l by metis
  show "i < num_queues (ctx s')" if "u < length (phases s')" "targets (phases s' ! u) = Some i" for u i
    using conc_invD(3) [OF inv] assms(8) that t unfolding l p(1) c(2) by (cases "u = t") auto
qed (use assms in auto)

text \<open>A step that takes a lock that was free, and a step that gives one back.\<close>

lemma conc_acquire:
  assumes inv: "mf_conc_inv s" and t: "t < length (phases s)" and p: "phases s' = (phases s)[t := p]" "holds p = Some i" "targets p = Some i"
    and n: "holds (phases s ! t) = None" and i: "i < num_queues (ctx s)" "locks (ctx s) ! i = 0"
    and c: "mf_inv (ctx s')" "num_queues (ctx s') = num_queues (ctx s)" "locks (ctx s') = (locks (ctx s))[i := 1]"
    and "in_log s' = out_log s' + mf_content (ctx s')"
  shows "mf_conc_inv s'"
proof (rule conc_invI)
  have l: "length (phases s') = length (phases s)" using p by simp
  have ll: "i < length (locks (ctx s))" using conc_invD(1) [OF inv] i(1) by (simp add: locks_def mf_inv_def)
  have none: "holds (phases s ! u) \<noteq> Some i" if "u < length (phases s)" for u
    using conc_invD(4) [OF inv i(1)] i(2) that by (auto split: if_splits)
  have h: "holds (phases s' ! u) = (if u = t then Some i else holds (phases s ! u))" if "u < length (phases s)" for u
    using p that by auto
  show "locks (ctx s') ! j = (if \<exists>u < length (phases s'). holds (phases s' ! u) = Some j then 1 else 0)" if "j < num_queues (ctx s')" for j
  proof (cases "j = i")
    case True
    then show ?thesis using h [OF t] t ll unfolding l c(3) by auto
  next
    case False
    then have "(\<exists>u < length (phases s'). holds (phases s' ! u) = Some j) \<longleftrightarrow> (\<exists>u < length (phases s). holds (phases s ! u) = Some j)"
      using h t n unfolding l by (metis option.distinct(1) option.inject)
    then show ?thesis using conc_invD(4) [OF inv, of j] that False unfolding c(2,3) by simp
  qed
  show "u = w" if "u < length (phases s')" "w < length (phases s')" "holds (phases s' ! u) = Some j" "holds (phases s' ! w) = Some j" for u w j
    using conc_invD(5) [OF inv, of u w j] that h none unfolding l by (auto split: if_splits)
  show "j < num_queues (ctx s')" if "u < length (phases s')" "targets (phases s' ! u) = Some j" for u j
    using conc_invD(3) [OF inv, of u j] p(3) i(1) that t unfolding l p(1) c(2) by (cases "u = t") auto
qed (use assms in auto)

lemma conc_release:
  assumes inv: "mf_conc_inv s" and t: "t < length (phases s)" and p: "phases s' = (phases s)[t := Mf_idle]"
    and n: "holds (phases s ! t) = Some i" and i: "i < num_queues (ctx s)"
    and c: "mf_inv (ctx s')" "num_queues (ctx s') = num_queues (ctx s)" "locks (ctx s') = (locks (ctx s))[i := 0]"
    and "in_log s' = out_log s' + mf_content (ctx s')"
  shows "mf_conc_inv s'"
proof (rule conc_invI)
  have l: "length (phases s') = length (phases s)" using p by simp
  have ll: "i < length (locks (ctx s))" using conc_invD(1) [OF inv] i(1) by (simp add: locks_def mf_inv_def)
  have h: "holds (phases s' ! u) = (if u = t then None else holds (phases s ! u))" if "u < length (phases s)" for u
    using p that by auto
  have only: "holds (phases s ! u) \<noteq> Some i" if "u < length (phases s)" "u \<noteq> t" for u
    using conc_invD(5) [OF inv that(1) t _ n] that(2) by blast
  show "locks (ctx s') ! j = (if \<exists>u < length (phases s'). holds (phases s' ! u) = Some j then 1 else 0)" if "j < num_queues (ctx s')" for j
  proof (cases "j = i")
    case True
    then show ?thesis using h only ll unfolding l c(3) by auto
  next
    case False
    then have "(\<exists>u < length (phases s'). holds (phases s' ! u) = Some j) \<longleftrightarrow> (\<exists>u < length (phases s). holds (phases s ! u) = Some j)"
      using h t n unfolding l by (metis option.distinct(1) option.inject)
    then show ?thesis using conc_invD(4) [OF inv, of j] that False unfolding c(2,3) by simp
  qed
  show "u = w" if "u < length (phases s')" "w < length (phases s')" "holds (phases s' ! u) = Some j" "holds (phases s' ! w) = Some j" for u w j
    using conc_invD(5) [OF inv, of u w j] that h unfolding l by (auto split: if_splits)
  show "j < num_queues (ctx s')" if "u < length (phases s')" "targets (phases s' ! u) = Some j" for u j
    using conc_invD(3) [OF inv, of u j] that t unfolding l p(1) c(2) by (cases "u = t") auto
qed (use assms in auto)

lemma content_queues: "queues c' = queues c \<Longrightarrow> mf_content c' = mf_content c"
  by (simp add: mf_content_def)

lemma locks_set: "locks (upd_storage i (lock_update (\<lambda>_. w)) c) = (locks c)[i := w]"
  by (simp add: locks_def map_update)

text \<open>The exchange of a lock word that was read as free.\<close>

lemma conc_exchange:
  assumes inv: "mf_conc_inv s" and t: "t < length (phases s)" and old: "targets (phases s ! t) = Some i" "holds (phases s ! t) = None"
    and p: "holds p = Some i" "targets p = Some i"
  shows "mf_conc_inv (s\<lparr>ctx := set_lock i (ctx s), phases := (phases s)[t := if lock_free i (ctx s) then p else Mf_idle]\<rparr>)"
    (is "mf_conc_inv ?s'")
proof -
  have i: "i < num_queues (ctx s)" using conc_invD(3) [OF inv t old(1)] .
  note c = conc_invD(1) [OF inv]
  have w: "mf_inv (set_lock i (ctx s))" "queues (set_lock i (ctx s)) = queues (ctx s)"
    using set_lock_word [OF c i, of 1] by (simp_all add: set_lock_def)
  have con: "in_log s = out_log s + mf_content (set_lock i (ctx s))" using conc_invD(2) [OF inv] content_queues [OF w(2)] by simp
  have nq: "num_queues (set_lock i (ctx s)) = num_queues (ctx s)" by (simp add: set_lock_def)
  have lk: "locks (set_lock i (ctx s)) = (locks (ctx s))[i := 1]" by (simp add: set_lock_def locks_set)
  have word: "lock (buffer (ctx s) ! i) \<in> {0, 1}" using mf_inv_nth(4) [OF c i] .
  show ?thesis
  proof (cases "lock_free i (ctx s)")
    case True
    then have "locks (ctx s) ! i = 0" using word locks_nth [OF c i] by (auto simp: lock_free_def)
    then show ?thesis using True w(1) nq lk con by (intro conc_acquire [OF inv t _ p old(2) i, of ?s']) simp_all
  next
    case False
    then have "locks (ctx s) ! i = 1" using word locks_nth [OF c i] by (auto simp: lock_free_def)
    then have "locks (set_lock i (ctx s)) = locks (ctx s)" using lk by (metis list_update_id)
    then show ?thesis using False w(1) nq con old(2) by (intro conc_keep [OF inv t, of ?s' Mf_idle]) simp_all
  qed
qed

lemma mf_step_inv:
  assumes nts: "mode_note pushed" "mode_note popped" and step: "mf_step pushed popped s s'" and inv: "mf_conc_inv s"
  shows "mf_conc_inv s'"
  using step
proof cases
  case (push_test t i e)
  then show ?thesis using conc_invD(1,2) [OF inv] by (intro conc_keep [OF inv, of t s' "Push_tested i e"]) auto
next
  case (pop_test t i)
  then show ?thesis using conc_invD(1,2) [OF inv] by (intro conc_keep [OF inv, of t s' "Pop_tested i"]) auto
next
  case (push_exchange t i e)
  then show ?thesis using conc_exchange [OF inv, of t i "Push_locked i e"] by simp
next
  case (pop_exchange t i)
  then show ?thesis using conc_exchange [OF inv, of t i "Pop_locked i"] by simp
next
  case (push_full t i e)
  then show ?thesis using conc_invD(1,2) [OF inv] conc_invD(3) [OF inv, of t i] by (intro conc_keep [OF inv, of t s' "Mf_unlocking i"]) auto
next
  case (push_store t i e)
  then have i: "i < num_queues (ctx s)" using conc_invD(3) [OF inv, of t i] by simp
  note eff = ctx_push_effect [OF conc_invD(1) [OF inv] i push_store(4), of e]
  have "i < length (queues (ctx s))" using i conc_invD(1) [OF inv] by (simp add: queues_def mf_inv_def)
  from mset_concat_replace [OF this, of "queues (ctx s) ! i @ [e]"]
  have "mset (concat (queues (ctx_push i e (ctx s)))) = add_mset e (mset (concat (queues (ctx s))))" by (simp add: eff(2))
  then have "mf_content (ctx_push i e (ctx s)) = add_mset (elem_value e) (mf_content (ctx s))"
    by (simp add: mf_content_def del: mset_concat)
  then show ?thesis using push_store eff i conc_invD(2) [OF inv] by (intro conc_keep [OF inv, of t s' "Push_stored i"]) simp_all
next
  case (push_note t i)
  then have i: "i < num_queues (ctx s)" using conc_invD(3) [OF inv, of t i] by simp
  note eff = note_effect [OF conc_invD(1) [OF inv] i nts(1)]
  show ?thesis using push_note eff i conc_invD(2) [OF inv] content_queues [OF eff(2)] by (intro conc_keep [OF inv, of t s' "Mf_unlocking i"]) simp_all
next
  case (pop_empty t i)
  then show ?thesis using conc_invD(1,2) [OF inv] conc_invD(3) [OF inv, of t i] by (intro conc_keep [OF inv, of t s' "Mf_unlocking i"]) auto
next
  case (pop_take t i)
  then have i: "i < num_queues (ctx s)" using conc_invD(3) [OF inv, of t i] by simp
  note eff = ctx_pop_effect [OF conc_invD(1) [OF inv] i pop_take(4)]
  obtain e es where e: "queues (ctx s) ! i = e # es" "ctx_top i (ctx s) = elem_value e"
    "queues (ctx_pop i (ctx s)) = (queues (ctx s))[i := es]" using eff(4) by blast
  have "i < length (queues (ctx s))" using i conc_invD(1) [OF inv] by (simp add: queues_def mf_inv_def)
  from mset_concat_replace [OF this, of es] e
  have "mset (concat (queues (ctx s))) = add_mset e (mset (concat (queues (ctx_pop i (ctx s)))))" by simp
  then have "mf_content (ctx s) = add_mset (ctx_top i (ctx s)) (mf_content (ctx_pop i (ctx s)))"
    using e(2) by (simp add: mf_content_def del: mset_concat)
  then show ?thesis using pop_take eff(1-3) i conc_invD(2) [OF inv] by (intro conc_keep [OF inv, of t s' "Pop_taken i"]) simp_all
next
  case (pop_note t i)
  then have i: "i < num_queues (ctx s)" using conc_invD(3) [OF inv, of t i] by simp
  note eff = note_effect [OF conc_invD(1) [OF inv] i nts(2)]
  show ?thesis using pop_note eff i conc_invD(2) [OF inv] content_queues [OF eff(2)] by (intro conc_keep [OF inv, of t s' "Mf_unlocking i"]) simp_all
next
  case (release t i)
  then have i: "i < num_queues (ctx s)" using conc_invD(3) [OF inv, of t i] by simp
  have w: "mf_inv (unlock i (ctx s))" "queues (unlock i (ctx s)) = queues (ctx s)"
    using set_lock_word [OF conc_invD(1) [OF inv] i, of 0] by (simp_all add: unlock_def)
  have "locks (unlock i (ctx s)) = (locks (ctx s))[i := 0]" by (simp add: unlock_def locks_set)
  moreover have "num_queues (unlock i (ctx s)) = num_queues (ctx s)" by (simp add: unlock_def)
  ultimately show ?thesis using release w conc_invD(2) [OF inv] content_queues [OF w(2)]
    by (intro conc_release [OF inv, of t s' i]) (simp_all add: i)
qed

lemma conc_start_inv:
  assumes "mf_inv c" "\<forall>i < num_queues c. unheld c i" "mf_content c = {#}"
  shows "mf_conc_inv (conc_start c threads)"
  using assms by (auto simp: mf_conc_inv_def conc_start_def unheld_def)

lemma mf_steps_inv:
  assumes "mode_note pushed" "mode_note popped" "(mf_step pushed popped)\<^sup>*\<^sup>* s s'" "mf_conc_inv s"
  shows "mf_conc_inv s'"
  using assms(3,4) by (induction rule: rtranclp_induct) (use mf_step_inv [OF assms(1,2)] in blast)+

end
