(* ===== verification/Multi_Swap_Conc.thy ===== *)
theory Multi_Swap_Conc
  imports Multi_Swap_Laws
begin

text \<open>
  \<^verbatim>\<open>StickSwap::swap_assignment\<close> under interleaving. A thread marks a slot of its own with the value
  \<^verbatim>\<open>swapping\<close> and keeps the queue it held, exchanges that queue for the one in any slot that is not
  being swapped, and stores the queue it got in its own slot. Any number of threads do so at the
  same time; each access is one step.
\<close>

section \<open>The protocol\<close>

datatype swap_phase = Swap_idle | Swap_taken nat u64 | Swap_got nat u64

fun swap_slot :: "swap_phase \<Rightarrow> nat option" where
  "swap_slot Swap_idle = None"
| "swap_slot (Swap_taken slot v) = Some slot"
| "swap_slot (Swap_got slot v) = Some slot"

fun in_hand :: "swap_phase \<Rightarrow> u64 list" where
  "in_hand Swap_idle = []"
| "in_hand (Swap_taken slot v) = [v]"
| "in_hand (Swap_got slot v) = [v]"

record swap_conc =
  sc_perm :: "u64 list"
  sc_phases :: "swap_phase list"

text \<open>Thread \<open>t\<close> owns the slots from \<open>t * k\<close> on, \<open>k\<close> of them.\<close>

inductive swap_step :: "nat \<Rightarrow> swap_conc \<Rightarrow> swap_conc \<Rightarrow> bool" for k where
  swap_take: "\<lbrakk>t < length (sc_phases s); sc_phases s ! t = Swap_idle; index < k; slot = t * k + index; slot < length (sc_perm s)\<rbrakk> \<Longrightarrow>
    swap_step k s \<lparr>sc_perm = (sc_perm s)[slot := swapping], sc_phases = (sc_phases s)[t := Swap_taken slot (sc_perm s ! slot)]\<rparr>"
| swap_retry: "\<lbrakk>t < length (sc_phases s); sc_phases s ! t = Swap_taken slot old\<rbrakk> \<Longrightarrow> swap_step k s s"
| swap_exchange: "\<lbrakk>t < length (sc_phases s); sc_phases s ! t = Swap_taken slot old; i < length (sc_perm s); sc_perm s ! i \<noteq> swapping\<rbrakk> \<Longrightarrow>
    swap_step k s \<lparr>sc_perm = (sc_perm s)[i := old], sc_phases = (sc_phases s)[t := Swap_got slot (sc_perm s ! i)]\<rparr>"
| swap_store: "\<lbrakk>t < length (sc_phases s); sc_phases s ! t = Swap_got slot new\<rbrakk> \<Longrightarrow>
    swap_step k s \<lparr>sc_perm = (sc_perm s)[slot := new], sc_phases = (sc_phases s)[t := Swap_idle]\<rparr>"

definition swap_init :: "nat \<Rightarrow> nat \<Rightarrow> swap_conc" where
  "swap_init num threads = \<lparr>sc_perm = permutation_new num, sc_phases = replicate threads Swap_idle\<rparr>"

section \<open>The invariant\<close>

definition settled :: "u64 list \<Rightarrow> u64 list" where
  "settled perm = filter (\<lambda>p. p \<noteq> swapping) perm"

text \<open>
  Every queue is in one slot or in the hand of one thread; a slot is marked exactly while its
  owner is swapping.
\<close>

definition swap_inv :: "nat \<Rightarrow> nat \<Rightarrow> swap_conc \<Rightarrow> bool" where
  "swap_inv num k s \<longleftrightarrow> num < 2 ^ 64 - 1 \<and> length (sc_perm s) = num \<and>
     mset (settled (sc_perm s)) + mset (concat (map in_hand (sc_phases s))) = mset (permutation_new num) \<and>
     (\<forall>t < length (sc_phases s). \<forall>slot. swap_slot (sc_phases s ! t) = Some slot \<longrightarrow> slot < num \<and> t * k \<le> slot \<and> slot < t * k + k) \<and>
     (\<forall>slot < num. sc_perm s ! slot = swapping \<longleftrightarrow> (\<exists>t < length (sc_phases s). swap_slot (sc_phases s ! t) = Some slot))"

lemma settled_update:
  "i < length perm \<Longrightarrow> mset (settled (perm[i := v])) + mset (settled [perm ! i]) = mset (settled perm) + mset (settled [v])"
  unfolding settled_def by (rule mset_filter_update)

lemma in_hand_update:
  "t < length phs \<Longrightarrow> mset (concat (map in_hand (phs[t := p]))) + mset (in_hand (phs ! t)) = mset (concat (map in_hand phs)) + mset (in_hand p)"
  using mset_concat_replace [of t "map in_hand phs" "in_hand p"] by (simp add: map_update)

lemma permutation_new_settled: "num < 2 ^ 64 - 1 \<Longrightarrow> swapping \<notin> set (permutation_new num)"
  using perm_ok_entry(2) [OF perm_ok_new] by blast

lemma swap_inv_init: "num < 2 ^ 64 - 1 \<Longrightarrow> swap_inv num k (swap_init num threads)"
proof -
  assume n: "num < 2 ^ 64 - 1"
  have nz: "permutation_new num ! i \<noteq> swapping" if "i < num" for i
    using permutation_new_settled [OF n] that nth_mem [of i "permutation_new num"] by (metis perm_ok_length [OF perm_ok_new [OF n]])
  have "settled (permutation_new num) = permutation_new num"
    unfolding settled_def using permutation_new_settled [OF n] by (intro filter_True) auto
  moreover have "concat (map in_hand (replicate threads Swap_idle)) = []" by simp
  ultimately show ?thesis using n nz by (auto simp: swap_inv_def swap_init_def) (simp_all add: permutation_new_def)
qed

text \<open>Two threads never work on the same slot, since the slots they own are different.\<close>

lemma swap_inv_slot_unique:
  assumes "swap_inv num k s" "t < length (sc_phases s)" "u < length (sc_phases s)"
    and "swap_slot (sc_phases s ! t) = Some slot" "swap_slot (sc_phases s ! u) = Some slot"
  shows "t = u"
proof -
  have "t * k \<le> slot" "slot < t * k + k" "u * k \<le> slot" "slot < u * k + k" using assms by (auto simp: swap_inv_def)
  then have "slot div k = t" "slot div k = u" by (auto intro!: div_nat_eqI simp: mult.commute)
  then show ?thesis by simp
qed

lemma swap_step_inv:
  assumes "swap_step k s s'" "swap_inv num k s" shows "swap_inv num k s'"
  using assms(1)
proof cases
  case (swap_take t index slot)
  note inv = assms(2) [unfolded swap_inv_def]
  have con: "mset (settled (sc_perm s)) + mset (concat (map in_hand (sc_phases s))) = mset (permutation_new num)" using inv by simp
  have idle: "\<not> (\<exists>u < length (sc_phases s). swap_slot (sc_phases s ! u) = Some slot)"
  proof
    assume "\<exists>u < length (sc_phases s). swap_slot (sc_phases s ! u) = Some slot"
    then obtain u where u: "u < length (sc_phases s)" "swap_slot (sc_phases s ! u) = Some slot" by blast
    then have "u * k \<le> slot" "slot < u * k + k" using inv by auto
    then have "slot div k = u" by (auto intro!: div_nat_eqI simp: mult.commute)
    moreover have "slot div k = t" using swap_take by simp
    ultimately show False using u(2) swap_take by simp
  qed
  let ?v = "sc_perm s ! slot"
  have v: "?v \<noteq> swapping" using idle inv swap_take by auto
  have a: "mset (settled (sc_perm s)) = mset (settled (sc_perm s')) + {#?v#}"
    using settled_update [of slot "sc_perm s" swapping] swap_take v by (simp add: settled_def)
  have b: "mset (concat (map in_hand (sc_phases s'))) = mset (concat (map in_hand (sc_phases s))) + {#?v#}"
    using in_hand_update [of t "sc_phases s" "Swap_taken slot ?v"] swap_take by simp
  have "mset (settled (sc_perm s')) + mset (concat (map in_hand (sc_phases s'))) = mset (permutation_new num)"
    unfolding con [symmetric] a b by (simp only: ac_simps)
  moreover have "sc_perm s' ! j = swapping \<longleftrightarrow> (\<exists>u < length (sc_phases s'). swap_slot (sc_phases s' ! u) = Some j)" if "j < num" for j
  proof (cases "j = slot")
    case True
    have "swap_slot (sc_phases s' ! t) = Some j" "t < length (sc_phases s')" using swap_take True by simp_all
    moreover have "sc_perm s' ! j = swapping" using swap_take True by simp
    ultimately show ?thesis by blast
  next
    case False
    have "swap_slot (sc_phases s' ! u) = Some j \<longleftrightarrow> swap_slot (sc_phases s ! u) = Some j" if "u < length (sc_phases s)" for u
      using that False swap_take by (cases "u = t") auto
    moreover have "length (sc_phases s') = length (sc_phases s)" "sc_perm s' ! j = sc_perm s ! j" using False swap_take by simp_all
    ultimately show ?thesis using inv that by metis
  qed
  ultimately show ?thesis using inv swap_take by (auto simp: swap_inv_def nth_list_update)
next
  case swap_retry
  then show ?thesis using assms(2) by simp
next
  case (swap_exchange t slot old i)
  note inv = assms(2) [unfolded swap_inv_def]
  have con: "mset (settled (sc_perm s)) + mset (concat (map in_hand (sc_phases s))) = mset (permutation_new num)" using inv by simp
  let ?v = "sc_perm s ! i"
  have "old \<in># mset (concat (map in_hand (sc_phases s)))"
    using swap_exchange nth_mem [of t "sc_phases s"] by (auto simp: in_multiset_in_set intro!: bexI [of _ "sc_phases s ! t"])
  then have "old \<in># mset (permutation_new num)" using inv by (metis union_iff)
  then have old: "old \<noteq> swapping" using permutation_new_settled inv by auto
  have a: "mset (settled (sc_perm s')) + {#?v#} = mset (settled (sc_perm s)) + {#old#}"
    using settled_update [of i "sc_perm s" old] swap_exchange old by (simp add: settled_def)
  have b: "mset (concat (map in_hand (sc_phases s'))) + {#old#} = mset (concat (map in_hand (sc_phases s))) + {#?v#}"
    using in_hand_update [of t "sc_phases s" "Swap_got slot ?v"] swap_exchange by simp
  have "mset (settled (sc_perm s')) + mset (concat (map in_hand (sc_phases s'))) + ({#?v#} + {#old#}) =
      mset (settled (sc_perm s)) + mset (concat (map in_hand (sc_phases s))) + ({#?v#} + {#old#})"
    using arg_cong2 [OF a b, of "(+)"] by (simp only: ac_simps)
  then have "mset (settled (sc_perm s')) + mset (concat (map in_hand (sc_phases s'))) = mset (permutation_new num)"
    unfolding con by (simp only: add_right_cancel)
  moreover have sl: "swap_slot (sc_phases s' ! u) = swap_slot (sc_phases s ! u)" if "u < length (sc_phases s)" for u
    using that swap_exchange by (cases "u = t") auto
  moreover have len: "length (sc_phases s') = length (sc_phases s)" "length (sc_perm s') = length (sc_perm s)"
    using swap_exchange by simp_all
  moreover have "sc_perm s' ! j = swapping \<longleftrightarrow> (\<exists>u < length (sc_phases s'). swap_slot (sc_phases s' ! u) = Some j)" if "j < num" for j
  proof -
    have "sc_perm s' ! j = swapping \<longleftrightarrow> sc_perm s ! j = swapping"
      using that swap_exchange old inv by (cases "j = i") auto
    then show ?thesis using inv that sl unfolding len by metis
  qed
  ultimately show ?thesis using inv by (simp add: swap_inv_def)
next
  case (swap_store t slot new)
  note inv = assms(2) [unfolded swap_inv_def]
  have con: "mset (settled (sc_perm s)) + mset (concat (map in_hand (sc_phases s))) = mset (permutation_new num)" using inv by simp
  have slot: "slot < num" "sc_perm s ! slot = swapping"
    using inv swap_store by (metis swap_slot.simps(3))+
  have "new \<in># mset (concat (map in_hand (sc_phases s)))"
    using swap_store nth_mem [of t "sc_phases s"] by (auto simp: in_multiset_in_set intro!: bexI [of _ "sc_phases s ! t"])
  then have "new \<in># mset (permutation_new num)" using inv by (metis union_iff)
  then have new: "new \<noteq> swapping" using permutation_new_settled inv by auto
  have a: "mset (settled (sc_perm s')) = mset (settled (sc_perm s)) + {#new#}"
    using settled_update [of slot "sc_perm s" new] swap_store new slot inv by (simp add: settled_def)
  have b: "mset (concat (map in_hand (sc_phases s))) = mset (concat (map in_hand (sc_phases s'))) + {#new#}"
    using in_hand_update [of t "sc_phases s" Swap_idle] swap_store by simp
  have "mset (settled (sc_perm s')) + mset (concat (map in_hand (sc_phases s'))) = mset (permutation_new num)"
    unfolding con [symmetric] a b by (simp only: ac_simps)
  moreover have "sc_perm s' ! j = swapping \<longleftrightarrow> (\<exists>u < length (sc_phases s'). swap_slot (sc_phases s' ! u) = Some j)" if "j < num" for j
  proof (cases "j = slot")
    case True
    have "swap_slot (sc_phases s' ! u) \<noteq> Some slot" if "u < length (sc_phases s')" for u
      using swap_inv_slot_unique [OF assms(2), of t u slot] that swap_store by (cases "u = t") auto
    then show ?thesis using True new swap_store slot inv by auto
  next
    case False
    have "swap_slot (sc_phases s' ! u) = Some j \<longleftrightarrow> swap_slot (sc_phases s ! u) = Some j" if "u < length (sc_phases s)" for u
      using that False swap_store by (cases "u = t") auto
    moreover have "length (sc_phases s') = length (sc_phases s)" "sc_perm s' ! j = sc_perm s ! j" using False swap_store by simp_all
    ultimately show ?thesis using inv that by metis
  qed
  ultimately show ?thesis using inv swap_store by (auto simp: swap_inv_def nth_list_update)
qed

lemma swap_steps_inv: "(swap_step k)\<^sup>*\<^sup>* s s' \<Longrightarrow> swap_inv num k s \<Longrightarrow> swap_inv num k s'"
  by (induction rule: rtranclp_induct) (blast intro: swap_step_inv)+

text \<open>The slots of a thread that is not swapping name queues.\<close>

lemma swap_inv_idle_slot:
  assumes "swap_inv num k s" "t < length (sc_phases s)" "sc_phases s ! t = Swap_idle" "index < k" "t * k + index < num"
  shows "unat (sc_perm s ! (t * k + index)) < num"
proof -
  define slot where "slot = t * k + index"
  have "swap_slot (sc_phases s ! u) \<noteq> Some slot" if u: "u < length (sc_phases s)" for u
  proof
    assume a: "swap_slot (sc_phases s ! u) = Some slot"
    then have "u * k \<le> slot" "slot < u * k + k" using assms(1) u by (auto simp: swap_inv_def)
    then have "slot div k = u" by (auto intro!: div_nat_eqI simp: mult.commute)
    moreover have "slot div k = t" using assms(4) by (simp add: slot_def)
    ultimately show False using a assms(3) by simp
  qed
  then have "sc_perm s ! slot \<noteq> swapping" "slot < length (sc_perm s)" using assms(1,5) by (auto simp: swap_inv_def slot_def)
  then have "sc_perm s ! slot \<in> set (settled (sc_perm s))" by (simp add: settled_def)
  moreover have "mset (settled (sc_perm s)) + mset (concat (map in_hand (sc_phases s))) = mset (permutation_new num)" "num < 2 ^ 64 - 1"
    using assms(1) by (simp_all add: swap_inv_def)
  ultimately have "sc_perm s ! slot \<in> set (permutation_new num)" by (metis in_multiset_in_set union_iff)
  then show ?thesis using perm_ok_entry(1) [OF perm_ok_new] \<open>num < 2 ^ 64 - 1\<close> by (simp add: slot_def)
qed

text \<open>A state in which nobody is swapping is a permutation.\<close>

lemma swap_inv_settled:
  assumes "swap_inv num k s" "\<forall>p \<in> set (sc_phases s). p = Swap_idle"
  shows "perm_ok num (sc_perm s)"
proof -
  have "map in_hand (sc_phases s) = map (\<lambda>_. []) (sc_phases s)" using assms(2) by (intro map_cong) auto
  then have e: "concat (map in_hand (sc_phases s)) = []" by simp
  have "sc_perm s ! j \<noteq> swapping" if "j < num" for j
    using assms that by (auto simp: swap_inv_def) (metis nth_mem option.distinct(1) swap_slot.simps(1))
  then have st: "settled (sc_perm s) = sc_perm s" using assms(1)
    unfolding settled_def swap_inv_def by (metis (mono_tags, lifting) filter_True in_set_conv_nth)
  have "num < 2 ^ 64 - 1" "mset (settled (sc_perm s)) + mset (concat (map in_hand (sc_phases s))) = mset (permutation_new num)"
    using assms(1) by (simp_all add: swap_inv_def)
  then show ?thesis unfolding st e by (simp add: perm_ok_def)
qed

end
