(* ===== verification/Multi_Props.thy ===== *)
theory Multi_Props
  imports Multi_Conc Multi_Swap_Conc
begin

text \<open>
  The properties of the MultiFifo: whole operations of a handle in any state of the locks, runs of
  all handles from the constructor, the choice of the oldest element, and the two protocols under
  interleaving. The small context at the head carries the concrete instances.
\<close>

section \<open>A small context\<close>

definition small_fifo :: "'d \<Rightarrow> (nat \<Rightarrow> 's) \<Rightarrow> ('d, 's, nat) Context" where
  "small_fifo d sh = the (MultiFifo_new d sh 2 8 1 4 1)"

definition small_draws :: "nat \<Rightarrow> nat list" where
  "small_draws n = concat (replicate n [0, 1])"

lemma bit_ceil_4: "bit_ceil 4 = 4"
  using bit_ceil_fixed [of 2] by simp

lemma small_fifo_new: "MultiFifo_new d sh 2 8 1 4 1 = Some (small_fifo d sh)"
  by (simp add: small_fifo_def MultiFifo_new_def Context_new_def Let_def)

lemmas small_ctx_new = small_fifo_new [unfolded MultiFifo_new_def, simplified]

lemma small_size: "unat ((8 + of_nat 2 - 1) div of_nat 2 :: u64) \<le> 2 ^ 63"
  by simp

lemmas small_fifo_ok = Context_new_ok [OF small_ctx_new small_size]

lemma small_covers: "covers 2 2 [0, 1]"
  using covers_all [of 2 2] by (simp add: upt_conv_Cons)

lemma small_rounds: "rounds (covers 2 2) n (small_draws n)"
  using rounds_replicate [of "covers 2 2" "[0, 1]" n, OF small_covers] by (simp add: small_draws_def)

lemma small_ready: "stick_ready 2 n 2 (sr_handle_new (small_draws (2 * n)))"
  using small_rounds by (simp add: stick_ready_def sr_handle_new_def)

text \<open>One StickRandom handle, the context it starts from and the context after its first push.\<close>

definition small_handle :: stick_handle where
  "small_handle = sr_handle_new (small_draws 8)"

definition small_context :: "(sr_data, unit, nat) Context" where
  "small_context = small_fifo sr_data_new (\<lambda>_. ())"

definition small_pushed :: "(sr_data, unit, nat) Context \<times> stick_handle" where
  "small_pushed = snd (the (handle_push (sr_try_push 2) sr_pushed 5 7 small_context small_handle))"

lemma small_context_ok: "mf_inv small_context" "num_queues small_context = 2" "\<forall>i < num_queues small_context. unheld small_context i"
  using small_fifo_ok(1,2,3) [of sr_data_new "\<lambda>_. ()"] by (simp_all add: small_context_def)

lemma small_handle_ready: "stick_ready 2 4 2 small_handle"
  using small_ready [of 4] by (simp add: small_handle_def)

lemma small_push_returns: "handle_push (sr_try_push 2) sr_pushed 5 7 small_context small_handle = Some (True, small_pushed)"
proof -
  have "map_option fst (handle_push (sr_try_push 2) sr_pushed 5 7 small_context small_handle) = Some True" by code_simp
  then show ?thesis by (auto simp: small_pushed_def)
qed

lemma small_pushed_ok:
  "mf_inv (fst small_pushed)" "num_queues (fst small_pushed) = 2" "\<forall>i < num_queues (fst small_pushed). unheld (fst small_pushed) i"
proof -
  have "stick_ready (Suc 1) (Suc 3) (num_queues small_context) small_handle" using small_handle_ready by (simp add: small_context_ok numeral_2_eq_2)
  moreover have "handle_push (sr_try_push (Suc 1)) sr_pushed 5 7 small_context small_handle = Some (True, fst small_pushed, snd small_pushed)"
    using small_push_returns by (simp add: numeral_2_eq_2)
  ultimately have p: "pushes \<lparr>tick = 5, elem_value = 7\<rparr> small_context True (fst small_pushed)"
    using stick_random.handle_push_step [OF small_context_ok(1) TrueI] by blast
  then show "mf_inv (fst small_pushed)" "num_queues (fst small_pushed) = 2" using small_context_ok by (simp_all add: pushes_def)
  show "\<forall>i < num_queues (fst small_pushed). unheld (fst small_pushed) i"
    using p small_context_ok(2,3) unheld_locks [OF _ _ small_context_ok(1), of "fst small_pushed"] by (auto simp: pushes_def)
qed

lemma small_pushed_ready: "stick_ready (Suc 1) (Suc 0) 2 (snd small_pushed)"
proof -
  have c: "count (snd small_pushed) = 3" "pop_index (snd small_pushed) = [0, 1]" "draws (snd small_pushed) = 1 # small_draws 6" by code_simp+
  have s: "stretch (covers 2 2)" by (rule covers_stretch) simp
  have "rounds (covers 2 2) 2 ([1] @ small_draws 6)" by (rule rounds_prepend [OF s rounds_le [OF s _ small_rounds]]) simp
  then have "rounds (covers (Suc 1) 2) (2 * Suc 0) (draws (snd small_pushed))" unfolding c Suc_1 by (simp del: rounds.simps)
  then show ?thesis using c by (auto simp: stick_ready_def candidates_ok_def simp del: rounds.simps)
qed

section \<open>Whole operations\<close>

text \<open>
  C21: a pop of a StickRandom handle, in any state of the locks. When it returns an element, that is
  the oldest element of one queue nobody else held, and only that queue changed; when it returns
  nothing, every queue was empty or held. No lock word is changed.
\<close>
theorem multififo_pop_takes_a_front:
  fixes c :: "(sr_data, 's, 'a) Context"
  assumes "mf_inv c" "stick_ready (Suc k) (Suc n) (num_queues c) h"
    and "handle_pop (sr_try_pop (Suc k)) sr_popped c h = Some (r, c', h')"
  shows "mf_inv c' \<and> locks c' = locks c \<and> (case r of
      None \<Rightarrow> queues c' = queues c \<and> (\<forall>i < num_queues c. queues c ! i = [] \<or> lock (buffer c ! i) \<noteq> 0)
    | Some v \<Rightarrow> \<exists>i e es. i < num_queues c \<and> lock (buffer c ! i) = 0 \<and> queues c ! i = e # es \<and> elem_value e = v \<and>
        queues c' = (queues c)[i := es])"
  using stick_random.handle_pop_step [OF assms(1) TrueI assms(2,3)]
  by (cases r) (auto simp: pops_def unheld_def)

theorem multififo_pop_takes_a_front_witness:
  "case handle_pop (sr_try_pop 2) sr_popped (fst small_pushed) (snd small_pushed) of None \<Rightarrow> False
   | Some (r, c', h') \<Rightarrow> r = Some 7 \<and> mf_inv c' \<and> locks c' = locks (fst small_pushed)"
proof -
  have "map_option fst (handle_pop (sr_try_pop 2) sr_popped (fst small_pushed) (snd small_pushed)) = Some (Some 7)" by code_simp
  then obtain c' h' where p: "handle_pop (sr_try_pop (Suc 1)) sr_popped (fst small_pushed) (snd small_pushed) = Some (Some 7, c', h')"
    by (auto simp: numeral_2_eq_2)
  have "stick_ready (Suc 1) (Suc 0) (num_queues (fst small_pushed)) (snd small_pushed)"
    using small_pushed_ready small_pushed_ok(2) by simp
  from multififo_pop_takes_a_front [OF small_pushed_ok(1) this p] show ?thesis using p by (simp add: numeral_2_eq_2)
qed

text \<open>
  C22: a push of a StickRandom handle, in any state of the locks. When it succeeds, the element is
  appended to one queue nobody else held and that had room; when it fails, every queue was full or
  held, and nothing changed.
\<close>
theorem multififo_push_appends:
  fixes c :: "(sr_data, 's, 'a) Context"
  assumes "mf_inv c" "stick_ready (Suc k) (Suc n) (num_queues c) h"
    and "handle_push (sr_try_push (Suc k)) sr_pushed now v c h = Some (b, c', h')"
  shows "mf_inv c' \<and> locks c' = locks c \<and> (if b
    then \<exists>i. i < num_queues c \<and> lock (buffer c ! i) = 0 \<and> length (queues c ! i) < unat (size_per_queue c) \<and>
      queues c' = (queues c)[i := queues c ! i @ [\<lparr>tick = now, elem_value = v\<rparr>]]
    else queues c' = queues c \<and> (\<forall>i < num_queues c. length (queues c ! i) = unat (size_per_queue c) \<or> lock (buffer c ! i) \<noteq> 0))"
  using stick_random.handle_push_step [OF assms(1) TrueI assms(2,3)]
  by (cases b) (auto simp: pushes_def unheld_def)

theorem multififo_push_appends_witness:
  "mf_inv (fst small_pushed) \<and> (\<exists>i. queues (fst small_pushed) = (queues small_context)[i := queues small_context ! i @ [\<lparr>tick = 5, elem_value = 7\<rparr>]])"
proof -
  have "stick_ready (Suc 1) (Suc 3) (num_queues small_context) small_handle" using small_handle_ready by (simp add: small_context_ok numeral_2_eq_2)
  moreover have "handle_push (sr_try_push (Suc 1)) sr_pushed 5 7 small_context small_handle = Some (True, fst small_pushed, snd small_pushed)"
    using small_push_returns by (simp add: numeral_2_eq_2)
  ultimately show ?thesis using multififo_push_appends [OF small_context_ok(1)] by fastforce
qed

section \<open>Runs\<close>

text \<open>
  C23: any run of whole pushes and pops of any number of StickRandom handles on a new MultiFifo
  returns, given enough random numbers, and what was pushed is what was popped and what is left.
\<close>
theorem multififo_run_conserves:
  fixes c :: "(sr_data, 's, 'a::zero) Context"
  assumes "MultiFifo_new sr_data_new sh threads sz factor sticky sd = Some c"
    and "unat ((sz + of_nat (threads * factor) - 1) div of_nat (threads * factor)) \<le> 2 ^ 63"
    and "\<forall>h. rounds (covers (Suc k) (num_queues c)) (2 * length ops) (rs h)" and "length ops \<le> length clock"
  shows "\<exists>res c' hs' clock'. pool.run (sys_push (sr_try_push (Suc k)) sr_pushed) (sys_pop (sr_try_pop (Suc k)) sr_popped) ops
      (c, \<lambda>h. sr_handle_new (rs h), clock) = Some (res, c', hs', clock') \<and>
    pushed_items ops res = popped_items res + mf_content c'"
proof -
  let ?q = "(c, \<lambda>h. sr_handle_new (rs h), clock)"
  note new = Context_new_ok [OF assms(1) [unfolded MultiFifo_new_def] assms(2)]
  have "sys_inv (\<lambda>_. True) (stick_ready (Suc k)) (length ops + 0) ?q"
    using new assms(3,4) by (simp add: sys_inv_def stick_ready_def sr_handle_new_def)
  moreover have "pool.accepted (\<lambda>_. True) ops"
    by (induction ops rule: stick_random.accepted.induct) (simp_all add: stick_random.accepted.simps)
  ultimately obtain res q' where "pool.run (sys_push (sr_try_push (Suc k)) sr_pushed) (sys_pop (sr_try_pop (Suc k)) sr_popped) ops ?q = Some (res, q')"
    "sys_content ?q + pushed_items ops res = popped_items res + sys_content q'"
    using stick_random.run_conserves [of k ops 0 ?q] by blast
  then show ?thesis using new(6) by (cases q') (auto simp: sys_content_def)
qed

theorem multififo_run_conserves_witness:
  "\<exists>res c' hs' clock'. pool.run (sys_push (sr_try_push (Suc 1)) sr_pushed) (sys_pop (sr_try_pop (Suc 1)) sr_popped)
      [Push 0 5, Push 1 7, Pop 0, Pop 2] (small_context, \<lambda>_. sr_handle_new (small_draws 8), [10, 11, 12, 13]) = Some (res, c', hs', clock') \<and>
    pushed_items [Push 0 5, Push 1 7, Pop 0, Pop 2] res = popped_items res + mf_content c'"
proof (rule multififo_run_conserves)
  show "MultiFifo_new sr_data_new (\<lambda>_. ()) 2 8 1 4 1 = Some small_context" unfolding small_context_def by (rule small_fifo_new)
  show "\<forall>h. rounds (covers (Suc 1) (num_queues small_context)) (2 * length [Push 0 5, Push 1 7, Pop 0, Pop 2]) (small_draws 8)"
    using small_rounds [of 8] unfolding Suc_1 small_context_ok(2) by (simp del: rounds.simps)
qed (use small_size in simp_all)

text \<open>
  C24: the same of StickSwap, whose handles exchange their queues through the shared permutation.
\<close>
theorem multififo_swap_run_conserves:
  fixes c :: "(sr_data, u64 list, 'a::zero) Context"
  assumes "MultiFifo_new sr_data_new permutation_new threads sz factor sticky sd = Some c"
    and "unat ((sz + of_nat (threads * factor) - 1) div of_nat (threads * factor)) \<le> 2 ^ 63" and "threads * factor < 2 ^ 64 - 1"
    and "\<forall>h. rounds (swaps (num_queues c)) ((k + 2) * length ops) (rs h)" and "length ops \<le> length clock"
    and "\<forall>h. h_id h * Suc k + Suc k \<le> num_queues c"
  shows "\<exists>res c' hs' clock'. pool.run (sys_push (sw_try_push (Suc k)) sr_pushed) (sys_pop (sw_try_pop (Suc k)) sr_popped) ops
      (c, \<lambda>h. sw_handle_new (rs h) (Suc k) (h_id h), clock) = Some (res, c', hs', clock') \<and>
    pushed_items ops res = popped_items res + mf_content c'"
proof -
  let ?q = "(c, \<lambda>h. sw_handle_new (rs h) (Suc k) (h_id h), clock)"
  note new = Context_new_ok [OF assms(1) [unfolded MultiFifo_new_def] assms(2)]
  have "sw_ctx_ok c" using new(3,4) perm_ok_new [OF assms(3)] by (simp add: sw_ctx_ok_def)
  moreover have "sw_ready (Suc k) (length ops) (num_queues c) (sw_handle_new (rs h) (Suc k) (h_id h))" for h
    using assms(4,6) by (simp add: sw_ready_def sw_handle_new_def)
  ultimately have "sys_inv sw_ctx_ok (sw_ready (Suc k)) (length ops + 0) ?q"
    using new assms(5) by (simp add: sys_inv_def)
  moreover have "pool.accepted (\<lambda>_. True) ops"
    by (induction ops rule: stick_swap.accepted.induct) (simp_all add: stick_swap.accepted.simps)
  ultimately obtain res q' where "pool.run (sys_push (sw_try_push (Suc k)) sr_pushed) (sys_pop (sw_try_pop (Suc k)) sr_popped) ops ?q = Some (res, q')"
    "sys_content ?q + pushed_items ops res = popped_items res + sys_content q'"
    using stick_swap.run_conserves [of k ops 0 ?q] by blast
  then show ?thesis using new(6) by (cases q') (auto simp: sys_content_def)
qed

definition swap_draws :: "nat \<Rightarrow> (nat \<times> bool) list" where
  "swap_draws n = concat (replicate n [(0, True), (0, False), (1, False)])"

lemma swap_draws_ok: "rounds (swaps 2) n (swap_draws n)"
proof -
  have "swaps 2 [(0, True), (0, False), (1, False)]"
  proof (unfold swaps_def, intro allI)
    fix slot :: nat
    show "\<exists>r. (r, False) \<in> set [(0, True), (0, False), (1, False)] \<and> swap_index 2 r \<noteq> slot"
      by (cases "slot = 0") (auto simp: swap_index_def intro: exI [of _ 0] exI [of _ 1])
  qed
  from rounds_replicate [of "swaps 2", OF this] show ?thesis by (simp add: swap_draws_def)
qed

theorem multififo_swap_run_conserves_witness:
  "\<exists>res c' hs' clock'. pool.run (sys_push (sw_try_push (Suc 0)) sr_pushed) (sys_pop (sw_try_pop (Suc 0)) sr_popped)
      [Push 0 5, Push 1 7, Pop 0, Pop 1] (small_fifo sr_data_new permutation_new, \<lambda>h. sw_handle_new (swap_draws 8) (Suc 0) (h mod 2), [10, 11, 12, 13])
      = Some (res, c', hs', clock') \<and>
    pushed_items [Push 0 5, Push 1 7, Pop 0, Pop 1] res = popped_items res + mf_content c'"
proof (rule multififo_swap_run_conserves)
  show "MultiFifo_new sr_data_new permutation_new 2 8 1 4 1 = Some (small_fifo sr_data_new permutation_new)" by (rule small_fifo_new)
  show "\<forall>h. rounds (swaps (num_queues (small_fifo sr_data_new permutation_new))) ((0 + 2) * length [Push 0 5, Push 1 7, Pop 0, Pop 1]) (swap_draws 8)"
    using swap_draws_ok [of 8] unfolding small_fifo_ok(3) by (simp add: eval_nat_numeral del: rounds.simps)
  show "\<forall>h. h mod 2 * Suc 0 + Suc 0 \<le> num_queues (small_fifo sr_data_new permutation_new)"
    by (simp add: small_fifo_ok(3)) presburger
qed (use small_size in simp_all)

section \<open>The choice of the queue\<close>

text \<open>
  C25: what StickRandom is for. While the published ticks are true and no lock is held, a pop that
  returns an element took the oldest among all elements at the front of its candidate queues, and
  the published ticks are true again; a pop whose attempt returns nothing had only empty
  candidates.
\<close>
theorem stick_random_pops_oldest_candidate:
  fixes c :: "(sr_data, 's, 'a) Context"
  assumes "mf_inv c" "ticks_ok c" "0 < k" "\<forall>i < num_queues c. unheld c i" "stick_ready k (Suc n) (num_queues c) h"
    and "sr_try_pop k c h = Some (r, c', h')"
  shows "length (pop_index h') = k \<and> distinct (pop_index h') \<and> (case r of
      None \<Rightarrow> c' = c \<and> (\<forall>j \<in> set (pop_index h'). queues c ! j = [])
    | Some v \<Rightarrow> ticks_ok c' \<and> (\<exists>i \<in> set (pop_index h'). \<exists>e es. queues c ! i = e # es \<and> elem_value e = v \<and>
        queues c' = (queues c)[i := es] \<and> (\<forall>j \<in> set (pop_index h'). queues c ! j \<noteq> [] \<longrightarrow> tick e \<le> tick (hd (queues c ! j)))))"
  using sr_try_pop_best [OF assms] by (simp add: candidates_ok_def)

lemma small_pushed_ticks: "ticks_ok (fst small_pushed)"
proof -
  have "num_queues (fst small_pushed) = 2" "queues (fst small_pushed) = [[\<lparr>tick = 5, elem_value = 7\<rparr>], []]"
    "map (oldest_tick \<circ> queue_data) (buffer (fst small_pushed)) = [5, - 1]" by code_simp+
  moreover have "length (buffer (fst small_pushed)) = 2" using small_pushed_ok(1,2) by (simp add: mf_inv_def)
  ultimately have q: "num_queues (fst small_pushed) = 2" "queues (fst small_pushed) = [[\<lparr>tick = 5, elem_value = 7\<rparr>], []]"
    "oldest_tick (queue_data (buffer (fst small_pushed) ! 0)) = 5" "oldest_tick (queue_data (buffer (fst small_pushed) ! 1)) = - 1"
    using nth_map [of 0 "buffer (fst small_pushed)" "oldest_tick \<circ> queue_data"]
      nth_map [of 1 "buffer (fst small_pushed)" "oldest_tick \<circ> queue_data"] by auto
  then show ?thesis by (auto simp: ticks_ok_def tick_ok_def no_tick_def less_2_cases_iff)
qed

theorem stick_random_pops_oldest_candidate_witness:
  "case sr_try_pop 2 (fst small_pushed) (snd small_pushed) of None \<Rightarrow> False
   | Some (r, c', h') \<Rightarrow> r = Some 7 \<and> ticks_ok c' \<and> length (pop_index h') = 2"
proof -
  have "map_option fst (sr_try_pop 2 (fst small_pushed) (snd small_pushed)) = Some (Some 7)" by code_simp
  then obtain c' h' where p: "sr_try_pop 2 (fst small_pushed) (snd small_pushed) = Some (Some 7, c', h')" by auto
  have r: "stick_ready 2 (Suc 0) (num_queues (fst small_pushed)) (snd small_pushed)"
    using small_pushed_ready small_pushed_ok(2) unfolding Suc_1 by simp
  show ?thesis
    using stick_random_pops_oldest_candidate [OF small_pushed_ok(1) small_pushed_ticks _ small_pushed_ok(3) r p] p by simp
qed

text \<open>
  C26: StickRandomSymmetric does not do this. After the first push into a queue of a new MultiFifo
  with at least two slots per queue both published ticks are 0, the tick of the slot behind the
  element, whatever the time of the push.
\<close>
theorem symmetric_publishes_stale_ticks:
  fixes c :: "(sym_data, 's, 'a::zero) Context"
  assumes "MultiFifo_new sym_data_new sh threads sz factor sticky sd = Some c"
    and "unat ((sz + of_nat (threads * factor) - 1) div of_nat (threads * factor)) \<le> 2 ^ 63"
    and "i < num_queues c" "1 < unat (size_per_queue c)" and "locked_push sym_pushed now v i c = (Some True, c')"
  shows "queues c' ! i = [\<lparr>tick = now, elem_value = v\<rparr>] \<and>
    sym_oldest_tick (queue_data (buffer c' ! i)) = 0 \<and> newest_tick (queue_data (buffer c' ! i)) = 0"
proof -
  let ?e = "\<lparr>tick = now, elem_value = v\<rparr>"
  note new = Context_new_ok [OF assms(1) [unfolded MultiFifo_new_def] assms(2)]
  note n = mf_inv_nth [OF new(1) assms(3)]
  have s: "q_head (buffer c ! i) = 0" "q_tail (buffer c ! i) = 0" "\<forall>e \<in> set (elems (buffer c ! i)). tick e = 0"
    "length (elems (buffer c ! i)) = unat (size_per_queue c)" using new(8) n(1,3) by auto
  have "queues c ! i = []" using new(5) n(1) by (metis concat_eq_Nil_conv length_map nth_mem queues_def)
  then have q: "queues c' ! i = [?e]"
    using locked_push_cases [OF new(1) assms(3) random_mode_notes(3) assms(5)] n(1) by (auto simp: queues_def)
  obtain m where m: "m < 64" "length (elems (buffer c ! i)) = 2 ^ m" "index_mask c = mask m"
    using n(2) by (auto simp: rb_invar_def ring_shape_def ring_of_def)
  have "m \<noteq> 0" using m(2) s(4) assms(4) by (cases m) auto
  then have "unat ((1 :: u64) AND mask m) = 1" using m(1) power_increasing [of 1 m "2 :: nat"]
    by (subst unat_and_mask) (simp add: mod_less)
  moreover have "unat ((0 :: u64) AND mask m) = 0" by simp
  ultimately have t: "tick (((elems (buffer c ! i))[unat (0 AND index_mask c) := ?e]) ! unat (1 AND index_mask c)) = 0"
    using s(3,4) assms(4) m(3) by simp
  let ?c2 = "ctx_push i ?e (upd_storage i (lock_update (\<lambda>_. 1)) c)"
  have c': "c' = unlock i (sym_pushed i ?c2)"
    using assms(5) by (auto simp: locked_push_def try_lock_def split: if_splits)
  have b: "tick (bottom_elem i ?c2) = 0" "unsafe_size i ?c2 = 1"
    using t n(1) s(1,2) by (simp_all add: bottom_elem_def ctx_push_def unsafe_size_def)
  show ?thesis using q n(1) b by (simp add: c' unlock_def sym_pushed_def set_queue_data_def) (simp add: ctx_push_def)
qed

theorem symmetric_publishes_stale_ticks_witness:
  "case locked_push sym_pushed 5 7 0 (small_fifo sym_data_new (\<lambda>_. ())) of
     (r, c') \<Rightarrow> r = Some True \<and> queues c' ! 0 = [\<lparr>tick = 5, elem_value = 7\<rparr>] \<and> sym_oldest_tick (queue_data (buffer c' ! 0)) = 0"
proof -
  have "fst (locked_push sym_pushed 5 7 0 (small_fifo sym_data_new (\<lambda>_. ()))) = Some True" by code_simp
  then obtain c' where p: "locked_push sym_pushed 5 7 0 (small_fifo sym_data_new (\<lambda>_. ())) = (Some True, c')" by (metis prod.collapse)
  have s: "unat (size_per_queue (small_fifo sym_data_new (\<lambda>_. ()))) = 4" by code_simp
  have "unat ((8 + of_nat (2 * 1) - 1) div of_nat (2 * 1) :: u64) \<le> 2 ^ 63" by simp
  moreover have "0 < num_queues (small_fifo sym_data_new (\<lambda>_. ()))" by (simp add: small_fifo_ok(3))
  moreover have "1 < unat (size_per_queue (small_fifo sym_data_new (\<lambda>_. ())))" using s by simp
  ultimately show ?thesis using symmetric_publishes_stale_ticks [OF small_fifo_new _ _ _ p] unfolding p by simp
qed

text \<open>
  C27: the number of candidates must not exceed the number of queues: with fewer queues than
  candidates the search for different candidates never ends, whatever the random numbers, so the
  first operation of a handle does not return.
\<close>
theorem too_few_queues_never_return:
  assumes "num_queues c < k" "0 < num_queues c"
  shows "refresh_pop_index k (num_queues c) h = None \<and> sr_try_pop k c (sr_handle_new rs) = None \<and>
    sr_try_push k now v c (sr_handle_new rs) = None"
proof -
  have "fill_index (num_queues c) k [] rs' = None" for rs'
  proof (rule ccontr)
    assume "fill_index (num_queues c) k [] rs' \<noteq> None"
    then obtain ix rs1 where "fill_index (num_queues c) k [] rs' = Some (ix, rs1)" by auto
    from fill_index_Some [OF this _ _ assms(2)] have "distinct ix" "length ix = k" "set ix \<subseteq> {..<num_queues c}" by auto
    then have "k \<le> num_queues c" using card_mono [of "{..<num_queues c}" "set ix"] distinct_card by fastforce
    then show False using assms(1) by simp
  qed
  then have "refresh_pop_index k (num_queues c) h = None" for h by (simp add: refresh_pop_index_def)
  then show ?thesis
    by (simp add: sr_try_pop_def stick_try_pop_def sr_try_push_def start_round_def new_round_def sr_handle_new_def)
qed

theorem too_few_queues_never_return_witness:
  "num_queues small_context < 3 \<and> sr_try_pop 3 small_context (sr_handle_new [0, 1, 0, 1]) = None"
  using too_few_queues_never_return [of small_context 3 small_handle "[0, 1, 0, 1]" 0 0] small_context_ok(2) by simp

section \<open>Interleaving\<close>

text \<open>
  C28: under any interleaving of the accesses of any number of threads, starting from a new
  MultiFifo, a queue is never held by two threads, its lock word is 1 exactly while a thread holds
  it, and the elements in the queues are those pushed and not yet popped.
\<close>
theorem multififo_interleaving_safe:
  fixes c :: "(sr_data, 's, 'a::zero) Context"
  assumes "MultiFifo_new sr_data_new sh num_threads sz factor sticky sd = Some c"
    and "unat ((sz + of_nat (num_threads * factor) - 1) div of_nat (num_threads * factor)) \<le> 2 ^ 63"
    and "(mf_step sr_pushed sr_popped)\<^sup>*\<^sup>* (conc_start c threads) s"
  shows "in_log s = out_log s + mf_content (ctx s) \<and>
    (\<forall>t u i. t < length (phases s) \<longrightarrow> u < length (phases s) \<longrightarrow> holds (phases s ! t) = Some i \<longrightarrow> holds (phases s ! u) = Some i \<longrightarrow> t = u) \<and>
    (\<forall>i < num_queues (ctx s). lock (buffer (ctx s) ! i) = (if \<exists>t < length (phases s). holds (phases s ! t) = Some i then 1 else 0))"
proof -
  note new = Context_new_ok [OF assms(1) [unfolded MultiFifo_new_def] assms(2)]
  have "mf_conc_inv s"
    using mf_steps_inv [OF random_mode_notes(1,2) assms(3) conc_start_inv [OF new(1,2,6)]] .
  then show ?thesis by (simp add: mf_conc_inv_def)
qed

theorem multififo_interleaving_safe_witness:
  "\<exists>s. (mf_step sr_pushed sr_popped)\<^sup>*\<^sup>* (conc_start small_context 2) s \<and> phases s = [Push_tested 1 \<lparr>tick = 5, elem_value = 7\<rparr>, Mf_idle] \<and>
    in_log s = out_log s + mf_content (ctx s)"
proof -
  let ?s = "(conc_start small_context 2)\<lparr>phases := (phases (conc_start small_context 2))[0 := Push_tested 1 \<lparr>tick = 5, elem_value = 7\<rparr>]\<rparr>"
  have p: "phases (conc_start small_context 2) = [Mf_idle, Mf_idle]" by (simp add: conc_start_def numeral_2_eq_2)
  have u: "unheld small_context 1" using small_context_ok(2,3) by simp
  have "mf_step sr_pushed sr_popped (conc_start small_context 2) ?s"
  proof (rule push_test)
    show "1 < num_queues (ctx (conc_start small_context 2))" by (simp add: conc_start_def small_context_ok(2))
    show "lock_free 1 (ctx (conc_start small_context 2))" using u by (simp add: conc_start_def lock_free_def unheld_def)
  qed (simp_all add: p)
  then have r: "(mf_step sr_pushed sr_popped)\<^sup>*\<^sup>* (conc_start small_context 2) ?s" by (rule r_into_rtranclp)
  have "unat ((8 + of_nat (2 * 1) - 1) div of_nat (2 * 1) :: u64) \<le> 2 ^ 63" by simp
  from multififo_interleaving_safe [OF small_fifo_new this r [unfolded small_context_def]] r p show ?thesis
    by (intro exI [of _ ?s]) (simp add: small_context_def)
qed

text \<open>
  C29: under any interleaving of the swaps of any number of StickSwap handles every queue is in
  exactly one slot or in the hand of exactly one thread; the slots of a thread that is not swapping
  name queues, so that no handle ever reads the mark; and once nobody swaps the list is a
  permutation of the queues.
\<close>
theorem swap_interleaving_keeps_permutation:
  assumes "num < 2 ^ 64 - 1" and "(swap_step k)\<^sup>*\<^sup>* (swap_init num threads) s"
  shows "mset (filter (\<lambda>p. p \<noteq> swapping) (sc_perm s)) + mset (concat (map in_hand (sc_phases s))) = mset (map of_nat [0..<num]) \<and>
    (\<forall>t index. t < length (sc_phases s) \<and> sc_phases s ! t = Swap_idle \<and> index < k \<and> t * k + index < num \<longrightarrow>
      unat (sc_perm s ! (t * k + index)) < num) \<and>
    ((\<forall>p \<in> set (sc_phases s). p = Swap_idle) \<longrightarrow> mset (sc_perm s) = mset (map of_nat [0..<num]))"
proof -
  have inv: "swap_inv num k s" using swap_steps_inv [OF assms(2) swap_inv_init [OF assms(1)]] .
  have c: "mset (filter (\<lambda>p. p \<noteq> swapping) (sc_perm s)) + mset (concat (map in_hand (sc_phases s))) = mset (map of_nat [0..<num])"
    using inv by (simp add: swap_inv_def settled_def permutation_new_def)
  moreover have "(\<forall>p \<in> set (sc_phases s). p = Swap_idle) \<longrightarrow> mset (sc_perm s) = mset (map of_nat [0..<num])"
    using swap_inv_settled [OF inv] by (simp add: perm_ok_def permutation_new_def)
  moreover have "unat (sc_perm s ! (t * k + index)) < num"
    if "t < length (sc_phases s)" "sc_phases s ! t = Swap_idle" "index < k" "t * k + index < num" for t index
    using swap_inv_idle_slot [OF inv that] .
  ultimately show ?thesis by blast
qed

definition swapped_once :: swap_conc where
  "swapped_once = \<lparr>sc_perm = [swapping, 1, 2, 3], sc_phases = [Swap_taken 0 0, Swap_idle]\<rparr>"

theorem swap_interleaving_keeps_permutation_witness:
  "(swap_step 2)\<^sup>*\<^sup>* (swap_init 4 2) swapped_once \<and>
   mset (filter (\<lambda>p. p \<noteq> swapping) (sc_perm swapped_once)) + mset (concat (map in_hand (sc_phases swapped_once))) = mset (map of_nat [0..<4])"
proof -
  have p: "sc_perm (swap_init 4 2) = [0, 1, 2, 3]" "sc_phases (swap_init 4 2) = [Swap_idle, Swap_idle]"
    by (simp_all add: swap_init_def permutation_new_def upt_rec numeral_2_eq_2)
  have "swapped_once = \<lparr>sc_perm = (sc_perm (swap_init 4 2))[0 := swapping],
      sc_phases = (sc_phases (swap_init 4 2))[0 := Swap_taken 0 (sc_perm (swap_init 4 2) ! 0)]\<rparr>"
    by (simp add: p swapped_once_def)
  moreover have "swap_step 2 (swap_init 4 2) \<dots>" by (rule swap_take [where index = 0]) (simp_all add: p)
  ultimately have "(swap_step 2)\<^sup>*\<^sup>* (swap_init 4 2) swapped_once" by (simp add: r_into_rtranclp)
  then show ?thesis using swap_interleaving_keeps_permutation [of 4 2 2 swapped_once] by simp
qed

end
