(* ===== verification/Kfifo.thy ===== *)
theory Kfifo
  imports Fifo_Spec Utility
begin

text \<open>
  \<^verbatim>\<open>contenders/scal\<close>: the bounded-size k-FIFO queue and the tagged values it is made of
  (\<^verbatim>\<open>util/atomic_value_new.h\<close>, \<^verbatim>\<open>boundedsize_kfifo.h\<close>, \<^verbatim>\<open>scal_wrapper.h\<close>). A tagged value is one 64-bit
  word with a 48-bit value, sign-extended on reading, and a 16-bit tag. The queue is an array of
  segments of \<open>k\<close> slots; elements enter at the tail segment and leave at the head segment, in any
  order within a segment. Operations are whole: between two accesses of an operation no other
  operation runs, while every test of the source against interference is kept. The random slot a
  search starts at is a parameter: \<open>drawn n\<close> is the number drawn when \<open>n\<close> rounds of the loop are left.
\<close>

section \<open>Tagged values\<close>

definition kValueMask :: u64 where
  "kValueMask = mask 48"

definition kExtendMask :: u64 where
  "kExtendMask = - 1 - kValueMask"

definition tagged :: "u64 \<Rightarrow> 16 word \<Rightarrow> u64" where
  "tagged v tg = (v AND kValueMask) OR push_bit 48 (ucast tg)"

definition tv_value :: "u64 \<Rightarrow> u64" where
  "tv_value raw = (raw AND kValueMask) OR ((drop_bit 47 raw AND 1) * kExtendMask)"

definition tv_tag :: "u64 \<Rightarrow> 16 word" where
  "tv_tag raw = ucast (drop_bit 48 raw)"

text \<open>\<^verbatim>\<open>AtomicTaggedValue::swap\<close>, a strong compare-exchange.\<close>

definition tv_swap :: "u64 \<Rightarrow> u64 \<Rightarrow> u64 \<Rightarrow> bool \<times> u64" where
  "tv_swap expected desired raw = (if raw = expected then (True, desired) else (False, raw))"

section \<open>The queue\<close>

record kfifo =
  queue_size :: u64
  kf_k :: u64
  kf_head :: u64
  kf_tail :: u64
  kf_queue :: "u64 list"

definition kfifo_new :: "u64 \<Rightarrow> u64 \<Rightarrow> kfifo" where
  "kfifo_new k num_segments =
     \<lparr>queue_size = k * num_segments, kf_k = k, kf_head = 0, kf_tail = 0, kf_queue = replicate (unat (k * num_segments)) 0\<rparr>"

fun find_from :: "kfifo \<Rightarrow> u64 \<Rightarrow> bool \<Rightarrow> u64 \<Rightarrow> u64 \<Rightarrow> nat \<Rightarrow> (u64 \<times> u64) option" where
  "find_from q start_index want_empty random_index i 0 = None"
| "find_from q start_index want_empty random_index i (Suc n) =
     (let index = (start_index + ((random_index + i) mod kf_k q)) mod queue_size q;
          old = kf_queue q ! unat index
      in if (want_empty \<and> tv_value old = 0) \<or> (\<not> want_empty \<and> tv_value old \<noteq> 0) then Some (index, old)
         else find_from q start_index want_empty random_index (i + 1) n)"

definition find_index :: "kfifo \<Rightarrow> u64 \<Rightarrow> bool \<Rightarrow> u64 \<Rightarrow> (u64 \<times> u64) option" where
  "find_index q start_index want_empty random = find_from q start_index want_empty (random mod kf_k q) 0 (unat (kf_k q))"

definition advance_head :: "u64 \<Rightarrow> kfifo \<Rightarrow> kfifo" where
  "advance_head head_old q =
     q\<lparr>kf_head := snd (tv_swap head_old (tagged ((tv_value head_old + kf_k q) mod queue_size q) (tv_tag head_old + 1)) (kf_head q))\<rparr>"

definition advance_tail :: "u64 \<Rightarrow> kfifo \<Rightarrow> kfifo" where
  "advance_tail tail_old q =
     q\<lparr>kf_tail := snd (tv_swap tail_old (tagged ((tv_value tail_old + kf_k q) mod queue_size q) (tv_tag tail_old + 1)) (kf_tail q))\<rparr>"

definition queue_full :: "u64 \<Rightarrow> u64 \<Rightarrow> kfifo \<Rightarrow> bool" where
  "queue_full head_old tail_old q \<longleftrightarrow>
     (tv_value tail_old + kf_k q) mod queue_size q = tv_value head_old \<and> tv_value head_old = tv_value (kf_head q)"

definition segment_not_empty :: "u64 \<Rightarrow> kfifo \<Rightarrow> bool" where
  "segment_not_empty head_old q \<longleftrightarrow>
     (\<exists>i \<in> set [0..<unat (kf_k q)]. tv_value (kf_queue q ! unat ((tv_value head_old + of_nat i) mod queue_size q)) \<noteq> 0)"

definition in_valid_region :: "u64 \<Rightarrow> u64 \<Rightarrow> u64 \<Rightarrow> bool" where
  "in_valid_region tail_old tail_current head_current =
     (if \<not> tail_current < head_current then head_current < tail_old \<and> tail_old \<le> tail_current
      else head_current < tail_old \<or> tail_old \<le> tail_current)"

definition not_in_valid_region :: "u64 \<Rightarrow> u64 \<Rightarrow> u64 \<Rightarrow> bool" where
  "not_in_valid_region tail_old tail_current head_current =
     (if \<not> tail_current < head_current then tail_old < tail_current \<or> head_current < tail_old
      else tail_old < tail_current \<and> head_current < tail_old)"

text \<open>The compare-exchange on a slot of the array.\<close>

definition slot_swap :: "u64 \<Rightarrow> u64 \<Rightarrow> u64 \<Rightarrow> kfifo \<Rightarrow> bool \<times> kfifo" where
  "slot_swap index expected desired q =
     (let (b, v) = tv_swap expected desired (kf_queue q ! unat index)
      in (b, q\<lparr>kf_queue := (kf_queue q)[unat index := v]\<rparr>))"

definition committed :: "u64 \<Rightarrow> u64 \<Rightarrow> u64 \<Rightarrow> kfifo \<Rightarrow> bool \<times> kfifo" where
  "committed tail_old new_item item_index q =
     (if kf_queue q ! unat item_index \<noteq> new_item then (True, q)
      else let tail_current = kf_tail q; head_current = kf_head q;
               taken_back = tagged 0 (tv_tag new_item + 1)
           in if in_valid_region (tv_value tail_old) (tv_value tail_current) (tv_value head_current) then (True, q)
              else if not_in_valid_region (tv_value tail_old) (tv_value tail_current) (tv_value head_current)
              then let (b, q1) = slot_swap item_index new_item taken_back q in (\<not> b, q1)
              else let (b, h) = tv_swap head_current (tagged (tv_value head_current) (tv_tag head_current + 1)) (kf_head q);
                       q1 = q\<lparr>kf_head := h\<rparr>
                   in if b then (True, q1)
                      else let (b2, q2) = slot_swap item_index new_item taken_back q1 in (\<not> b2, q2))"

text \<open>
  The two operations. The loops have no bound in the source; \<open>fuel\<close> bounds the rounds here and
  \<^term>\<open>None\<close> means that they were not enough.
\<close>

fun dequeue_loop :: "nat \<Rightarrow> (nat \<Rightarrow> u64) \<Rightarrow> kfifo \<Rightarrow> (u64 option \<times> kfifo) option" where
  "dequeue_loop 0 drawn q = None"
| "dequeue_loop (Suc fuel) drawn q =
     (let head_old = kf_head q; tail_old = kf_tail q in
      case find_index q (tv_value head_old) False (drawn fuel) of
        Some (item_index, old_item) \<Rightarrow>
          if head_old = kf_head q
          then let q1 = (if tv_value head_old = tv_value tail_old then advance_tail tail_old q else q);
                   (b, q2) = slot_swap item_index old_item (tagged 0 (tv_tag old_item + 1)) q1
               in if b then Some (Some (tv_value old_item), q2) else dequeue_loop fuel drawn q2
          else dequeue_loop fuel drawn q
      | None \<Rightarrow>
          if head_old = kf_head q
          then if tv_value head_old = tv_value tail_old \<and> tv_value tail_old = tv_value (kf_tail q) then Some (None, q)
               else dequeue_loop fuel drawn (advance_head head_old q)
          else dequeue_loop fuel drawn q)"

datatype kf_error = Null_item

fun enqueue_loop :: "nat \<Rightarrow> (nat \<Rightarrow> u64) \<Rightarrow> u64 \<Rightarrow> kfifo \<Rightarrow> (bool \<times> kfifo) option" where
  "enqueue_loop 0 drawn item q = None"
| "enqueue_loop (Suc fuel) drawn item q =
     (let tail_old = kf_tail q; head_old = kf_head q in
      case find_index q (tv_value tail_old) True (drawn fuel) of
        Some (item_index, old_item) \<Rightarrow>
          if tail_old = kf_tail q
          then let new_item = tagged item (tv_tag old_item + 1);
                   (b, q1) = slot_swap item_index old_item new_item q
               in if b then let (ok, q2) = committed tail_old new_item item_index q1
                            in if ok then Some (True, q2) else enqueue_loop fuel drawn item q2
                  else enqueue_loop fuel drawn item q1
          else enqueue_loop fuel drawn item q
      | None \<Rightarrow>
          if tail_old = kf_tail q
          then if queue_full head_old tail_old q
               then if segment_not_empty head_old q \<and> tv_value head_old = tv_value (kf_head q) then Some (False, q)
                    else enqueue_loop fuel drawn item (advance_tail tail_old (advance_head head_old q))
               else enqueue_loop fuel drawn item (advance_tail tail_old q)
          else enqueue_loop fuel drawn item q)"

definition enqueue :: "nat \<Rightarrow> (nat \<Rightarrow> u64) \<Rightarrow> u64 \<Rightarrow> kfifo \<Rightarrow> (kf_error + bool \<times> kfifo) option" where
  "enqueue fuel drawn item q = (if item = 0 then Some (Inl Null_item) else map_option Inr (enqueue_loop fuel drawn item q))"

definition dequeue :: "nat \<Rightarrow> (nat \<Rightarrow> u64) \<Rightarrow> kfifo \<Rightarrow> (u64 option \<times> kfifo) option" where
  "dequeue fuel drawn q = dequeue_loop fuel drawn q"

text \<open>The wrappers: \<open>k\<close> is given or rounded up to a power of two, and there are at least four segments.\<close>

definition ss_k_fifo_new :: "u64 \<Rightarrow> u64 \<Rightarrow> kfifo" where
  "ss_k_fifo_new sz k = kfifo_new k (max 4 (sz div k))"

definition ws_k_fifo_new :: "nat \<Rightarrow> u64 \<Rightarrow> kfifo" where
  "ws_k_fifo_new threads_times_k segments = kfifo_new (of_nat (bit_ceil threads_times_k)) (max 4 segments)"

end
