(* ===== verification/Kfifo_Laws.thy ===== *)
theory Kfifo_Laws
  imports Kfifo
begin

text \<open>
  The k-FIFO queue refines a list of segments, each a bag of at most \<open>k\<close> elements: an element
  enters the last bag or opens a new one, and leaves from the first bag. An element is therefore
  overtaken only by elements of its own segment. Tagged values give their value back exactly when
  it is a sign-extended 48-bit value.
\<close>

section \<open>Tagged values\<close>

lemma extend_mask: "kExtendMask = NOT (mask 48)"
  by (simp add: kExtendMask_def kValueMask_def not_eq_complement)

lemma tv_value_bits:
  "bit (tv_value raw) n \<longleftrightarrow> n < 64 \<and> (if n < 48 then bit raw n else bit raw 47)"
proof -
  have "drop_bit 47 raw AND 1 = of_bool (bit raw 47)"
    by (simp add: and_one_eq bit_iff_odd_drop_bit mod_2_eq_odd)
  then have "tv_value raw = (raw AND mask 48) OR (if bit raw 47 then NOT (mask 48) else 0)"
    by (simp add: tv_value_def kValueMask_def extend_mask)
  then show ?thesis by (auto simp: bit_simps)
qed

lemma tagged_bits: "bit (tagged v tg) n \<longleftrightarrow> n < 64 \<and> (if n < 48 then bit v n else bit tg (n - 48))"
  by (auto simp: tagged_def kValueMask_def bit_simps dest: bit_imp_le_length)

definition representable :: "u64 \<Rightarrow> bool" where
  "representable v \<longleftrightarrow> (\<forall>n \<in> {48..<64}. bit v n \<longleftrightarrow> bit v 47)"

lemma tagged_value_iff: "tv_value (tagged v tg) = v \<longleftrightarrow> representable v"
proof
  assume e: "tv_value (tagged v tg) = v"
  have "bit v n \<longleftrightarrow> bit v 47" if "n \<in> {48..<64}" for n
    using arg_cong [OF e, of "\<lambda>w. bit w n"] that by (simp add: tv_value_bits tagged_bits)
  then show "representable v" by (simp add: representable_def)
next
  assume "representable v"
  then show "tv_value (tagged v tg) = v" by (intro bit_word_eqI) (auto simp: tv_value_bits tagged_bits representable_def)
qed

lemma tagged_tag [simp]: "tv_tag (tagged v tg) = tg"
  by (rule bit_word_eqI) (simp add: tv_tag_def bit_simps tagged_bits)

lemma small_representable:
  assumes "unat v < 2 ^ 47" shows "representable v"
proof -
  have "unat (take_bit 47 v) = unat v"
    using assms by (simp only: unsigned_take_bit_eq take_bit_nat_eq_self_iff)
  then have "v = take_bit 47 v" by (simp only: word_eq_unat)
  then have "\<not> bit v n" if "47 \<le> n" for n using that by (metis bit_take_bit_iff not_le)
  then show ?thesis by (auto simp: representable_def)
qed

lemma tagged_small [simp]: "unat v < 2 ^ 47 \<Longrightarrow> tv_value (tagged v tg) = v"
  using tagged_value_iff small_representable by blast

lemma tagged_0 [simp]: "tv_value (tagged 0 tg) = 0"
  by simp

section \<open>Segments\<close>

abbreviation kf_K :: "kfifo \<Rightarrow> nat" where
  "kf_K q \<equiv> unat (kf_k q)"

definition slot_val :: "kfifo \<Rightarrow> nat \<Rightarrow> u64" where
  "slot_val q j = tv_value (kf_queue q ! j)"

definition segment :: "kfifo \<Rightarrow> nat \<Rightarrow> u64 multiset" where
  "segment q s = mset (filter (\<lambda>v. v \<noteq> 0) (map (\<lambda>i. slot_val q (s * kf_K q + i)) [0..<kf_K q]))"

text \<open>The segments in use: \<open>d + 1\<close> of the \<open>S\<close> segments of the ring, from the head segment \<open>h\<close> on.\<close>

definition region :: "nat \<Rightarrow> nat \<Rightarrow> nat \<Rightarrow> nat list" where
  "region S h d = map (\<lambda>n. (h + n) mod S) [0..<Suc d]"

definition live :: "nat \<Rightarrow> nat \<Rightarrow> nat \<Rightarrow> kfifo \<Rightarrow> u64 multiset list" where
  "live S h d q = filter (\<lambda>m. m \<noteq> {#}) (map (segment q) (region S h d))"

definition kf_shape :: "nat \<Rightarrow> kfifo \<Rightarrow> bool" where
  "kf_shape S q \<longleftrightarrow> 0 < kf_K q \<and> 2 \<le> S \<and> unat (queue_size q) = kf_K q * S \<and> kf_K q * S < 2 ^ 47 \<and>
     length (kf_queue q) = kf_K q * S"

definition kf_at :: "nat \<Rightarrow> nat \<Rightarrow> nat \<Rightarrow> kfifo \<Rightarrow> bool" where
  "kf_at S h d q \<longleftrightarrow> kf_shape S q \<and> h < S \<and> d < S \<and> unat (tv_value (kf_head q)) = h * kf_K q \<and>
     unat (tv_value (kf_tail q)) = (h + d) mod S * kf_K q \<and>
     (\<forall>s < S. s \<notin> set (region S h d) \<longrightarrow> segment q s = {#})"

lemma segment_empty_iff: "segment q s = {#} \<longleftrightarrow> (\<forall>i < kf_K q. slot_val q (s * kf_K q + i) = 0)"
  by (auto simp: segment_def filter_empty_conv)

lemma segment_size: "size (segment q s) \<le> kf_K q"
proof -
  have "size (segment q s) \<le> length (map (\<lambda>i. slot_val q (s * kf_K q + i)) [0..<kf_K q])"
    unfolding segment_def size_mset by (rule length_filter_le)
  then show ?thesis by simp
qed

lemma segment_full_iff: "size (segment q s) = kf_K q \<longleftrightarrow> (\<forall>i < kf_K q. slot_val q (s * kf_K q + i) \<noteq> 0)"
proof -
  let ?xs = "map (\<lambda>i. slot_val q (s * kf_K q + i)) [0..<kf_K q]"
  have "length (filter (\<lambda>v. v \<noteq> 0) ?xs) = length ?xs \<longleftrightarrow> (\<forall>v \<in> set ?xs. v \<noteq> 0)"
  proof (cases "\<forall>v \<in> set ?xs. v \<noteq> 0")
    case True
    then have "filter (\<lambda>v. v \<noteq> 0) ?xs = ?xs" by (rule filter_True)
    then show ?thesis using True by simp
  next
    case False
    then obtain v where "v \<in> set ?xs" "\<not> v \<noteq> 0" by blast
    from length_filter_less [of v ?xs "\<lambda>v. v \<noteq> 0", OF this] False show ?thesis by (metis less_irrefl)
  qed
  then show ?thesis unfolding segment_def size_mset by auto
qed

lemma segment_slot:
  assumes "s < S" "i < K" shows "s * K + i < K * (S :: nat)"
proof -
  have "s * K + i < Suc s * K" using assms(2) by simp
  also have "\<dots> \<le> S * K" using assms(1) by (intro mult_le_mono1) simp
  finally show ?thesis by (simp add: mult.commute)
qed

text \<open>The address computation of the source stays inside the segment and does not wrap around.\<close>

lemma segment_index:
  assumes "kf_shape S q" "unat start = s * kf_K q" "s < S" "unat i < kf_K q"
  shows "unat ((start + i) mod queue_size q) = s * kf_K q + unat i"
proof -
  have lt: "s * kf_K q + unat i < kf_K q * S" using segment_slot assms(3,4) .
  then have "unat start + unat i < 2 ^ 64" using assms(1,2) by (simp add: kf_shape_def)
  then have "unat (start + i) = s * kf_K q + unat i" using assms(2) by (simp add: unat_add_small)
  then show ?thesis using lt assms(1) by (simp add: unat_mod kf_shape_def)
qed

section \<open>The search\<close>

lemma find_from_spec:
  assumes sh: "kf_shape S q" and st: "unat start = s * kf_K q" "s < S" and r: "unat r < kf_K q"
  shows "unat i + n \<le> kf_K q \<Longrightarrow> (case find_from q start e r i n of
      Some (index, old) \<Rightarrow> \<exists>m < kf_K q. unat index = s * kf_K q + m \<and> old = kf_queue q ! (s * kf_K q + m) \<and> (e \<longleftrightarrow> tv_value old = 0)
    | None \<Rightarrow> \<forall>j. unat i \<le> j \<and> j < unat i + n \<longrightarrow> \<not> (e \<longleftrightarrow> slot_val q (s * kf_K q + (j + unat r) mod kf_K q) = 0))"
proof (induction n arbitrary: i)
  case (Suc n)
  have "kf_K q * S < 2 ^ 47" "kf_K q \<le> kf_K q * S" using sh by (simp_all add: kf_shape_def)
  then have small: "kf_K q < 2 ^ 47" by linarith
  have i: "unat i < kf_K q" using Suc.prems by simp
  let ?o = "(r + i) mod kf_k q"
  have "unat r + unat i < 2 ^ 64" using r i small by simp
  then have "unat (r + i) = unat i + unat r" using unat_add_small [of r i] by simp
  then have o: "unat ?o = (unat i + unat r) mod kf_K q" by (simp add: unat_mod)
  then have olt: "unat ?o < kf_K q" using r by simp
  have ix: "unat ((start + ?o) mod queue_size q) = s * kf_K q + (unat i + unat r) mod kf_K q"
    using segment_index [OF sh st olt] o by simp
  let ?old = "kf_queue q ! (s * kf_K q + (unat i + unat r) mod kf_K q)"
  show ?case
  proof (cases "e \<longleftrightarrow> tv_value ?old = 0")
    case True
    then have "find_from q start e r i (Suc n) = Some ((start + ?o) mod queue_size q, ?old)" by (auto simp: ix Let_def)
    then show ?thesis using True ix olt o by auto
  next
    case False
    then have f: "find_from q start e r i (Suc n) = find_from q start e r (i + 1) n" by (auto simp: ix Let_def)
    have "Suc (unat i) < 2 ^ 64" using i small by simp
    then have u: "unat (i + 1) = Suc (unat i)" by (simp add: unat_suc_small)
    have IH: "case find_from q start e r (i + 1) n of
        Some (index, old) \<Rightarrow> \<exists>m < kf_K q. unat index = s * kf_K q + m \<and> old = kf_queue q ! (s * kf_K q + m) \<and> (e \<longleftrightarrow> tv_value old = 0)
      | None \<Rightarrow> \<forall>j. Suc (unat i) \<le> j \<and> j < Suc (unat i) + n \<longrightarrow> \<not> (e \<longleftrightarrow> slot_val q (s * kf_K q + (j + unat r) mod kf_K q) = 0)"
      using Suc.IH [of "i + 1"] Suc.prems unfolding u by simp
    show ?thesis
    proof (cases "find_from q start e r (i + 1) n")
      case None
      have "\<not> (e \<longleftrightarrow> slot_val q (s * kf_K q + (j + unat r) mod kf_K q) = 0)" if "unat i \<le> j" "j < unat i + Suc n" for j
        using IH None False that by (cases "j = unat i") (auto simp: slot_val_def)
      then show ?thesis unfolding f None by simp
    next
      case (Some p)
      then show ?thesis using IH unfolding f by auto
    qed
  qed
qed auto

lemma find_index_spec:
  assumes sh: "kf_shape S q" and st: "unat start = s * kf_K q" "s < S"
  shows "find_index q start e rnd = Some (index, old) \<Longrightarrow>
      \<exists>m < kf_K q. unat index = s * kf_K q + m \<and> old = kf_queue q ! (s * kf_K q + m) \<and> (e \<longleftrightarrow> tv_value old = 0)"
    and "find_index q start e rnd = None \<Longrightarrow> \<forall>i < kf_K q. \<not> (e \<longleftrightarrow> slot_val q (s * kf_K q + i) = 0)"
proof -
  have K: "0 < kf_K q" using sh by (simp add: kf_shape_def)
  then have r: "unat (rnd mod kf_k q) < kf_K q" by (simp add: unat_mod)
  note f = find_from_spec [OF sh st r, of 0 "kf_K q" e, folded find_index_def]
  show "find_index q start e rnd = Some (index, old) \<Longrightarrow>
      \<exists>m < kf_K q. unat index = s * kf_K q + m \<and> old = kf_queue q ! (s * kf_K q + m) \<and> (e \<longleftrightarrow> tv_value old = 0)"
    using f by simp
  assume "find_index q start e rnd = None"
  then have "\<forall>j < kf_K q. \<not> (e \<longleftrightarrow> slot_val q (s * kf_K q + (j + unat (rnd mod kf_k q)) mod kf_K q) = 0)" using f by simp
  then show "\<forall>i < kf_K q. \<not> (e \<longleftrightarrow> slot_val q (s * kf_K q + i) = 0)"
    using rotation_covers [OF K, of "\<lambda>i. \<not> (e \<longleftrightarrow> slot_val q (s * kf_K q + i) = 0)" "unat (rnd mod kf_k q)"] by blast
qed

section \<open>The ring of segments\<close>

lemma region_nth: "n \<le> d \<Longrightarrow> region S h d ! n = (h + n) mod S"
  unfolding region_def by (subst nth_map) (auto simp del: upt_Suc)

lemma region_Suc: "region S h (Suc d) = region S h d @ [(h + Suc d) mod S]"
  by (simp add: region_def)

lemma region_Cons: "h < S \<Longrightarrow> region S h (Suc d) = h # region S (Suc h mod S) d"
proof -
  assume h: "h < S"
  have "region S h (Suc d) = (h + 0) mod S # map (\<lambda>n. (h + Suc n) mod S) [0..<Suc d]"
    unfolding region_def by (subst upt_conv_Cons) (simp_all add: map_Suc_upt [symmetric] del: upt_Suc)
  also have "map (\<lambda>n. (h + Suc n) mod S) [0..<Suc d] = region S (Suc h mod S) d"
    unfolding region_def by (rule map_cong) (simp_all add: mod_simps)
  finally show ?thesis using h by simp
qed

lemma region_0: "h < S \<Longrightarrow> region S h 0 = [h]"
  by (simp add: region_def)

lemma region_distinct: "d < S \<Longrightarrow> distinct (region S h d)"
proof (induction d)
  case (Suc d)
  have "(h + Suc d) mod S \<noteq> (h + n) mod S" if "n \<le> d" for n
  proof
    assume "(h + Suc d) mod S = (h + n) mod S"
    then have "S dvd (h + Suc d) - (h + n)" using that by (metis mod_eq_dvd_iff_nat add_le_cancel_left le_SucI)
    then show False using that Suc.prems by (auto dest: dvd_imp_le)
  qed
  then have "(h + Suc d) mod S \<notin> set (region S h d)" by (force simp: region_def less_Suc_eq_le simp del: upt_Suc add_Suc_right)
  then show ?case using Suc by (simp add: region_Suc)
qed (simp add: region_def)

lemma region_last: "region S h d \<noteq> []" "last (region S h d) = (h + d) mod S"
  by (simp_all add: region_def last_map)

lemma region_less: "0 < S \<Longrightarrow> s \<in> set (region S h d) \<Longrightarrow> s < S"
  by (auto simp: region_def)

lemma region_hd: "h < S \<Longrightarrow> d < S \<Longrightarrow> h = (h + d) mod (S :: nat) \<longleftrightarrow> d = 0"
proof
  assume a: "h < S" "d < S" "h = (h + d) mod S"
  show "d = 0"
  proof (rule ccontr)
    assume "d \<noteq> 0"
    then have "distinct (region S h d)" "region S h d ! 0 \<noteq> region S h d ! d"
      using region_distinct [OF a(2)] nth_eq_iff_index_eq [of "region S h d" 0 d] by (auto simp: region_def simp del: upt_Suc)
    then show False using a by (simp add: region_nth)
  qed
qed simp

section \<open>Steps on the ring\<close>

lemma segment_cong:
  "kf_queue q' = kf_queue q \<Longrightarrow> kf_k q' = kf_k q \<Longrightarrow> segment q' s = segment q s"
  by (simp add: segment_def slot_val_def)

lemma live_cong: "kf_queue q' = kf_queue q \<Longrightarrow> kf_k q' = kf_k q \<Longrightarrow> live S h d q' = live S h d q"
proof -
  assume "kf_queue q' = kf_queue q" "kf_k q' = kf_k q"
  then have "segment q' = segment q" using segment_cong [of q' q] by blast
  then show "live S h d q' = live S h d q" by (simp add: live_def)
qed

lemma kf_at_facts:
  assumes "kf_at S h d q"
  shows "kf_shape S q" "h < S" "d < S" "unat (tv_value (kf_head q)) = h * kf_K q"
    "unat (tv_value (kf_tail q)) = (h + d) mod S * kf_K q" "0 < kf_K q" "2 \<le> S" "(h + d) mod S < S"
    "s < S \<Longrightarrow> s \<notin> set (region S h d) \<Longrightarrow> segment q s = {#}"
  using assms by (auto simp: kf_at_def kf_shape_def)

lemma next_segment:
  assumes "kf_shape S q" "unat w = s * kf_K q" "s < S"
  shows "unat ((w + kf_k q) mod queue_size q) = Suc s mod S * kf_K q" "unat ((w + kf_k q) mod queue_size q) < 2 ^ 47"
proof -
  have z: "unat (queue_size q) = kf_K q * S" "kf_K q * S < 2 ^ 47" using assms(1) by (simp_all add: kf_shape_def)
  have "s * kf_K q + kf_K q \<le> S * kf_K q" using mult_le_mono1 [of "Suc s" S "kf_K q"] assms(3) by simp
  then have "unat w + unat (kf_k q) < 2 ^ 64" using z assms(2) by (simp add: mult.commute)
  then have "unat (w + kf_k q) = kf_K q * Suc s" using assms(2) by (simp add: unat_add_small)
  then show e: "unat ((w + kf_k q) mod queue_size q) = Suc s mod S * kf_K q"
    unfolding unat_mod z(1) using mult_mod_right [of "kf_K q" "Suc s" S] by (simp add: mult.commute)
  have "Suc s mod S * kf_K q \<le> S * kf_K q" using assms(3) by (intro mult_le_mono1) (simp add: less_imp_le)
  also have "\<dots> < 2 ^ 47" using z(2) by (simp only: mult.commute)
  finally show "unat ((w + kf_k q) mod queue_size q) < 2 ^ 47" unfolding e .
qed

lemma advance_fields [simp]:
  "kf_queue (advance_head w q) = kf_queue q" "kf_k (advance_head w q) = kf_k q" "queue_size (advance_head w q) = queue_size q"
  "kf_tail (advance_head w q) = kf_tail q" "kf_queue (advance_tail w q) = kf_queue q" "kf_k (advance_tail w q) = kf_k q"
  "queue_size (advance_tail w q) = queue_size q" "kf_head (advance_tail w q) = kf_head q"
  by (simp_all add: advance_head_def advance_tail_def)

lemma kf_shape_cong:
  "kf_k q' = kf_k q \<Longrightarrow> queue_size q' = queue_size q \<Longrightarrow> length (kf_queue q') = length (kf_queue q) \<Longrightarrow> kf_shape S q' = kf_shape S q"
  by (simp add: kf_shape_def)

text \<open>Leaving an empty head segment, and opening the segment behind the tail.\<close>

lemma advance_head_at:
  assumes at: "kf_at S h (Suc d) q" and e: "segment q h = {#}"
  shows "kf_at S (Suc h mod S) d (advance_head (kf_head q) q) \<and>
    live S (Suc h mod S) d (advance_head (kf_head q) q) = live S h (Suc d) q"
proof -
  let ?q = "advance_head (kf_head q) q"
  note f = kf_at_facts [OF at]
  note n = next_segment [OF f(1,4,2)]
  have hd: "unat (tv_value (kf_head ?q)) = Suc h mod S * kf_K q" using n by (simp add: advance_head_def tv_swap_def)
  have tl: "(Suc h mod S + d) mod S = (h + Suc d) mod S" by (simp add: mod_simps)
  have "segment ?q s = {#}" if "s < S" "s \<notin> set (region S (Suc h mod S) d)" for s
    using f(9) [OF that(1)] that(2) e segment_cong [of ?q q s] unfolding region_Cons [OF f(2)] by auto
  moreover have "kf_shape S ?q" using f(1) kf_shape_cong [of ?q q S] by simp
  ultimately have "kf_at S (Suc h mod S) d ?q" using f hd tl unfolding kf_at_def by simp
  moreover have "live S (Suc h mod S) d ?q = live S h (Suc d) q"
    using live_cong [of ?q q] e by (simp add: live_def region_Cons [OF f(2)])
  ultimately show ?thesis by blast
qed

lemma advance_tail_at:
  assumes at: "kf_at S h d q" and d: "Suc d < S"
  shows "kf_at S h (Suc d) (advance_tail (kf_tail q) q) \<and> live S h (Suc d) (advance_tail (kf_tail q) q) = live S h d q"
    and "segment q ((h + Suc d) mod S) = {#}"
proof -
  let ?q = "advance_tail (kf_tail q) q"
  note f = kf_at_facts [OF at]
  note n = next_segment [OF f(1,5,8)]
  have "Suc ((h + d) mod S) mod S = (h + Suc d) mod S" by (simp add: mod_simps)
  then have tl: "unat (tv_value (kf_tail ?q)) = (h + Suc d) mod S * kf_K q" using n by (simp add: advance_tail_def tv_swap_def)
  have "(h + Suc d) mod S \<notin> set (region S h d)" using region_distinct [OF d, of h] by (simp add: region_Suc)
  then show e: "segment q ((h + Suc d) mod S) = {#}" using f(9) d by simp
  have e': "segment ?q ((h + Suc d) mod S) = {#}" using e segment_cong [of ?q q] by simp
  have "segment ?q s = {#}" if "s < S" "s \<notin> set (region S h (Suc d))" for s
    using f(9) [OF that(1)] that(2) segment_cong [of ?q q s] unfolding region_Suc by auto
  moreover have "kf_shape S ?q" using f(1) kf_shape_cong [of ?q q S] by simp
  ultimately have "kf_at S h (Suc d) ?q" using f tl d unfolding kf_at_def by simp
  moreover have "live S h (Suc d) ?q = live S h d q"
    using live_cong [of ?q q S h d] e' by (simp add: live_def region_Suc)
  ultimately show "kf_at S h (Suc d) ?q \<and> live S h (Suc d) ?q = live S h d q" by blast
qed

section \<open>Updates of a slot\<close>

definition set_slot :: "nat \<Rightarrow> u64 \<Rightarrow> kfifo \<Rightarrow> kfifo" where
  "set_slot j raw q = q\<lparr>kf_queue := (kf_queue q)[j := raw]\<rparr>"

lemma set_slot_fields [simp]:
  "kf_k (set_slot j raw q) = kf_k q" "queue_size (set_slot j raw q) = queue_size q" "kf_head (set_slot j raw q) = kf_head q"
  "kf_tail (set_slot j raw q) = kf_tail q" "length (kf_queue (set_slot j raw q)) = length (kf_queue q)"
  "kf_queue (set_slot j raw q) = (kf_queue q)[j := raw]"
  by (simp_all add: set_slot_def)

lemma slot_swap_same:
  "kf_queue q ! unat index = old \<Longrightarrow> slot_swap index old new q = (True, set_slot (unat index) new q)"
  by (simp add: slot_swap_def tv_swap_def set_slot_def)

lemma set_slot_segment:
  assumes "kf_shape S q" "s < S" "m < kf_K q"
  shows "t < S \<Longrightarrow> t \<noteq> s \<Longrightarrow> segment (set_slot (s * kf_K q + m) raw q) t = segment q t"
    and "segment (set_slot (s * kf_K q + m) raw q) s + mset (filter (\<lambda>v. v \<noteq> 0) [slot_val q (s * kf_K q + m)]) =
      segment q s + mset (filter (\<lambda>v. v \<noteq> 0) [tv_value raw])"
proof -
  let ?j = "s * kf_K q + m" and ?q = "set_slot (s * kf_K q + m) raw q"
  have j: "?j < length (kf_queue q)" using segment_slot [OF assms(2,3)] assms(1) by (simp add: kf_shape_def)
  have v: "slot_val ?q i = (if i = ?j then tv_value raw else slot_val q i)" for i
    using j by (simp add: slot_val_def nth_list_update)
  show "segment ?q t = segment q t" if "t < S" "t \<noteq> s"
  proof -
    have "t * kf_K q + i \<noteq> ?j" if "i < kf_K q" for i
    proof
      assume "t * kf_K q + i = ?j"
      then have "(t * kf_K q + i) div kf_K q = ?j div kf_K q" by simp
      then show False using that assms(3) \<open>t \<noteq> s\<close> by simp
    qed
    then have "map (\<lambda>i. slot_val ?q (t * kf_K q + i)) [0..<kf_K q] = map (\<lambda>i. slot_val q (t * kf_K q + i)) [0..<kf_K q]"
      by (intro map_cong) (simp_all add: v)
    then show ?thesis unfolding segment_def by (simp only: set_slot_fields)
  qed
  let ?xs = "map (\<lambda>i. slot_val q (s * kf_K q + i)) [0..<kf_K q]"
  have "map (\<lambda>i. slot_val ?q (s * kf_K q + i)) [0..<kf_K q] = ?xs[m := tv_value raw]"
    using assms(3) by (intro nth_equalityI) (auto simp: v nth_list_update)
  then show "segment ?q s + mset (filter (\<lambda>v. v \<noteq> 0) [slot_val q ?j]) = segment q s + mset (filter (\<lambda>v. v \<noteq> 0) [tv_value raw])"
    using mset_filter_update [of m ?xs "\<lambda>v. v \<noteq> 0" "tv_value raw"] assms(3) by (simp add: segment_def)
qed

lemma set_slot_at:
  assumes "kf_at S h d q" "s \<in> set (region S h d)" "m < kf_K q"
  shows "kf_at S h d (set_slot (s * kf_K q + m) raw q)"
proof -
  note f = kf_at_facts [OF assms(1)]
  have s: "s < S" using region_less assms(2) f(2) by (metis gr_implies_not0 not_gr0)
  let ?q = "set_slot (s * kf_K q + m) raw q"
  have "segment ?q t = {#}" if "t < S" "t \<notin> set (region S h d)" for t
    using f(9) [OF that] set_slot_segment(1) [OF f(1) s assms(3) that(1)] that(2) assms(2) by metis
  then show ?thesis using f kf_shape_cong [of ?q q S] by (simp add: kf_at_def)
qed

text \<open>The bags after a slot of the head or of the tail segment changed.\<close>

lemma live_head:
  assumes "kf_at S h d q" "m < kf_K q"
  defines "rest \<equiv> filter (\<lambda>b. b \<noteq> {#}) (map (segment q) (tl (region S h d)))"
  shows "live S h d (set_slot (h * kf_K q + m) raw q) =
      (let b = segment (set_slot (h * kf_K q + m) raw q) h in if b = {#} then rest else b # rest)"
    and "live S h d q = (if segment q h = {#} then rest else segment q h # rest)"
proof -
  note f = kf_at_facts [OF assms(1)]
  have r: "region S h d = h # tl (region S h d)" by (cases d) (simp_all add: region_0 f region_Cons)
  have t: "segment (set_slot (h * kf_K q + m) raw q) t = segment q t" if "t \<in> set (tl (region S h d))" for t
  proof (rule set_slot_segment(1) [OF f(1,2) assms(2)])
    show "t < S" using that r region_less f(2) by (metis gr_implies_not0 list.set_intros(2) not_gr0)
    show "t \<noteq> h" using that region_distinct [OF f(3), of h] by (subst (asm) (2) r) auto
  qed
  then show "live S h d (set_slot (h * kf_K q + m) raw q) =
      (let b = segment (set_slot (h * kf_K q + m) raw q) h in if b = {#} then rest else b # rest)"
    unfolding live_def rest_def by (subst r) (simp cong: map_cong)
  show "live S h d q = (if segment q h = {#} then rest else segment q h # rest)"
    unfolding live_def rest_def by (subst r) simp
qed

lemma live_tail:
  assumes "kf_at S h d q" "m < kf_K q"
  defines "t \<equiv> (h + d) mod S" and "rest \<equiv> filter (\<lambda>b. b \<noteq> {#}) (map (segment q) (butlast (region S h d)))"
  shows "live S h d (set_slot (t * kf_K q + m) raw q) =
      (let b = segment (set_slot (t * kf_K q + m) raw q) t in if b = {#} then rest else rest @ [b])"
    and "live S h d q = (if segment q t = {#} then rest else rest @ [segment q t])"
proof -
  note f = kf_at_facts [OF assms(1)]
  have r: "region S h d = butlast (region S h d) @ [t]"
    unfolding t_def using region_last [of S h d] by (metis append_butlast_last_id)
  have tS: "t < S" using f(8) by (simp add: t_def)
  have e: "segment (set_slot (t * kf_K q + m) raw q) u = segment q u" if "u \<in> set (butlast (region S h d))" for u
  proof (rule set_slot_segment(1) [OF f(1) tS assms(2)])
    show "u < S" using that region_less f(2) by (metis gr_implies_not0 in_set_butlastD not_gr0)
    show "u \<noteq> t" using that region_distinct [OF f(3), of h] by (subst (asm) (2) r) auto
  qed
  then show "live S h d (set_slot (t * kf_K q + m) raw q) =
      (let b = segment (set_slot (t * kf_K q + m) raw q) t in if b = {#} then rest else rest @ [b])"
    unfolding live_def rest_def by (subst r) (simp cong: map_cong)
  show "live S h d q = (if segment q t = {#} then rest else rest @ [segment q t])"
    unfolding live_def rest_def by (subst r) simp
qed

section \<open>The operations on the bags\<close>

definition deq_bags :: "u64 multiset list \<Rightarrow> u64 option \<Rightarrow> u64 multiset list \<Rightarrow> bool" where
  "deq_bags L r L' \<longleftrightarrow> (case r of None \<Rightarrow> L = [] \<and> L' = []
     | Some x \<Rightarrow> L \<noteq> [] \<and> x \<in># hd L \<and> L' = (if hd L - {#x#} = {#} then tl L else (hd L - {#x#}) # tl L))"

definition enq_bags :: "u64 \<Rightarrow> u64 multiset list \<Rightarrow> u64 multiset list \<Rightarrow> bool" where
  "enq_bags x L L' \<longleftrightarrow> L' = L @ [{#x#}] \<or> (L \<noteq> [] \<and> L' = butlast L @ [add_mset x (last L)])"

lemma take_head:
  assumes at: "kf_at S h d q" and m: "m < kf_K q" and x: "slot_val q (h * kf_K q + m) = x" "x \<noteq> 0" and raw: "tv_value raw = 0"
  shows "kf_at S h d (set_slot (h * kf_K q + m) raw q) \<and>
    deq_bags (live S h d q) (Some x) (live S h d (set_slot (h * kf_K q + m) raw q))"
proof -
  let ?q = "set_slot (h * kf_K q + m) raw q"
  note f = kf_at_facts [OF at]
  have "h \<in> set (region S h d)" by (cases d) (simp_all add: region_0 f region_Cons)
  then have "kf_at S h d ?q" using set_slot_at [OF at _ m] by blast
  moreover have "segment q h = add_mset x (segment ?q h)" using set_slot_segment(2) [OF f(1,2) m, of raw] x raw by simp
  then have "segment q h \<noteq> {#}" "x \<in># segment q h" "segment ?q h = segment q h - {#x#}" by auto
  ultimately show ?thesis using live_head(1) [OF at m, of raw] live_head(2) [OF at m] by (auto simp: deq_bags_def Let_def)
qed

lemma put_tail:
  assumes at: "kf_at S h d q" and m: "m < kf_K q"
    and x: "slot_val q ((h + d) mod S * kf_K q + m) = 0" "tv_value raw = x" "x \<noteq> 0"
  shows "kf_at S h d (set_slot ((h + d) mod S * kf_K q + m) raw q) \<and>
    enq_bags x (live S h d q) (live S h d (set_slot ((h + d) mod S * kf_K q + m) raw q))"
proof -
  let ?t = "(h + d) mod S"
  let ?q = "set_slot (?t * kf_K q + m) raw q"
  note f = kf_at_facts [OF at]
  have "?t \<in> set (region S h d)" using region_last [of S h d] by (metis last_in_set)
  then have "kf_at S h d ?q" using set_slot_at [OF at _ m] by blast
  moreover have "segment ?q ?t = add_mset x (segment q ?t)" using set_slot_segment(2) [OF f(1,8) m, of raw] x by simp
  ultimately show ?thesis using live_tail(1) [OF at m, of raw] live_tail(2) [OF at m] by (auto simp: enq_bags_def Let_def)
qed

lemma heads_equal:
  assumes "kf_at S h d q" shows "tv_value (kf_head q) = tv_value (kf_tail q) \<longleftrightarrow> d = 0"
proof -
  note f = kf_at_facts [OF assms]
  have "tv_value (kf_head q) = tv_value (kf_tail q) \<longleftrightarrow> h * kf_K q = (h + d) mod S * kf_K q"
    using f(4,5) by (simp add: word_eq_unat)
  also have "\<dots> \<longleftrightarrow> d = 0" using f(6) region_hd [OF f(2,3)] by simp
  finally show ?thesis .
qed

text \<open>
  A dequeue returns after at most one round per segment in use; it takes an element of the first
  bag, or there is none.
\<close>

lemma dequeue_refines:
  assumes "kf_at S h d q" "d < fuel"
  shows "\<exists>r q' h' d'. dequeue fuel drawn q = Some (r, q') \<and> kf_at S h' d' q' \<and> deq_bags (live S h d q) r (live S h' d' q')"
  using assms unfolding dequeue_def
proof (induction fuel arbitrary: h d q)
  case (Suc fuel)
  note at = Suc.prems(1)
  note f = kf_at_facts [OF at]
  show ?case
  proof (cases "find_index q (tv_value (kf_head q)) False (drawn fuel)")
    case None
    then have e: "segment q h = {#}" using find_index_spec(2) [OF f(1,4,2) None] by (simp add: segment_empty_iff)
    show ?thesis
    proof (cases d)
      case 0
      have "dequeue_loop (Suc fuel) drawn q = Some (None, q)" using None heads_equal [OF at] 0 by simp
      moreover have "live S h d q = []" using e 0 f(2) by (simp add: live_def region_0)
      ultimately show ?thesis using at by (auto simp: deq_bags_def)
    next
      case (Suc d0)
      note adv = advance_head_at [OF at [unfolded Suc] e]
      have "d0 < fuel" using Suc.prems(2) Suc by simp
      from Suc.IH [OF conjunct1 [OF adv] this] adv have
        "\<exists>r q' h' d'. dequeue_loop fuel drawn (advance_head (kf_head q) q) = Some (r, q') \<and> kf_at S h' d' q' \<and>
          deq_bags (live S h d q) r (live S h' d' q')" using Suc by simp
      moreover have "dequeue_loop (Suc fuel) drawn q = dequeue_loop fuel drawn (advance_head (kf_head q) q)"
        using None heads_equal [OF at] Suc by simp
      ultimately show ?thesis by simp
    qed
  next
    case (Some p)
    then obtain index old where p: "find_index q (tv_value (kf_head q)) False (drawn fuel) = Some (index, old)" by (cases p) auto
    obtain m where m: "m < kf_K q" "unat index = h * kf_K q + m" "old = kf_queue q ! (h * kf_K q + m)" "tv_value old \<noteq> 0"
      using find_index_spec(1) [OF f(1,4,2) p] by auto
    let ?q1 = "if d = 0 then advance_tail (kf_tail q) q else q"
    have q1: "\<exists>d1. kf_at S h d1 ?q1 \<and> live S h d1 ?q1 = live S h d q"
    proof (cases "d = 0")
      case True
      then show ?thesis using advance_tail_at(1) [OF at] f(7) by (intro exI [of _ 1]) simp
    qed (use at in auto)
    then obtain d1 where d1: "kf_at S h d1 ?q1" "live S h d1 ?q1 = live S h d q" by blast
    have same: "kf_queue ?q1 = kf_queue q" "kf_k ?q1 = kf_k q" by simp_all
    let ?raw = "tagged 0 (tv_tag old + 1)"
    have sw: "slot_swap index old ?raw ?q1 = (True, set_slot (h * kf_K q + m) ?raw ?q1)"
      using slot_swap_same [of ?q1 index old ?raw] m(2,3) same(1) by simp
    have t: "kf_at S h d1 (set_slot (h * kf_K q + m) ?raw ?q1) \<and>
        deq_bags (live S h d q) (Some (tv_value old)) (live S h d1 (set_slot (h * kf_K q + m) ?raw ?q1))"
      using take_head [OF d1(1), of m "tv_value old" ?raw] m d1(2) same by (simp add: slot_val_def)
    have "dequeue_loop (Suc fuel) drawn q = Some (Some (tv_value old), set_slot (h * kf_K q + m) ?raw ?q1)"
      using p sw heads_equal [OF at] by (simp split: if_splits)
    then show ?thesis using t by blast
  qed
qed simp

text \<open>Without interference a stored element is always committed.\<close>

lemma head_small: "kf_at S h d q \<Longrightarrow> unat (tv_value (kf_head q)) < 2 ^ 47"
proof -
  assume at: "kf_at S h d q"
  note f = kf_at_facts [OF at]
  have "h * kf_K q < S * kf_K q" using f(2,6) by simp
  also have "\<dots> < 2 ^ 47" using f(1) by (simp only: kf_shape_def mult.commute)
  finally show ?thesis using f(4) by simp
qed

lemma committed_True:
  assumes at: "kf_at S h d q" and stored: "kf_queue q ! unat index = new"
  shows "\<exists>hw. committed (kf_tail q) new index q = (True, q\<lparr>kf_head := hw\<rparr>) \<and> tv_value hw = tv_value (kf_head q)"
proof (cases "tv_value (kf_tail q) = tv_value (kf_head q)")
  case True
  have "committed (kf_tail q) new index q = (True, q\<lparr>kf_head := tagged (tv_value (kf_head q)) (tv_tag (kf_head q) + 1)\<rparr>)"
    using True stored by (simp add: committed_def in_valid_region_def not_in_valid_region_def tv_swap_def Let_def)
  then show ?thesis using head_small [OF at] by auto
next
  case False
  then have "in_valid_region (tv_value (kf_tail q)) (tv_value (kf_tail q)) (tv_value (kf_head q))"
    by (auto simp: in_valid_region_def)
  then have "committed (kf_tail q) new index q = (True, q\<lparr>kf_head := kf_head q\<rparr>)" using stored by (simp add: committed_def)
  then show ?thesis by blast
qed

lemma kf_at_head: "kf_at S h d q \<Longrightarrow> tv_value hw = tv_value (kf_head q) \<Longrightarrow> kf_at S h d (q\<lparr>kf_head := hw\<rparr>)"
  using segment_cong [of "q\<lparr>kf_head := hw\<rparr>" q] kf_shape_cong [of "q\<lparr>kf_head := hw\<rparr>" q S] by (simp add: kf_at_def)

lemma enqueue_round_raw:
  assumes at: "kf_at S h d q" and room: "size (segment q ((h + d) mod S)) \<noteq> kf_K q"
  shows "\<exists>m tg hw. m < kf_K q \<and> slot_val q ((h + d) mod S * kf_K q + m) = 0 \<and> tv_value hw = tv_value (kf_head q) \<and>
    enqueue_loop (Suc fuel) drawn x q = Some (True, (set_slot ((h + d) mod S * kf_K q + m) (tagged x tg) q)\<lparr>kf_head := hw\<rparr>)"
proof -
  note f = kf_at_facts [OF at]
  let ?t = "(h + d) mod S"
  obtain index old where p: "find_index q (tv_value (kf_tail q)) True (drawn fuel) = Some (index, old)"
    using find_index_spec(2) [OF f(1,5,8), of True "drawn fuel"] room by (fastforce simp: segment_full_iff)
  obtain m where m: "m < kf_K q" "unat index = ?t * kf_K q + m" "old = kf_queue q ! (?t * kf_K q + m)" "tv_value old = 0"
    using find_index_spec(1) [OF f(1,5,8) p] by auto
  let ?new = "tagged x (tv_tag old + 1)" and ?q1 = "set_slot (?t * kf_K q + m) (tagged x (tv_tag old + 1)) q"
  have sw: "slot_swap index old ?new q = (True, ?q1)" using slot_swap_same [of q index old ?new] m(2,3) by simp
  have "?t \<in> set (region S h d)" using region_last [of S h d] by (metis last_in_set)
  then have at1: "kf_at S h d ?q1" using set_slot_at [OF at _ m(1)] by blast
  have "unat index < length (kf_queue q)" using segment_slot [OF f(8) m(1)] f(1) m(2) by (simp add: kf_shape_def)
  then have "kf_queue ?q1 ! unat index = ?new" using m(2) by simp
  from committed_True [OF at1 this] obtain hw where
    c: "committed (kf_tail q) ?new index ?q1 = (True, ?q1\<lparr>kf_head := hw\<rparr>)" "tv_value hw = tv_value (kf_head ?q1)" by auto
  have "enqueue_loop (Suc fuel) drawn x q = Some (True, ?q1\<lparr>kf_head := hw\<rparr>)" using p sw c(1) by simp
  then show ?thesis using c(2) m by (auto simp: slot_val_def)
qed

lemma enqueue_round:
  assumes at: "kf_at S h d q" and x: "representable x" "x \<noteq> 0" and room: "size (segment q ((h + d) mod S)) \<noteq> kf_K q"
  shows "\<exists>q'. enqueue_loop (Suc fuel) drawn x q = Some (True, q') \<and> kf_at S h d q' \<and> enq_bags x (live S h d q) (live S h d q')"
proof -
  obtain m tg hw where m: "m < kf_K q" "slot_val q ((h + d) mod S * kf_K q + m) = 0" "tv_value hw = tv_value (kf_head q)"
    and e: "enqueue_loop (Suc fuel) drawn x q = Some (True, (set_slot ((h + d) mod S * kf_K q + m) (tagged x tg) q)\<lparr>kf_head := hw\<rparr>)"
    using enqueue_round_raw [OF at room] by blast
  let ?q1 = "set_slot ((h + d) mod S * kf_K q + m) (tagged x tg) q"
  have put: "kf_at S h d ?q1" "enq_bags x (live S h d q) (live S h d ?q1)"
    using put_tail [OF at m(1,2), of "tagged x tg" x] x by (simp_all add: tagged_value_iff)
  show ?thesis using e kf_at_head [OF put(1), of hw] m(3) live_cong [of "?q1\<lparr>kf_head := hw\<rparr>" ?q1 S h d] put(2)
    by (simp del: enqueue_loop.simps)
qed

text \<open>
  An item whose lower 48 bits are zero is stored as an empty slot: the enqueue reports success and
  the bags stay as they were.
\<close>

lemma enqueue_wide:
  assumes at: "kf_at S h d q" and x: "x AND mask 48 = 0" and room: "size (segment q ((h + d) mod S)) \<noteq> kf_K q"
  shows "\<exists>q'. enqueue_loop (Suc fuel) drawn x q = Some (True, q') \<and> kf_at S h d q' \<and> live S h d q' = live S h d q"
proof -
  let ?t = "(h + d) mod S"
  note f = kf_at_facts [OF at]
  obtain m tg hw where m: "m < kf_K q" "slot_val q (?t * kf_K q + m) = 0" "tv_value hw = tv_value (kf_head q)"
    and e: "enqueue_loop (Suc fuel) drawn x q = Some (True, (set_slot (?t * kf_K q + m) (tagged x tg) q)\<lparr>kf_head := hw\<rparr>)"
    using enqueue_round_raw [OF at room] by blast
  let ?q1 = "set_slot (?t * kf_K q + m) (tagged x tg) q"
  have "bit x n = False" if "n < 48" for n
    using arg_cong [OF x, of "\<lambda>w. bit w n"] that by (simp add: bit_simps)
  then have z: "tv_value (tagged x tg) = 0" by (intro bit_word_eqI) (simp add: tv_value_bits tagged_bits)
  have "?t \<in> set (region S h d)" using region_last [of S h d] by (metis last_in_set)
  then have at1: "kf_at S h d ?q1" using set_slot_at [OF at _ m(1)] by blast
  have "segment ?q1 ?t = segment q ?t" using set_slot_segment(2) [OF f(1,8) m(1), of "tagged x tg"] m(2) z by simp
  then have "live S h d ?q1 = live S h d q"
    using live_tail(1) [OF at m(1), of "tagged x tg"] live_tail(2) [OF at m(1)] by (simp add: Let_def)
  then show ?thesis using e kf_at_head [OF at1, of hw] m(3) live_cong [of "?q1\<lparr>kf_head := hw\<rparr>" ?q1 S h d]
    by (simp del: enqueue_loop.simps)
qed

lemma segment_not_empty_iff:
  assumes "kf_at S h d q" shows "segment_not_empty (kf_head q) q \<longleftrightarrow> segment q h \<noteq> {#}"
proof -
  note f = kf_at_facts [OF assms]
  have "kf_K q < 2 ^ 64" using unat_lt [of "kf_k q"] by simp
  then have "unat ((tv_value (kf_head q) + of_nat i) mod queue_size q) = h * kf_K q + i" if "i < kf_K q" for i
    using segment_index [OF f(1,4,2), of "of_nat i"] that by (simp add: unat_of_nat_small)
  then show ?thesis by (auto simp: segment_not_empty_def segment_empty_iff slot_val_def)
qed

lemma queue_full_iff:
  assumes "kf_at S h d q" shows "queue_full (kf_head q) (kf_tail q) q \<longleftrightarrow> Suc d = S"
proof -
  note f = kf_at_facts [OF assms]
  have e: "Suc ((h + d) mod S) mod S = (h + Suc d) mod S" by (simp add: mod_simps)
  have "queue_full (kf_head q) (kf_tail q) q \<longleftrightarrow> (h + Suc d) mod S * kf_K q = h * kf_K q"
    unfolding queue_full_def word_eq_unat using next_segment(1) [OF f(1,5,8)] f(4) e by simp
  also have "\<dots> \<longleftrightarrow> (h + Suc d) mod S = h" using f(6) by simp
  also have "\<dots> \<longleftrightarrow> Suc d = S" using region_hd [OF f(2), of "Suc d"] f(2,3) by (cases "Suc d = S") auto
  finally show ?thesis .
qed

text \<open>
  An enqueue returns after at most two rounds: the element enters the last bag or a new one, or the
  ring is full, that is all segments are in use, the tail segment is full and the head segment is
  not empty.
\<close>

lemma enqueue_refines:
  assumes at: "kf_at S h d q" and x: "representable x" "x \<noteq> 0"
  shows "\<exists>b q' h' d'. enqueue (Suc (Suc fuel)) drawn x q = Some (Inr (b, q')) \<and> kf_at S h' d' q' \<and>
    (if b then enq_bags x (live S h d q) (live S h' d' q')
     else q' = q \<and> live S h' d' q' = live S h d q \<and> Suc d = S \<and> segment q h \<noteq> {#} \<and> size (segment q ((h + d) mod S)) = kf_K q)"
proof -
  note f = kf_at_facts [OF at]
  have wrap: "enqueue n drawn x q = map_option Inr (enqueue_loop n drawn x q)" for n using x(2) by (simp add: enqueue_def)
  show ?thesis
  proof (cases "size (segment q ((h + d) mod S)) = kf_K q")
    case False
    obtain q' where "enqueue_loop (Suc (Suc fuel)) drawn x q = Some (True, q')" "kf_at S h d q'" "enq_bags x (live S h d q) (live S h d q')"
      using enqueue_round [OF at x False] by blast
    then show ?thesis unfolding wrap by (intro exI [of _ True] exI [of _ q'] exI [of _ h] exI [of _ d]) (simp del: enqueue_loop.simps)
  next
    case True
    have none: "find_index q (tv_value (kf_tail q)) True (drawn (Suc fuel)) = None"
    proof (rule ccontr)
      assume "find_index q (tv_value (kf_tail q)) True (drawn (Suc fuel)) \<noteq> None"
      then obtain index old where "find_index q (tv_value (kf_tail q)) True (drawn (Suc fuel)) = Some (index, old)" by auto
      from find_index_spec(1) [OF f(1,5,8) this] show False using True by (auto simp: segment_full_iff slot_val_def)
    qed
    have again: "\<exists>b q' h' d'. map_option Inr (enqueue_loop (Suc fuel) drawn x q2) = Some (Inr (b, q')) \<and> kf_at S h' d' q' \<and>
        b \<and> enq_bags x (live S h d q) (live S h' d' q')"
      if "kf_at S h2 d2 q2" "live S h2 d2 q2 = live S h d q" "segment q2 ((h2 + d2) mod S) = {#}" for h2 d2 q2
    proof -
      have "size (segment q2 ((h2 + d2) mod S)) \<noteq> kf_K q2" using kf_at_facts(6) [OF that(1)] that(3) by simp
      from enqueue_round [OF that(1) x this, of fuel drawn] obtain q' where
        "enqueue_loop (Suc fuel) drawn x q2 = Some (True, q')" "kf_at S h2 d2 q'" "enq_bags x (live S h2 d2 q2) (live S h2 d2 q')" by blast
      then show ?thesis using that(2)
        by (intro exI [of _ True] exI [of _ q'] exI [of _ h2] exI [of _ d2]) (simp del: enqueue_loop.simps)
    qed
    show ?thesis
    proof (cases "Suc d = S")
      case fl: True
      show ?thesis
      proof (cases "segment q h = {#}")
        case False
        then have "enqueue_loop (Suc (Suc fuel)) drawn x q = Some (False, q)"
          using none queue_full_iff [OF at] segment_not_empty_iff [OF at] fl by simp
        then have "enqueue (Suc (Suc fuel)) drawn x q = Some (Inr (False, q))" unfolding wrap by (simp del: enqueue_loop.simps)
        then show ?thesis using at fl False True by (intro exI [of _ False] exI [of _ q] exI [of _ h] exI [of _ d]) simp
      next
        case e: True
        obtain d0 where d0: "d = Suc d0" using fl f(7) by (cases d) auto
        let ?q1 = "advance_head (kf_head q) q"
        note a1 = advance_head_at [OF at [unfolded d0] e]
        have "Suc d0 < S" using fl d0 by simp
        note a2 = advance_tail_at [OF conjunct1 [OF a1] this]
        let ?q2 = "advance_tail (kf_tail ?q1) ?q1"
        have "segment ?q2 ((Suc h mod S + Suc d0) mod S) = {#}" using a2(2) segment_cong [of ?q2 ?q1] by simp
        then have "\<exists>b q' h' d'. map_option Inr (enqueue_loop (Suc fuel) drawn x ?q2) = Some (Inr (b, q')) \<and> kf_at S h' d' q' \<and>
            b \<and> enq_bags x (live S h d q) (live S h' d' q')"
          using again [of "Suc h mod S" "Suc d0" ?q2] a1 a2(1) d0 by simp
        moreover have "enqueue_loop (Suc (Suc fuel)) drawn x q = enqueue_loop (Suc fuel) drawn x ?q2"
          using none queue_full_iff [OF at] segment_not_empty_iff [OF at] fl e
          by (subst enqueue_loop.simps(2)) (simp add: Let_def del: enqueue_loop.simps)
        ultimately show ?thesis unfolding wrap by metis
      qed
    next
      case False
      then have "Suc d < S" using f(3) by simp
      note a = advance_tail_at [OF at this]
      let ?q2 = "advance_tail (kf_tail q) q"
      have "segment ?q2 ((h + Suc d) mod S) = {#}" using a(2) segment_cong [of ?q2 q] by simp
      then have "\<exists>b q' h' d'. map_option Inr (enqueue_loop (Suc fuel) drawn x ?q2) = Some (Inr (b, q')) \<and> kf_at S h' d' q' \<and>
          b \<and> enq_bags x (live S h d q) (live S h' d' q')"
        using again [of h "Suc d" ?q2] a(1) by simp
      moreover have "enqueue_loop (Suc (Suc fuel)) drawn x q = enqueue_loop (Suc fuel) drawn x ?q2"
        using none queue_full_iff [OF at] False by (subst enqueue_loop.simps(2)) (simp add: Let_def del: enqueue_loop.simps)
      ultimately show ?thesis unfolding wrap by metis
    qed
  qed
qed

section \<open>The constructor and the contents\<close>

lemma kfifo_new_at:
  assumes "0 < unat k" "2 \<le> unat n" "unat k * unat n < 2 ^ 47"
  shows "kf_at (unat n) 0 0 (kfifo_new k n) \<and> live (unat n) 0 0 (kfifo_new k n) = []"
proof -
  let ?q = "kfifo_new k n"
  have sz: "unat (k * n) = unat k * unat n" using assms(3) by (simp add: unat_word_ariths)
  have z: "tv_value 0 = 0" by (simp add: tv_value_def)
  have "slot_val ?q j = 0" if "j < unat k * unat n" for j using that z by (simp add: slot_val_def kfifo_new_def sz)
  then have seg: "segment ?q s = {#}" if "s < unat n" for s
    using that segment_slot [OF that] by (simp add: segment_empty_iff) (simp add: kfifo_new_def)
  have "kf_shape (unat n) ?q" using assms sz by (simp add: kf_shape_def kfifo_new_def)
  then have "kf_at (unat n) 0 0 ?q" using assms seg z by (simp add: kf_at_def) (simp add: kfifo_new_def)
  then show ?thesis using seg assms(2) by (simp add: live_def region_0)
qed

definition kf_content :: "kfifo \<Rightarrow> u64 multiset" where
  "kf_content q = mset (filter (\<lambda>v. v \<noteq> 0) (map tv_value (kf_queue q)))"

lemma content_segments:
  assumes "length (kf_queue q) = kf_K q * S"
  shows "kf_content q = sum_list (map (segment q) [0..<S])"
proof -
  have "mset (filter (\<lambda>v. v \<noteq> 0) (map (slot_val q) [0..<kf_K q * n])) = sum_list (map (segment q) [0..<n])" for n
  proof (induction n)
    case (Suc n)
    have "[0..<kf_K q * Suc n] = [0..<kf_K q * n] @ map (\<lambda>i. n * kf_K q + i) [0..<kf_K q]"
      using upt_add_eq_append [of 0 "kf_K q * n" "kf_K q"] map_add_upt [of "n * kf_K q" "kf_K q"]
      by (simp add: algebra_simps)
    then have "map (slot_val q) [0..<kf_K q * Suc n] =
        map (slot_val q) [0..<kf_K q * n] @ map (\<lambda>i. slot_val q (n * kf_K q + i)) [0..<kf_K q]" by (simp add: comp_def)
    then show ?case using Suc.IH by (simp add: segment_def)
  qed simp
  moreover have "map tv_value (kf_queue q) = map (slot_val q) [0..<kf_K q * S]"
    using assms by (intro nth_equalityI) (simp_all add: slot_val_def)
  ultimately show ?thesis by (simp add: kf_content_def)
qed

lemma content_live:
  assumes "kf_at S h d q" shows "kf_content q = sum_list (live S h d q)"
proof -
  note f = kf_at_facts [OF assms]
  have "sum_list (filter (\<lambda>m. m \<noteq> {#}) ms) = sum_list ms" for ms :: "u64 multiset list" by (induction ms) auto
  then have "sum_list (live S h d q) = sum_list (map (segment q) (region S h d))" by (simp add: live_def)
  also have "\<dots> = sum (segment q) (set (region S h d))" using region_distinct [OF f(3)] by (rule sum_list_distinct_conv_sum_set)
  also have "\<dots> = sum (segment q) {0..<S}"
    using f(9) region_less [of S _ h d] f(2) by (intro sum.mono_neutral_left) auto
  also have "\<dots> = sum_list (map (segment q) [0..<S])" by (simp add: sum_list_distinct_conv_sum_set)
  also have "\<dots> = kf_content q" using content_segments f(1) by (simp add: kf_shape_def)
  finally show ?thesis by simp
qed

lemma deq_bags_sum:
  assumes "deq_bags L r L'"
  shows "case r of None \<Rightarrow> sum_list L = {#} \<and> sum_list L' = {#} | Some x \<Rightarrow> sum_list L = add_mset x (sum_list L')"
proof (cases r)
  case None
  then show ?thesis using assms by (simp add: deq_bags_def)
next
  case (Some x)
  then obtain b bs where L: "L = b # bs" "x \<in># b" "L' = (if b - {#x#} = {#} then bs else (b - {#x#}) # bs)"
    using assms by (cases L) (auto simp: deq_bags_def)
  then obtain c where "b = add_mset x c" by (metis multi_member_split)
  then show ?thesis using L Some by auto
qed

lemma enq_bags_sum: "enq_bags x L L' \<Longrightarrow> sum_list L' = add_mset x (sum_list L)"
proof -
  assume e: "enq_bags x L L'"
  have "sum_list L = sum_list (butlast L) + last L" if "L \<noteq> []"
    using arg_cong [OF append_butlast_last_id [OF that], of sum_list] by simp
  then show ?thesis using e by (auto simp: enq_bags_def)
qed

text \<open>The k-FIFO as a pool: the fuel of an operation is the number of slots and two rounds more.\<close>

definition kf_push :: "(nat \<Rightarrow> u64) \<Rightarrow> nat \<Rightarrow> u64 \<Rightarrow> kfifo \<Rightarrow> (bool \<times> kfifo) option" where
  "kf_push drawn h x q = (case enqueue (Suc (Suc (unat (queue_size q)))) drawn x q of
     Some (Inr (b, q')) \<Rightarrow> Some (b, q') | _ \<Rightarrow> None)"

definition kf_pop :: "(nat \<Rightarrow> u64) \<Rightarrow> nat \<Rightarrow> kfifo \<Rightarrow> (u64 option \<times> kfifo) option" where
  "kf_pop drawn h q = dequeue (Suc (Suc (unat (queue_size q)))) drawn q"

definition kf_inv :: "kfifo \<Rightarrow> bool" where
  "kf_inv q \<longleftrightarrow> (\<exists>S h d. kf_at S h d q)"

lemma kf_push_returns:
  assumes "kf_inv q" "representable x \<and> x \<noteq> 0"
  shows "\<exists>b q'. kf_push drawn h x q = Some (b, q') \<and> kf_inv q' \<and> kf_content q' = (if b then add_mset x (kf_content q) else kf_content q)"
proof -
  obtain S i d where at: "kf_at S i d q" using assms(1) by (auto simp: kf_inv_def)
  obtain b q' i' d' where e: "enqueue (Suc (Suc (unat (queue_size q)))) drawn x q = Some (Inr (b, q'))" "kf_at S i' d' q'"
    "if b then enq_bags x (live S i d q) (live S i' d' q') else q' = q"
    using enqueue_refines [OF at, of x "unat (queue_size q)" drawn] assms(2) by (metis (full_types))
  have "kf_inv q'" using e(2) unfolding kf_inv_def by blast
  then show ?thesis using e content_live [OF at] content_live [OF e(2)] enq_bags_sum
    by (intro exI [of _ b] exI [of _ q']) (auto simp: kf_push_def)
qed

lemma kf_pop_returns:
  assumes "kf_inv q"
  shows "\<exists>r q'. kf_pop drawn h q = Some (r, q') \<and> kf_inv q' \<and>
    (case r of None \<Rightarrow> kf_content q = {#} \<and> kf_content q' = {#} | Some x \<Rightarrow> kf_content q = add_mset x (kf_content q'))"
proof -
  obtain S i d where at: "kf_at S i d q" using assms(1) by (auto simp: kf_inv_def)
  note f = kf_at_facts [OF at]
  have "S \<le> unat (queue_size q)" using f(1,6) by (simp add: kf_shape_def)
  then have "d < Suc (Suc (unat (queue_size q)))" using f(3) by simp
  from dequeue_refines [OF at this] obtain r q' i' d' where
    e: "dequeue (Suc (Suc (unat (queue_size q)))) drawn q = Some (r, q')" "kf_at S i' d' q'" "deq_bags (live S i d q) r (live S i' d' q')" by blast
  have "kf_inv q'" using e(2) unfolding kf_inv_def by blast
  then show ?thesis using e(1) deq_bags_sum [OF e(3), folded content_live [OF at] content_live [OF e(2)]]
    by (intro exI [of _ r] exI [of _ q']) (simp add: kf_pop_def)
qed

interpretation kfifo: pool "kf_push drawn" "kf_pop drawn" kf_content "\<lambda>x. representable x \<and> x \<noteq> 0" "\<lambda>_. kf_inv" for drawn
  by unfold_locales (rule kf_push_returns kf_pop_returns; assumption)+

end
