(* ===== verification/Kfifo_Props.thy ===== *)
theory Kfifo_Props
  imports Kfifo_Laws
begin

text \<open>The properties of the k-FIFO queue and of the tagged values it stores.\<close>

section \<open>Tagged values\<close>

lemma unat_low_bits: "unat (w :: u64) < 2 ^ 47 \<longleftrightarrow> (\<forall>n \<in> {47..<64}. \<not> bit w n)"
proof -
  have "unat w < 2 ^ 47 \<longleftrightarrow> take_bit 47 (unat w) = unat w" by (simp only: take_bit_nat_eq_self_iff)
  also have "\<dots> \<longleftrightarrow> take_bit 47 w = w" by (simp only: word_eq_unat unsigned_take_bit_eq)
  also have "\<dots> \<longleftrightarrow> (\<forall>n < 64. bit (take_bit 47 w) n \<longleftrightarrow> bit w n)" by (simp add: word_bits_eq)
  also have "\<dots> \<longleftrightarrow> (\<forall>n \<in> {47..<64}. \<not> bit w n)" by (force simp: bit_simps not_less)
  finally show ?thesis .
qed

lemma unat_high_bits: "2 ^ 64 - 2 ^ 47 \<le> unat (w :: u64) \<longleftrightarrow> (\<forall>n \<in> {47..<64}. bit w n)"
proof -
  have m: "unat (- 1 :: u64) = 2 ^ 64 - 1" by (simp add: unsigned_minus_1_eq_mask mask_eq_exp_minus_1)
  have w: "unat w < 2 ^ 64" using unat_lt [of w] by simp
  have "NOT w = - 1 - w" by (simp add: not_eq_complement)
  then have "unat (NOT w) = 2 ^ 64 - 1 - unat w" using unat_sub_le [of w "- 1"] m w by simp
  then have "2 ^ 64 - 2 ^ 47 \<le> unat w \<longleftrightarrow> unat (NOT w) < 2 ^ 47" using w by auto
  also have "\<dots> \<longleftrightarrow> (\<forall>n \<in> {47..<64}. bit w n)" unfolding unat_low_bits by (auto simp: bit_simps)
  finally show ?thesis .
qed

lemma representable_range: "representable v \<longleftrightarrow> unat v < 2 ^ 47 \<or> 2 ^ 64 - 2 ^ 47 \<le> unat v"
proof -
  have "{47..<64} = insert (47 :: nat) {48..<64}" by auto
  then show ?thesis unfolding unat_low_bits unat_high_bits representable_def by auto
qed

text \<open>
  C30: a tagged value gives back its tag always, and its value exactly when that is below 2^47 or
  among the topmost 2^47 words; otherwise the value read differs from the value stored.
\<close>
theorem tagged_value_roundtrip:
  "tv_tag (tagged v tg) = tg \<and> (tv_value (tagged v tg) = v \<longleftrightarrow> unat v < 2 ^ 47 \<or> 2 ^ 64 - 2 ^ 47 \<le> unat v)"
  by (simp only: tagged_tag tagged_value_iff representable_range simp_thms)

section \<open>The queue\<close>

text \<open>
  C31: a dequeue returns within one round for every segment in use; it takes an element of the
  first non-empty segment, and nothing else changes; it returns nothing only from an empty queue.
\<close>
theorem kfifo_dequeue_takes_from_first_segment:
  assumes "kf_at S h d q" "d < fuel"
  shows "\<exists>r q' h' d'. dequeue fuel drawn q = Some (r, q') \<and> kf_at S h' d' q' \<and> (case r of
      None \<Rightarrow> live S h d q = [] \<and> live S h' d' q' = []
    | Some x \<Rightarrow> live S h d q \<noteq> [] \<and> x \<in># hd (live S h d q) \<and>
        live S h' d' q' = (let rest = hd (live S h d q) - {#x#} in if rest = {#} then tl (live S h d q) else rest # tl (live S h d q)))"
proof -
  obtain r q' h' d' where "dequeue fuel drawn q = Some (r, q')" "kf_at S h' d' q'" "deq_bags (live S h d q) r (live S h' d' q')"
    using dequeue_refines [OF assms] by blast
  then show ?thesis unfolding deq_bags_def Let_def by blast
qed

definition small_kfifo :: kfifo where
  "small_kfifo = kfifo_new 2 4"

lemma small_kfifo_at: "kf_at 4 0 0 small_kfifo" "live 4 0 0 small_kfifo = []"
  using kfifo_new_at [of 2 4] by (simp_all add: small_kfifo_def)

theorem kfifo_dequeue_takes_from_first_segment_witness:
  "\<exists>q q' h' d'. enqueue 2 (\<lambda>_. 1) 7 small_kfifo = Some (Inr (True, q)) \<and> dequeue 4 (\<lambda>_. 0) q = Some (Some 7, q')
     \<and> kf_at 4 h' d' q' \<and> live 4 h' d' q' = []"
proof -
  have "representable 7" by (simp add: representable_range)
  moreover have "map_option (map_sum id fst) (enqueue (Suc (Suc 0)) (\<lambda>_. 1) 7 small_kfifo) = Some (Inr True)" by code_simp
  ultimately obtain q h d where q: "enqueue (Suc (Suc 0)) (\<lambda>_. 1) 7 small_kfifo = Some (Inr (True, q))" "kf_at 4 h d q"
    "enq_bags 7 (live 4 0 0 small_kfifo) (live 4 h d q)"
    using enqueue_refines [OF small_kfifo_at(1), of 7 0 "\<lambda>_. 1"] by auto
  have one: "live 4 h d q = [{#7#}]" using q(3) small_kfifo_at(2) by (simp add: enq_bags_def)
  have "d < 4" using q(2) by (simp add: kf_at_def)
  from kfifo_dequeue_takes_from_first_segment [OF q(2) this, of "\<lambda>_. 0"]
  show ?thesis using q(1) one by (fastforce simp: numeral_2_eq_2 split: option.splits)
qed

text \<open>
  C32: an enqueue of a representable item returns within two rounds; the item joins the last
  segment or opens a new one, or it is refused because all segments are in use, the tail segment is
  full and the head segment is not empty.
\<close>
theorem kfifo_enqueue_joins_last_segment:
  assumes "kf_at S h d q" "unat x < 2 ^ 47 \<or> 2 ^ 64 - 2 ^ 47 \<le> unat x" "x \<noteq> 0"
  shows "\<exists>b q' h' d'. enqueue (Suc (Suc fuel)) drawn x q = Some (Inr (b, q')) \<and> kf_at S h' d' q' \<and>
    (if b then live S h' d' q' = live S h d q @ [{#x#}] \<or>
        (live S h d q \<noteq> [] \<and> live S h' d' q' = butlast (live S h d q) @ [add_mset x (last (live S h d q))])
     else q' = q \<and> Suc d = S \<and> segment q h \<noteq> {#} \<and> size (segment q ((h + d) mod S)) = unat (kf_k q))"
proof -
  have "representable x" using assms(2) by (simp only: representable_range)
  then obtain b q' h' d' where e: "enqueue (Suc (Suc fuel)) drawn x q = Some (Inr (b, q'))" "kf_at S h' d' q'"
    "if b then enq_bags x (live S h d q) (live S h' d' q')
     else q' = q \<and> live S h' d' q' = live S h d q \<and> Suc d = S \<and> segment q h \<noteq> {#} \<and> size (segment q ((h + d) mod S)) = unat (kf_k q)"
    using enqueue_refines [OF assms(1) _ assms(3)] by blast
  then show ?thesis unfolding enq_bags_def by (intro exI [of _ b] exI [of _ q'] exI [of _ h'] exI [of _ d']) (cases b; simp)
qed

theorem kfifo_enqueue_joins_last_segment_witness:
  "\<exists>q' h' d'. enqueue 2 (\<lambda>_. 1) 7 small_kfifo = Some (Inr (True, q')) \<and> kf_at 4 h' d' q' \<and> live 4 h' d' q' = [{#7#}]"
proof -
  have "map_option (map_sum id fst) (enqueue 2 (\<lambda>_. 1) 7 small_kfifo) = Some (Inr True)" by code_simp
  moreover obtain b q' h' d' where "enqueue (Suc (Suc 0)) (\<lambda>_. 1) 7 small_kfifo = Some (Inr (b, q'))" "kf_at 4 h' d' q'"
    "if b then live 4 h' d' q' = live 4 0 0 small_kfifo @ [{#7#}] \<or>
        (live 4 0 0 small_kfifo \<noteq> [] \<and> live 4 h' d' q' = butlast (live 4 0 0 small_kfifo) @ [add_mset 7 (last (live 4 0 0 small_kfifo))])
     else q' = small_kfifo \<and> Suc 0 = 4 \<and> segment small_kfifo 0 \<noteq> {#} \<and> size (segment small_kfifo ((0 + 0) mod 4)) = unat (kf_k small_kfifo)"
    using kfifo_enqueue_joins_last_segment [OF small_kfifo_at(1), of 7 0 "\<lambda>_. 1"] by auto
  ultimately show ?thesis using small_kfifo_at(2) by (auto simp: numeral_2_eq_2)
qed

text \<open>
  C33: what is not checked: the zero item aborts, but any item whose lower 48 bits are zero is
  accepted while there is room and is lost, since it is stored as an empty slot.
\<close>
theorem kfifo_loses_wide_items:
  assumes "kf_at S h d q" "x AND mask 48 = 0" "size (segment q ((h + d) mod S)) \<noteq> unat (kf_k q)"
  shows "enqueue fuel drawn 0 q = Some (Inl Null_item) \<and>
    (x \<noteq> 0 \<longrightarrow> (\<exists>q'. enqueue (Suc fuel) drawn x q = Some (Inr (True, q')) \<and> kf_at S h d q' \<and> live S h d q' = live S h d q))"
  using enqueue_wide [OF assms, of fuel drawn] by (auto simp: enqueue_def simp del: enqueue_loop.simps)

theorem kfifo_loses_wide_items_witness:
  "\<exists>q'. enqueue (Suc 0) (\<lambda>_. 0) (2 ^ 48) small_kfifo = Some (Inr (True, q')) \<and> live 4 0 0 q' = []"
proof -
  have "(2 ^ 48 :: u64) AND mask 48 = 0" "(2 ^ 48 :: u64) \<noteq> 0" by code_simp+
  moreover have "segment small_kfifo 0 = {#}" "unat (kf_k small_kfifo) = 2" by code_simp+
  ultimately show ?thesis using kfifo_loses_wide_items [OF small_kfifo_at(1), of "2 ^ 48" 0 "\<lambda>_. 0"] small_kfifo_at(2) by auto
qed

end
