(* ===== verification/Hazard_Pointers.thy ===== *)
theory Hazard_Pointers
  imports Prelude
begin

text \<open>
  \<^verbatim>\<open>contenders/common/HazardPointers.hpp\<close>: safe memory reclamation. A thread publishes the
  pointers it is about to follow in its row of the array \<^verbatim>\<open>hp\<close>; an object that has been unlinked is
  retired, and \<^verbatim>\<open>retire\<close> deletes those retired objects of the thread that no slot holds. Pointers
  are naturals with 0 for the null pointer. The arrays have a fixed size (\<^verbatim>\<open>HP_MAX_THREADS\<close> rows of \<^verbatim>\<open>2 * CLPAD\<close>
  slots, \<^verbatim>\<open>HP_MAX_THREADS * CLPAD\<close> retired lists) that does not depend on the arguments of the constructor: their
  contents are functions of the indices, and every access tests its indices, with \<^term>\<open>None\<close> for the undefined access
  outside. The loads of
  \<^verbatim>\<open>protect\<close> and of the scan in \<^verbatim>\<open>retire\<close> race with the stores of other threads: what they
  return is an argument of the model, so the laws hold under any interference.
\<close>

type_synonym addr = nat

section \<open>The operations\<close>

definition HP_MAX_THREADS :: nat where
  "HP_MAX_THREADS = 192"

definition HP_MAX_HPS :: nat where
  "HP_MAX_HPS = 4"

definition CLPAD :: nat where
  "CLPAD = 128 div 8"

definition HP_THRESHOLD_R :: nat where
  "HP_THRESHOLD_R = 0"

record hazard_pointers =
  maxHPs :: nat
  maxThreads :: nat
  hp :: "nat \<Rightarrow> nat \<Rightarrow> addr"
  retiredList :: "nat \<Rightarrow> addr list"

definition hp_new :: "nat \<Rightarrow> nat \<Rightarrow> hazard_pointers" where
  "hp_new mh mt = \<lparr>maxHPs = mh, maxThreads = mt, hp = (\<lambda>ithread ihp. 0), retiredList = (\<lambda>i. [])\<rparr>"

text \<open>The destructor deletes the objects of all retired lists.\<close>

definition hp_destroy :: "hazard_pointers \<Rightarrow> addr list" where
  "hp_destroy h = concat (map (\<lambda>ithread. retiredList h (ithread * CLPAD)) [0..<HP_MAX_THREADS])"

text \<open>The slots that exist, and the store to a slot.\<close>

definition hp_slot :: "nat \<Rightarrow> nat \<Rightarrow> bool" where
  "hp_slot tid ihp \<longleftrightarrow> tid < HP_MAX_THREADS \<and> ihp < CLPAD * 2"

definition hp_put :: "nat \<Rightarrow> nat \<Rightarrow> addr \<Rightarrow> hazard_pointers \<Rightarrow> hazard_pointers" where
  "hp_put tid ihp p h = h\<lparr>hp := (hp h)(tid := (hp h tid)(ihp := p))\<rparr>"

definition hp_store :: "nat \<Rightarrow> nat \<Rightarrow> addr \<Rightarrow> hazard_pointers \<Rightarrow> hazard_pointers option" where
  "hp_store tid ihp p h = (if hp_slot tid ihp then Some (hp_put tid ihp p h) else None)"

fun clear_loop :: "nat \<Rightarrow> nat \<Rightarrow> nat \<Rightarrow> hazard_pointers \<Rightarrow> hazard_pointers option" where
  "clear_loop tid ihp 0 h = Some h"
| "clear_loop tid ihp (Suc n) h = (case hp_store tid ihp 0 h of None \<Rightarrow> None | Some h' \<Rightarrow> clear_loop tid (Suc ihp) n h')"

definition hp_clear :: "nat \<Rightarrow> hazard_pointers \<Rightarrow> hazard_pointers option" where
  "hp_clear tid h = clear_loop tid 0 (maxHPs h) h"

definition clearOne :: "nat \<Rightarrow> nat \<Rightarrow> hazard_pointers \<Rightarrow> hazard_pointers option" where
  "clearOne ihp tid h = hp_store tid ihp 0 h"

definition protectPtr :: "nat \<Rightarrow> addr \<Rightarrow> nat \<Rightarrow> hazard_pointers \<Rightarrow> (addr \<times> hazard_pointers) option" where
  "protectPtr index ptr tid h = map_option (Pair ptr) (hp_store tid index ptr h)"

definition protectRelease :: "nat \<Rightarrow> addr \<Rightarrow> nat \<Rightarrow> hazard_pointers \<Rightarrow> (addr \<times> hazard_pointers) option" where
  "protectRelease index ptr tid h = map_option (Pair ptr) (hp_store tid index ptr h)"

text \<open>\<open>loads\<close> are the values the successive loads of the atomic return; \<^term>\<open>None\<close> also when they were not enough.\<close>

fun protect_loop :: "nat \<Rightarrow> nat \<Rightarrow> addr \<Rightarrow> addr list \<Rightarrow> hazard_pointers \<Rightarrow> (addr \<times> hazard_pointers) option" where
  "protect_loop index tid n [] h = None"
| "protect_loop index tid n (ret # loads) h =
     (if ret \<noteq> n
      then case hp_store tid index ret h of None \<Rightarrow> None | Some h' \<Rightarrow> protect_loop index tid ret loads h'
      else Some (ret, h))"

definition protect :: "nat \<Rightarrow> addr list \<Rightarrow> nat \<Rightarrow> hazard_pointers \<Rightarrow> (addr \<times> hazard_pointers) option" where
  "protect index loads tid h = protect_loop index tid 0 loads h"

text \<open>
  The scan of \<^verbatim>\<open>retire\<close>: \<open>seen n t i\<close> is what the load of slot \<open>i\<close> of thread \<open>t\<close> returns while the
  \<open>n\<close>-th object is examined.
\<close>

fun scan_hps :: "(nat \<Rightarrow> nat \<Rightarrow> addr) \<Rightarrow> addr \<Rightarrow> nat \<Rightarrow> nat \<Rightarrow> bool option" where
  "scan_hps loads obj tid 0 = Some True"
| "scan_hps loads obj tid (Suc ihp) =
     (if \<not> hp_slot tid ihp then None
      else if loads tid ihp = obj then Some False else scan_hps loads obj tid ihp)"

fun scan_threads :: "(nat \<Rightarrow> nat \<Rightarrow> addr) \<Rightarrow> addr \<Rightarrow> nat \<Rightarrow> nat \<Rightarrow> nat \<Rightarrow> bool option" where
  "scan_threads loads obj mh tid 0 = Some True"
| "scan_threads loads obj mh tid (Suc n) =
     (case scan_hps loads obj tid mh of
        None \<Rightarrow> None
      | Some canDelete \<Rightarrow> if canDelete then scan_threads loads obj mh (Suc tid) n else Some False)"

function retire_loop :: "(nat \<Rightarrow> nat \<Rightarrow> nat \<Rightarrow> addr) \<Rightarrow> nat \<Rightarrow> nat \<Rightarrow> nat \<Rightarrow> nat \<Rightarrow> addr list \<Rightarrow> (addr list \<times> addr list) option" where
  "retire_loop seen mh mt n iret xs =
     (if iret < length xs
      then let obj = xs ! iret
           in case scan_threads (seen n) obj mh 0 mt of
                None \<Rightarrow> None
              | Some canDelete \<Rightarrow>
                  if canDelete
                  then map_option (\<lambda>(deleted, ys). (obj # deleted, ys))
                         (retire_loop seen mh mt (Suc n) iret (take iret xs @ drop (Suc iret) xs))
                  else retire_loop seen mh mt (Suc n) (Suc iret) xs
      else Some ([], xs))"
  by pat_completeness auto
termination
  by (relation "measure (\<lambda>(seen, mh, mt, n, iret, xs). length xs - iret)") auto

declare retire_loop.simps [simp del]

text \<open>\<^verbatim>\<open>retire\<close> returns the objects it deletes, in order.\<close>

definition retire :: "(nat \<Rightarrow> nat \<Rightarrow> nat \<Rightarrow> addr) \<Rightarrow> addr \<Rightarrow> nat \<Rightarrow> hazard_pointers \<Rightarrow> (addr list \<times> hazard_pointers) option" where
  "retire seen ptr tid h =
     (if tid * CLPAD < HP_MAX_THREADS * CLPAD
      then let xs = retiredList h (tid * CLPAD) @ [ptr]
           in if length xs < HP_THRESHOLD_R then Some ([], h\<lparr>retiredList := (retiredList h)(tid * CLPAD := xs)\<rparr>)
              else map_option (\<lambda>(deleted, ys). (deleted, h\<lparr>retiredList := (retiredList h)(tid * CLPAD := ys)\<rparr>))
                     (retire_loop seen (maxHPs h) (maxThreads h) 0 0 xs)
      else None)"

section \<open>Laws\<close>

text \<open>The arguments of the constructor fit the arrays, which the constructor does not check.\<close>

definition hp_fits :: "hazard_pointers \<Rightarrow> bool" where
  "hp_fits h \<longleftrightarrow> maxThreads h \<le> HP_MAX_THREADS \<and> maxHPs h \<le> 2 * CLPAD"

text \<open>Some slot of the scanned part holds the object.\<close>

definition held :: "(nat \<Rightarrow> nat \<Rightarrow> addr) \<Rightarrow> nat \<Rightarrow> nat \<Rightarrow> addr \<Rightarrow> bool" where
  "held loads mh mt obj \<longleftrightarrow> (\<exists>t < mt. \<exists>i < mh. loads t i = obj)"

lemma scan_hps_result: "scan_hps loads obj tid mh = Some b \<Longrightarrow> b \<longleftrightarrow> (\<forall>i < mh. loads tid i \<noteq> obj)"
  by (induction mh) (auto simp: less_Suc_eq split: if_splits)

lemma scan_hps_defined: "tid < HP_MAX_THREADS \<Longrightarrow> mh \<le> 2 * CLPAD \<Longrightarrow> scan_hps loads obj tid mh \<noteq> None"
  by (induction mh) (auto simp: hp_slot_def)

lemma scan_from_result:
  "scan_threads loads obj mh tid n = Some b \<Longrightarrow> b \<longleftrightarrow> (\<forall>t. tid \<le> t \<and> t < tid + n \<longrightarrow> (\<forall>i < mh. loads t i \<noteq> obj))"
proof (induction n arbitrary: tid)
  case (Suc n)
  have "(\<forall>t. tid \<le> t \<and> t < tid + Suc n \<longrightarrow> P t) \<longleftrightarrow> P tid \<and> (\<forall>t. Suc tid \<le> t \<and> t < Suc tid + n \<longrightarrow> P t)" for P
    by (auto simp: Suc_le_eq nat_less_le)
  note cut = this [of "\<lambda>t. \<forall>i < mh. loads t i \<noteq> obj"]
  obtain c where c: "scan_hps loads obj tid mh = Some c" using Suc.prems by (cases "scan_hps loads obj tid mh") auto
  show ?case
  proof (cases c)
    case True
    then have "scan_threads loads obj mh (Suc tid) n = Some b" using Suc.prems c by simp
    from Suc.IH [OF this] show ?thesis using scan_hps_result [OF c] True unfolding cut by simp
  next
    case False
    then have "\<not> b" using Suc.prems c by simp
    moreover have "\<not> (\<forall>i < mh. loads tid i \<noteq> obj)" using scan_hps_result [OF c] False by blast
    ultimately show ?thesis unfolding cut by blast
  qed
qed simp

lemma scan_result: "scan_threads loads obj mh 0 mt = Some b \<Longrightarrow> b \<longleftrightarrow> \<not> held loads mh mt obj"
  using scan_from_result [of loads obj mh 0 mt b] by (auto simp: held_def)

lemma scan_defined:
  "tid + n \<le> HP_MAX_THREADS \<Longrightarrow> mh \<le> 2 * CLPAD \<Longrightarrow> scan_threads loads obj mh tid n \<noteq> None"
proof (induction n arbitrary: tid)
  case (Suc n)
  then show ?case using scan_hps_defined [of tid mh loads obj] by (auto split: option.splits)
qed simp

text \<open>A scan that finds nothing in the rows of the array goes on to read behind them.\<close>

lemma scan_overruns:
  assumes "\<not> held loads mh HP_MAX_THREADS obj" and "0 < mh" and "mh \<le> 2 * CLPAD" and "HP_MAX_THREADS < mt"
  shows "scan_threads loads obj mh 0 mt = None"
proof -
  have "scan_threads loads obj mh tid n = None" if "tid \<le> HP_MAX_THREADS" "HP_MAX_THREADS < tid + n" for tid n
    using that
  proof (induction n arbitrary: tid)
    case (Suc n)
    show ?case
    proof (cases "tid = HP_MAX_THREADS")
      case True
      then have "scan_hps loads obj tid mh = None" using assms(2) by (cases mh) (simp_all add: hp_slot_def)
      then show ?thesis by simp
    next
      case False
      then have "tid < HP_MAX_THREADS" using Suc.prems by simp
      then obtain b where b: "scan_hps loads obj tid mh = Some b" using scan_hps_defined assms(3) by blast
      then have b: "scan_hps loads obj tid mh = Some True"
        using scan_hps_result [OF b] assms(1) \<open>tid < HP_MAX_THREADS\<close> by (auto simp: held_def)
      then show ?thesis using Suc False by simp
    qed
  qed simp
  then show ?thesis using assms(4) by simp
qed

text \<open>The loop examines each object once: it keeps the held ones, in order, and deletes the others.\<close>

fun sort_out :: "(nat \<Rightarrow> addr \<Rightarrow> bool) \<Rightarrow> nat \<Rightarrow> addr list \<Rightarrow> addr list \<times> addr list" where
  "sort_out keep n [] = ([], [])"
| "sort_out keep n (x # xs) =
     (let (ds, ks) = sort_out keep (Suc n) xs in if keep n x then (ds, x # ks) else (x # ds, ks))"

lemma retire_loop_sorts:
  "retire_loop seen mh mt n iret xs = Some r \<Longrightarrow> iret \<le> length xs \<Longrightarrow>
     r = (let (ds, ks) = sort_out (\<lambda>n. held (seen n) mh mt) n (drop iret xs) in (ds, take iret xs @ ks))"
proof (induction seen mh mt n iret xs arbitrary: r rule: retire_loop.induct)
  case (1 seen mh mt n iret xs)
  note step = "1.prems"(1) [unfolded retire_loop.simps [of seen mh mt n iret xs]]
  show ?case
  proof (cases "iret < length xs")
    case True
    note drop = Cons_nth_drop_Suc [OF True, symmetric]
    have tk: "take iret (take iret xs @ drop (Suc iret) xs) = take iret xs"
      "drop iret (take iret xs @ drop (Suc iret) xs) = drop (Suc iret) xs" using True by simp_all
    obtain b where b: "scan_threads (seen n) (xs ! iret) mh 0 mt = Some b"
      using step True by (cases "scan_threads (seen n) (xs ! iret) mh 0 mt") (simp_all add: Let_def)
    show ?thesis
    proof (cases b)
      case False
      then have "retire_loop seen mh mt (Suc n) (Suc iret) xs = Some r" using step b True by (simp add: Let_def)
      moreover have "held (seen n) mh mt (xs ! iret)" using scan_result [OF b] False by simp
      ultimately show ?thesis
        using "1.IH"(2) [OF True refl b False] True by (simp add: drop take_Suc_conv_app_nth split: prod.splits)
    next
      case free: True
      then obtain r' where r': "retire_loop seen mh mt (Suc n) iret (take iret xs @ drop (Suc iret) xs) = Some r'"
        and r: "r = (xs ! iret # fst r', snd r')" using step b True by (auto simp: Let_def split: prod.splits)
      moreover have "\<not> held (seen n) mh mt (xs ! iret)" using scan_result [OF b] free by simp
      ultimately show ?thesis
        using "1.IH"(1) [OF True refl b free r'] True by (simp add: drop tk split: prod.splits)
    qed
  next
    case False
    then show ?thesis using step "1.prems"(2) by simp
  qed
qed

lemma retire_loop_defined:
  "mt \<le> HP_MAX_THREADS \<Longrightarrow> mh \<le> 2 * CLPAD \<Longrightarrow> retire_loop seen mh mt n iret xs \<noteq> None"
proof (induction seen mh mt n iret xs rule: retire_loop.induct)
  case (1 seen mh mt n iret xs)
  obtain b where b: "scan_threads (seen n) (xs ! iret) mh 0 mt = Some b"
    using scan_defined [of 0 mt mh "seen n" "xs ! iret"] "1.prems" by auto
  then show ?case
    using "1.IH"(1) [OF _ refl b] "1.IH"(2) [OF _ refl b] "1.prems"
    by (subst retire_loop.simps) (auto simp: Let_def)
qed

lemma retire_defined: "hp_fits h \<Longrightarrow> tid < HP_MAX_THREADS \<Longrightarrow> retire seen ptr tid h \<noteq> None"
  using retire_loop_defined [of "maxThreads h" "maxHPs h" seen 0 0 "retiredList h (tid * CLPAD) @ [ptr]"]
  by (simp add: retire_def hp_fits_def HP_THRESHOLD_R_def CLPAD_def Let_def)

lemma retire_overruns:
  assumes "\<not> held (seen 0) (maxHPs h) HP_MAX_THREADS ((retiredList h (tid * CLPAD) @ [ptr]) ! 0)"
    and "0 < maxHPs h" and "maxHPs h \<le> 2 * CLPAD" and "HP_MAX_THREADS < maxThreads h"
  shows "retire seen ptr tid h = None"
  using scan_overruns [OF assms] by (simp add: retire_def HP_THRESHOLD_R_def Let_def retire_loop.simps)

lemma sort_out_mset: "sort_out keep n xs = (ds, ks) \<Longrightarrow> mset xs = mset ds + mset ks"
  by (induction keep n xs arbitrary: ds ks rule: sort_out.induct) (auto split: prod.splits if_splits)

lemma sort_out_verdicts:
  assumes "sort_out keep n xs = (ds, ks)"
  shows "x \<in> set ks \<Longrightarrow> \<exists>k < length xs. xs ! k = x \<and> keep (n + k) x"
    and "x \<in> set ds \<Longrightarrow> \<exists>k < length xs. xs ! k = x \<and> \<not> keep (n + k) x"
  using assms
proof (induction keep n xs arbitrary: ds ks rule: sort_out.induct)
  case (2 keep n y xs)
  obtain ds' ks' where rec: "sort_out keep (Suc n) xs = (ds', ks')" by fastforce
  have later: "\<exists>k < length xs. xs ! k = x \<and> P (Suc n + k) \<Longrightarrow> \<exists>k < length (y # xs). (y # xs) ! k = x \<and> P (n + k)" for P
    by (metis Suc_less_eq add_Suc_shift length_Cons nth_Cons_Suc)
  have now: "x = y \<Longrightarrow> P n \<Longrightarrow> \<exists>k < length (y # xs). (y # xs) ! k = x \<and> P (n + k)" for P
    by (metis add_0_right length_greater_0_conv list.distinct(1) nth_Cons_0)
  { case 1
    then show ?case
      using rec "2.IH"(1) [OF _ rec] later [of "\<lambda>m. keep m x"] now [of "\<lambda>m. keep m x"] by (auto split: if_splits) }
  { case 2
    then show ?case
      using rec "2.IH"(2) [OF _ rec] later [of "\<lambda>m. \<not> keep m x"] now [of "\<lambda>m. \<not> keep m x"] by (auto split: if_splits) }
qed simp_all


lemma retire_result:
  assumes ret: "retire seen ptr tid h = Some (ds, h')"
  obtains ks where "h' = h\<lparr>retiredList := (retiredList h)(tid * CLPAD := ks)\<rparr>"
    and "mset (retiredList h (tid * CLPAD)) + {#ptr#} = mset ds + mset ks"
    and "sort_out (\<lambda>n. held (seen n) (maxHPs h) (maxThreads h)) 0 (retiredList h (tid * CLPAD) @ [ptr]) = (ds, ks)"
proof -
  let ?xs = "retiredList h (tid * CLPAD) @ [ptr]"
  obtain ks where run: "retire_loop seen (maxHPs h) (maxThreads h) 0 0 ?xs = Some (ds, ks)"
    and h': "h' = h\<lparr>retiredList := (retiredList h)(tid * CLPAD := ks)\<rparr>"
    using ret by (auto simp: retire_def HP_THRESHOLD_R_def Let_def split: if_splits)
  have s: "sort_out (\<lambda>n. held (seen n) (maxHPs h) (maxThreads h)) 0 ?xs = (ds, ks)"
    using retire_loop_sorts [OF run] by (simp split: prod.splits)
  show thesis using that [OF h' _ s] sort_out_mset [OF s] by simp
qed

lemma held_bound: "finite {x. held loads mh mt x} \<and> card {x. held loads mh mt x} \<le> mt * mh"
proof -
  have "{x. held loads mh mt x} = case_prod loads ` ({..<mt} \<times> {..<mh})" by (auto simp: held_def)
  then show ?thesis using card_image_le [of "{..<mt} \<times> {..<mh}" "case_prod loads"] by simp
qed

text \<open>A store changes one slot and nothing else.\<close>

lemma hp_put_fields [simp]:
  "retiredList (hp_put tid i p h) = retiredList h" "maxHPs (hp_put tid i p h) = maxHPs h"
  "maxThreads (hp_put tid i p h) = maxThreads h" "hp_fits (hp_put tid i p h) = hp_fits h"
  by (simp_all add: hp_put_def hp_fits_def)

lemma hp_store_ok: "tid < HP_MAX_THREADS \<Longrightarrow> i < 2 * CLPAD \<Longrightarrow> hp_store tid i p h = Some (hp_put tid i p h)"
  by (simp add: hp_store_def hp_slot_def)

lemma hp_retired_fields [simp]: "hp_fits (h\<lparr>retiredList := rs\<rparr>) = hp_fits h"
  by (simp add: hp_fits_def)

text \<open>\<^verbatim>\<open>clear\<close> sets the slots of the thread to null.\<close>

definition hp_wipe :: "nat \<Rightarrow> hazard_pointers \<Rightarrow> hazard_pointers" where
  "hp_wipe tid h = h\<lparr>hp := \<lambda>t i. if t = tid \<and> i < maxHPs h then 0 else hp h t i\<rparr>"

lemma hp_wipe_fields [simp]:
  "retiredList (hp_wipe tid h) = retiredList h" "maxHPs (hp_wipe tid h) = maxHPs h"
  "maxThreads (hp_wipe tid h) = maxThreads h" "hp_fits (hp_wipe tid h) = hp_fits h"
  by (simp_all add: hp_wipe_def hp_fits_def)

lemma hp_clear_ok:
  assumes "tid < HP_MAX_THREADS" and "hp_fits h"
  shows "hp_clear tid h = Some (hp_wipe tid h)"
proof -
  have "clear_loop tid k n g = Some (g\<lparr>hp := \<lambda>t i. if t = tid \<and> k \<le> i \<and> i < k + n then 0 else hp g t i\<rparr>)" if "k + n \<le> 2 * CLPAD" for k n g
    using that
  proof (induction n arbitrary: k g)
    case (Suc n)
    then show ?case using assms(1)
      by (auto simp: hp_store_ok hp_put_def fun_eq_iff intro!: arg_cong [where f = "\<lambda>s. g\<lparr>hp := s\<rparr>"])
  next
    case 0
    have "(\<lambda>t i. if t = tid \<and> k \<le> i \<and> i < k + 0 then 0 else hp g t i) = hp g" by (auto simp: fun_eq_iff)
    then show ?case by simp
  qed
  then show ?thesis using assms(2) by (simp add: hp_clear_def hp_wipe_def hp_fits_def)
qed

text \<open>With no store in between, \<^verbatim>\<open>protect\<close> returns what the atomic holds.\<close>

lemma protect_quiet:
  "tid < HP_MAX_THREADS \<Longrightarrow> i < 2 * CLPAD \<Longrightarrow> protect i [a, a] tid h = Some (a, if a = 0 then h else hp_put tid i a h)"
  by (simp add: protect_def hp_store_ok)

lemma protectPtr_ok:
  "tid < HP_MAX_THREADS \<Longrightarrow> i < 2 * CLPAD \<Longrightarrow> protectPtr i a tid h = Some (a, hp_put tid i a h)"
  by (simp add: protectPtr_def hp_store_ok)

lemma clearOne_ok: "tid < HP_MAX_THREADS \<Longrightarrow> i < 2 * CLPAD \<Longrightarrow> clearOne i tid h = Some (hp_put tid i 0 h)"
  by (simp add: clearOne_def hp_store_ok)

lemmas hp_ops_ok = hp_store_ok hp_clear_ok protect_quiet protectPtr_ok clearOne_ok

lemma protect_validated:
  "protect i loads tid h = Some (a, h') \<Longrightarrow> a \<in> set loads \<and> (a \<noteq> 0 \<longrightarrow> hp h' tid i = a)"
proof -
  have "protect_loop i tid n loads h = Some (a, h') \<Longrightarrow> n \<noteq> 0 \<longrightarrow> hp h tid i = n \<Longrightarrow> a \<in> set loads \<and> (a \<noteq> 0 \<longrightarrow> hp h' tid i = a)" for n
    by (induction i tid n loads h rule: protect_loop.induct) (auto simp: hp_store_def hp_put_def split: if_splits)
  then show "protect i loads tid h = Some (a, h') \<Longrightarrow> a \<in> set loads \<and> (a \<noteq> 0 \<longrightarrow> hp h' tid i = a)"
    unfolding protect_def by blast
qed

end
