(* ===== verification/Linked_Heap.thy ===== *)
theory Linked_Heap
  imports Hazard_Pointers
begin

text \<open>
  What the linked queues (\<^verbatim>\<open>MichaelScottQueue.hpp\<close>, \<^verbatim>\<open>FAAArrayQueue.hpp\<close>, \<^verbatim>\<open>LinkedRingQueue.hpp\<close>) share: a
  heap of nodes, from which a node is read only while it is allocated, the list of linked nodes in it,
  the memory invariant that ties the heap to the retired lists of the hazard pointers, and the contract
  \<open>linked_fifo\<close>. The address that \<^verbatim>\<open>new\<close> returns is an argument of an operation; all that is assumed of it is
  that it is not null and not in use.
\<close>

type_synonym 'n heap = "addr \<Rightarrow> 'n option"

definition fresh_addr :: "addr \<Rightarrow> 'n heap \<Rightarrow> bool" where
  "fresh_addr a hm \<longleftrightarrow> a \<noteq> 0 \<and> hm a = None"

text \<open>\<^verbatim>\<open>delete\<close> of several objects; \<^term>\<open>None\<close> is the undefined deletion of an object that is not allocated.\<close>

fun free_all :: "addr list \<Rightarrow> 'n heap \<Rightarrow> 'n heap option" where
  "free_all [] hm = Some hm"
| "free_all (a # as) hm = (case hm a of None \<Rightarrow> None | Some _ \<Rightarrow> free_all as (hm(a := None)))"

text \<open>The nodes from the first one to the one whose successor is null.\<close>

fun links :: "('n \<Rightarrow> addr) \<Rightarrow> 'n heap \<Rightarrow> addr list \<Rightarrow> bool" where
  "links nxt hm [] = False"
| "links nxt hm [a] = (map_option nxt (hm a) = Some 0)"
| "links nxt hm (a # b # as) = (map_option nxt (hm a) = Some b \<and> links nxt hm (b # as))"

text \<open>\<^verbatim>\<open>compare_exchange_strong\<close> on a pointer.\<close>

definition cas :: "addr \<Rightarrow> addr \<Rightarrow> addr \<Rightarrow> bool \<times> addr" where
  "cas expected desired cur = (if cur = expected then (True, desired) else (False, cur))"

section \<open>Freeing\<close>

lemma free_all_ok:
  assumes "distinct ds" and "set ds \<subseteq> dom hm"
  shows "free_all ds hm = Some (hm |` (- set ds))"
  using assms
proof (induction ds arbitrary: hm)
  case (Cons a ds)
  have "hm(a := None) |` (- set ds) = hm |` (- set (a # ds))" by (auto simp: restrict_map_def)
  moreover have "set ds \<subseteq> dom (hm(a := None))" using Cons.prems by auto
  ultimately show ?case using Cons by auto
qed (simp add: restrict_map_def)

section \<open>Linked nodes\<close>

lemma links_cong:
  assumes "\<And>a. a \<in> set as \<Longrightarrow> map_option nxt (hm' a) = map_option nxt (hm a)"
  shows "links nxt hm' as = links nxt hm as"
  using assms by (induction nxt hm as rule: links.induct) simp_all

lemma links_nonempty: "links nxt hm as \<Longrightarrow> as \<noteq> []"
  by (cases as) auto

lemma links_last: "links nxt hm as \<Longrightarrow> \<exists>n. hm (last as) = Some n \<and> nxt n = 0"
  by (induction nxt hm as rule: links.induct) auto

lemma links_dom: "links nxt hm as \<Longrightarrow> set as \<subseteq> dom hm"
  by (induction nxt hm as rule: links.induct) auto

lemma links_append:
  assumes "links nxt hm as" and "distinct as" and "hm (last as) = Some n" and "b \<notin> set as"
    and "nxt n' = b" and "nxt m = 0"
  shows "links nxt (hm(b \<mapsto> m, last as \<mapsto> n')) (as @ [b])"
proof -
  let ?h = "hm(b \<mapsto> m, last as \<mapsto> n')"
  have "links nxt ?h (cs @ [b])" if "links nxt hm cs" "distinct cs" "last cs = last as" "b \<notin> set cs" for cs
    using that
  proof (induction cs rule: induct_list012)
    case (3 a c cs)
    then have "a \<noteq> last as" "a \<noteq> b" using last_in_set [of "c # cs"] by auto
    then show ?case using 3 by simp
  qed (use assms in auto)
  then show ?thesis using assms by simp
qed

text \<open>The same with the list of the nodes: their addresses and their contents side by side.\<close>

definition seg :: "('n \<Rightarrow> addr) \<Rightarrow> 'n heap \<Rightarrow> addr list \<Rightarrow> 'n list \<Rightarrow> bool" where
  "seg nxt hm as ns \<longleftrightarrow> as \<noteq> [] \<and> map hm as = map Some ns \<and> map nxt ns = tl as @ [0]"

lemma seg_length: "seg nxt hm as ns \<Longrightarrow> length ns = length as \<and> ns \<noteq> []"
  by (auto simp: seg_def dest: map_eq_imp_length_eq)

lemma seg_cong: "seg nxt hm as ns \<Longrightarrow> \<forall>a \<in> set as. hm' a = hm a \<Longrightarrow> seg nxt hm' as ns"
  by (simp add: seg_def cong: map_cong)

lemma seg_first: "seg nxt hm (a # as) (n # ns) \<Longrightarrow> hm a = Some n \<and> nxt n = (case as of [] \<Rightarrow> 0 | b # bs \<Rightarrow> b)"
  by (cases as) (auto simp: seg_def)

lemma seg_final: "seg nxt hm (as @ [a]) (ns @ [n]) \<Longrightarrow> hm a = Some n \<and> nxt n = 0"
  by (cases as) (auto simp: seg_def)

lemma seg_rest: "seg nxt hm (a # b # as) (n # ns) \<Longrightarrow> seg nxt hm (b # as) ns"
  by (auto simp: seg_def)

lemma seg_update_first:
  "seg nxt hm (a # as) (n # ns) \<Longrightarrow> a \<notin> set as \<Longrightarrow> nxt n' = nxt n \<Longrightarrow> seg nxt (hm(a \<mapsto> n')) (a # as) (n' # ns)"
  by (auto simp: seg_def)

lemma seg_update_final:
  "seg nxt hm (as @ [a]) (ns @ [n]) \<Longrightarrow> a \<notin> set as \<Longrightarrow> nxt n' = nxt n \<Longrightarrow> seg nxt (hm(a \<mapsto> n')) (as @ [a]) (ns @ [n'])"
  by (auto simp: seg_def)

lemma seg_link_append:
  assumes "seg nxt hm (as @ [a]) (ns @ [n])" and "a \<notin> set as" and "b \<notin> set (as @ [a])" and "nxt n' = b" and "nxt m = 0"
  shows "seg nxt (hm(b \<mapsto> m, a \<mapsto> n')) ((as @ [a]) @ [b]) ((ns @ [n']) @ [m])"
  using assms by (cases as) (auto simp: seg_def)

lemma seg_split_final:
  assumes "seg nxt hm as ns"
  obtains bs a ms n where "as = bs @ [a]" and "ns = ms @ [n]" and "last as = a"
  using assms seg_length [OF assms] by (metis append_butlast_last_id last_snoc seg_def)

section \<open>The memory invariant\<close>

definition retired_of :: "hazard_pointers \<Rightarrow> nat \<Rightarrow> addr list" where
  "retired_of h t = retiredList h (t * CLPAD)"

text \<open>
  Every allocated node is linked or on exactly one retired list, and nothing else is; the scans of the hazard
  pointers stay inside their arrays.
\<close>

definition mem_ok :: "'n heap \<Rightarrow> hazard_pointers \<Rightarrow> addr list \<Rightarrow> bool" where
  "mem_ok hm h as \<longleftrightarrow> distinct as \<and> 0 \<notin> dom hm \<and> finite (dom hm) \<and> dom hm = set as \<union> (\<Union>t. set (retired_of h t))
     \<and> (\<forall>t. distinct (retired_of h t) \<and> set (retired_of h t) \<inter> set as = {})
     \<and> (\<forall>t u. t \<noteq> u \<longrightarrow> set (retired_of h t) \<inter> set (retired_of h u) = {})
     \<and> (\<forall>t \<ge> HP_MAX_THREADS. retired_of h t = []) \<and> hp_fits h"

lemma mem_ok_facts:
  assumes "mem_ok hm h as"
  shows "finite (dom hm)" and "0 \<notin> dom hm" and "distinct as" and "set as \<subseteq> dom hm" and "hp_fits h"
  using assms unfolding mem_ok_def by blast+

lemma mem_ok_retired:
  "mem_ok hm h as \<Longrightarrow> retiredList h' = retiredList h \<Longrightarrow> hp_fits h' = hp_fits h \<Longrightarrow> dom hm' = dom hm \<Longrightarrow> mem_ok hm' h' as"
  unfolding mem_ok_def retired_of_def by metis

lemma mem_ok_new:
  assumes "mem_ok hm h as" and "fresh_addr a hm" and "dom hm' = insert a (dom hm)"
  shows "mem_ok hm' h (as @ [a])"
proof -
  have "a \<notin> dom hm" using assms by (auto simp: fresh_addr_def)
  then have "a \<notin> set as" "\<And>t. a \<notin> set (retired_of h t)" using assms(1) by (auto simp: mem_ok_def)
  then show ?thesis using assms unfolding mem_ok_def fresh_addr_def by auto
qed

text \<open>One allocator: the first address above all that are in use.\<close>

definition next_addr :: "'n heap \<Rightarrow> addr" where
  "next_addr hm = Suc (Max (insert 0 (dom hm)))"

lemma mem_ok_next_addr: "mem_ok hm h as \<Longrightarrow> fresh_addr (next_addr hm) hm"
proof -
  assume "mem_ok hm h as"
  then have fin: "finite (insert 0 (dom hm))" using mem_ok_facts(1) by blast
  have "next_addr hm \<notin> dom hm" using Max_ge [OF fin, of "next_addr hm"] by (auto simp: next_addr_def)
  then show ?thesis by (auto simp: fresh_addr_def next_addr_def)
qed

lemma retired_of_update: "retired_of (h\<lparr>retiredList := (retiredList h)(tid * CLPAD := ks)\<rparr>) = (retired_of h)(tid := ks)"
  by (auto simp: retired_of_def CLPAD_def)

text \<open>Retiring the first node: what is deleted was allocated, and no linked node is touched.\<close>

lemma mem_ok_retire:
  assumes ok: "mem_ok hm h (a # as)" and tid: "tid < HP_MAX_THREADS"
  obtains ds h' hm' where "retire seen a tid h = Some (ds, h')" and "free_all ds hm = Some hm'"
    and "mem_ok hm' h' as" and "\<forall>b \<in> set as. hm' b = hm b"
proof -
  obtain ds h' where ret: "retire seen a tid h = Some (ds, h')" using retire_defined [OF mem_ok_facts(5) [OF ok] tid] by fast
  obtain ks where h': "h' = h\<lparr>retiredList := (retiredList h)(tid * CLPAD := ks)\<rparr>"
    and ms: "mset (retired_of h tid) + {#a#} = mset ds + mset ks"
    using retire_result [OF ret] by (metis retired_of_def)
  have old: "distinct (retired_of h tid @ [a])" using ok by (auto simp: mem_ok_def)
  have "mset (ds @ ks) = mset (retired_of h tid @ [a])" using ms by simp
  then have dist: "distinct (ds @ ks)" and sets: "set ds \<union> set ks = insert a (set (retired_of h tid))"
    using old mset_eq_imp_distinct_iff by (blast, metis mset_eq_setD set_append set_simps(1,2) sup_bot_right Un_insert_right)
  have away: "(set ds \<union> set ks) \<inter> set as = {}" unfolding sets using ok by (auto simp: mem_ok_def)
  have sub: "set ds \<subseteq> dom hm" using ok sets by (auto simp: mem_ok_def)
  let ?hm = "hm |` (- set ds)"
  have "free_all ds hm = Some ?hm" using free_all_ok [OF _ sub] dist by simp
  moreover have "mem_ok ?hm h' as"
  proof -
    have R: "retired_of h' = (retired_of h)(tid := ks)" using h' by (simp add: retired_of_update)
    have others: "(set ds \<union> set ks) \<inter> set (retired_of h u) = {}" if "u \<noteq> tid" for u
    proof -
      have "a \<notin> set (retired_of h u)" using ok by (auto simp: mem_ok_def)
      moreover have "set (retired_of h tid) \<inter> set (retired_of h u) = {}" using ok that by (simp add: mem_ok_def)
      ultimately show ?thesis unfolding sets by auto
    qed
    have U: "(\<Union>t. set (retired_of h t)) = set (retired_of h tid) \<union> (\<Union>t \<in> - {tid}. set (retired_of h t))" by auto
    have U': "(\<Union>t. set (retired_of h' t)) = set ks \<union> (\<Union>t \<in> - {tid}. set (retired_of h t))" by (auto simp: R split: if_splits)
    have "dom ?hm = set as \<union> (\<Union>t. set (retired_of h' t))"
    proof -
      let ?O = "\<Union>t \<in> - {tid}. set (retired_of h t)"
      have "dom hm = set as \<union> (set ds \<union> set ks) \<union> ?O" using ok unfolding mem_ok_def U sets by auto
      moreover have "set ds \<inter> ?O = {}" using others by auto
      moreover have "set ds \<inter> set ks = {}" using dist by simp
      ultimately show ?thesis unfolding U' using away by auto
    qed
    moreover have "set (retired_of h' t) \<inter> set as = {} \<and> distinct (retired_of h' t)" for t
      using ok dist away by (auto simp: mem_ok_def R)
    moreover have "set (retired_of h' t) \<inter> set (retired_of h' u) = {}" if "t \<noteq> u" for t u
      using ok others [of t] others [of u] that by (auto simp: mem_ok_def R)
    moreover have "\<forall>t \<ge> HP_MAX_THREADS. retired_of h' t = []" using ok tid by (auto simp: mem_ok_def R)
    moreover have "0 \<notin> dom ?hm" "finite (dom ?hm)" "distinct as" "hp_fits h'" using ok h' by (auto simp: mem_ok_def)
    ultimately show ?thesis unfolding mem_ok_def by blast
  qed
  moreover have "\<forall>b \<in> set as. ?hm b = hm b" using away by (auto simp: restrict_map_def)
  ultimately show thesis by (rule that [OF ret])
qed

text \<open>The destructors: the last node and all retired ones are deleted, and nothing is left.\<close>

lemma mem_ok_destroy:
  assumes ok: "mem_ok hm h [a]"
  shows "free_all (a # hp_destroy h) hm = Some Map.empty"
proof -
  let ?rs = "map (retired_of h) [0..<HP_MAX_THREADS]"
  have D: "hp_destroy h = concat ?rs" by (simp add: hp_destroy_def retired_of_def [abs_def])
  have "(\<Union>t. set (retired_of h t)) = (\<Union>t \<in> {..<HP_MAX_THREADS}. set (retired_of h t))"
  proof -
    have "set (retired_of h t) = {}" if "\<not> t < HP_MAX_THREADS" for t using ok that by (simp add: mem_ok_def)
    then show ?thesis by fastforce
  qed
  then have dom: "dom hm = set (a # hp_destroy h)" using ok by (auto simp: mem_ok_def D)
  have "distinct (concat (map (retired_of h) ts))" if "distinct ts" for ts
    using that
  proof (induction ts)
    case (Cons t ts)
    have "set (retired_of h t) \<inter> set (retired_of h u) = {}" if "u \<in> set ts" for u
      using ok Cons.prems that unfolding mem_ok_def by (metis distinct.simps(2))
    then show ?case using Cons ok by (auto simp: mem_ok_def)
  qed simp
  then have "distinct (a # hp_destroy h)" using ok by (auto simp: D mem_ok_def)
  then have "free_all (a # hp_destroy h) hm = Some (hm |` (- set (a # hp_destroy h)))"
    by (rule free_all_ok) (simp only: dom order_refl)
  also have "hm |` (- set (a # hp_destroy h)) = Map.empty" unfolding dom [symmetric] by (auto simp: restrict_map_def)
  finally show ?thesis .
qed

section \<open>The contract of a linked queue\<close>

text \<open>
  An operation names the thread that calls it. The abstract queue is a list; \<open>spec_run\<close> gives the
  results of a run on it.
\<close>

datatype 'a lq_op = Enq nat 'a | Deq nat

fun spec_run :: "'a lq_op list \<Rightarrow> 'a list \<Rightarrow> 'a option list \<times> 'a list" where
  "spec_run [] xs = ([], xs)"
| "spec_run (Enq t x # ops) xs = spec_run ops (xs @ [x])"
| "spec_run (Deq t # ops) [] = (let (rs, ys) = spec_run ops [] in (None # rs, ys))"
| "spec_run (Deq t # ops) (x # xs) = (let (rs, ys) = spec_run ops xs in (Some x # rs, ys))"

text \<open>
  \<open>rep n q xs\<close>: the queue \<open>q\<close> is well formed, holds \<open>xs\<close> and has room for \<open>n\<close> more operations before a
  counter overflows.
\<close>

locale linked_fifo =
  fixes push :: "addr \<Rightarrow> nat \<Rightarrow> 'a \<Rightarrow> 'q \<Rightarrow> 'q option"
    and pop :: "nat \<Rightarrow> 'q \<Rightarrow> ('a option \<times> 'q) option"
    and rep :: "nat \<Rightarrow> 'q \<Rightarrow> 'a list \<Rightarrow> bool"
    and fresh :: "addr \<Rightarrow> 'q \<Rightarrow> bool"
    and accepts :: "'a \<Rightarrow> bool"
    and thread :: "nat \<Rightarrow> bool"
  assumes push_appends: "rep (Suc n) q xs \<Longrightarrow> fresh a q \<Longrightarrow> accepts x \<Longrightarrow> thread t \<Longrightarrow> \<exists>q'. push a t x q = Some q' \<and> rep n q' (xs @ [x])"
    and pop_none: "rep (Suc n) q [] \<Longrightarrow> thread t \<Longrightarrow> \<exists>q'. pop t q = Some (None, q') \<and> rep n q' []"
    and pop_some: "rep (Suc n) q (x # xs) \<Longrightarrow> thread t \<Longrightarrow> \<exists>q'. pop t q = Some (Some x, q') \<and> rep n q' xs"
    and room: "rep n q xs \<Longrightarrow> \<exists>a. fresh a q"
begin

fun lrun :: "('q \<Rightarrow> addr) \<Rightarrow> 'a lq_op list \<Rightarrow> 'q \<Rightarrow> ('a option list \<times> 'q) option" where
  "lrun new [] q = Some ([], q)"
| "lrun new (Enq t x # ops) q = (case push (new q) t x q of None \<Rightarrow> None | Some q' \<Rightarrow> lrun new ops q')"
| "lrun new (Deq t # ops) q = (case pop t q of None \<Rightarrow> None
     | Some (r, q') \<Rightarrow> map_option (\<lambda>(rs, q''). (r # rs, q'')) (lrun new ops q'))"

fun acceptable :: "'a lq_op list \<Rightarrow> bool" where
  "acceptable [] = True"
| "acceptable (Enq t x # ops) = (accepts x \<and> thread t \<and> acceptable ops)"
| "acceptable (Deq t # ops) = (thread t \<and> acceptable ops)"

text \<open>An allocator returns fresh addresses on every well-formed queue.\<close>

definition allocates :: "('q \<Rightarrow> addr) \<Rightarrow> bool" where
  "allocates new \<longleftrightarrow> (\<forall>n q xs. rep n q xs \<longrightarrow> fresh (new q) q)"

lemma allocator_exists: "\<exists>new. allocates new"
proof
  show "allocates (\<lambda>q. SOME a. fresh a q)" unfolding allocates_def using someI_ex [OF room] by simp
qed

text \<open>Every run returns, and with the results of the list.\<close>

lemma lrun_refines:
  assumes "rep (length ops + m) q xs" and "acceptable ops" and "allocates new"
  shows "\<exists>q'. lrun new ops q = Some (fst (spec_run ops xs), q') \<and> rep m q' (snd (spec_run ops xs))"
  using assms
proof (induction ops xs arbitrary: q rule: spec_run.induct)
  case (2 t x ops xs)
  then obtain q1 where "push (new q) t x q = Some q1" "rep (length ops + m) q1 (xs @ [x])"
    using push_appends [of "length ops + m" q xs "new q" x t] unfolding allocates_def by auto blast
  then show ?case using "2.IH" [of q1] "2.prems" by auto
next
  case (3 t ops)
  then obtain q1 where "pop t q = Some (None, q1)" "rep (length ops + m) q1 []"
    using pop_none [of "length ops + m" q t] by auto
  then show ?case using "3.IH" [of q1] "3.prems" by (auto split: prod.splits)
next
  case (4 t ops x xs)
  then obtain q1 where "pop t q = Some (Some x, q1)" "rep (length ops + m) q1 xs"
    using pop_some [of "length ops + m" q x xs t] by auto
  then show ?case using "4.IH" [of q1] "4.prems" by (auto split: prod.splits)
qed simp

end

end
