(* ===== verification/Michael_Scott.thy ===== *)
theory Michael_Scott
  imports Linked_Heap
begin

text \<open>
  \<^verbatim>\<open>contenders/LCRQ/MichaelScottQueue.hpp\<close>: the linked list queue of Michael and Scott with hazard
  pointers. Operations are whole: no other operation runs between two of their accesses, while every test
  against interference is kept. \<open>fuel\<close> bounds the rounds of the retry loops; \<^term>\<open>None\<close> is a loop that has
  not returned, an access to a node that is not allocated or an access outside the arrays of the hazard pointers.
\<close>

record ms_node =
  ms_item :: u64
  seqId :: u64
  ms_next :: addr

record ms_queue =
  ms_heap :: "ms_node heap"
  ms_head :: addr
  ms_tail :: addr
  ms_hp :: hazard_pointers

datatype lq_error = Null_item_argument

definition ms_kHpTail :: nat where "ms_kHpTail = 0"

definition ms_kHpHead :: nat where "ms_kHpHead = 1"

definition ms_kHpNext :: nat where "ms_kHpNext = 2"

definition ms_node_new :: "u64 \<Rightarrow> ms_node" where
  "ms_node_new userItem = \<lparr>ms_item = userItem, seqId = 0, ms_next = 0\<rparr>"

definition ms_new :: "addr \<Rightarrow> nat \<Rightarrow> ms_queue" where
  "ms_new a threads = \<lparr>ms_heap = [a \<mapsto> ms_node_new 0], ms_head = a, ms_tail = a, ms_hp = hp_new 3 threads\<rparr>"

definition ms_casNext :: "addr \<Rightarrow> addr \<Rightarrow> addr \<Rightarrow> ms_queue \<Rightarrow> (bool \<times> ms_queue) option" where
  "ms_casNext a cmp val q = (case ms_heap q a of None \<Rightarrow> None
     | Some n \<Rightarrow> let (b, v) = cas cmp val (ms_next n) in Some (b, q\<lparr>ms_heap := (ms_heap q)(a \<mapsto> n\<lparr>ms_next := v\<rparr>)\<rparr>))"

definition ms_casTail :: "addr \<Rightarrow> addr \<Rightarrow> ms_queue \<Rightarrow> bool \<times> ms_queue" where
  "ms_casTail cmp val q = (let (b, v) = cas cmp val (ms_tail q) in (b, q\<lparr>ms_tail := v\<rparr>))"

definition ms_casHead :: "addr \<Rightarrow> addr \<Rightarrow> ms_queue \<Rightarrow> bool \<times> ms_queue" where
  "ms_casHead cmp val q = (let (b, v) = cas cmp val (ms_head q) in (b, q\<lparr>ms_head := v\<rparr>))"

definition ms_clear :: "nat \<Rightarrow> ms_queue \<Rightarrow> ms_queue option" where
  "ms_clear tid q = map_option (\<lambda>h. q\<lparr>ms_hp := h\<rparr>) (hp_clear tid (ms_hp q))"

fun ms_enqueue_loop :: "nat \<Rightarrow> addr \<Rightarrow> nat \<Rightarrow> ms_queue \<Rightarrow> ms_queue option" where
  "ms_enqueue_loop 0 newNode tid q = None"
| "ms_enqueue_loop (Suc fuel) newNode tid q =
     (case protectPtr ms_kHpTail (ms_tail q) tid (ms_hp q) of
        None \<Rightarrow> None
      | Some (ltail, h1) \<Rightarrow>
        let q1 = q\<lparr>ms_hp := h1\<rparr>
        in if ltail \<noteq> ms_tail q1 then ms_enqueue_loop fuel newNode tid q1
           else case (ms_heap q1 ltail, ms_heap q1 newNode) of
             (Some lt, Some nn) \<Rightarrow>
               let lnext = ms_next lt
               in if lnext = 0
                  then let q2 = q1\<lparr>ms_heap := (ms_heap q1)(newNode \<mapsto> nn\<lparr>seqId := seqId lt + 1\<rparr>)\<rparr>
                       in case ms_casNext ltail 0 newNode q2 of
                            None \<Rightarrow> None
                          | Some (b, q3) \<Rightarrow>
                              if b then ms_clear tid (snd (ms_casTail ltail newNode q3))
                              else ms_enqueue_loop fuel newNode tid q3
                  else ms_enqueue_loop fuel newNode tid (snd (ms_casTail ltail lnext q1))
           | _ \<Rightarrow> None)"

definition ms_enqueue :: "nat \<Rightarrow> addr \<Rightarrow> u64 \<Rightarrow> nat \<Rightarrow> ms_queue \<Rightarrow> (lq_error + ms_queue) option" where
  "ms_enqueue fuel newNode item tid q =
     (if item = 0 then Some (Inl Null_item_argument)
      else map_option Inr (ms_enqueue_loop fuel newNode tid (q\<lparr>ms_heap := (ms_heap q)(newNode \<mapsto> ms_node_new item)\<rparr>)))"

text \<open>Deleting what \<^verbatim>\<open>retire\<close> found to be free.\<close>

definition ms_retire :: "addr \<Rightarrow> nat \<Rightarrow> ms_queue \<Rightarrow> ms_queue option" where
  "ms_retire node tid q =
     (case retire (\<lambda>_. hp (ms_hp q)) node tid (ms_hp q) of
        None \<Rightarrow> None
      | Some (ds, h) \<Rightarrow> map_option (\<lambda>hm. q\<lparr>ms_heap := hm, ms_hp := h\<rparr>) (free_all ds (ms_heap q)))"

fun ms_dequeue_loop :: "nat \<Rightarrow> nat \<Rightarrow> ms_queue \<Rightarrow> (u64 \<times> ms_queue) option" where
  "ms_dequeue_loop 0 tid q = None"
| "ms_dequeue_loop (Suc fuel) tid q =
     (case protect ms_kHpHead [ms_head q, ms_head q] tid (ms_hp q) of
        None \<Rightarrow> None
      | Some (node, h1) \<Rightarrow> (case ms_heap q node of
          None \<Rightarrow> None
        | Some nd \<Rightarrow> (case protect ms_kHpNext [ms_next nd, ms_next nd] tid h1 of
            None \<Rightarrow> None
          | Some (lnext, h2) \<Rightarrow>
              let q1 = q\<lparr>ms_hp := h2\<rparr>
              in if lnext = 0 then map_option (Pair 0) (ms_clear tid q1)
                 else let ltail = ms_tail q1;
                          q2 = (if node = ltail then snd (ms_casTail ltail lnext q1) else q1);
                          (b, q3) = ms_casHead node lnext q2
                      in if b then (case ms_heap q3 lnext of
                             None \<Rightarrow> None
                           | Some nn \<Rightarrow> (case ms_clear tid q3 of
                               None \<Rightarrow> None
                             | Some q4 \<Rightarrow> map_option (Pair (ms_item nn)) (ms_retire node tid q4)))
                         else ms_dequeue_loop fuel tid q3)))"

definition ms_dequeue :: "nat \<Rightarrow> nat \<Rightarrow> ms_queue \<Rightarrow> (u64 \<times> ms_queue) option" where
  "ms_dequeue fuel tid q = ms_dequeue_loop fuel tid q"

definition ms_estimateSize :: "nat \<Rightarrow> ms_queue \<Rightarrow> (u64 \<times> ms_queue) option" where
  "ms_estimateSize tid q =
     (case protect ms_kHpHead [ms_head q, ms_head q] tid (ms_hp q) of
        None \<Rightarrow> None
      | Some (lhead, h1) \<Rightarrow> (case protect ms_kHpTail [ms_tail q, ms_tail q] tid h1 of
          None \<Rightarrow> None
        | Some (ltail, h2) \<Rightarrow> (case (ms_heap q ltail, ms_heap q lhead) of
            (Some t, Some h) \<Rightarrow> map_option (Pair (seqId t - seqId h)) (ms_clear tid (q\<lparr>ms_hp := h2\<rparr>))
          | _ \<Rightarrow> None)))"

text \<open>The destructor drains the queue, deletes the last node, and then the hazard pointers delete theirs.\<close>

fun ms_drain :: "nat \<Rightarrow> ms_queue \<Rightarrow> ms_queue option" where
  "ms_drain 0 q = None"
| "ms_drain (Suc fuel) q = (case ms_dequeue 1 0 q of
     None \<Rightarrow> None | Some (item, q1) \<Rightarrow> if item \<noteq> 0 then ms_drain fuel q1 else Some q1)"

definition ms_destroy :: "nat \<Rightarrow> ms_queue \<Rightarrow> ms_node heap option" where
  "ms_destroy fuel q = (case ms_drain fuel q of
     None \<Rightarrow> None | Some q1 \<Rightarrow> free_all (ms_head q1 # hp_destroy (ms_hp q1)) (ms_heap q1))"

text \<open>The handle of \<^verbatim>\<open>wrapper.h\<close>: \<^verbatim>\<open>push\<close> forwards and returns true, \<^verbatim>\<open>pop\<close> turns the null pointer into no value.\<close>

definition ms_push :: "addr \<Rightarrow> nat \<Rightarrow> u64 \<Rightarrow> ms_queue \<Rightarrow> ms_queue option" where
  "ms_push newNode tid t q = (case ms_enqueue 1 newNode t tid q of Some (Inr q') \<Rightarrow> Some q' | _ \<Rightarrow> None)"

definition ms_pop :: "nat \<Rightarrow> ms_queue \<Rightarrow> (u64 option \<times> ms_queue) option" where
  "ms_pop tid q = map_option (\<lambda>(ret, q'). (if ret = 0 then None else Some ret, q')) (ms_dequeue 1 tid q)"

section \<open>The list a queue represents\<close>

definition item_at :: "ms_node heap \<Rightarrow> addr \<Rightarrow> u64" where
  "item_at hm a = (case hm a of None \<Rightarrow> 0 | Some n \<Rightarrow> ms_item n)"

definition seq_at :: "ms_node heap \<Rightarrow> addr \<Rightarrow> u64" where
  "seq_at hm a = (case hm a of None \<Rightarrow> 0 | Some n \<Rightarrow> seqId n)"

definition ms_shape :: "ms_queue \<Rightarrow> addr list \<Rightarrow> u64 list \<Rightarrow> bool" where
  "ms_shape q as xs \<longleftrightarrow> links ms_next (ms_heap q) as \<and> ms_head q = hd as \<and> ms_tail q = last as
     \<and> xs = map (item_at (ms_heap q)) (tl as) \<and> 0 \<notin> set xs
     \<and> (\<forall>i < length as. seq_at (ms_heap q) (as ! i) = seq_at (ms_heap q) (hd as) + of_nat i)
     \<and> mem_ok (ms_heap q) (ms_hp q) as"

definition ms_rep :: "ms_queue \<Rightarrow> u64 list \<Rightarrow> bool" where
  "ms_rep q xs \<longleftrightarrow> (\<exists>as. ms_shape q as xs)"

lemma ms_shape_facts:
  assumes "ms_shape q as xs"
  shows "links ms_next (ms_heap q) as" and "ms_head q = hd as" and "ms_tail q = last as"
    and "xs = map (item_at (ms_heap q)) (tl as)" and "0 \<notin> set xs"
    and "i < length as \<Longrightarrow> seq_at (ms_heap q) (as ! i) = seq_at (ms_heap q) (hd as) + of_nat i"
    and "mem_ok (ms_heap q) (ms_hp q) as"
  using assms unfolding ms_shape_def by blast+

lemma ms_shape_ends:
  assumes "ms_shape q as xs"
  obtains h t where "as \<noteq> []" and "ms_heap q (hd as) = Some h" and "ms_heap q (last as) = Some t" and "hd as \<noteq> 0" and "last as \<noteq> 0"
proof -
  have ne: "as \<noteq> []" using ms_shape_facts(1) [OF assms] links_nonempty by blast
  have "hd as \<in> dom (ms_heap q)" "last as \<in> dom (ms_heap q)"
    using mem_ok_facts(4) [OF ms_shape_facts(7) [OF assms]] ne by (meson hd_in_set last_in_set subsetD)+
  then show thesis using that ne mem_ok_facts(2) [OF ms_shape_facts(7) [OF assms]] by (metis domD)
qed

lemma ms_slots: "ms_kHpTail < 2 * CLPAD" "ms_kHpHead < 2 * CLPAD" "ms_kHpNext < 2 * CLPAD"
  by (simp_all add: ms_kHpTail_def ms_kHpHead_def ms_kHpNext_def CLPAD_def)

lemmas ms_hp_ok = hp_ops_ok ms_slots

lemma ms_clear_ok:
  "tid < HP_MAX_THREADS \<Longrightarrow> hp_fits (ms_hp q) \<Longrightarrow> ms_clear tid q = Some (q\<lparr>ms_hp := hp_wipe tid (ms_hp q)\<rparr>)"
  by (simp add: ms_clear_def hp_clear_ok)

lemma ms_rep_new:
  assumes "a \<noteq> 0" and "threads \<le> HP_MAX_THREADS"
  shows "ms_rep (ms_new a threads) []"
proof -
  have "ms_shape (ms_new a threads) [a] []"
    using assms by (auto simp: ms_shape_def ms_new_def ms_node_new_def mem_ok_def retired_of_def hp_new_def hp_fits_def CLPAD_def)
  then show ?thesis unfolding ms_rep_def by blast
qed

lemma ms_enqueue_appends:
  assumes rep: "ms_rep q xs" and new: "fresh_addr a (ms_heap q)" and x: "x \<noteq> 0" and tid: "tid < HP_MAX_THREADS"
  shows "\<exists>q'. ms_enqueue (Suc fuel) a x tid q = Some (Inr q') \<and> ms_rep q' (xs @ [x])"
proof -
  obtain as where sh: "ms_shape q as xs" using rep by (auto simp: ms_rep_def)
  note s = sh [unfolded ms_shape_def]
  have fits: "hp_fits (ms_hp q)" using mem_ok_facts(5) [OF ms_shape_facts(7) [OF sh]] .
  define l where "l = last as"
  have ne: "as \<noteq> []" using s links_nonempty by blast
  obtain n where n: "ms_heap q l = Some n" "ms_next n = 0" using links_last [of ms_next "ms_heap q" as] s l_def by auto
  have dom: "set as \<subseteq> dom (ms_heap q)" using s links_dom by blast
  have al: "a \<notin> set as" using new dom by (auto simp: fresh_addr_def)
  have la: "l \<in> set as" using ne l_def by simp
  then have neq: "l \<noteq> a" using al by auto
  let ?m = "\<lparr>ms_item = x, seqId = seqId n + 1, ms_next = 0\<rparr>"
  let ?hm = "(ms_heap q)(a \<mapsto> ?m, l \<mapsto> n\<lparr>ms_next := a\<rparr>)"
  let ?q = "q\<lparr>ms_heap := ?hm, ms_tail := a, ms_hp := hp_wipe tid (hp_put tid ms_kHpTail l (ms_hp q))\<rparr>"
  have run: "ms_enqueue (Suc fuel) a x tid q = Some (Inr ?q)"
    using x neq n s fits tid by (simp add: ms_enqueue_def ms_hp_ok ms_casNext_def ms_casTail_def cas_def ms_clear_ok
        ms_node_new_def Let_def l_def [symmetric] fun_upd_twist)
  have it: "item_at ?hm b = item_at (ms_heap q) b" "seq_at ?hm b = seq_at (ms_heap q) b" if "b \<in> set as" for b
    using that al n by (auto simp: item_at_def seq_at_def)
  have new_at: "item_at ?hm a = x" "seq_at ?hm a = seqId n + 1" using neq by (auto simp: item_at_def seq_at_def)
  have tl: "tl (as @ [a]) = tl as @ [a]" "hd (as @ [a]) = hd as" using ne by simp_all
  have "links ms_next ?hm (as @ [a])"
    using links_append [of ms_next "ms_heap q" as n a "n\<lparr>ms_next := a\<rparr>" ?m] s n(1) al by (simp add: mem_ok_def l_def)
  moreover have "xs @ [x] = map (item_at ?hm) (tl (as @ [a]))"
    using s it new_at list.set_sel(2) [OF ne] unfolding tl by auto
  moreover have "seq_at ?hm ((as @ [a]) ! i) = seq_at ?hm (hd (as @ [a])) + of_nat i" if "i < length (as @ [a])" for i
  proof (cases "i < length as")
    case True
    then show ?thesis using s it tl ne by (simp add: nth_append)
  next
    case False
    then have i: "i = length as" using that by simp
    have "seq_at (ms_heap q) l = seq_at (ms_heap q) (hd as) + of_nat (length as - 1)"
      using s ne by (simp add: l_def last_conv_nth)
    moreover have "seqId n = seq_at (ms_heap q) l" using n by (simp add: seq_at_def)
    moreover have "length as = Suc (length as - 1)" using ne by (cases as) auto
    ultimately show ?thesis using i new_at it(2) [of "hd as"] ne tl
      by (simp add: nth_append)
  qed
  moreover have "mem_ok ?hm (ms_hp ?q) (as @ [a])"
  proof -
    have "mem_ok ?hm (ms_hp q) (as @ [a])" using n s new by (intro mem_ok_new [of "ms_heap q"]) auto
    then show ?thesis by (rule mem_ok_retired) simp_all
  qed
  moreover have "0 \<notin> set (xs @ [x])" using s x by auto
  moreover have "ms_head q = hd (as @ [a])" using s tl by simp
  ultimately have "ms_shape ?q (as @ [a]) (xs @ [x])" unfolding ms_shape_def by simp
  then show ?thesis using run unfolding ms_rep_def by blast
qed


lemma ms_clear_shape:
  assumes "ms_shape q as xs" and "retiredList h = retiredList (ms_hp q)" and "hp_fits h = hp_fits (ms_hp q)"
  shows "ms_shape (q\<lparr>ms_hp := h\<rparr>) as xs"
  using assms mem_ok_retired [of "ms_heap q" "ms_hp q" as h "ms_heap q"] by (auto simp: ms_shape_def)

lemma ms_dequeue_none:
  assumes rep: "ms_rep q []" and tid: "tid < HP_MAX_THREADS"
  shows "\<exists>q'. ms_dequeue (Suc fuel) tid q = Some (0, q') \<and> ms_rep q' []"
proof -
  obtain as where sh: "ms_shape q as []" using rep by (auto simp: ms_rep_def)
  then obtain a where a: "as = [a]" by (cases as) (auto simp: ms_shape_def)
  then obtain n where n: "ms_heap q a = Some n" "ms_next n = 0" using sh by (auto simp: ms_shape_def)
  let ?q = "q\<lparr>ms_hp := hp_wipe tid (hp_put tid ms_kHpHead a (ms_hp q))\<rparr>"
  have "ms_head q = a" "a \<noteq> 0" using sh a mem_ok_facts [of "ms_heap q" "ms_hp q" as] by (auto simp: ms_shape_def)
  then have "ms_dequeue (Suc fuel) tid q = Some (0, ?q)"
    using n tid mem_ok_facts(5) [OF ms_shape_facts(7) [OF sh]] by (simp add: ms_dequeue_def ms_hp_ok ms_clear_ok)
  moreover have "ms_shape ?q as []" by (rule ms_clear_shape [OF sh]) simp_all
  ultimately show ?thesis unfolding ms_rep_def by blast
qed

lemma ms_dequeue_some:
  assumes rep: "ms_rep q (x # xs)" and tid: "tid < HP_MAX_THREADS"
  shows "\<exists>q'. ms_dequeue (Suc fuel) tid q = Some (x, q') \<and> ms_rep q' xs"
proof -
  obtain as where sh: "ms_shape q as (x # xs)" using rep by (auto simp: ms_rep_def)
  then obtain a b bs where as: "as = a # b # bs" by (cases as; cases "tl as") (auto simp: ms_shape_def)
  note s = ms_shape_facts [OF sh, unfolded as]
  obtain n where n: "ms_heap q a = Some n" "ms_next n = b" using s(1) by auto
  have b: "b \<in> dom (ms_heap q)" "b \<noteq> 0" "a \<noteq> 0" using mem_ok_facts(2,4) [OF s(7)] by auto
  then obtain m where m: "ms_heap q b = Some m" by auto
  let ?h = "hp_put tid ms_kHpNext b (hp_put tid ms_kHpHead a (ms_hp q))"
  let ?q1 = "q\<lparr>ms_head := b, ms_hp := hp_wipe tid ?h\<rparr>"
  have "a \<noteq> last (b # bs)" using mem_ok_facts(3) [OF s(7)] last_in_set [of "b # bs"] by auto
  then have ta: "ms_tail q \<noteq> a" using s(3) by auto
  have run: "ms_dequeue (Suc fuel) tid q = map_option (Pair x) (ms_retire a tid ?q1)"
    using s(2,4) n m b ta tid mem_ok_facts(5) [OF s(7)]
    by (simp add: ms_dequeue_def ms_hp_ok ms_clear_ok ms_casHead_def cas_def Let_def item_at_def)
  have "mem_ok (ms_heap q) (ms_hp ?q1) (a # b # bs)"
    by (rule mem_ok_retired [OF s(7)]) simp_all
  from mem_ok_retire [OF this tid] obtain ds h' hm where ret: "retire (\<lambda>_. hp (ms_hp ?q1)) a tid (ms_hp ?q1) = Some (ds, h')"
    and hm: "free_all ds (ms_heap q) = Some hm" "mem_ok hm h' (b # bs)" "\<forall>c \<in> set (b # bs). hm c = ms_heap q c" by blast
  let ?q = "?q1\<lparr>ms_heap := hm, ms_hp := h'\<rparr>"
  have "ms_retire a tid ?q1 = Some ?q" using ret hm(1) by (simp add: ms_retire_def)
  moreover have "ms_shape ?q (b # bs) xs"
  proof -
    have at: "item_at hm c = item_at (ms_heap q) c" "seq_at hm c = seq_at (ms_heap q) c" if "c \<in> set (b # bs)" for c
      using hm(3) [rule_format, OF that] by (simp_all add: item_at_def seq_at_def)
    have "links ms_next hm (b # bs)" using s(1) links_cong [of "b # bs" ms_next hm "ms_heap q"] hm(3) by (metis links.simps(3))
    moreover have "seq_at hm ((b # bs) ! i) = seq_at hm b + of_nat i" if "i < length (b # bs)" for i
    proof -
      show ?thesis using s(6) [of "Suc i"] s(6) [of 1] that at(2) [of "(b # bs) ! i"] at(2) [of b] nth_mem [OF that] by simp
    qed
    moreover have "xs = map (item_at hm) (tl (b # bs))" using s(4) at(1) by auto
    moreover have "0 \<notin> set xs" using s(5) by simp
    ultimately show ?thesis using s(3) hm(2) unfolding ms_shape_def by simp
  qed
  ultimately show ?thesis using run unfolding ms_rep_def by auto
qed

lemma ms_estimateSize_exact:
  assumes rep: "ms_rep q xs" and tid: "tid < HP_MAX_THREADS"
  shows "\<exists>q'. ms_estimateSize tid q = Some (of_nat (length xs), q') \<and> ms_rep q' xs"
proof -
  obtain as where sh: "ms_shape q as xs" using rep by (auto simp: ms_rep_def)
  note s = ms_shape_facts [OF sh]
  obtain h t where ne: "as \<noteq> []" and ht: "ms_heap q (hd as) = Some h" "ms_heap q (last as) = Some t"
    and nz: "hd as \<noteq> 0" "last as \<noteq> 0" by (rule ms_shape_ends [OF sh])
  have "seq_at (ms_heap q) (last as) = seq_at (ms_heap q) (hd as) + of_nat (length as - 1)"
    using s(6) [of "length as - 1"] ne by (simp add: last_conv_nth)
  moreover have "length as - 1 = length xs" using s(4) by simp
  ultimately have "seqId t - seqId h = of_nat (length xs)" using ht by (simp add: seq_at_def)
  moreover have "ms_shape (q\<lparr>ms_hp := hp_wipe tid (hp_put tid ms_kHpTail (last as) (hp_put tid ms_kHpHead (hd as) (ms_hp q)))\<rparr>) as xs"
    by (rule ms_clear_shape [OF sh]) simp_all
  ultimately show ?thesis using s(2,3) ht nz tid mem_ok_facts(5) [OF s(7)] unfolding ms_rep_def
    by (auto simp: ms_estimateSize_def ms_hp_ok ms_clear_ok)
qed

lemma ms_drain_ok:
  "ms_rep q xs \<Longrightarrow> length xs < fuel \<Longrightarrow> \<exists>q'. ms_drain fuel q = Some q' \<and> ms_rep q' []"
proof (induction xs arbitrary: q fuel)
  case Nil
  obtain q' where "ms_dequeue (Suc 0) 0 q = Some (0, q')" "ms_rep q' []" using ms_dequeue_none [OF Nil(1), of 0] by (auto simp: HP_MAX_THREADS_def)
  then show ?case using Nil by (cases fuel) auto
next
  case (Cons x xs)
  obtain q' where "ms_dequeue (Suc 0) 0 q = Some (x, q')" "ms_rep q' xs"
    using ms_dequeue_some [OF Cons.prems(1), of 0] by (auto simp: HP_MAX_THREADS_def)
  moreover have "x \<noteq> 0" using Cons.prems by (auto simp: ms_rep_def ms_shape_def)
  ultimately show ?case using Cons.IH [of q'] Cons.prems by (cases fuel) auto
qed

lemma ms_destroy_ok:
  assumes "ms_rep q xs" and "length xs < fuel"
  shows "ms_destroy fuel q = Some Map.empty"
proof -
  obtain q' where q': "ms_drain fuel q = Some q'" "ms_rep q' []" using ms_drain_ok [OF assms] by blast
  then obtain as where sh: "ms_shape q' as []" by (auto simp: ms_rep_def)
  then have "as = [ms_head q']" by (cases as) (auto simp: ms_shape_def)
  then have "mem_ok (ms_heap q') (ms_hp q') [ms_head q']" using sh by (simp add: ms_shape_def)
  then show ?thesis using q' mem_ok_destroy by (simp add: ms_destroy_def del: free_all.simps)
qed

interpretation ms: linked_fifo ms_push ms_pop "\<lambda>_. ms_rep" "\<lambda>a q. fresh_addr a (ms_heap q)" "\<lambda>x. x \<noteq> 0" "\<lambda>t. t < HP_MAX_THREADS"
proof unfold_locales
  fix q x xs a t
  show "ms_rep q xs \<Longrightarrow> fresh_addr a (ms_heap q) \<Longrightarrow> x \<noteq> 0 \<Longrightarrow> t < HP_MAX_THREADS \<Longrightarrow> \<exists>q'. ms_push a t x q = Some q' \<and> ms_rep q' (xs @ [x])"
    using ms_enqueue_appends [of q xs a x t 0] by (auto simp: ms_push_def)
  show "t < HP_MAX_THREADS \<Longrightarrow> ms_rep q [] \<Longrightarrow> \<exists>q'. ms_pop t q = Some (None, q') \<and> ms_rep q' []"
    using ms_dequeue_none [of q t 0] by (auto simp: ms_pop_def)
  show "t < HP_MAX_THREADS \<Longrightarrow> ms_rep q (x # xs) \<Longrightarrow> \<exists>q'. ms_pop t q = Some (Some x, q') \<and> ms_rep q' xs"
    using ms_dequeue_some [of q x xs t 0] by (auto simp: ms_pop_def ms_rep_def ms_shape_def)
  show "ms_rep q xs \<Longrightarrow> \<exists>a. fresh_addr a (ms_heap q)"
    by (auto simp: ms_rep_def ms_shape_def dest: mem_ok_next_addr)
qed

end
