(* ===== verification/FAA_Array.thy ===== *)
theory FAA_Array
  imports Linked_Heap
begin

text \<open>
  \<^verbatim>\<open>contenders/FAAArrayQueue/FAAArrayQueue.hpp\<close>: a list of nodes with an array each; an index of the
  array is claimed with fetch-and-add, filled with a compare-exchange and emptied with an exchange that leaves
  the mark \<^verbatim>\<open>taken\<close>. Operations are whole, as in the theory \<open>Michael_Scott\<close>. The indices are integers; they
  stay below \<^verbatim>\<open>BUFFER_SIZE + 2\<close>. The mark is the address of an object that the queue allocates for it, a parameter.
\<close>

definition BUFFER_SIZE :: nat where
  "BUFFER_SIZE = 1024"

record faa_node =
  deqidx :: int
  faa_items :: "u64 list"
  enqidx :: int
  faa_next :: addr

record faa_queue =
  faa_heap :: "faa_node heap"
  faa_head :: addr
  faa_tail :: addr
  taken :: u64
  faa_hp :: hazard_pointers

datatype faa_error = Null_item_enqueued

definition faa_kHpTail :: nat where "faa_kHpTail = 0"

definition faa_kHpHead :: nat where "faa_kHpHead = 0"

definition faa_node_new :: "u64 \<Rightarrow> faa_node" where
  "faa_node_new item = \<lparr>deqidx = 0, faa_items = item # replicate (BUFFER_SIZE - 1) 0, enqidx = 1, faa_next = 0\<rparr>"

definition faa_new :: "addr \<Rightarrow> nat \<Rightarrow> u64 \<Rightarrow> faa_queue" where
  "faa_new a threads mark =
     \<lparr>faa_heap = [a \<mapsto> (faa_node_new 0)\<lparr>enqidx := 0\<rparr>], faa_head = a, faa_tail = a, taken = mark, faa_hp = hp_new 1 threads\<rparr>"

definition faa_put :: "addr \<Rightarrow> faa_node \<Rightarrow> faa_queue \<Rightarrow> faa_queue" where
  "faa_put a n q = q\<lparr>faa_heap := (faa_heap q)(a \<mapsto> n)\<rparr>"

definition faa_casNext :: "addr \<Rightarrow> addr \<Rightarrow> addr \<Rightarrow> faa_queue \<Rightarrow> (bool \<times> faa_queue) option" where
  "faa_casNext a cmp val q = (case faa_heap q a of None \<Rightarrow> None
     | Some n \<Rightarrow> let (b, v) = cas cmp val (faa_next n) in Some (b, faa_put a (n\<lparr>faa_next := v\<rparr>) q))"

definition faa_casTail :: "addr \<Rightarrow> addr \<Rightarrow> faa_queue \<Rightarrow> bool \<times> faa_queue" where
  "faa_casTail cmp val q = (let (b, v) = cas cmp val (faa_tail q) in (b, q\<lparr>faa_tail := v\<rparr>))"

definition faa_casHead :: "addr \<Rightarrow> addr \<Rightarrow> faa_queue \<Rightarrow> bool \<times> faa_queue" where
  "faa_casHead cmp val q = (let (b, v) = cas cmp val (faa_head q) in (b, q\<lparr>faa_head := v\<rparr>))"

definition faa_clear :: "nat \<Rightarrow> faa_queue \<Rightarrow> faa_queue option" where
  "faa_clear tid q = map_option (\<lambda>h. q\<lparr>faa_hp := h\<rparr>) (hp_clear tid (faa_hp q))"

definition faa_delete :: "addr list \<Rightarrow> faa_queue \<Rightarrow> faa_queue option" where
  "faa_delete ds q = map_option (\<lambda>hm. q\<lparr>faa_heap := hm\<rparr>) (free_all ds (faa_heap q))"

definition faa_retire :: "addr \<Rightarrow> nat \<Rightarrow> faa_queue \<Rightarrow> faa_queue option" where
  "faa_retire node tid q =
     (case retire (\<lambda>_. hp (faa_hp q)) node tid (faa_hp q) of
        None \<Rightarrow> None | Some (ds, h) \<Rightarrow> faa_delete ds (q\<lparr>faa_hp := h\<rparr>))"

fun faa_enqueue_loop :: "nat \<Rightarrow> addr \<Rightarrow> u64 \<Rightarrow> nat \<Rightarrow> faa_queue \<Rightarrow> faa_queue option" where
  "faa_enqueue_loop 0 a item tid q = None"
| "faa_enqueue_loop (Suc fuel) a item tid q =
     (case protect faa_kHpTail [faa_tail q, faa_tail q] tid (faa_hp q) of
        None \<Rightarrow> None
      | Some (ltail, h1) \<Rightarrow> (case faa_heap q ltail of
          None \<Rightarrow> None
        | Some n \<Rightarrow>
            let idx = enqidx n; n1 = n\<lparr>enqidx := enqidx n + 1\<rparr>; q1 = faa_put ltail n1 (q\<lparr>faa_hp := h1\<rparr>)
            in if idx > int BUFFER_SIZE - 1
               then if ltail \<noteq> faa_tail q1 then faa_enqueue_loop fuel a item tid q1
                    else let lnext = faa_next n1
                         in if lnext = 0
                            then (case faa_casNext ltail 0 a (faa_put a (faa_node_new item) q1) of
                                None \<Rightarrow> None
                              | Some (b, q3) \<Rightarrow>
                                  if b then faa_clear tid (snd (faa_casTail ltail a q3))
                                  else (case faa_delete [a] q3 of None \<Rightarrow> None | Some q4 \<Rightarrow> faa_enqueue_loop fuel a item tid q4))
                            else faa_enqueue_loop fuel a item tid (snd (faa_casTail ltail lnext q1))
               else if faa_items n1 ! nat idx = 0
                    then faa_clear tid (faa_put ltail (n1\<lparr>faa_items := (faa_items n1)[nat idx := item]\<rparr>) q1)
                    else faa_enqueue_loop fuel a item tid q1))"

definition faa_enqueue :: "nat \<Rightarrow> addr \<Rightarrow> u64 \<Rightarrow> nat \<Rightarrow> faa_queue \<Rightarrow> (faa_error + faa_queue) option" where
  "faa_enqueue fuel a item tid q =
     (if item = 0 then Some (Inl Null_item_enqueued) else map_option Inr (faa_enqueue_loop fuel a item tid q))"

fun faa_dequeue_loop :: "nat \<Rightarrow> nat \<Rightarrow> faa_queue \<Rightarrow> (u64 \<times> faa_queue) option" where
  "faa_dequeue_loop 0 tid q = None"
| "faa_dequeue_loop (Suc fuel) tid q =
     (case protect faa_kHpHead [faa_head q, faa_head q] tid (faa_hp q) of
        None \<Rightarrow> None
      | Some (lhead, h1) \<Rightarrow> (case faa_heap q lhead of
          None \<Rightarrow> None
        | Some n \<Rightarrow>
            let q0 = q\<lparr>faa_hp := h1\<rparr>
            in if deqidx n \<ge> enqidx n \<and> faa_next n = 0 then map_option (Pair 0) (faa_clear tid q0)
               else let idx = deqidx n; n1 = n\<lparr>deqidx := deqidx n + 1\<rparr>; q1 = faa_put lhead n1 q0
                    in if idx > int BUFFER_SIZE - 1
                       then let lnext = faa_next n1
                            in if lnext = 0 then map_option (Pair 0) (faa_clear tid q1)
                               else let (b, q2) = faa_casHead lhead lnext q1
                                    in if b then (case faa_retire lhead tid q2 of None \<Rightarrow> None | Some q3 \<Rightarrow> faa_dequeue_loop fuel tid q3)
                                       else faa_dequeue_loop fuel tid q2
                       else let item = faa_items n1 ! nat idx;
                                q2 = faa_put lhead (n1\<lparr>faa_items := (faa_items n1)[nat idx := taken q1]\<rparr>) q1
                            in if item = 0 then faa_dequeue_loop fuel tid q2 else map_option (Pair item) (faa_clear tid q2)))"

definition faa_dequeue :: "nat \<Rightarrow> nat \<Rightarrow> faa_queue \<Rightarrow> (u64 \<times> faa_queue) option" where
  "faa_dequeue fuel tid q = faa_dequeue_loop fuel tid q"

fun faa_drain :: "nat \<Rightarrow> faa_queue \<Rightarrow> faa_queue option" where
  "faa_drain 0 q = None"
| "faa_drain (Suc fuel) q = (case faa_dequeue 2 0 q of
     None \<Rightarrow> None | Some (item, q1) \<Rightarrow> if item \<noteq> 0 then faa_drain fuel q1 else Some q1)"

text \<open>The destructor; the object behind \<^verbatim>\<open>taken\<close> is not one of the nodes.\<close>

definition faa_destroy :: "nat \<Rightarrow> faa_queue \<Rightarrow> faa_node heap option" where
  "faa_destroy fuel q = (case faa_drain fuel q of
     None \<Rightarrow> None | Some q1 \<Rightarrow> free_all (faa_head q1 # hp_destroy (faa_hp q1)) (faa_heap q1))"

text \<open>The handle of \<^verbatim>\<open>wrapper.hpp\<close>.\<close>

definition faa_push :: "addr \<Rightarrow> nat \<Rightarrow> u64 \<Rightarrow> faa_queue \<Rightarrow> faa_queue option" where
  "faa_push a tid v q = (case faa_enqueue 1 a v tid q of Some (Inr q') \<Rightarrow> Some q' | _ \<Rightarrow> None)"

definition faa_pop :: "nat \<Rightarrow> faa_queue \<Rightarrow> (u64 option \<times> faa_queue) option" where
  "faa_pop tid q = map_option (\<lambda>(ret, q'). (if ret = 0 then None else Some ret, q')) (faa_dequeue 2 tid q)"

section \<open>The list a queue represents\<close>

text \<open>The items of a node that have been written and not taken.\<close>

definition live :: "faa_node \<Rightarrow> u64 list" where
  "live n = drop (nat (deqidx n)) (take (nat (enqidx n)) (faa_items n))"

definition node_ok :: "faa_node \<Rightarrow> bool" where
  "node_ok n \<longleftrightarrow> length (faa_items n) = BUFFER_SIZE \<and> 0 \<le> deqidx n \<and> deqidx n \<le> enqidx n \<and> deqidx n \<le> int BUFFER_SIZE
     \<and> 0 \<notin> set (live n) \<and> (\<forall>i < BUFFER_SIZE. enqidx n \<le> int i \<longrightarrow> faa_items n ! i = 0)"

definition faa_shape :: "faa_queue \<Rightarrow> addr list \<Rightarrow> faa_node list \<Rightarrow> bool" where
  "faa_shape q as ns \<longleftrightarrow> seg faa_next (faa_heap q) as ns \<and> faa_head q = hd as \<and> faa_tail q = last as
     \<and> (\<forall>n \<in> set ns. node_ok n) \<and> (\<forall>n \<in> set (butlast ns). enqidx n \<ge> int BUFFER_SIZE) \<and> enqidx (last ns) \<le> int BUFFER_SIZE
     \<and> (\<forall>n \<in> set (tl ns). deqidx n = 0 \<and> 1 \<le> enqidx n)
     \<and> mem_ok (faa_heap q) (faa_hp q) as"

definition faa_rep :: "faa_queue \<Rightarrow> u64 list \<Rightarrow> bool" where
  "faa_rep q xs \<longleftrightarrow> (\<exists>as ns. faa_shape q as ns \<and> xs = concat (map live ns))"

lemma faa_shape_facts:
  assumes "faa_shape q as ns"
  shows "seg faa_next (faa_heap q) as ns" and "faa_head q = hd as" and "faa_tail q = last as"
    and "\<forall>n \<in> set ns. node_ok n" and "\<forall>n \<in> set (butlast ns). enqidx n \<ge> int BUFFER_SIZE" and "enqidx (last ns) \<le> int BUFFER_SIZE"
    and "\<forall>n \<in> set (tl ns). deqidx n = 0 \<and> 1 \<le> enqidx n" and "mem_ok (faa_heap q) (faa_hp q) as"
  using assms unfolding faa_shape_def by blast+

lemma node_ok_new: "x \<noteq> 0 \<Longrightarrow> node_ok (faa_node_new x) \<and> live (faa_node_new x) = [x]"
  by (auto simp: node_ok_def live_def faa_node_new_def BUFFER_SIZE_def nth_Cons split: nat.splits)

lemma faa_slots: "faa_kHpTail < 2 * CLPAD" "faa_kHpHead < 2 * CLPAD"
  by (simp_all add: faa_kHpTail_def faa_kHpHead_def CLPAD_def)

lemmas faa_hp_ok = hp_ops_ok faa_slots

lemma faa_clear_ok:
  "tid < HP_MAX_THREADS \<Longrightarrow> hp_fits (faa_hp q) \<Longrightarrow> faa_clear tid q = Some (q\<lparr>faa_hp := hp_wipe tid (faa_hp q)\<rparr>)"
  by (simp add: faa_clear_def hp_clear_ok)

lemma faa_rep_new:
  assumes "a \<noteq> 0" and "threads \<le> HP_MAX_THREADS"
  shows "faa_rep (faa_new a threads mark) []"
proof -
  have "node_ok ((faa_node_new 0)\<lparr>enqidx := 0\<rparr>)"
    by (auto simp: node_ok_def live_def faa_node_new_def BUFFER_SIZE_def nth_Cons split: nat.splits)
  then have "faa_shape (faa_new a threads mark) [a] [(faa_node_new 0)\<lparr>enqidx := 0\<rparr>]"
    using assms by (auto simp: faa_shape_def faa_new_def seg_def faa_node_new_def mem_ok_def retired_of_def hp_new_def hp_fits_def CLPAD_def)
  then show ?thesis unfolding faa_rep_def by (intro exI conjI) (auto simp: live_def)
qed


section \<open>Single nodes\<close>

lemma node_write:
  assumes ok: "node_ok n" and e: "enqidx n < int BUFFER_SIZE" and x: "x \<noteq> 0"
  defines "n' \<equiv> n\<lparr>enqidx := enqidx n + 1, faa_items := (faa_items n)[nat (enqidx n) := x]\<rparr>"
  shows "faa_items n ! nat (enqidx n) = 0" and "live n' = live n @ [x]" and "node_ok n'"
proof -
  obtain E where E: "enqidx n = int E" using ok by (metis node_ok_def zero_le_imp_eq_int order_trans)
  obtain D where D: "deqidx n = int D" using ok by (metis node_ok_def zero_le_imp_eq_int)
  have len: "E < length (faa_items n)" "D \<le> E" using ok e E D by (simp_all add: node_ok_def)
  show "faa_items n ! nat (enqidx n) = 0" using ok e E by (simp add: node_ok_def)
  have "nat (int E + 1) = Suc E" by simp
  then show lv: "live n' = live n @ [x]"
    using len by (simp add: n'_def live_def E D take_Suc_conv_app_nth)
  have "(faa_items n)[E := x] ! i = 0" if "i < BUFFER_SIZE" "int E + 1 \<le> int i" for i
    using ok that E by (simp add: node_ok_def)
  then show "node_ok n'" using ok lv x e E D by (auto simp: node_ok_def n'_def)
qed

lemma node_full:
  assumes ok: "node_ok n" and e: "int BUFFER_SIZE \<le> enqidx n"
  shows "live (n\<lparr>enqidx := enqidx n + 1, faa_next := a\<rparr>) = live n" and "node_ok (n\<lparr>enqidx := enqidx n + 1, faa_next := a\<rparr>)"
proof -
  show lv: "live (n\<lparr>enqidx := enqidx n + 1, faa_next := a\<rparr>) = live n"
    using ok e by (simp add: live_def node_ok_def)
  then show "node_ok (n\<lparr>enqidx := enqidx n + 1, faa_next := a\<rparr>)" using ok e by (simp add: node_ok_def)
qed

lemma node_take:
  fixes m :: u64
  assumes ok: "node_ok n" and lv: "live n = x # xs"
  defines "n' \<equiv> n\<lparr>deqidx := deqidx n + 1, faa_items := (faa_items n)[nat (deqidx n) := m]\<rparr>"
  shows "deqidx n < enqidx n" and "deqidx n < int BUFFER_SIZE" and "faa_items n ! nat (deqidx n) = x" and "x \<noteq> 0"
    and "live n' = xs" and "node_ok n'"
proof -
  obtain E where E: "enqidx n = int E" using ok by (metis node_ok_def zero_le_imp_eq_int order_trans)
  obtain D where D: "deqidx n = int D" using ok by (metis node_ok_def zero_le_imp_eq_int)
  have "length (live n) > 0" using lv by simp
  then have len: "D < E" "D < length (faa_items n)" by (simp_all add: live_def E D)
  then show "deqidx n < enqidx n" "deqidx n < int BUFFER_SIZE" using ok E D by (simp_all add: node_ok_def)
  have "live n = (take E (faa_items n)) ! D # drop (Suc D) (take E (faa_items n))"
    using len Cons_nth_drop_Suc [of D "take E (faa_items n)"] by (simp add: live_def E D)
  then have x: "faa_items n ! D = x" and xs: "drop (Suc D) (take E (faa_items n)) = xs" using lv len by simp_all
  show "faa_items n ! nat (deqidx n) = x" using x D by simp
  show x0: "x \<noteq> 0" using ok lv by (auto simp: node_ok_def)
  have "nat (int D + 1) = Suc D" by simp
  then show l': "live n' = xs"
    using len xs by (simp add: n'_def live_def E D drop_take take_update_swap [symmetric] drop_update_cancel)
  have "(faa_items n)[D := m] ! i = 0" if "i < BUFFER_SIZE" "int E \<le> int i" for i
    using ok that E len by (simp add: node_ok_def)
  then show "node_ok n'" using ok lv l' len E D by (auto simp: node_ok_def n'_def)
qed

section \<open>The operations on the list\<close>

lemma faa_enqueue_appends:
  assumes rep: "faa_rep q xs" and new: "fresh_addr a (faa_heap q)" and x: "x \<noteq> 0" and tid: "tid < HP_MAX_THREADS"
  shows "\<exists>q'. faa_enqueue (Suc fuel) a x tid q = Some (Inr q') \<and> faa_rep q' (xs @ [x])"
proof -
  obtain as ns where sh: "faa_shape q as ns" and xs: "xs = concat (map live ns)" using rep by (auto simp: faa_rep_def)
  obtain bs l ms n where as: "as = bs @ [l]" and ns: "ns = ms @ [n]" by (rule seg_split_final [OF faa_shape_facts(1) [OF sh]])
  note s = faa_shape_facts [OF sh, unfolded as ns]
  have n: "faa_heap q l = Some n" "faa_next n = 0" using seg_final [OF s(1)] by auto
  have d: "l \<notin> set bs" "set (bs @ [l]) \<subseteq> dom (faa_heap q)" "l \<noteq> 0" using mem_ok_facts [OF s(8)] n by auto
  have al: "a \<notin> set (bs @ [l])" "l \<noteq> a" using new d(2) n by (auto simp: fresh_addr_def)
  note fits = mem_ok_facts(5) [OF s(8)]
  let ?h = "hp_wipe tid (hp_put tid faa_kHpTail l (faa_hp q))"
  have ok: "node_ok n" using s(4) by simp
  show ?thesis
  proof (cases "enqidx n < int BUFFER_SIZE")
    case True
    let ?n = "n\<lparr>enqidx := enqidx n + 1, faa_items := (faa_items n)[nat (enqidx n) := x]\<rparr>"
    let ?q = "q\<lparr>faa_heap := (faa_heap q)(l \<mapsto> ?n), faa_hp := ?h\<rparr>"
    note w = node_write [OF ok True x]
    have run: "faa_enqueue (Suc fuel) a x tid q = Some (Inr ?q)"
      using x n d s(3) True w(1) tid fits by (simp add: faa_enqueue_def faa_hp_ok faa_put_def faa_clear_ok Let_def)
    have "seg faa_next ((faa_heap q)(l \<mapsto> ?n)) (bs @ [l]) (ms @ [?n])"
      by (rule seg_update_final [OF s(1) d(1)]) simp
    moreover have "mem_ok ((faa_heap q)(l \<mapsto> ?n)) ?h (bs @ [l])"
      using n by (intro mem_ok_retired [OF s(8)]) auto
    ultimately have "faa_shape ?q (bs @ [l]) (ms @ [?n])"
      using s(2-7) w(3) True by (cases ms) (simp_all add: faa_shape_def)
    then show ?thesis using run w(2) xs ns unfolding faa_rep_def by fastforce
  next
    case False
    let ?n = "n\<lparr>enqidx := enqidx n + 1, faa_next := a\<rparr>"
    let ?hm = "(faa_heap q)(a \<mapsto> faa_node_new x, l \<mapsto> ?n)"
    let ?q = "q\<lparr>faa_heap := ?hm, faa_tail := a, faa_hp := ?h\<rparr>"
    note f = node_full [OF ok, of a] node_ok_new [OF x]
    have run: "faa_enqueue (Suc fuel) a x tid q = Some (Inr ?q)"
      using x n d s(3) al False tid fits
      by (simp add: faa_enqueue_def faa_hp_ok faa_put_def faa_clear_ok faa_casNext_def faa_casTail_def cas_def Let_def fun_upd_twist)
    have "seg faa_next ?hm ((bs @ [l]) @ [a]) ((ms @ [?n]) @ [faa_node_new x])"
      by (rule seg_link_append [OF s(1) d(1) al(1)]) (simp_all add: faa_node_new_def)
    moreover have "mem_ok ?hm ?h ((bs @ [l]) @ [a])"
    proof -
      have "mem_ok ?hm (faa_hp q) ((bs @ [l]) @ [a])" using n by (intro mem_ok_new [OF s(8) new]) auto
      then show ?thesis by (rule mem_ok_retired) simp_all
    qed
    moreover have "deqidx (faa_node_new x) = 0" "enqidx (faa_node_new x) = 1" by (simp_all add: faa_node_new_def)
    moreover have "hd ((bs @ [l]) @ [a]) = hd (bs @ [l])" by (cases bs) simp_all
    ultimately have "faa_shape ?q ((bs @ [l]) @ [a]) ((ms @ [?n]) @ [faa_node_new x])"
      using s(2-7) f False by (cases ms) (auto simp: faa_shape_def butlast_append BUFFER_SIZE_def)
    then show ?thesis using run f False xs ns unfolding faa_rep_def by fastforce
  qed
qed


lemma faa_clear_shape:
  assumes "faa_shape q as ns" and "retiredList h = retiredList (faa_hp q)" and "hp_fits h = hp_fits (faa_hp q)"
  shows "faa_shape (q\<lparr>faa_hp := h\<rparr>) as ns"
  using assms mem_ok_retired [of "faa_heap q" "faa_hp q" as h "faa_heap q"] by (simp add: faa_shape_def)

lemma later_nodes_live:
  assumes "faa_shape q as (n # m # ms)"
  shows "live m \<noteq> []"
  using faa_shape_facts(4,7) [OF assms] by (auto simp: live_def node_ok_def BUFFER_SIZE_def)

lemma faa_dequeue_first:
  assumes sh: "faa_shape q (a # as) (n # ns)" and lv: "live n = x # xs" and tid: "tid < HP_MAX_THREADS"
  shows "\<exists>q' n'. faa_dequeue_loop (Suc fuel) tid q = Some (x, q') \<and> faa_shape q' (a # as) (n' # ns) \<and> live n' = xs"
proof -
  note s = faa_shape_facts [OF sh]
  have n: "faa_heap q a = Some n" using seg_first [OF s(1)] by simp
  have d: "a \<notin> set as" "a \<noteq> 0" using mem_ok_facts [OF s(8)] n by auto
  let ?n = "n\<lparr>deqidx := deqidx n + 1, faa_items := (faa_items n)[nat (deqidx n) := taken q]\<rparr>"
  let ?h = "hp_wipe tid (hp_put tid faa_kHpHead a (faa_hp q))"
  let ?q = "q\<lparr>faa_heap := (faa_heap q)(a \<mapsto> ?n), faa_hp := ?h\<rparr>"
  have ok: "node_ok n" using s(4) by simp
  note tk = node_take [OF ok lv]
  have run: "faa_dequeue_loop (Suc fuel) tid q = Some (x, ?q)"
    using n d s(2) tk tid mem_ok_facts(5) [OF s(8)] by (simp add: faa_hp_ok faa_put_def faa_clear_ok Let_def)
  have "seg faa_next ((faa_heap q)(a \<mapsto> ?n)) (a # as) (?n # ns)" by (rule seg_update_first [OF s(1) d(1)]) simp
  moreover have "mem_ok ((faa_heap q)(a \<mapsto> ?n)) ?h (a # as)" using n by (intro mem_ok_retired [OF s(8)]) auto
  ultimately have "faa_shape ?q (a # as) (?n # ns)"
    using s(2-7) tk(6) [of "taken q"] by (auto simp: faa_shape_def)
  then show ?thesis using run tk(5) by blast
qed

text \<open>A drained node that has a successor is unlinked and retired.\<close>

lemma faa_dequeue_next:
  assumes sh: "faa_shape q (a # b # as) (n # ns)" and lv: "live n = []" and tid: "tid < HP_MAX_THREADS"
  shows "\<exists>q'. faa_dequeue_loop (Suc fuel) tid q = faa_dequeue_loop fuel tid q' \<and> faa_shape q' (b # as) ns"
proof -
  note s = faa_shape_facts [OF sh]
  have n: "faa_heap q a = Some n" "faa_next n = b" using seg_first [OF s(1)] by simp_all
  have d: "a \<notin> set (b # as)" "a \<noteq> 0" "b \<noteq> 0" using mem_ok_facts [OF s(8)] n by auto
  have ne: "ns \<noteq> []" using seg_length [OF s(1)] by auto
  then have e: "int BUFFER_SIZE \<le> enqidx n" using s(5) by simp
  have ok: "node_ok n" using s(4) by simp
  then have dq: "deqidx n = int BUFFER_SIZE" using lv e by (auto simp: live_def node_ok_def)
  let ?n = "n\<lparr>deqidx := deqidx n + 1\<rparr>"
  let ?hm = "(faa_heap q)(a \<mapsto> ?n)"
  let ?q1 = "q\<lparr>faa_hp := hp_put tid faa_kHpHead a (faa_hp q), faa_heap := ?hm, faa_head := b\<rparr>"
  have "mem_ok ?hm (faa_hp ?q1) (a # b # as)" using n by (intro mem_ok_retired [OF s(8)]) auto
  from mem_ok_retire [OF this tid] obtain ds h' hm where ret: "retire (\<lambda>_. hp (faa_hp ?q1)) a tid (faa_hp ?q1) = Some (ds, h')"
    and hm: "free_all ds ?hm = Some hm" "mem_ok hm h' (b # as)" "\<forall>c \<in> set (b # as). hm c = ?hm c" by blast
  let ?q = "?q1\<lparr>faa_heap := hm, faa_hp := h'\<rparr>"
  have retq: "faa_retire a tid ?q1 = Some ?q" using ret hm(1) by (simp add: faa_retire_def faa_delete_def)
  have "faa_dequeue_loop (Suc fuel) tid q = (case faa_retire a tid ?q1 of None \<Rightarrow> None | Some q3 \<Rightarrow> faa_dequeue_loop fuel tid q3)"
    using n d s(2) dq tid by (simp add: faa_hp_ok faa_put_def faa_casHead_def cas_def Let_def)
  then have run: "faa_dequeue_loop (Suc fuel) tid q = faa_dequeue_loop fuel tid ?q" by (simp only: retq option.case)
  have "seg faa_next (faa_heap q) (b # as) ns" by (rule seg_rest [OF s(1)])
  then have "seg faa_next hm (b # as) ns" using hm(3) d(1) by (elim seg_cong) auto
  then have "faa_shape ?q (b # as) ns"
    using s(3-7) hm(2) ne by (cases ns) (auto simp: faa_shape_def)
  then show ?thesis using run by blast
qed

lemma faa_dequeue_none:
  assumes rep: "faa_rep q []" and tid: "tid < HP_MAX_THREADS"
  shows "\<exists>q'. faa_dequeue (Suc fuel) tid q = Some (0, q') \<and> faa_rep q' []"
proof -
  obtain as ns where sh: "faa_shape q as ns" and em: "\<forall>n \<in> set ns. live n = []" using rep by (auto simp: faa_rep_def)
  note s = faa_shape_facts [OF sh]
  obtain n where ns: "ns = [n]"
    using seg_length [OF s(1)] later_nodes_live sh em by (metis list.exhaust list.set_intros(1,2))
  then obtain a where as: "as = [a]" using seg_length [OF s(1)] by (cases as) auto
  have n: "faa_heap q a = Some n" "faa_next n = 0" using seg_first s(1) as ns by fastforce+
  have a: "a \<noteq> 0" using mem_ok_facts [OF s(8)] as by auto
  have "enqidx n \<le> deqidx n" using em s(4,6) ns by (auto simp: live_def node_ok_def)
  then have "faa_dequeue (Suc fuel) tid q = Some (0, q\<lparr>faa_hp := hp_wipe tid (hp_put tid faa_kHpHead a (faa_hp q))\<rparr>)"
    using n a s(2) as tid mem_ok_facts(5) [OF s(8)] by (simp add: faa_dequeue_def faa_hp_ok faa_clear_ok)
  moreover have "faa_shape (q\<lparr>faa_hp := hp_wipe tid (hp_put tid faa_kHpHead a (faa_hp q))\<rparr>) as ns"
    by (rule faa_clear_shape [OF sh]) simp_all
  ultimately show ?thesis using em unfolding faa_rep_def by (intro exI conjI) auto
qed

lemma faa_dequeue_some:
  assumes rep: "faa_rep q (x # xs)" and tid: "tid < HP_MAX_THREADS"
  shows "\<exists>q'. faa_dequeue (Suc (Suc fuel)) tid q = Some (x, q') \<and> faa_rep q' xs"
proof -
  obtain as ns where sh: "faa_shape q as ns" and xs: "x # xs = concat (map live ns)" using rep by (auto simp: faa_rep_def)
  note s = faa_shape_facts [OF sh]
  obtain a bs n ms where as: "as = a # bs" and ns: "ns = n # ms"
    using seg_length [OF s(1)] by (cases as; cases ns) auto
  have first: "\<exists>q'. faa_dequeue_loop (Suc f) tid p = Some (x, q') \<and> faa_rep q' xs"
    if p: "faa_shape p (c # cs) (k # ks)" and k: "live k \<noteq> []" "x # xs = live k @ concat (map live ks)" for p c cs k ks f
  proof -
    obtain ys where ys: "live k = x # ys" using k by (cases "live k") auto
    from faa_dequeue_first [OF p this tid] obtain q' n' where
      "faa_dequeue_loop (Suc f) tid p = Some (x, q')" "faa_shape q' (c # cs) (n' # ks)" "live n' = ys" by blast
    then show ?thesis using k(2) ys unfolding faa_rep_def by fastforce
  qed
  show ?thesis
  proof (cases "live n = []")
    case False
    then show ?thesis using first [of q a bs n ms "Suc fuel"] sh as ns xs by (simp add: faa_dequeue_def del: faa_dequeue_loop.simps)
  next
    case True
    then obtain m ks where ms: "ms = m # ks" using xs ns by (cases ms) auto
    then obtain b cs where bs: "bs = b # cs" using seg_length [OF s(1)] as ns by (cases bs) auto
    from faa_dequeue_next [OF sh [unfolded as bs ns] True tid] obtain q' where
      q': "faa_dequeue_loop (Suc (Suc fuel)) tid q = faa_dequeue_loop (Suc fuel) tid q'" "faa_shape q' (b # cs) ms" by blast
    then show ?thesis
      using first [of q' b cs m ks fuel] later_nodes_live [of q as n m ks] sh True xs ns ms
      by (simp add: faa_dequeue_def del: faa_dequeue_loop.simps)
  qed
qed

lemma faa_rep_nonzero: "faa_rep q xs \<Longrightarrow> 0 \<notin> set xs"
  by (auto simp: faa_rep_def faa_shape_def node_ok_def)

lemma faa_drain_ok:
  "faa_rep q xs \<Longrightarrow> length xs < fuel \<Longrightarrow> \<exists>q'. faa_drain fuel q = Some q' \<and> faa_rep q' []"
proof (induction xs arbitrary: q fuel)
  case Nil
  obtain q' where "faa_dequeue 2 0 q = Some (0, q')" "faa_rep q' []"
    using faa_dequeue_none [OF Nil(1), of 0 1] by (auto simp: HP_MAX_THREADS_def numeral_2_eq_2)
  then show ?case using Nil by (cases fuel) auto
next
  case (Cons x xs)
  obtain q' where "faa_dequeue 2 0 q = Some (x, q')" "faa_rep q' xs"
    using faa_dequeue_some [OF Cons.prems(1), of 0 0] by (auto simp: HP_MAX_THREADS_def numeral_2_eq_2)
  moreover have "x \<noteq> 0" using faa_rep_nonzero [OF Cons.prems(1)] by auto
  ultimately show ?case using Cons.IH [of q'] Cons.prems by (cases fuel) auto
qed

lemma faa_destroy_ok:
  assumes "faa_rep q xs" and "length xs < fuel"
  shows "faa_destroy fuel q = Some Map.empty"
proof -
  obtain q' where q': "faa_drain fuel q = Some q'" "faa_rep q' []" using faa_drain_ok [OF assms] by blast
  then obtain as ns where sh: "faa_shape q' as ns" and em: "\<forall>n \<in> set ns. live n = []" by (auto simp: faa_rep_def)
  then obtain n where "ns = [n]"
    using seg_length [OF faa_shape_facts(1) [OF sh]] later_nodes_live by (metis list.exhaust list.set_intros(1,2))
  then have "as = [faa_head q']" using seg_length [OF faa_shape_facts(1) [OF sh]] faa_shape_facts(2) [OF sh] by (cases as) auto
  then have "mem_ok (faa_heap q') (faa_hp q') [faa_head q']" using faa_shape_facts(8) [OF sh] by simp
  then show ?thesis using q' mem_ok_destroy by (simp add: faa_destroy_def del: free_all.simps)
qed

interpretation faa: linked_fifo faa_push faa_pop "\<lambda>_. faa_rep" "\<lambda>a q. fresh_addr a (faa_heap q)" "\<lambda>x. x \<noteq> 0" "\<lambda>t. t < HP_MAX_THREADS"
proof unfold_locales
  fix q x xs a t
  show "faa_rep q xs \<Longrightarrow> fresh_addr a (faa_heap q) \<Longrightarrow> x \<noteq> 0 \<Longrightarrow> t < HP_MAX_THREADS \<Longrightarrow> \<exists>q'. faa_push a t x q = Some q' \<and> faa_rep q' (xs @ [x])"
    using faa_enqueue_appends [of q xs a x t 0] by (auto simp: faa_push_def)
  show "t < HP_MAX_THREADS \<Longrightarrow> faa_rep q [] \<Longrightarrow> \<exists>q'. faa_pop t q = Some (None, q') \<and> faa_rep q' []"
    using faa_dequeue_none [of q t 1] by (auto simp: faa_pop_def numeral_2_eq_2)
  show "t < HP_MAX_THREADS \<Longrightarrow> faa_rep q (x # xs) \<Longrightarrow> \<exists>q'. faa_pop t q = Some (Some x, q') \<and> faa_rep q' xs"
    using faa_dequeue_some [of q x xs t 0] faa_rep_nonzero [of q "x # xs"] by (auto simp: faa_pop_def numeral_2_eq_2)
  show "faa_rep q xs \<Longrightarrow> \<exists>a. fresh_addr a (faa_heap q)"
    by (auto simp: faa_rep_def faa_shape_def dest: mem_ok_next_addr)
qed

end
