(* ===== verification/Lcrq.thy ===== *)
theory Lcrq
  imports Linked_Heap
begin

text \<open>
  \<^verbatim>\<open>contenders/LCRQ\<close>: the linked list of rings (\<^verbatim>\<open>LCRQueue.hpp\<close>, \<^verbatim>\<open>LinkedRingQueue.hpp\<close>, \<^verbatim>\<open>CacheRemap.hpp\<close>) with the
  default template arguments: 1024 cells of 16 bytes, placed by the cache remapping. The head and the tail of a ring
  are 64-bit counters; bit 63 of the tail closes the ring, bit 63 of a cell's index marks the cell as unsafe.
  Operations are whole, as in the theory \<open>Michael_Scott\<close>, and every test against interference is kept;
  \<open>fuel\<close> bounds the rounds of the retry loops. \<^verbatim>\<open>CAUTIOUS_DEQUEUE\<close> and \<^verbatim>\<open>DISABLE_HP\<close> are not defined by the build.
  The counters of \<^verbatim>\<open>Metrics.hpp\<close> are left out: nothing reads them.
\<close>

section \<open>A ring\<close>

definition RING_SIZE :: nat where
  "RING_SIZE = 1024"

definition cellsPerCacheLine :: nat where
  "cellsPerCacheLine = 128 div 16"

definition numCacheLines :: nat where
  "numCacheLines = RING_SIZE * 16 div 128"

definition remap :: "nat \<Rightarrow> nat" where
  "remap i = (i mod numCacheLines) * cellsPerCacheLine + i div numCacheLines"

record rq_cell =
  cell_val :: u64
  cell_idx :: u64

record crq =
  crq_head :: u64
  crq_tail :: u64
  crq_next :: addr
  crq_array :: "rq_cell list"

definition bit63 :: u64 where
  "bit63 = push_bit 63 1"

definition node_index :: "u64 \<Rightarrow> u64" where
  "node_index i = i AND NOT bit63"

definition set_unsafe :: "u64 \<Rightarrow> u64" where
  "set_unsafe i = i OR bit63"

definition node_unsafe :: "u64 \<Rightarrow> u64" where
  "node_unsafe i = i AND bit63"

definition tailIndex :: "u64 \<Rightarrow> u64" where
  "tailIndex t = t AND NOT bit63"

definition isClosed :: "u64 \<Rightarrow> bool" where
  "isClosed t \<longleftrightarrow> t AND bit63 \<noteq> 0"

definition cell_pos :: "u64 \<Rightarrow> nat" where
  "cell_pos ticket = remap (unat (ticket mod of_nat RING_SIZE))"

fun init_cells :: "nat \<Rightarrow> u64 \<Rightarrow> u64 \<Rightarrow> rq_cell list \<Rightarrow> rq_cell list" where
  "init_cells 0 i stop arr = arr"
| "init_cells (Suc n) i stop arr =
     (if i < stop then init_cells n (i + 1) stop (arr[cell_pos i := \<lparr>cell_val = 0, cell_idx = i\<rparr>]) else arr)"

definition crq_new :: "u64 \<Rightarrow> crq" where
  "crq_new start =
     \<lparr>crq_head = start, crq_tail = start, crq_next = 0,
      crq_array = init_cells RING_SIZE start (start + of_nat RING_SIZE) (replicate RING_SIZE \<lparr>cell_val = 0, cell_idx = 0\<rparr>)\<rparr>"

text \<open>\<^verbatim>\<open>CAS2\<close>, the compare-exchange of both words of a cell.\<close>

definition CAS2 :: "nat \<Rightarrow> rq_cell \<Rightarrow> rq_cell \<Rightarrow> crq \<Rightarrow> bool \<times> crq" where
  "CAS2 i expected desired s =
     (if crq_array s ! i = expected then (True, s\<lparr>crq_array := (crq_array s)[i := desired]\<rparr>) else (False, s))"

definition closeSegment :: "u64 \<Rightarrow> bool \<Rightarrow> crq \<Rightarrow> bool \<times> crq" where
  "closeSegment tailticket force s =
     (if \<not> force
      then if crq_tail s = tailticket + 1 then (True, s\<lparr>crq_tail := (tailticket + 1) OR bit63\<rparr>) else (False, s)
      else (\<not> isClosed (crq_tail s), s\<lparr>crq_tail := crq_tail s OR bit63\<rparr>))"

fun crq_enqueue :: "nat \<Rightarrow> nat \<Rightarrow> u64 \<Rightarrow> crq \<Rightarrow> (bool \<times> crq) option" where
  "crq_enqueue 0 try_close item s = None"
| "crq_enqueue (Suc fuel) try_close item s =
     (let tailticket = crq_tail s; s1 = s\<lparr>crq_tail := crq_tail s + 1\<rparr>
      in if isClosed tailticket then Some (False, s1)
         else let i = cell_pos tailticket; c = crq_array s1 ! i; idx = cell_idx c;
                  (done, s2) = (if cell_val c = 0 \<and> node_index idx \<le> tailticket \<and> (node_unsafe idx = 0 \<or> crq_head s1 < tailticket)
                                then CAS2 i \<lparr>cell_val = 0, cell_idx = idx\<rparr> \<lparr>cell_val = item, cell_idx = tailticket\<rparr> s1
                                else (False, s1))
              in if done then Some (True, s2)
                 else if tailticket \<ge> crq_head s2 + of_nat RING_SIZE
                 then let (closed, s3) = closeSegment tailticket (try_close + 1 > 10) s2
                      in if closed then Some (False, s3) else crq_enqueue fuel (try_close + 1) item s3
                 else crq_enqueue fuel try_close item s2)"

primrec fixState :: "nat \<Rightarrow> crq \<Rightarrow> crq option" where
  "fixState 0 s = None"
| "fixState (Suc fuel) s =
     (let t = crq_tail s; h = crq_head s
      in if crq_tail s \<noteq> t then fixState fuel s
         else if h > t then (if crq_tail s = t then Some (s\<lparr>crq_tail := h\<rparr>) else fixState fuel s)
         else Some s)"

text \<open>
  The inner loop of \<^verbatim>\<open>dequeue\<close>, on one cell: it ends with the value that was won, or with no value (\<^verbatim>\<open>break\<close>).
\<close>

fun cell_loop :: "nat \<Rightarrow> nat \<Rightarrow> u64 \<Rightarrow> u64 \<Rightarrow> crq \<Rightarrow> (u64 option \<times> crq) option" where
  "cell_loop 0 r tt headticket s = None"
| "cell_loop (Suc fuel) r tt headticket s =
     (let i = cell_pos headticket; c = crq_array s ! i; unsafe = node_unsafe (cell_idx c); idx = node_index (cell_idx c); val = cell_val c
      in if idx > headticket then Some (None, s)
         else if val \<noteq> 0
         then if idx = headticket
              then let (won, s1) = CAS2 i c \<lparr>cell_val = 0, cell_idx = unsafe OR (headticket + of_nat RING_SIZE)\<rparr> s
                   in if won then Some (Some val, s1) else cell_loop fuel r tt headticket s1
              else let (ok, s1) = CAS2 i c \<lparr>cell_val = val, cell_idx = set_unsafe idx\<rparr> s
                   in if ok then Some (None, s1) else cell_loop fuel r tt headticket s1
         else let tt1 = (if r mod 256 = 0 then crq_tail s else tt)
              in if unsafe \<noteq> 0 \<or> tailIndex tt1 < headticket + 1 \<or> isClosed tt1 \<or> r > 4 * 1024
                 then let (ok, s1) = CAS2 i c \<lparr>cell_val = val, cell_idx = unsafe OR (headticket + of_nat RING_SIZE)\<rparr> s
                      in if ok then Some (None, s1) else cell_loop fuel (Suc r) tt1 headticket s1
                 else cell_loop fuel (Suc r) tt1 headticket s)"

fun crq_dequeue :: "nat \<Rightarrow> crq \<Rightarrow> (u64 \<times> crq) option" where
  "crq_dequeue 0 s = None"
| "crq_dequeue (Suc fuel) s =
     (let headticket = crq_head s; s1 = s\<lparr>crq_head := crq_head s + 1\<rparr>
      in case cell_loop (Suc fuel) 0 0 headticket s1 of
           None \<Rightarrow> None
         | Some (Some val, s2) \<Rightarrow> Some (val, s2)
         | Some (None, s2) \<Rightarrow>
             if tailIndex (crq_tail s2) \<le> headticket + 1 then map_option (Pair 0) (fixState (Suc fuel) s2)
             else crq_dequeue fuel s2)"

definition getHeadIndex :: "crq \<Rightarrow> u64" where
  "getHeadIndex s = crq_head s"

definition getTailIndex :: "crq \<Rightarrow> u64" where
  "getTailIndex s = tailIndex (crq_tail s)"

definition getNextSegmentStartIndex :: "crq \<Rightarrow> u64" where
  "getNextSegmentStartIndex s = getTailIndex s - 1"

section \<open>The list of rings\<close>

record lrq =
  lrq_heap :: "crq heap"
  lrq_head :: addr
  lrq_tail :: addr
  lrq_hp :: hazard_pointers

definition lrq_kHpTail :: nat where "lrq_kHpTail = 0"

definition lrq_kHpHead :: nat where "lrq_kHpHead = 1"

definition lrq_new :: "addr \<Rightarrow> nat \<Rightarrow> lrq" where
  "lrq_new a threads = \<lparr>lrq_heap = [a \<mapsto> crq_new 0], lrq_head = a, lrq_tail = a, lrq_hp = hp_new 2 threads\<rparr>"

definition lrq_put :: "addr \<Rightarrow> crq \<Rightarrow> lrq \<Rightarrow> lrq" where
  "lrq_put a s q = q\<lparr>lrq_heap := (lrq_heap q)(a \<mapsto> s)\<rparr>"

text \<open>Publishing a pointer in a slot of the thread, and clearing the slot.\<close>

definition lrq_protect :: "nat \<Rightarrow> addr \<Rightarrow> nat \<Rightarrow> lrq \<Rightarrow> lrq option" where
  "lrq_protect i p tid q = map_option (\<lambda>(ret, h). q\<lparr>lrq_hp := h\<rparr>) (protectPtr i p tid (lrq_hp q))"

definition lrq_clearOne :: "nat \<Rightarrow> nat \<Rightarrow> lrq \<Rightarrow> lrq option" where
  "lrq_clearOne i tid q = map_option (\<lambda>h. q\<lparr>lrq_hp := h\<rparr>) (clearOne i tid (lrq_hp q))"

definition lrq_delete :: "addr list \<Rightarrow> lrq \<Rightarrow> lrq option" where
  "lrq_delete ds q = map_option (\<lambda>hm. q\<lparr>lrq_heap := hm\<rparr>) (free_all ds (lrq_heap q))"

definition lrq_retire :: "addr \<Rightarrow> nat \<Rightarrow> lrq \<Rightarrow> lrq option" where
  "lrq_retire p tid q =
     (case retire (\<lambda>_. hp (lrq_hp q)) p tid (lrq_hp q) of
        None \<Rightarrow> None | Some (ds, h) \<Rightarrow> lrq_delete ds (q\<lparr>lrq_hp := h\<rparr>))"

definition lrq_casTail :: "addr \<Rightarrow> addr \<Rightarrow> lrq \<Rightarrow> bool \<times> lrq" where
  "lrq_casTail cmp val q = (let (b, v) = cas cmp val (lrq_tail q) in (b, q\<lparr>lrq_tail := v\<rparr>))"

definition lrq_casHead :: "addr \<Rightarrow> addr \<Rightarrow> lrq \<Rightarrow> bool \<times> lrq" where
  "lrq_casHead cmp val q = (let (b, v) = cas cmp val (lrq_head q) in (b, q\<lparr>lrq_head := v\<rparr>))"

text \<open>
  The loop of \<^verbatim>\<open>enqueue\<close>; \<open>ltail\<close> is the local variable that a round hands to the next. \<open>f\<close> is the fuel of the
  operations on a ring. A new ring is allocated at \<open>a\<close>.
\<close>

fun lrq_enqueue_loop :: "nat \<Rightarrow> nat \<Rightarrow> addr \<Rightarrow> u64 \<Rightarrow> nat \<Rightarrow> addr \<Rightarrow> lrq \<Rightarrow> lrq option" where
  "lrq_enqueue_loop 0 f a item tid ltail q = None"
| "lrq_enqueue_loop (Suc fuel) f a item tid ltail q =
     (let ltail2 = lrq_tail q
      in if ltail2 \<noteq> ltail then Option.bind (lrq_protect lrq_kHpTail ltail2 tid q) (lrq_enqueue_loop fuel f a item tid ltail2)
         else case lrq_heap q ltail of
           None \<Rightarrow> None
         | Some s \<Rightarrow>
             let lnext = crq_next s
             in if lnext \<noteq> 0
                then let (b, q1) = lrq_casTail ltail lnext q; l1 = (if b then lnext else lrq_tail q1)
                     in Option.bind (lrq_protect lrq_kHpTail l1 tid q1) (lrq_enqueue_loop fuel f a item tid l1)
                else (case crq_enqueue f 0 item s of
                    None \<Rightarrow> None
                  | Some (True, s1) \<Rightarrow> lrq_clearOne lrq_kHpTail tid (lrq_put ltail s1 q)
                  | Some (False, s1) \<Rightarrow>
                      (case crq_enqueue f 0 item (crq_new (getNextSegmentStartIndex s1)) of
                         None \<Rightarrow> None
                       | Some (_, new) \<Rightarrow>
                           let q1 = lrq_put a new (lrq_put ltail s1 q); (b, v) = cas 0 a (crq_next s1)
                           in if b
                              then lrq_clearOne lrq_kHpTail tid (snd (lrq_casTail ltail a (lrq_put ltail (s1\<lparr>crq_next := v\<rparr>) q1)))
                              else (case lrq_delete [a] q1 of
                                  None \<Rightarrow> None
                                | Some q2 \<Rightarrow> Option.bind (lrq_protect lrq_kHpTail v tid q2) (lrq_enqueue_loop fuel f a item tid v)))))"

definition lrq_enqueue :: "nat \<Rightarrow> nat \<Rightarrow> addr \<Rightarrow> u64 \<Rightarrow> nat \<Rightarrow> lrq \<Rightarrow> lrq option" where
  "lrq_enqueue fuel f a item tid q =
     Option.bind (lrq_protect lrq_kHpTail (lrq_tail q) tid q) (lrq_enqueue_loop fuel f a item tid (lrq_tail q))"

text \<open>\<^verbatim>\<open>dequeueAfterNextLinked\<close> on a ring without \<^verbatim>\<open>prepareDequeueAfterNextLinked\<close> is a second dequeue.\<close>

fun lrq_dequeue_loop :: "nat \<Rightarrow> nat \<Rightarrow> nat \<Rightarrow> addr \<Rightarrow> lrq \<Rightarrow> (u64 \<times> lrq) option" where
  "lrq_dequeue_loop 0 f tid lhead q = None"
| "lrq_dequeue_loop (Suc fuel) f tid lhead q =
     (let lhead2 = lrq_head q
      in if lhead2 \<noteq> lhead then Option.bind (lrq_protect lrq_kHpHead lhead2 tid q) (lrq_dequeue_loop fuel f tid lhead2)
         else case lrq_heap q lhead of
           None \<Rightarrow> None
         | Some s \<Rightarrow> (case crq_dequeue f s of
             None \<Rightarrow> None
           | Some (item, s1) \<Rightarrow>
               let q1 = lrq_put lhead s1 q; lnext = crq_next s1
               in if item = 0 \<and> lnext \<noteq> 0
                  then (case crq_dequeue f s1 of
                      None \<Rightarrow> None
                    | Some (item2, s2) \<Rightarrow>
                        let q2 = lrq_put lhead s2 q1
                        in if item2 = 0
                           then let (b, q3) = lrq_casHead lhead lnext q2
                                in if b
                                   then (case lrq_retire lhead tid q3 of
                                       None \<Rightarrow> None
                                     | Some q4 \<Rightarrow> Option.bind (lrq_protect lrq_kHpHead lnext tid q4) (lrq_dequeue_loop fuel f tid lnext))
                                   else Option.bind (lrq_protect lrq_kHpHead (lrq_head q3) tid q3) (lrq_dequeue_loop fuel f tid (lrq_head q3))
                           else map_option (Pair item2) (lrq_clearOne lrq_kHpHead tid q2))
                  else map_option (Pair item) (lrq_clearOne lrq_kHpHead tid q1)))"

definition lrq_dequeue :: "nat \<Rightarrow> nat \<Rightarrow> nat \<Rightarrow> lrq \<Rightarrow> (u64 \<times> lrq) option" where
  "lrq_dequeue fuel f tid q = Option.bind (lrq_protect lrq_kHpHead (lrq_head q) tid q) (lrq_dequeue_loop fuel f tid (lrq_head q))"

definition lrq_estimateSize :: "nat \<Rightarrow> lrq \<Rightarrow> (u64 \<times> lrq) option" where
  "lrq_estimateSize tid q =
     (case protect lrq_kHpHead [lrq_head q, lrq_head q] tid (lrq_hp q) of
        None \<Rightarrow> None
      | Some (lhead, h1) \<Rightarrow> (case protect lrq_kHpTail [lrq_tail q, lrq_tail q] tid h1 of
          None \<Rightarrow> None
        | Some (ltail, h2) \<Rightarrow> (case (lrq_heap q ltail, lrq_heap q lhead) of
            (Some st, Some sh) \<Rightarrow>
              let t = getTailIndex st; h = getHeadIndex sh
              in map_option (\<lambda>h3. (if t > h then t - h else 0, q\<lparr>lrq_hp := h3\<rparr>)) (hp_clear tid h2)
          | _ \<Rightarrow> None)))"

fun lrq_drain :: "nat \<Rightarrow> lrq \<Rightarrow> lrq option" where
  "lrq_drain 0 q = None"
| "lrq_drain (Suc fuel) q = (case lrq_dequeue 2 1 0 q of
     None \<Rightarrow> None | Some (item, q1) \<Rightarrow> if item \<noteq> 0 then lrq_drain fuel q1 else Some q1)"

definition lrq_destroy :: "nat \<Rightarrow> lrq \<Rightarrow> crq heap option" where
  "lrq_destroy fuel q = (case lrq_drain fuel q of
     None \<Rightarrow> None | Some q1 \<Rightarrow> free_all (lrq_head q1 # hp_destroy (lrq_hp q1)) (lrq_heap q1))"

definition lrq_push :: "addr \<Rightarrow> nat \<Rightarrow> u64 \<Rightarrow> lrq \<Rightarrow> lrq option" where
  "lrq_push a tid t q = lrq_enqueue 1 1 a t tid q"

definition lrq_pop :: "nat \<Rightarrow> lrq \<Rightarrow> (u64 option \<times> lrq) option" where
  "lrq_pop tid q = map_option (\<lambda>(ret, q'). (if ret = 0 then None else Some ret, q')) (lrq_dequeue 2 1 tid q)"

section \<open>Words below and above bit 63\<close>

lemma low63: "k < 2 ^ 63 \<Longrightarrow> unat (of_nat k :: u64) = k"
  by (simp add: unat_of_nat take_bit_eq_mod)

lemma bit63_unat: "unat bit63 = 2 ^ 63"
  by (simp add: bit63_def)

lemma no_bit63:
  assumes "k < 2 ^ 63"
  shows "(of_nat k :: u64) AND bit63 = 0" and "(of_nat k :: u64) AND NOT bit63 = of_nat k"
proof -
  have hi: "\<not> bit (of_nat k :: u64) 63"
    unfolding bit_of_nat_iff using div_less [OF assms] by (auto simp: bit_iff_odd simp del: div_less)
  have top: "bit bit63 n \<longleftrightarrow> n = 63" if "n < 64" for n
    unfolding bit63_def bit_push_bit_iff using that by (cases "n = 63") auto
  show "(of_nat k :: u64) AND bit63 = 0"
    by (rule bit_word_eqI) (use hi top in \<open>auto simp: bit_and_iff\<close>)
  show "(of_nat k :: u64) AND NOT bit63 = of_nat k"
    by (rule bit_word_eqI) (use hi top in \<open>auto simp: bit_and_iff bit_not_iff\<close>)
qed

lemma closed_word:
  assumes "k < 2 ^ 63"
  shows "isClosed ((of_nat k :: u64) OR bit63)" and "tailIndex ((of_nat k :: u64) OR bit63) = of_nat k"
    and "unat ((of_nat k :: u64) OR bit63) = k + 2 ^ 63"
proof -
  note n = no_bit63 [OF assms]
  have "((of_nat k :: u64) OR bit63) AND bit63 = bit63" by (simp add: bit.conj_disj_distrib2 n)
  moreover have "bit63 \<noteq> 0" using bit63_unat by auto
  ultimately show "isClosed ((of_nat k :: u64) OR bit63)" by (simp add: isClosed_def)
  show "tailIndex ((of_nat k :: u64) OR bit63) = of_nat k" by (simp add: tailIndex_def bit.conj_disj_distrib2 n)
  have "(of_nat k :: u64) OR bit63 = of_nat k + bit63" using disjunctive_add_eq_or [OF n(1)] by simp
  then show "unat ((of_nat k :: u64) OR bit63) = k + 2 ^ 63"
    using assms low63 [OF assms] bit63_unat by (simp add: unat_add_small)
qed

end
