(* ===== verification/Lcrq_Laws.thy ===== *)
theory Lcrq_Laws
  imports Lcrq
begin

text \<open>
  The rings of LCRQ hold a contiguous interval of tickets. \<open>crq_rep s H F c xs\<close>: the ring \<open>s\<close> holds the values \<open>xs\<close> under the
  tickets from \<open>H\<close> to \<open>F\<close>, and is closed or not; a closed ring has wasted the ticket \<open>F\<close>. Tickets below \<open>2 ^ 62\<close> keep clear of
  bit 63. The linked queue is a chain of closed rings with an open one at its end, whose tickets follow each other.
\<close>

section \<open>Positions\<close>

definition pos :: "nat \<Rightarrow> nat" where
  "pos k = remap (k mod RING_SIZE)"

lemma pos_less: "pos k < RING_SIZE"
  by (simp add: pos_def remap_def RING_SIZE_def numCacheLines_def cellsPerCacheLine_def)


lemma pos_eq: "pos a = pos b \<longleftrightarrow> a mod RING_SIZE = b mod RING_SIZE"
proof
  assume "pos a = pos b"
  then have e: "(a mod 1024 mod 128) * 8 + a mod 1024 div 128 = (b mod 1024 mod 128) * 8 + b mod 1024 div 128"
    by (simp add: pos_def remap_def RING_SIZE_def numCacheLines_def cellsPerCacheLine_def)
  have lt: "a mod 1024 div 128 < 8" "b mod 1024 div 128 < 8" by simp_all
  have dig: "m = m' \<and> d = d'" if "m * 8 + d = m' * 8 + d'" "d < 8" "d' < 8" for m m' d d' :: nat using that by presburger
  from dig [OF e lt] have "a mod 1024 div 128 = b mod 1024 div 128" "a mod 1024 mod 128 = b mod 1024 mod 128" by simp_all
  then have "a mod 1024 = b mod 1024" by (metis div_mult_mod_eq)
  then show "a mod RING_SIZE = b mod RING_SIZE" by (simp add: RING_SIZE_def)
qed (simp add: pos_def)

lemma cell_pos_nat: "k < 2 ^ 63 \<Longrightarrow> cell_pos (of_nat k) = pos k"
  using low63 [of k] by (simp add: cell_pos_def pos_def unat_mod_distrib RING_SIZE_def)

lemma pos_apart: "a < b \<Longrightarrow> b < a + RING_SIZE \<Longrightarrow> pos a \<noteq> pos b"
  using mod_gap [of a b RING_SIZE] by (auto simp: pos_eq)

lemma pos_next: "pos (k + RING_SIZE) = pos k"
  by (simp add: pos_eq)

section \<open>A ring holds an interval of tickets\<close>

definition crq_rep :: "crq \<Rightarrow> nat \<Rightarrow> nat \<Rightarrow> bool \<Rightarrow> u64 list \<Rightarrow> bool" where
  "crq_rep s H F c xs \<longleftrightarrow> length (crq_array s) = RING_SIZE \<and> crq_head s = of_nat H
     \<and> crq_tail s = (if c then of_nat (Suc F) OR bit63 else of_nat F)
     \<and> F \<le> H + RING_SIZE \<and> (\<not> c \<longrightarrow> H \<le> F) \<and> length xs = F - H \<and> 0 \<notin> set xs
     \<and> (\<forall>k. H \<le> k \<and> k < F \<longrightarrow> crq_array s ! pos k = \<lparr>cell_val = xs ! (k - H), cell_idx = of_nat k\<rparr>)
     \<and> (\<forall>k. H \<le> k \<and> F \<le> k \<and> k < H + RING_SIZE \<longrightarrow> (\<exists>j \<le> k. crq_array s ! pos k = \<lparr>cell_val = 0, cell_idx = of_nat j\<rparr>))"

lemma crq_rep_facts:
  assumes "crq_rep s H F c xs"
  shows "length (crq_array s) = RING_SIZE" and "crq_head s = of_nat H" and "crq_tail s = (if c then of_nat (Suc F) OR bit63 else of_nat F)"
    and "F \<le> H + RING_SIZE" and "\<not> c \<Longrightarrow> H \<le> F" and "length xs = F - H" and "0 \<notin> set xs"
    and "H \<le> k \<Longrightarrow> k < F \<Longrightarrow> crq_array s ! pos k = \<lparr>cell_val = xs ! (k - H), cell_idx = of_nat k\<rparr>"
    and "H \<le> k \<Longrightarrow> F \<le> k \<Longrightarrow> k < H + RING_SIZE \<Longrightarrow> \<exists>j \<le> k. crq_array s ! pos k = \<lparr>cell_val = 0, cell_idx = of_nat j\<rparr>"
  using assms unfolding crq_rep_def by blast+

text \<open>Tickets up to the bound and a ring beyond it are below bit 63.\<close>

lemma tickets_low:
  assumes "k \<le> 2 ^ 62 + RING_SIZE"
  shows "k < 2 ^ 63" and "unat (of_nat k :: u64) = k" and "\<not> isClosed (of_nat k)" and "tailIndex (of_nat k) = of_nat k"
    and "node_index (of_nat k) = of_nat k" and "node_unsafe (of_nat k) = 0" and "cell_pos (of_nat k) = pos k"
    and "of_nat k + 1 = (of_nat (Suc k) :: u64)"
proof -
  show k: "k < 2 ^ 63" using assms by (simp add: RING_SIZE_def)
  note n = no_bit63 [OF k]
  show "unat (of_nat k :: u64) = k" by (rule low63 [OF k])
  show "\<not> isClosed (of_nat k)" "tailIndex (of_nat k) = of_nat k" "node_index (of_nat k) = of_nat k" "node_unsafe (of_nat k) = 0"
    by (simp_all add: isClosed_def tailIndex_def node_index_def node_unsafe_def n)
  show "cell_pos (of_nat k) = pos k" by (rule cell_pos_nat [OF k])
qed simp

lemma low_le: "a \<le> 2 ^ 62 + RING_SIZE \<Longrightarrow> b \<le> 2 ^ 62 + RING_SIZE \<Longrightarrow> (of_nat a :: u64) \<le> of_nat b \<longleftrightarrow> a \<le> b"
  by (simp only: word_le_nat_alt tickets_low(2))

lemma low_less: "a \<le> 2 ^ 62 + RING_SIZE \<Longrightarrow> b \<le> 2 ^ 62 + RING_SIZE \<Longrightarrow> (of_nat a :: u64) < of_nat b \<longleftrightarrow> a < b"
  by (simp only: word_less_nat_alt tickets_low(2))

lemma init_cells_low:
  assumes "start + n = stop" and "stop \<le> 2 ^ 62 + RING_SIZE" and "length arr = RING_SIZE" and "n \<le> RING_SIZE"
  shows "length (init_cells n (of_nat start) (of_nat stop) arr) = RING_SIZE
    \<and> (\<forall>k. start \<le> k \<and> k < stop \<longrightarrow> init_cells n (of_nat start) (of_nat stop) arr ! pos k = \<lparr>cell_val = 0, cell_idx = of_nat k\<rparr>)
    \<and> (\<forall>i. (\<forall>k. start \<le> k \<and> k < stop \<longrightarrow> pos k \<noteq> i) \<longrightarrow> init_cells n (of_nat start) (of_nat stop) arr ! i = arr ! i)"
  using assms
proof (induction n arbitrary: start arr)
  case (Suc n)
  let ?arr = "arr[pos start := \<lparr>cell_val = 0, cell_idx = of_nat start\<rparr>]"
  have low: "(of_nat start :: u64) < of_nat stop" using low_less [of start stop] Suc.prems by simp
  have eq: "init_cells (Suc n) (of_nat start) (of_nat stop) arr = init_cells n (of_nat (Suc start)) (of_nat stop) ?arr"
    using low tickets_low(7) [of start] Suc.prems by (simp add: add.commute)
  note IH = Suc.IH [of "Suc start" ?arr]
  have first: "init_cells n (of_nat (Suc start)) (of_nat stop) ?arr ! pos start = \<lparr>cell_val = 0, cell_idx = of_nat start\<rparr>"
  proof -
    have "pos k \<noteq> pos start" if "Suc start \<le> k" "k < stop" for k using pos_apart [of start k] that Suc.prems by auto
    then show ?thesis using IH Suc.prems pos_less [of start] by simp
  qed
  show ?case
    unfolding eq
  proof (intro conjI allI impI)
    show "length (init_cells n (of_nat (Suc start)) (of_nat stop) ?arr) = RING_SIZE" using IH Suc.prems by simp
    fix k assume "start \<le> k \<and> k < stop"
    then show "init_cells n (of_nat (Suc start)) (of_nat stop) ?arr ! pos k = \<lparr>cell_val = 0, cell_idx = of_nat k\<rparr>"
      using first IH Suc.prems by (cases "k = start") simp_all
  next
    fix i assume i: "\<forall>k. start \<le> k \<and> k < stop \<longrightarrow> pos k \<noteq> i"
    then have "pos start \<noteq> i" using Suc.prems by simp
    moreover have "\<forall>k. Suc start \<le> k \<and> k < stop \<longrightarrow> pos k \<noteq> i" using i by simp
    ultimately show "init_cells n (of_nat (Suc start)) (of_nat stop) ?arr ! i = arr ! i" using IH Suc.prems by simp
  qed
qed auto

lemma crq_new_rep:
  assumes "start \<le> 2 ^ 62"
  shows "crq_rep (crq_new (of_nat start)) start start False []" and "crq_next (crq_new (of_nat start)) = 0"
proof -
  let ?arr = "replicate RING_SIZE \<lparr>cell_val = 0, cell_idx = 0\<rparr>"
  have "(of_nat start :: u64) + of_nat RING_SIZE = of_nat (start + RING_SIZE)" by simp
  then have arr: "crq_array (crq_new (of_nat start)) = init_cells RING_SIZE (of_nat start) (of_nat (start + RING_SIZE)) ?arr"
    by (simp add: crq_new_def)
  note i = init_cells_low [of start RING_SIZE "start + RING_SIZE" ?arr, folded arr]
  show "crq_rep (crq_new (of_nat start)) start start False []"
    unfolding crq_rep_def using i assms by (auto simp: crq_new_def)
  show "crq_next (crq_new (of_nat start)) = 0" by (simp add: crq_new_def)
qed


section \<open>The operations of a ring\<close>

text \<open>Writing the cell of ticket \<open>k\<close> leaves the cells of the other tickets of the same round alone.\<close>

lemma other_cell:
  assumes "crq_rep s H F c xs" and "H \<le> k" and "H \<le> l" and "k < H + RING_SIZE" and "l < H + RING_SIZE" and "k \<noteq> l"
  shows "(crq_array s)[pos k := v] ! pos l = crq_array s ! pos l"
proof -
  have "pos k \<noteq> pos l" using pos_apart [of k l] pos_apart [of l k] assms(2-6) by (cases "k < l") auto
  then show ?thesis by simp
qed

lemma this_cell: "crq_rep s H F c xs \<Longrightarrow> (crq_array s)[pos k := v] ! pos k = v"
  using crq_rep_facts(1) [of s H F c xs] pos_less [of k] by simp

lemma crq_enqueue_room:
  assumes rep: "crq_rep s H F False xs" and room: "F < H + RING_SIZE" and bound: "F \<le> 2 ^ 62" and x: "x \<noteq> 0"
  shows "\<exists>s'. crq_enqueue (Suc fuel) n x s = Some (True, s') \<and> crq_rep s' H (Suc F) False (xs @ [x]) \<and> crq_next s' = crq_next s"
proof -
  note r = crq_rep_facts [OF rep]
  have HF: "H \<le> F" using r(5) by simp
  obtain j where j: "j \<le> F" "crq_array s ! pos F = \<lparr>cell_val = 0, cell_idx = of_nat j\<rparr>" using r(9) [of F] HF room by auto
  have lj: "j \<le> 2 ^ 62 + RING_SIZE" and lF: "F \<le> 2 ^ 62 + RING_SIZE" using j bound by simp_all
  let ?s = "s\<lparr>crq_tail := of_nat F + 1, crq_array := (crq_array s)[pos F := \<lparr>cell_val = x, cell_idx = of_nat F\<rparr>]\<rparr>"
  have run: "crq_enqueue (Suc fuel) n x s = Some (True, ?s)"
    using r(3) j(2) tickets_low [OF lj] tickets_low [OF lF] low_le [OF lj lF] j(1) by (simp add: CAS2_def Let_def)
  have old: "crq_array ?s ! pos k = crq_array s ! pos k" if "H \<le> k" "k < H + RING_SIZE" "k \<noteq> F" for k
    using other_cell [OF rep, of F k] that HF room by simp
  have new: "crq_array ?s ! pos F = \<lparr>cell_val = x, cell_idx = of_nat F\<rparr>" using this_cell [OF rep] by simp
  have "crq_array ?s ! pos k = \<lparr>cell_val = (xs @ [x]) ! (k - H), cell_idx = of_nat k\<rparr>" if "H \<le> k" "k < Suc F" for k
  proof (cases "k = F")
    case True
    then show ?thesis using new r(6) by (simp add: nth_append)
  next
    case False
    then have "k - H < length xs" using that r(6) by simp
    then show ?thesis using False that old [of k] r(8) [of k] room by (simp add: nth_append)
  qed
  moreover have "\<exists>i \<le> k. crq_array ?s ! pos k = \<lparr>cell_val = 0, cell_idx = of_nat i\<rparr>" if "H \<le> k" "Suc F \<le> k" "k < H + RING_SIZE" for k
    using that old [of k] r(9) [of k] by simp
  ultimately have "crq_rep ?s H (Suc F) False (xs @ [x])"
    unfolding crq_rep_def using r(1,2,6,7) HF room x by (auto simp: add.commute)
  then show ?thesis using run by auto
qed

lemma crq_enqueue_full:
  assumes rep: "crq_rep s H F False xs" and full: "F = H + RING_SIZE" and bound: "F \<le> 2 ^ 62"
  shows "\<exists>s'. crq_enqueue (Suc fuel) 0 x s = Some (False, s') \<and> crq_rep s' H F True xs \<and> crq_next s' = crq_next s"
proof -
  note r = crq_rep_facts [OF rep]
  have lF: "F \<le> 2 ^ 62 + RING_SIZE" and lH: "H \<le> 2 ^ 62 + RING_SIZE" using bound full by simp_all
  have R0: "0 < RING_SIZE" by (simp add: RING_SIZE_def)
  have "pos F = pos H" unfolding full by (rule pos_next)
  then have cell: "crq_array s ! pos F = \<lparr>cell_val = xs ! 0, cell_idx = of_nat H\<rparr>" using r(8) [of H] full R0 by simp
  have "xs ! 0 \<in> set xs" using r(6) full R0 by (intro nth_mem) simp
  then have x0: "xs ! 0 \<noteq> 0" using r(7) by auto
  have sum: "(of_nat H :: u64) + of_nat RING_SIZE = of_nat F" by (simp add: full)
  let ?s = "s\<lparr>crq_tail := (of_nat F + 1) OR bit63\<rparr>"
  have run: "crq_enqueue (Suc fuel) 0 x s = Some (False, ?s)"
    using r(2,3) cell x0 tickets_low [OF lF] sum by (simp add: closeSegment_def Let_def)
  have "crq_rep ?s H F True xs" using rep unfolding crq_rep_def by (simp add: add.commute)
  then show ?thesis using run by auto
qed

lemma crq_dequeue_first:
  assumes rep: "crq_rep s H F c (x # xs)" and bound: "F \<le> 2 ^ 62"
  shows "\<exists>s'. crq_dequeue (Suc fuel) s = Some (x, s') \<and> crq_rep s' (Suc H) F c xs \<and> crq_next s' = crq_next s"
proof -
  note r = crq_rep_facts [OF rep]
  have HF: "H < F" using r(6) by simp
  have lH: "H \<le> 2 ^ 62 + RING_SIZE" and lR: "H + RING_SIZE \<le> 2 ^ 62 + RING_SIZE" using HF bound by simp_all
  have cell: "crq_array s ! pos H = \<lparr>cell_val = x, cell_idx = of_nat H\<rparr>" using r(8) [of H] HF by simp
  have x0: "x \<noteq> 0" using r(7) by auto
  let ?s = "s\<lparr>crq_head := of_nat H + 1, crq_array := (crq_array s)[pos H := \<lparr>cell_val = 0, cell_idx = of_nat (H + RING_SIZE)\<rparr>]\<rparr>"
  have run: "crq_dequeue (Suc fuel) s = Some (x, ?s)"
    using r(2) cell x0 tickets_low [OF lH] by (simp add: CAS2_def Let_def)
  have old: "crq_array ?s ! pos k = crq_array s ! pos k" if "H < k" "k < H + RING_SIZE" for k
    using other_cell [OF rep, of H k] that by simp
  have new: "crq_array ?s ! pos (H + RING_SIZE) = \<lparr>cell_val = 0, cell_idx = of_nat (H + RING_SIZE)\<rparr>"
    using this_cell [OF rep] by (simp add: pos_next)
  have "crq_array ?s ! pos k = \<lparr>cell_val = xs ! (k - Suc H), cell_idx = of_nat k\<rparr>" if "Suc H \<le> k" "k < F" for k
  proof -
    have "k - H = Suc (k - Suc H)" using that by simp
    then show ?thesis using that old [of k] r(4) r(8) [of k] by simp
  qed
  moreover have "\<exists>i \<le> k. crq_array ?s ! pos k = \<lparr>cell_val = 0, cell_idx = of_nat i\<rparr>" if "Suc H \<le> k" "F \<le> k" "k < Suc H + RING_SIZE" for k
    using that old [of k] new r(9) [of k] by (cases "k = H + RING_SIZE") auto
  ultimately have "crq_rep ?s (Suc H) F c xs"
    unfolding crq_rep_def using r(1,3,4,6,7) HF by (auto simp: add.commute)
  then show ?thesis using run by auto
qed

text \<open>A dequeue on an empty ring advances the head; the tail follows unless the ring is closed.\<close>

lemma crq_dequeue_none:
  assumes rep: "crq_rep s H F c []" and bound: "H \<le> 2 ^ 62"
  shows "\<exists>s'. crq_dequeue (Suc fuel) s = Some (0, s') \<and> crq_rep s' (Suc H) (if c then F else Suc H) c [] \<and> crq_next s' = crq_next s"
proof -
  note r = crq_rep_facts [OF rep]
  have FH: "F \<le> H" using r(6) by simp
  have open_eq: "\<not> c \<Longrightarrow> F = H" using r(5) FH by simp
  have R0: "0 < RING_SIZE" by (simp add: RING_SIZE_def)
  obtain j where j: "j \<le> H" "crq_array s ! pos H = \<lparr>cell_val = 0, cell_idx = of_nat j\<rparr>" using r(9) [of H] FH R0 by auto
  have lj: "j \<le> 2 ^ 62 + RING_SIZE" and lH: "H \<le> 2 ^ 62 + RING_SIZE" and lS: "Suc H \<le> 2 ^ 62 + RING_SIZE" and lF: "Suc F \<le> 2 ^ 62 + RING_SIZE"
    using j bound R0 FH by simp_all
  let ?arr = "(crq_array s)[pos H := \<lparr>cell_val = 0, cell_idx = of_nat H + of_nat RING_SIZE\<rparr>]"
  let ?s1 = "s\<lparr>crq_head := of_nat (Suc H), crq_array := ?arr\<rparr>"
  have ntail: "tailIndex (crq_tail s) = (if c then of_nat (Suc F) else of_nat F)"
    using r(3) closed_word(2) [OF tickets_low(1) [OF lF]] tickets_low(4) [of F] lF by auto
  have leave: "tailIndex (crq_tail s) < of_nat H + 1 \<or> isClosed (crq_tail s)"
    using r(3) closed_word(1) [OF tickets_low(1) [OF lF]] ntail open_eq low_less [OF lH lS] by (cases c) (simp_all add: add.commute)
  have le: "\<not> (of_nat H :: u64) < of_nat j" using low_less [OF lH lj] j(1) by simp
  have cell: "cell_loop (Suc fuel) 0 0 (of_nat H) (s\<lparr>crq_head := of_nat (Suc H)\<rparr>) = Some (None, ?s1)"
    using j(2) tickets_low(5,6) [OF lj] tickets_low(7) [OF lH] le leave by (auto simp: CAS2_def Let_def)
  have end_reached: "tailIndex (crq_tail s) \<le> of_nat H + 1"
    using ntail low_le [of "Suc F" "Suc H"] low_le [of F "Suc H"] lF lS FH tickets_low(8) [OF lH] by (auto simp del: of_nat_Suc)
  let ?s = "if c then ?s1 else ?s1\<lparr>crq_tail := of_nat (Suc H)\<rparr>"
  have fix_it: "fixState (Suc fuel) ?s1 = Some ?s"
  proof (cases c)
    case True
    have "unat (crq_tail s) = Suc F + 2 ^ 63" using True r(3) closed_word(3) [OF tickets_low(1) [OF lF]] by simp
    then have "\<not> crq_tail s < of_nat (Suc H)" using tickets_low(1,2) [OF lS] by (simp only: word_less_nat_alt)
    then show ?thesis using True by (simp add: Let_def)
  next
    case False
    then have "crq_tail s < of_nat (Suc H)" using r(3) open_eq low_less [OF lH lS] by simp
    then show ?thesis using False by (simp add: Let_def)
  qed
  have run: "crq_dequeue (Suc fuel) s = Some (0, ?s)"
    using cell fix_it end_reached r(2) by (simp add: Let_def tickets_low(8) [OF lH] del: of_nat_Suc cell_loop.simps fixState.simps)
  have old: "?arr ! pos k = crq_array s ! pos k" if "H < k" "k < H + RING_SIZE" for k
    using other_cell [OF rep, of H k] that by simp
  have new: "?arr ! pos (H + RING_SIZE) = \<lparr>cell_val = 0, cell_idx = of_nat (H + RING_SIZE)\<rparr>"
    using this_cell [OF rep] by (simp add: pos_next)
  have cells: "\<exists>i \<le> k. ?arr ! pos k = \<lparr>cell_val = 0, cell_idx = of_nat i\<rparr>" if "Suc H \<le> k" "k < Suc H + RING_SIZE" for k
    using that old [of k] new r(9) [of k] FH by (cases "k = H + RING_SIZE") auto
  have "crq_rep ?s (Suc H) (if c then F else Suc H) c []"
    unfolding crq_rep_def using r(1,3) FH cells by auto
  then show ?thesis using run by (auto split: if_splits)
qed

end
