(* ===== verification/Lcrq_Queue.thy ===== *)
theory Lcrq_Queue
  imports Lcrq_Laws
begin

text \<open>
  LCRQ as a queue: the rings of the list hold consecutive intervals of tickets, all but the last are closed, and all
  but the first hold something. The contract \<open>linked_fifo\<close> is discharged for it.
\<close>

section \<open>Chains of rings\<close>

text \<open>\<open>segs b ns H F xs\<close>: the rings hold \<open>xs\<close> under the tickets from \<open>H\<close> to \<open>F\<close>; \<open>b\<close> says that the first ring is not empty.\<close>

fun segs :: "bool \<Rightarrow> crq list \<Rightarrow> nat \<Rightarrow> nat \<Rightarrow> u64 list \<Rightarrow> bool" where
  "segs b [] H F xs = False"
| "segs b [n] H F xs = (crq_rep n H F False xs \<and> (b \<longrightarrow> xs \<noteq> []))"
| "segs b (n # m # ns) H F xs =
     (\<exists>G ys zs. crq_rep n H G True ys \<and> H \<le> G \<and> (b \<longrightarrow> ys \<noteq> []) \<and> segs True (m # ns) G F zs \<and> xs = ys @ zs)"

lemma segs_Cons:
  "ns \<noteq> [] \<Longrightarrow> segs b (n # ns) H F xs \<longleftrightarrow>
     (\<exists>G ys zs. crq_rep n H G True ys \<and> H \<le> G \<and> (b \<longrightarrow> ys \<noteq> []) \<and> segs True ns G F zs \<and> xs = ys @ zs)"
  by (cases ns) auto

lemma segs_bounds: "segs b ns H F xs \<Longrightarrow> H \<le> F \<and> length xs = F - H \<and> 0 \<notin> set xs"
proof (induction b ns H F xs rule: segs.induct)
  case (2 b n H F xs)
  then show ?case using crq_rep_facts(5,6,7) [of n H F False xs] by simp
next
  case (3 b n m ns H F xs)
  then obtain G ys zs where g: "crq_rep n H G True ys" "H \<le> G" "segs True (m # ns) G F zs" "xs = ys @ zs" by auto
  then have "G \<le> F \<and> length zs = F - G \<and> 0 \<notin> set zs" using "3.IH" by blast
  then show ?case using g crq_rep_facts(6,7) [OF g(1)] by auto
qed simp

lemma crq_rep_next [simp]: "crq_rep (s\<lparr>crq_next := v\<rparr>) H F c xs = crq_rep s H F c xs"
  by (simp add: crq_rep_def)

text \<open>The last ring may be replaced, or closed and followed by another one.\<close>

lemma segs_final:
  assumes "segs b (ms @ [n]) H F xs"
  obtains G ys zs where "crq_rep n G F False zs" and "xs = ys @ zs"
    and "\<And>n' F' zs'. crq_rep n' G F' False zs' \<Longrightarrow> zs' \<noteq> [] \<Longrightarrow> segs b (ms @ [n']) H F' (ys @ zs')"
    and "\<And>n' m F' zs'. crq_rep n' G F True zs \<Longrightarrow> zs \<noteq> [] \<Longrightarrow> crq_rep m F F' False zs' \<Longrightarrow> zs' \<noteq> [] \<Longrightarrow>
      segs b (ms @ [n', m]) H F' (xs @ zs')"
  using assms
proof (induction ms arbitrary: b H xs thesis)
  case Nil
  then have "crq_rep n H F False xs" "H \<le> F" using segs_bounds [of b "[n]" H F xs] by simp_all
  then show ?case using Nil(1) [of H xs "[]"] by auto
next
  case (Cons k ms)
  obtain G ys zs where g: "crq_rep k H G True ys" "H \<le> G" "b \<longrightarrow> ys \<noteq> []" "segs True (ms @ [n]) G F zs" "xs = ys @ zs"
    using Cons.prems(2) by (auto simp: segs_Cons)
  from g(4) obtain G' ys' zs' where r: "crq_rep n G' F False zs'" "zs = ys' @ zs'"
    "\<And>n' F' us. crq_rep n' G' F' False us \<Longrightarrow> us \<noteq> [] \<Longrightarrow> segs True (ms @ [n']) G F' (ys' @ us)"
    "\<And>n' m F' us. crq_rep n' G' F True zs' \<Longrightarrow> zs' \<noteq> [] \<Longrightarrow> crq_rep m F F' False us \<Longrightarrow> us \<noteq> [] \<Longrightarrow> segs True (ms @ [n', m]) G F' (zs @ us)"
    by (rule Cons.IH [rotated]) blast
  show ?case
  proof (rule Cons.prems(1) [OF r(1)])
    show "xs = (ys @ ys') @ zs'" using g(5) r(2) by simp
    show "segs b ((k # ms) @ [n']) H F' ((ys @ ys') @ us)" if "crq_rep n' G' F' False us" "us \<noteq> []" for n' F' us
    proof -
      have "segs True (ms @ [n']) G F' (ys' @ us)" by (rule r(3) [OF that])
      then show ?thesis using g(1,2,3) by (simp add: segs_Cons) (intro exI conjI, assumption+, simp)
    qed
    show "segs b ((k # ms) @ [n', m]) H F' (xs @ us)"
      if "crq_rep n' G' F True zs'" "zs' \<noteq> []" "crq_rep m F F' False us" "us \<noteq> []" for n' m F' us
    proof -
      have "segs True (ms @ [n', m]) G F' (zs @ us)" by (rule r(4) [OF that])
      then show ?thesis using g(1,2,3,5) by (simp add: segs_Cons) (intro exI conjI, assumption+, simp)
    qed
  qed
qed

section \<open>The list a queue represents\<close>

definition lrq_shape :: "lrq \<Rightarrow> addr list \<Rightarrow> crq list \<Rightarrow> nat \<Rightarrow> nat \<Rightarrow> u64 list \<Rightarrow> bool" where
  "lrq_shape q as ns H F xs \<longleftrightarrow> seg crq_next (lrq_heap q) as ns \<and> lrq_head q = hd as \<and> lrq_tail q = last as
     \<and> segs False ns H F xs \<and> mem_ok (lrq_heap q) (lrq_hp q) as"

definition lrq_rep :: "nat \<Rightarrow> lrq \<Rightarrow> u64 list \<Rightarrow> bool" where
  "lrq_rep n q xs \<longleftrightarrow> (\<exists>as ns H F. lrq_shape q as ns H F xs \<and> F + n + 2 \<le> 2 ^ 62)"

lemma lrq_shape_facts:
  assumes "lrq_shape q as ns H F xs"
  shows "seg crq_next (lrq_heap q) as ns" and "lrq_head q = hd as" and "lrq_tail q = last as" and "segs False ns H F xs"
    and "mem_ok (lrq_heap q) (lrq_hp q) as"
  using assms unfolding lrq_shape_def by blast+

lemma lrq_slots: "lrq_kHpTail < 2 * CLPAD" "lrq_kHpHead < 2 * CLPAD"
  by (simp_all add: lrq_kHpTail_def lrq_kHpHead_def CLPAD_def)

lemma lrq_protect_ok:
  "tid < HP_MAX_THREADS \<Longrightarrow> i < 2 * CLPAD \<Longrightarrow> lrq_protect i p tid q = Some (q\<lparr>lrq_hp := hp_put tid i p (lrq_hp q)\<rparr>)"
  by (simp add: lrq_protect_def protectPtr_ok)

lemma lrq_clearOne_ok:
  "tid < HP_MAX_THREADS \<Longrightarrow> i < 2 * CLPAD \<Longrightarrow> lrq_clearOne i tid q = Some (q\<lparr>lrq_hp := hp_put tid i 0 (lrq_hp q)\<rparr>)"
  by (simp add: lrq_clearOne_def clearOne_ok)

lemmas lrq_hp_ok = hp_ops_ok lrq_slots lrq_protect_ok lrq_clearOne_ok

lemma lrq_rep_new:
  assumes "a \<noteq> 0" and "n + 2 \<le> 2 ^ 62" and "threads \<le> HP_MAX_THREADS"
  shows "lrq_rep n (lrq_new a threads) []"
proof -
  have "lrq_shape (lrq_new a threads) [a] [crq_new 0] 0 0 []"
    using assms crq_new_rep [of 0]
    by (auto simp: lrq_shape_def lrq_new_def seg_def mem_ok_def retired_of_def hp_new_def hp_fits_def CLPAD_def)
  then show ?thesis using assms(2) unfolding lrq_rep_def by fastforce
qed

lemma lrq_enqueue_appends:
  assumes rep: "lrq_rep (Suc i) q xs" and new: "fresh_addr a (lrq_heap q)" and x: "x \<noteq> 0" and tid: "tid < HP_MAX_THREADS"
  shows "\<exists>q'. lrq_enqueue (Suc fuel) (Suc f) a x tid q = Some q' \<and> lrq_rep i q' (xs @ [x])"
proof -
  obtain as ns H F where sh: "lrq_shape q as ns H F xs" and bound: "F + Suc i + 2 \<le> 2 ^ 62" using rep by (auto simp: lrq_rep_def)
  obtain bs l ms n where as: "as = bs @ [l]" and ns: "ns = ms @ [n]" by (rule seg_split_final [OF lrq_shape_facts(1) [OF sh]])
  note s = lrq_shape_facts [OF sh, unfolded as ns]
  have n: "lrq_heap q l = Some n" "crq_next n = 0" using seg_final [OF s(1)] by auto
  have d: "l \<notin> set bs" "set (bs @ [l]) \<subseteq> dom (lrq_heap q)" using mem_ok_facts [OF s(5)] n by auto
  have al: "a \<notin> set (bs @ [l])" "l \<noteq> a" using new d(2) n by (auto simp: fresh_addr_def)
  obtain G ys zs where g: "crq_rep n G F False zs" "xs = ys @ zs"
    and swap: "\<And>n' F' zs'. crq_rep n' G F' False zs' \<Longrightarrow> zs' \<noteq> [] \<Longrightarrow> segs False (ms @ [n']) H F' (ys @ zs')"
    and add: "\<And>n' m F' zs'. crq_rep n' G F True zs \<Longrightarrow> zs \<noteq> [] \<Longrightarrow> crq_rep m F F' False zs' \<Longrightarrow> zs' \<noteq> [] \<Longrightarrow>
      segs False (ms @ [n', m]) H F' (xs @ zs')"
    using segs_final [OF s(4)] by metis
  let ?h = "hp_put tid lrq_kHpTail 0 (hp_put tid lrq_kHpTail l (lrq_hp q))"
  have F62: "F \<le> 2 ^ 62" using bound by simp
  show ?thesis
  proof (cases "F < G + RING_SIZE")
    case True
    obtain n' where n': "crq_enqueue (Suc f) 0 x n = Some (True, n')" "crq_rep n' G (Suc F) False (zs @ [x])" "crq_next n' = crq_next n"
      using crq_enqueue_room [OF g(1) True F62 x] by blast
    let ?q = "q\<lparr>lrq_heap := (lrq_heap q)(l \<mapsto> n'), lrq_hp := ?h\<rparr>"
    have run: "lrq_enqueue (Suc fuel) (Suc f) a x tid q = Some ?q"
      using n n' s(3) tid by (simp add: lrq_enqueue_def lrq_hp_ok lrq_put_def Let_def del: crq_enqueue.simps)
    have "seg crq_next ((lrq_heap q)(l \<mapsto> n')) (bs @ [l]) (ms @ [n'])" by (rule seg_update_final [OF s(1) d(1) n'(3)])
    moreover have "mem_ok ((lrq_heap q)(l \<mapsto> n')) ?h (bs @ [l])" using n by (intro mem_ok_retired [OF s(5)]) auto
    moreover have "segs False (ms @ [n']) H (Suc F) (xs @ [x])" using swap [OF n'(2)] g(2) by simp
    ultimately have "lrq_shape ?q (bs @ [l]) (ms @ [n']) H (Suc F) (xs @ [x])" using s(2,3) by (simp add: lrq_shape_def)
    moreover have "Suc F + i + 2 \<le> 2 ^ 62" using bound by simp
    ultimately show ?thesis using run unfolding lrq_rep_def by blast
  next
    case False
    then have full: "F = G + RING_SIZE" using crq_rep_facts(4) [OF g(1)] by simp
    obtain n' where n': "crq_enqueue (Suc f) 0 x n = Some (False, n')" "crq_rep n' G F True zs" "crq_next n' = crq_next n"
      using crq_enqueue_full [OF g(1) full F62] by blast
    have "tailIndex (crq_tail n') = of_nat (Suc F)"
      using crq_rep_facts(3) [OF n'(2)] closed_word(2) [of "Suc F"] bound by simp
    then have start: "getNextSegmentStartIndex n' = of_nat F" by (simp add: getNextSegmentStartIndex_def getTailIndex_def)
    obtain m where m: "crq_enqueue (Suc f) 0 x (crq_new (of_nat F)) = Some (True, m)" "crq_rep m F (Suc F) False [x]" "crq_next m = 0"
      using crq_enqueue_room [OF crq_new_rep(1) [OF F62] _ F62 x] crq_new_rep(2) [OF F62] by (auto simp: RING_SIZE_def)
    let ?n = "n'\<lparr>crq_next := a\<rparr>"
    let ?hm = "(lrq_heap q)(a \<mapsto> m, l \<mapsto> ?n)"
    let ?q = "q\<lparr>lrq_heap := ?hm, lrq_tail := a, lrq_hp := ?h\<rparr>"
    have upd: "(lrq_heap q)(l \<mapsto> n', a \<mapsto> m, l \<mapsto> ?n) = ?hm" using al(2) by (simp add: fun_upd_twist)
    have run: "lrq_enqueue (Suc fuel) (Suc f) a x tid q = Some ?q"
      using n n' m s(3) al(2) start upd tid
      by (simp add: lrq_enqueue_def lrq_hp_ok lrq_put_def lrq_casTail_def cas_def Let_def
          del: crq_enqueue.simps)
    have "seg crq_next ?hm ((bs @ [l]) @ [a]) ((ms @ [?n]) @ [m])"
      by (rule seg_link_append [OF s(1) d(1) al(1)]) (simp_all add: m(3))
    moreover have "mem_ok ?hm ?h ((bs @ [l]) @ [a])"
    proof -
      have "mem_ok ?hm (lrq_hp q) ((bs @ [l]) @ [a])" using n by (intro mem_ok_new [OF s(5) new]) auto
      then show ?thesis by (rule mem_ok_retired) simp_all
    qed
    moreover have "zs \<noteq> []" using crq_rep_facts(6) [OF g(1)] full by (auto simp: RING_SIZE_def)
    then have "segs False (ms @ [?n, m]) H (Suc F) (xs @ [x])" using add [OF _ _ m(2), of ?n] n'(2) by simp
    moreover have "hd ((bs @ [l]) @ [a]) = hd (bs @ [l])" by (cases bs) simp_all
    ultimately have "lrq_shape ?q ((bs @ [l]) @ [a]) ((ms @ [?n]) @ [m]) H (Suc F) (xs @ [x])" using s(2) by (simp add: lrq_shape_def)
    moreover have "Suc F + i + 2 \<le> 2 ^ 62" using bound by simp
    ultimately show ?thesis using run unfolding lrq_rep_def by blast
  qed
qed


section \<open>Dequeue\<close>

lemma segs_weaken: "segs b ns H F xs \<Longrightarrow> segs False ns H F xs"
  by (cases ns rule: list.exhaust; cases "tl ns") auto

lemma segs_first:
  assumes "segs b (n # ns) H F xs"
  obtains G ys zs where "crq_rep n H G (ns \<noteq> []) ys" and "H \<le> G" and "G \<le> F" and "xs = ys @ zs" and "b \<longrightarrow> ys \<noteq> []"
    and "ns = [] \<Longrightarrow> zs = [] \<and> G = F" and "ns \<noteq> [] \<Longrightarrow> segs True ns G F zs"
    and "\<And>n' H' ys'. crq_rep n' H' G (ns \<noteq> []) ys' \<Longrightarrow> H' \<le> G \<Longrightarrow> segs False (n' # ns) H' F (ys' @ zs)"
proof (cases "ns = []")
  case True
  then have r: "crq_rep n H F False xs" "b \<longrightarrow> xs \<noteq> []" using assms by simp_all
  then show ?thesis using that [of F xs "[]"] segs_bounds [OF assms] True by simp
next
  case False
  then obtain G ys zs where g: "crq_rep n H G True ys" "H \<le> G" "b \<longrightarrow> ys \<noteq> []" "segs True ns G F zs" "xs = ys @ zs"
    using assms by (auto simp: segs_Cons)
  moreover have "G \<le> F" using segs_bounds [OF g(4)] by simp
  moreover have "segs False (n' # ns) H' F (ys' @ zs)" if "crq_rep n' H' G True ys'" "H' \<le> G" for n' H' ys'
    using False g(4) that by (auto simp: segs_Cons)
  ultimately show ?thesis using that [of G ys zs] False by simp
qed

lemma lrq_clear_shape:
  "lrq_shape q as ns H F xs \<Longrightarrow> retiredList h = retiredList (lrq_hp q) \<Longrightarrow> hp_fits h = hp_fits (lrq_hp q) \<Longrightarrow> lrq_shape (q\<lparr>lrq_hp := h\<rparr>) as ns H F xs"
  using mem_ok_retired [of "lrq_heap q" "lrq_hp q" as h "lrq_heap q"] by (simp add: lrq_shape_def)

text \<open>A step on the first ring that keeps its place in the list.\<close>

lemma first_ring_step:
  assumes sh: "lrq_shape q (a # as) (n # ns) H F xs" and nx: "crq_next n' = crq_next n" and sg: "segs False (n' # ns) H' F' xs'"
  shows "lrq_shape (lrq_put a n' q) (a # as) (n' # ns) H' F' xs'"
proof -
  note s = lrq_shape_facts [OF sh]
  have n: "lrq_heap q a = Some n" using seg_first [OF s(1)] by simp
  have "a \<notin> set as" using mem_ok_facts(3) [OF s(5)] by simp
  then have "seg crq_next ((lrq_heap q)(a \<mapsto> n')) (a # as) (n' # ns)" by (rule seg_update_first [OF s(1) _ nx])
  moreover have "mem_ok ((lrq_heap q)(a \<mapsto> n')) (lrq_hp q) (a # as)" using n by (intro mem_ok_retired [OF s(5)]) auto
  ultimately show ?thesis using s(2,3) sg by (simp add: lrq_shape_def lrq_put_def)
qed

lemma lrq_dequeue_value:
  assumes sh: "lrq_shape q (a # as) (n # ns) H F (x # xs)" and bound: "F \<le> 2 ^ 62"
    and first: "crq_rep n H G (ns \<noteq> []) (x # ys)" "xs = ys @ zs"
      "\<And>n' H' ys'. crq_rep n' H' G (ns \<noteq> []) ys' \<Longrightarrow> H' \<le> G \<Longrightarrow> segs False (n' # ns) H' F (ys' @ zs)" and G: "G \<le> F" and tid: "tid < HP_MAX_THREADS"
  shows "\<exists>q' n' H'. lrq_dequeue_loop (Suc fuel) (Suc f) tid a q = Some (x, q') \<and> lrq_shape q' (a # as) (n' # ns) H' F xs"
proof -
  note s = lrq_shape_facts [OF sh]
  have n: "lrq_heap q a = Some n" using seg_first [OF s(1)] by simp
  have x: "x \<noteq> 0" using crq_rep_facts(7) [OF first(1)] by auto
  obtain n' where n': "crq_dequeue (Suc f) n = Some (x, n')" "crq_rep n' (Suc H) G (ns \<noteq> []) ys" "crq_next n' = crq_next n"
    using crq_dequeue_first [OF first(1)] G bound by fastforce
  have "length (x # ys) = G - H" by (rule crq_rep_facts(6) [OF first(1)])
  then have HG: "Suc H \<le> G" by simp
  let ?q = "(lrq_put a n' q)\<lparr>lrq_hp := hp_put tid lrq_kHpHead 0 (lrq_hp (lrq_put a n' q))\<rparr>"
  have "lrq_dequeue_loop (Suc fuel) (Suc f) tid a q = Some (x, ?q)"
    using n n'(1) s(2) x tid by (simp add: Let_def lrq_hp_ok del: crq_dequeue.simps)
  moreover have "lrq_shape (lrq_put a n' q) (a # as) (n' # ns) (Suc H) F xs"
    using first_ring_step [OF sh n'(3)] first(3) [OF n'(2) HG] first(2) by simp
  then have "lrq_shape ?q (a # as) (n' # ns) (Suc H) F xs" by (rule lrq_clear_shape) simp_all
  ultimately show ?thesis by blast
qed

text \<open>A drained ring with a successor is unlinked and retired.\<close>

lemma lrq_dequeue_next:
  assumes sh: "lrq_shape q (a # b # as) (n # ns) H F xs" and bound: "Suc F \<le> 2 ^ 62" and tid: "tid < HP_MAX_THREADS"
    and drained: "crq_rep n H G True []" "H \<le> G" "G \<le> F" and rest: "segs True ns G F xs"
  shows "\<exists>q'. lrq_dequeue_loop (Suc fuel) (Suc f) tid a q = lrq_dequeue_loop fuel (Suc f) tid b q' \<and> lrq_shape q' (b # as) ns G F xs"
proof -
  note s = lrq_shape_facts [OF sh]
  have n: "lrq_heap q a = Some n" "crq_next n = b" using seg_first [OF s(1)] by simp_all
  have d: "a \<notin> set (b # as)" "b \<noteq> 0" using mem_ok_facts [OF s(5)] by auto
  obtain n1 where n1: "crq_dequeue (Suc f) n = Some (0, n1)" "crq_rep n1 (Suc H) G True []" "crq_next n1 = crq_next n"
    using crq_dequeue_none [OF drained(1)] drained(2,3) bound by fastforce
  obtain n2 where n2: "crq_dequeue (Suc f) n1 = Some (0, n2)" "crq_next n2 = crq_next n1"
    using crq_dequeue_none [OF n1(2)] drained(2,3) bound by fastforce
  let ?hm = "(lrq_heap q)(a \<mapsto> n2)"
  let ?q1 = "q\<lparr>lrq_heap := ?hm, lrq_head := b\<rparr>"
  have "mem_ok ?hm (lrq_hp q) (a # b # as)" using n by (intro mem_ok_retired [OF s(5)]) auto
  from mem_ok_retire [OF this tid] obtain ds h' hm where ret: "retire (\<lambda>_. hp (lrq_hp q)) a tid (lrq_hp q) = Some (ds, h')"
    and hm: "free_all ds ?hm = Some hm" "mem_ok hm h' (b # as)" "\<forall>c \<in> set (b # as). hm c = ?hm c" by blast
  let ?q2 = "?q1\<lparr>lrq_hp := h', lrq_heap := hm\<rparr>"
  have retq: "lrq_retire a tid ?q1 = Some ?q2" using ret hm(1) by (simp add: lrq_retire_def lrq_delete_def)
  let ?q = "?q2\<lparr>lrq_hp := hp_put tid lrq_kHpHead b (lrq_hp ?q2)\<rparr>"
  have run: "lrq_dequeue_loop (Suc fuel) (Suc f) tid a q = lrq_dequeue_loop fuel (Suc f) tid b ?q"
    using n n1(1,3) n2 s(2) d(2) tid
    by (simp add: lrq_put_def lrq_casHead_def cas_def Let_def retq lrq_hp_ok del: crq_dequeue.simps)
  have "seg crq_next (lrq_heap q) (b # as) ns" by (rule seg_rest [OF s(1)])
  then have "seg crq_next hm (b # as) ns" using hm(3) d(1) by (elim seg_cong) auto
  then have "lrq_shape ?q2 (b # as) ns G F xs"
    using s(3) hm(2) segs_weaken [OF rest] by (simp add: lrq_shape_def)
  then have "lrq_shape ?q (b # as) ns G F xs" by (rule lrq_clear_shape) simp_all
  then show ?thesis using run by blast
qed

lemma lrq_shape_protect:
  assumes "lrq_shape q as ns H F xs"
  shows "lrq_shape (q\<lparr>lrq_hp := hp_put tid i p (lrq_hp q)\<rparr>) as ns H F xs"
  by (rule lrq_clear_shape [OF assms]) simp_all

lemma lrq_dequeue_some:
  assumes rep: "lrq_rep (Suc i) q (x # xs)" and tid: "tid < HP_MAX_THREADS"
  shows "\<exists>q'. lrq_dequeue (Suc (Suc fuel)) (Suc f) tid q = Some (x, q') \<and> lrq_rep i q' xs"
proof -
  obtain as ns H F where sh0: "lrq_shape q as ns H F (x # xs)" and bound: "F + Suc i + 2 \<le> 2 ^ 62" using rep by (auto simp: lrq_rep_def)
  let ?q = "q\<lparr>lrq_hp := hp_put tid lrq_kHpHead (lrq_head q) (lrq_hp q)\<rparr>"
  have start: "lrq_dequeue g h tid q = lrq_dequeue_loop g h tid (lrq_head q) ?q" for g h using tid by (simp add: lrq_dequeue_def lrq_hp_ok)
  note sh = lrq_shape_protect [OF sh0, of tid lrq_kHpHead "lrq_head q"]
  note s = lrq_shape_facts [OF sh]
  obtain a bs n ms where as: "as = a # bs" and ns: "ns = n # ms" using seg_length [OF s(1)] by (cases as; cases ns) auto
  have a: "lrq_head q = a" using lrq_shape_facts(2) [OF sh0] as by simp
  have wins: "\<exists>q'. lrq_dequeue_loop (Suc g) (Suc f) tid c p = Some (x, q') \<and> lrq_rep i q' xs"
    if p: "lrq_shape p (c # cs) (k # ks) H' F (x # xs)" and sg: "segs True (k # ks) H' F (x # xs)" for p c cs k ks H' g
  proof -
    obtain G ys zs where g: "crq_rep k H' G (ks \<noteq> []) ys" "G \<le> F" "x # xs = ys @ zs" "ys \<noteq> []"
      "\<And>n' H' ys'. crq_rep n' H' G (ks \<noteq> []) ys' \<Longrightarrow> H' \<le> G \<Longrightarrow> segs False (n' # ks) H' F (ys' @ zs)"
      using segs_first [OF sg] by metis
    then obtain ys' where ys: "ys = x # ys'" "xs = ys' @ zs" by (cases ys) auto
    have "F \<le> 2 ^ 62" "F + i + 2 \<le> 2 ^ 62" using bound by simp_all
    then show ?thesis
      using lrq_dequeue_value [OF p _ g(1) [unfolded ys(1)] ys(2) g(5) g(2) tid, of g f] unfolding lrq_rep_def by blast
  qed
  obtain G ys zs where g: "crq_rep n H G (ms \<noteq> []) ys" "H \<le> G" "G \<le> F" "x # xs = ys @ zs" "ms = [] \<Longrightarrow> zs = []" "ms \<noteq> [] \<Longrightarrow> segs True ms G F zs"
    using segs_first [OF s(4) [unfolded ns]] by metis
  show ?thesis
  proof (cases "ys = []")
    case False
    have "segs True (n # ms) H F (x # xs)"
    proof (cases "ms = []")
      case True
      then show ?thesis using s(4) ns by simp
    next
      case m: False
      then show ?thesis using g False by (auto simp: segs_Cons)
    qed
    then show ?thesis using wins [OF sh [unfolded as ns]] a by (simp only: start)
  next
    case True
    then have m: "ms \<noteq> []" and zs: "zs = x # xs" using g(4,5) by auto
    then obtain k ks where ms: "ms = k # ks" by (cases ms) auto
    then obtain b cs where bs: "bs = b # cs" using seg_length [OF s(1)] as ns by (cases bs) auto
    have "crq_rep n H G True []" "segs True ms G F (x # xs)" using g(1,6) m True zs by simp_all
    from lrq_dequeue_next [OF sh [unfolded as bs ns] _ tid this(1) g(2,3) this(2), of "Suc fuel" f] bound
    obtain q' where q': "lrq_dequeue_loop (Suc (Suc fuel)) (Suc f) tid a ?q = lrq_dequeue_loop (Suc fuel) (Suc f) tid b q'"
      "lrq_shape q' (b # cs) ms G F (x # xs)" by auto
    then show ?thesis using wins [OF q'(2) [unfolded ms] \<open>segs True ms G F (x # xs)\<close> [unfolded ms], of fuel] a by (simp only: start)
  qed
qed

lemma lrq_dequeue_none:
  assumes rep: "lrq_rep (Suc i) q []" and tid: "tid < HP_MAX_THREADS"
  shows "\<exists>q'. lrq_dequeue (Suc fuel) (Suc f) tid q = Some (0, q') \<and> lrq_rep i q' []"
proof -
  obtain as ns H F where sh0: "lrq_shape q as ns H F []" and bound: "F + Suc i + 2 \<le> 2 ^ 62" using rep by (auto simp: lrq_rep_def)
  let ?p = "q\<lparr>lrq_hp := hp_put tid lrq_kHpHead (lrq_head q) (lrq_hp q)\<rparr>"
  note sh = lrq_shape_protect [OF sh0, of tid lrq_kHpHead "lrq_head q"]
  note s = lrq_shape_facts [OF sh]
  obtain a bs n ms where as: "as = a # bs" and ns: "ns = n # ms" using seg_length [OF s(1)] by (cases as; cases ns) auto
  obtain G ys zs where g: "crq_rep n H G (ms \<noteq> []) ys" "[] = ys @ zs" "ms \<noteq> [] \<Longrightarrow> segs True ms G F zs" "ms = [] \<Longrightarrow> G = F"
    using segs_first [OF s(4) [unfolded ns]] by metis
  have ms: "ms = []"
  proof (rule ccontr)
    assume ne: "ms \<noteq> []"
    then obtain k ks where "ms = k # ks" by (cases ms) auto
    then show False using g(2) segs_first [OF g(3) [OF ne, unfolded \<open>ms = k # ks\<close>]] by (metis append_is_Nil_conv)
  qed
  have r: "crq_rep n H F False []" using g(1,2,4) ms by simp
  have HF: "H = F" using crq_rep_facts(5,6) [OF r] by simp
  obtain n' where n': "crq_dequeue (Suc f) n = Some (0, n')" "crq_rep n' (Suc H) (Suc H) False []" "crq_next n' = crq_next n"
    using crq_dequeue_none [OF r] HF bound by fastforce
  have b: "bs = []" using seg_length [OF s(1)] as ns ms by auto
  have n: "lrq_heap ?p a = Some n" "crq_next n = 0" using seg_first s(1) as ns b ms by fastforce+
  let ?q = "(lrq_put a n' ?p)\<lparr>lrq_hp := hp_put tid lrq_kHpHead 0 (lrq_hp (lrq_put a n' ?p))\<rparr>"
  have run: "lrq_dequeue (Suc fuel) (Suc f) tid q = Some (0, ?q)"
    using n n'(1,3) s(2) as lrq_shape_facts(2) [OF sh0] tid by (simp add: lrq_dequeue_def lrq_hp_ok Let_def del: crq_dequeue.simps)
  have "lrq_shape (lrq_put a n' ?p) (a # bs) (n' # ms) (Suc H) (Suc H) []"
    by (rule first_ring_step [OF sh [unfolded as ns] n'(3)]) (use n'(2) ms in simp)
  then have "lrq_shape ?q (a # bs) (n' # ms) (Suc H) (Suc H) []" by (rule lrq_clear_shape) simp_all
  moreover have "Suc H + i + 2 \<le> 2 ^ 62" using bound HF by simp
  ultimately show ?thesis using run unfolding lrq_rep_def by blast
qed


section \<open>Size, destruction and the contract\<close>

lemma lrq_estimateSize_exact:
  assumes rep: "lrq_rep i q xs" and tid: "tid < HP_MAX_THREADS"
  shows "\<exists>q'. lrq_estimateSize tid q = Some (of_nat (length xs), q') \<and> lrq_rep i q' xs"
proof -
  obtain as ns H F where sh: "lrq_shape q as ns H F xs" and bound: "F + i + 2 \<le> 2 ^ 62" using rep by (auto simp: lrq_rep_def)
  note s = lrq_shape_facts [OF sh]
  obtain bs l ms t where l: "as = bs @ [l]" "ns = ms @ [t]" by (rule seg_split_final [OF s(1)])
  obtain a cs h ks where a: "as = a # cs" "ns = h # ks" using seg_length [OF s(1)] by (cases as; cases ns) auto
  have heap: "lrq_heap q l = Some t" "lrq_heap q a = Some h" using seg_final [of crq_next "lrq_heap q" bs l ms t] seg_first [of crq_next "lrq_heap q" a cs h ks] s(1) l a by simp_all
  have nz: "a \<noteq> 0" "l \<noteq> 0" using mem_ok_facts(2,4) [OF s(5)] heap by auto
  have ends: "lrq_head q = a" "lrq_tail q = l" using s(2,3) a(1) l(1) by (simp, metis last_snoc)
  have b: "H \<le> F" "length xs = F - H" using segs_bounds [OF s(4)] by simp_all
  have lF: "F \<le> 2 ^ 62 + RING_SIZE" and lH: "H \<le> 2 ^ 62 + RING_SIZE" using bound b by simp_all
  have "\<exists>G zs. crq_rep t G F False zs" using segs_final [OF s(4) [unfolded l(2)]] by metis
  then have "crq_tail t = of_nat F" using crq_rep_facts(3) by fastforce
  then have tail: "getTailIndex t = of_nat F" using tickets_low(4) [OF lF] by (simp add: getTailIndex_def)
  have "\<exists>G c ys. crq_rep h H G c ys" using segs_first [OF s(4) [unfolded a(2)]] by metis
  then have head: "getHeadIndex h = of_nat H" using crq_rep_facts(2) by (fastforce simp: getHeadIndex_def)
  have sz: "(if (of_nat F :: u64) > of_nat H then of_nat F - of_nat H else 0) = (of_nat (length xs) :: u64)"
    using b low_less [OF lH lF] by (auto simp: of_nat_diff)
  let ?q = "q\<lparr>lrq_hp := hp_wipe tid (hp_put tid lrq_kHpTail l (hp_put tid lrq_kHpHead a (lrq_hp q)))\<rparr>"
  have "lrq_estimateSize tid q = Some (of_nat (length xs), ?q)"
    using heap nz ends tid mem_ok_facts(5) [OF s(5)] by (simp add: lrq_estimateSize_def lrq_hp_ok Let_def tail head sz)
  moreover have "lrq_shape ?q as ns H F xs" by (rule lrq_clear_shape [OF sh]) simp_all
  ultimately show ?thesis using bound unfolding lrq_rep_def by blast
qed

lemma lrq_rep_nonzero: "lrq_rep i q xs \<Longrightarrow> 0 \<notin> set xs"
  using segs_bounds by (auto simp: lrq_rep_def lrq_shape_def)

lemma lrq_drain_ok:
  "lrq_rep (Suc (length xs)) q xs \<Longrightarrow> length xs < fuel \<Longrightarrow> \<exists>q'. lrq_drain fuel q = Some q' \<and> lrq_rep 0 q' []"
proof (induction xs arbitrary: q fuel)
  case Nil
  obtain q' where "lrq_dequeue 2 1 0 q = Some (0, q')" "lrq_rep 0 q' []"
    using lrq_dequeue_none [of 0 q 0 1 0] Nil(1) by (auto simp: HP_MAX_THREADS_def numeral_2_eq_2)
  then show ?case using Nil by (cases fuel) auto
next
  case (Cons x xs)
  obtain q' where "lrq_dequeue 2 1 0 q = Some (x, q')" "lrq_rep (Suc (length xs)) q' xs"
    using lrq_dequeue_some [of "Suc (length xs)" q x xs 0 0 0] Cons.prems(1) by (auto simp: HP_MAX_THREADS_def numeral_2_eq_2)
  moreover have "x \<noteq> 0" using lrq_rep_nonzero [OF Cons.prems(1)] by auto
  ultimately show ?case using Cons.IH [of q'] Cons.prems by (cases fuel) auto
qed

lemma lrq_destroy_ok:
  assumes "lrq_rep (Suc (length xs)) q xs" and "length xs < fuel"
  shows "lrq_destroy fuel q = Some Map.empty"
proof -
  obtain q' where q': "lrq_drain fuel q = Some q'" "lrq_rep 0 q' []" using lrq_drain_ok [OF assms] by blast
  then obtain as ns H F where sh: "lrq_shape q' as ns H F []" by (auto simp: lrq_rep_def)
  note s = lrq_shape_facts [OF sh]
  obtain a bs n ms where as: "as = a # bs" and ns: "ns = n # ms" using seg_length [OF s(1)] by (cases as; cases ns) auto
  have "ms = []"
  proof (rule ccontr)
    assume "ms \<noteq> []"
    then obtain G zs where "segs True ms G F zs" "zs = []" using s(4) ns by (auto simp: segs_Cons)
    moreover obtain k ks where "ms = k # ks" using \<open>ms \<noteq> []\<close> by (cases ms) auto
    ultimately show False using segs_first [of True k ks G F zs] by (metis append_is_Nil_conv)
  qed
  then have "as = [lrq_head q']" using seg_length [OF s(1)] s(2) as ns by (cases bs) auto
  then have "mem_ok (lrq_heap q') (lrq_hp q') [lrq_head q']" using s(5) by simp
  then show ?thesis using q' mem_ok_destroy by (simp add: lrq_destroy_def del: free_all.simps)
qed

interpretation lcrq: linked_fifo lrq_push lrq_pop lrq_rep "\<lambda>a q. fresh_addr a (lrq_heap q)" "\<lambda>x. x \<noteq> 0" "\<lambda>t. t < HP_MAX_THREADS"
proof unfold_locales
  fix n q x xs a t
  show "lrq_rep (Suc n) q xs \<Longrightarrow> fresh_addr a (lrq_heap q) \<Longrightarrow> x \<noteq> 0 \<Longrightarrow> t < HP_MAX_THREADS \<Longrightarrow> \<exists>q'. lrq_push a t x q = Some q' \<and> lrq_rep n q' (xs @ [x])"
    using lrq_enqueue_appends [of n q xs a x t 0 0] by (simp add: lrq_push_def)
  show "t < HP_MAX_THREADS \<Longrightarrow> lrq_rep (Suc n) q [] \<Longrightarrow> \<exists>q'. lrq_pop t q = Some (None, q') \<and> lrq_rep n q' []"
    using lrq_dequeue_none [of n q t 1 0] by (auto simp: lrq_pop_def numeral_2_eq_2)
  show "t < HP_MAX_THREADS \<Longrightarrow> lrq_rep (Suc n) q (x # xs) \<Longrightarrow> \<exists>q'. lrq_pop t q = Some (Some x, q') \<and> lrq_rep n q' xs"
    using lrq_dequeue_some [of n q x xs t 0 0] lrq_rep_nonzero [of "Suc n" q "x # xs"] by (auto simp: lrq_pop_def numeral_2_eq_2)
  show "lrq_rep n q xs \<Longrightarrow> \<exists>a. fresh_addr a (lrq_heap q)"
    by (auto simp: lrq_rep_def lrq_shape_def dest: mem_ok_next_addr)
qed

end
