(* ===== verification/Linked_Props.thy ===== *)
theory Linked_Props
  imports Michael_Scott FAA_Array Lcrq_Queue
begin

text \<open>
  The properties of the hazard pointers and of the linked queues built on them.
\<close>

section \<open>Hazard pointers\<close>

text \<open>
  C34: \<^verbatim>\<open>retire\<close> returns when the number of threads and of slots given to the constructor fit the arrays. When it
  returns, then whatever the other threads store during the call, it neither loses nor duplicates a
  retired object, deletes only objects that no slot held when they were examined, never an object that a slot
  of a scanned thread holds throughout the call, and keeps only objects that some slot held. With more than
  \<^verbatim>\<open>HP_MAX_THREADS\<close> threads, which the constructor accepts, the scan reads outside the array as soon as the first
  object is in no row of it.
\<close>

theorem retire_spares_held_objects:
  "(maxThreads h \<le> HP_MAX_THREADS \<and> maxHPs h \<le> 2 * CLPAD \<and> tid < HP_MAX_THREADS \<longrightarrow> retire seen ptr tid h \<noteq> None)
    \<and> (HP_MAX_THREADS < maxThreads h \<and> 0 < maxHPs h \<and> maxHPs h \<le> 2 * CLPAD
        \<and> \<not> held (seen 0) (maxHPs h) HP_MAX_THREADS ((retiredList h (tid * CLPAD) @ [ptr]) ! 0) \<longrightarrow> retire seen ptr tid h = None)
    \<and> (\<forall>ds h'. retire seen ptr tid h = Some (ds, h') \<longrightarrow>
          mset (retiredList h (tid * CLPAD)) + {#ptr#} = mset ds + mset (retiredList h' (tid * CLPAD))
        \<and> (\<forall>x \<in> set ds. \<exists>k. \<not> held (seen k) (maxHPs h) (maxThreads h) x)
        \<and> (\<forall>x \<in> set (retiredList h' (tid * CLPAD)). \<exists>k. held (seen k) (maxHPs h) (maxThreads h) x)
        \<and> (\<forall>x t i. t < maxThreads h \<longrightarrow> i < maxHPs h \<longrightarrow> (\<forall>k. seen k t i = x) \<longrightarrow> x \<notin> set ds))"
proof (intro conjI allI impI; (elim conjE)?)
  show "maxThreads h \<le> HP_MAX_THREADS \<Longrightarrow> maxHPs h \<le> 2 * CLPAD \<Longrightarrow> tid < HP_MAX_THREADS \<Longrightarrow> retire seen ptr tid h \<noteq> None"
    by (rule retire_defined) (simp_all add: hp_fits_def)
  show "HP_MAX_THREADS < maxThreads h \<Longrightarrow> 0 < maxHPs h \<Longrightarrow> maxHPs h \<le> 2 * CLPAD
      \<Longrightarrow> \<not> held (seen 0) (maxHPs h) HP_MAX_THREADS ((retiredList h (tid * CLPAD) @ [ptr]) ! 0) \<Longrightarrow> retire seen ptr tid h = None"
    by (rule retire_overruns)
next
  fix ds h' assume ret: "retire seen ptr tid h = Some (ds, h')"
  obtain ks where h': "h' = h\<lparr>retiredList := (retiredList h)(tid * CLPAD := ks)\<rparr>"
    and ms: "mset (retiredList h (tid * CLPAD)) + {#ptr#} = mset ds + mset ks"
    and sorted: "sort_out (\<lambda>n. held (seen n) (maxHPs h) (maxThreads h)) 0 (retiredList h (tid * CLPAD) @ [ptr]) = (ds, ks)"
    by (rule retire_result [OF ret])
  have gone: "\<exists>k. \<not> held (seen k) (maxHPs h) (maxThreads h) x" if "x \<in> set ds" for x
    using sort_out_verdicts(2) [OF sorted that] by blast
  show "mset (retiredList h (tid * CLPAD)) + {#ptr#} = mset ds + mset (retiredList h' (tid * CLPAD))" using ms h' by simp
  show "\<forall>x \<in> set ds. \<exists>k. \<not> held (seen k) (maxHPs h) (maxThreads h) x" using gone by blast
  show "\<forall>x \<in> set (retiredList h' (tid * CLPAD)). \<exists>k. held (seen k) (maxHPs h) (maxThreads h) x"
    using sort_out_verdicts(1) [OF sorted] h' by auto
  show "x \<notin> set ds" if "t < maxThreads h" "i < maxHPs h" "\<forall>k. seen k t i = x" for x t i
    using gone that by (auto simp: held_def)
qed

theorem retire_spares_held_objects_witness:
  "(\<lambda>h. \<exists>ds h'. retire (\<lambda>k. hp h) 9 0 h = Some (ds, h') \<and> mset ds + mset (retiredList h' 0) = {#7, 9#} \<and> 9 \<notin> set ds)
     ((hp_put 1 0 9 (hp_new 1 2))\<lparr>retiredList := (\<lambda>i. [])(0 := [7])\<rparr>)
   \<and> retire (\<lambda>k t i. 0) 9 0 (hp_new 1 256) = None"
proof -
  let ?h = "(hp_put 1 0 9 (hp_new 1 2))\<lparr>retiredList := (\<lambda>i. [])(0 := [7])\<rparr>"
  have f: "hp ?h 1 0 = 9" "maxHPs ?h = 1" "maxThreads ?h = 2" "retiredList ?h 0 = [7]" by (simp_all add: hp_put_def hp_new_def)
  note c = HP_MAX_THREADS_def CLPAD_def
  obtain ds h' where r: "retire (\<lambda>k. hp ?h) 9 0 ?h = Some (ds, h')"
    using retire_spares_held_objects [of ?h 0 "\<lambda>k. hp ?h" 9] f(2,3) by (auto simp: c)
  note laws = retire_spares_held_objects [of ?h 0 "\<lambda>k. hp ?h" 9, THEN conjunct2, THEN conjunct2, rule_format, OF r]
  have "9 \<notin> set ds" using laws f(1,2,3) by (metis less_numeral_extra(1) one_less_numeral_iff semiring_norm(76))
  moreover have "mset ds + mset (retiredList h' 0) = {#7, 9#}" using laws f(4) by (simp add: add_mset_commute)
  moreover have "retire (\<lambda>k t i. 0) 9 0 (hp_new 1 256) = None"
    using retire_spares_held_objects [of "hp_new 1 256" 0 "\<lambda>k t i. 0" 9] by (simp add: hp_new_def c held_def)
  ultimately show ?thesis using r by blast
qed

text \<open>
  C35: the memory that waits for deletion is bounded: when no thread changes a slot during the call and the
  objects retired by the calling thread are distinct, then after \<^verbatim>\<open>retire\<close> at most as many objects stay on the
  list of the calling thread as there are slots.
\<close>

theorem retired_lists_bounded:
  assumes ret: "retire (\<lambda>_. hp h) ptr tid h = Some (ds, h')" and dist: "distinct (retiredList h (tid * CLPAD) @ [ptr])"
  shows "length (retiredList h' (tid * CLPAD)) \<le> maxThreads h * maxHPs h"
proof -
  obtain ks where h': "h' = h\<lparr>retiredList := (retiredList h)(tid * CLPAD := ks)\<rparr>"
    and ms: "mset (retiredList h (tid * CLPAD)) + {#ptr#} = mset ds + mset ks"
    and sorted: "sort_out (\<lambda>n. held (hp h) (maxHPs h) (maxThreads h)) 0 (retiredList h (tid * CLPAD) @ [ptr]) = (ds, ks)"
    by (rule retire_result [OF ret])
  have "mset (ds @ ks) = mset (retiredList h (tid * CLPAD) @ [ptr])" using ms by simp
  then have "distinct ks" using dist mset_eq_imp_distinct_iff by (metis distinct_append)
  moreover have "set ks \<subseteq> {x. held (hp h) (maxHPs h) (maxThreads h) x}" using sort_out_verdicts(1) [OF sorted] by blast
  ultimately have "length ks \<le> card {x. held (hp h) (maxHPs h) (maxThreads h) x}"
    by (metis card_mono distinct_card held_bound)
  also have "\<dots> \<le> maxThreads h * maxHPs h" using held_bound by blast
  finally show ?thesis using h' by simp
qed

theorem retired_lists_bounded_witness:
  "(\<lambda>h. \<exists>ds h'. retire (\<lambda>_. hp h) 9 0 h = Some (ds, h') \<and> length (retiredList h' 0) \<le> 2 * 1)
     ((hp_put 1 0 9 (hp_new 1 2))\<lparr>retiredList := (\<lambda>i. [])(0 := [5, 6, 7])\<rparr>)"
proof -
  let ?h = "(hp_put 1 0 9 (hp_new 1 2))\<lparr>retiredList := (\<lambda>i. [])(0 := [5, 6, 7])\<rparr>"
  have "hp_fits ?h" "0 < HP_MAX_THREADS" by (simp_all add: hp_fits_def hp_new_def HP_MAX_THREADS_def CLPAD_def)
  then obtain ds h' where r: "retire (\<lambda>_. hp ?h) 9 0 ?h = Some (ds, h')" using retire_defined by fast
  then have "length (retiredList h' (0 * CLPAD)) \<le> maxThreads ?h * maxHPs ?h"
    by (rule retired_lists_bounded) simp
  then show ?thesis using r by (auto simp: hp_new_def)
qed

section \<open>Linked queues\<close>

lemma few_threads: "0 < HP_MAX_THREADS" "Suc 0 < HP_MAX_THREADS" "1 < HP_MAX_THREADS" "2 < HP_MAX_THREADS" "3 < HP_MAX_THREADS"
  "4 \<le> HP_MAX_THREADS"
  by (simp_all add: HP_MAX_THREADS_def)

text \<open>
  C36: on a new Michael-Scott queue for at most 192 threads (the rows of the hazard pointers), every sequence of pushes
  of non-null values and pops by any threads with numbers below 192
  returns what a list would return, without touching a node that has been deleted or reading outside the arrays of the hazard
  pointers, whatever fresh addresses the allocator returns; afterwards the size estimate is exact, and the destructor leaves no node allocated.
\<close>

theorem michael_scott_refines_list:
  assumes "a \<noteq> 0" and "ms.acceptable ops" and "ms.allocates new" and "length (snd (spec_run ops [])) < fuel"
    and threads: "threads \<le> HP_MAX_THREADS" and tid: "tid < HP_MAX_THREADS"
  shows "\<exists>q. ms.lrun new ops (ms_new a threads) = Some (fst (spec_run ops []), q)
    \<and> map_option fst (ms_estimateSize tid q) = Some (of_nat (length (snd (spec_run ops []))))
    \<and> ms_destroy fuel q = Some Map.empty"
proof -
  obtain q where "ms.lrun new ops (ms_new a threads) = Some (fst (spec_run ops []), q)" and q: "ms_rep q (snd (spec_run ops []))"
    using ms.lrun_refines [OF ms_rep_new [OF assms(1) threads] assms(2,3)] by blast
  moreover have "map_option fst (ms_estimateSize tid q) = Some (of_nat (length (snd (spec_run ops []))))"
    using ms_estimateSize_exact [OF q tid] by auto
  moreover have "ms_destroy fuel q = Some Map.empty" by (rule ms_destroy_ok [OF q assms(4)])
  ultimately show ?thesis by blast
qed

theorem michael_scott_refines_list_witness:
  "\<exists>q. ms.lrun (\<lambda>q. next_addr (ms_heap q)) [Deq 0, Enq 0 5, Enq 1 7, Deq 2, Enq 1 8] (ms_new 1 4) = Some ([None, Some 5], q)
     \<and> map_option fst (ms_estimateSize 3 q) = Some 2 \<and> ms_destroy 3 q = Some Map.empty"
proof -
  have "ms.allocates (\<lambda>q. next_addr (ms_heap q))"
    using mem_ok_next_addr by (auto simp: ms.allocates_def ms_rep_def ms_shape_def)
  moreover have acc: "ms.acceptable [Deq 0, Enq 0 5, Enq 1 7, Deq 2, Enq 1 8]" using few_threads by simp
  ultimately show ?thesis
    using michael_scott_refines_list [OF _ acc, of 1 "\<lambda>q. next_addr (ms_heap q)" 3 4 3] few_threads
    by (simp del: ms.lrun.simps)
qed

text \<open>
  C37: on a new array queue for at most 192 threads, every sequence of pushes of non-null values and pops by threads
  with numbers below 192 returns what a list would return, across the ends of the nodes' arrays and without touching a
  node that has been deleted or reading outside the arrays of the hazard pointers; the destructor
  leaves no node allocated.
\<close>

theorem faa_array_queue_refines_list:
  assumes "a \<noteq> 0" and "faa.acceptable ops" and "faa.allocates new" and "length (snd (spec_run ops [])) < fuel"
    and threads: "threads \<le> HP_MAX_THREADS"
  shows "\<exists>q. faa.lrun new ops (faa_new a threads mark) = Some (fst (spec_run ops []), q) \<and> faa_destroy fuel q = Some Map.empty"
proof -
  obtain q where "faa.lrun new ops (faa_new a threads mark) = Some (fst (spec_run ops []), q)" and q: "faa_rep q (snd (spec_run ops []))"
    using faa.lrun_refines [OF faa_rep_new [OF assms(1) threads] assms(2,3)] by blast
  moreover have "faa_destroy fuel q = Some Map.empty" by (rule faa_destroy_ok [OF q assms(4)])
  ultimately show ?thesis by blast
qed

theorem faa_array_queue_refines_list_witness:
  "\<exists>q. faa.lrun (\<lambda>q. next_addr (faa_heap q)) [Deq 0, Enq 0 5, Enq 1 7, Deq 2, Enq 1 8] (faa_new 1 4 99) = Some ([None, Some 5], q)
     \<and> faa_destroy 3 q = Some Map.empty"
proof -
  have "faa.allocates (\<lambda>q. next_addr (faa_heap q))"
    using mem_ok_next_addr by (auto simp: faa.allocates_def faa_rep_def faa_shape_def)
  moreover have acc: "faa.acceptable [Deq 0, Enq 0 5, Enq 1 7, Deq 2, Enq 1 8]" using few_threads by simp
  ultimately show ?thesis
    using faa_array_queue_refines_list [OF _ acc, of 1 "\<lambda>q. next_addr (faa_heap q)" 3 4 99] few_threads
    by (simp del: faa.lrun.simps)
qed




end
