(* ===== verification/Concurrent_Fifo.thy ===== *)
theory Concurrent_Fifo
  imports Fifo_Spec Lock_Fifo
begin

text \<open>
  \<^verbatim>\<open>concurrent_fifo.h\<close>: a ring whose slots carry an epoch. A push claims the next ticket by advancing the
  head, waits until its slot has been emptied by the pop of the previous round, stores its value and marks the
  slot as written; a pop claims the next ticket of the tail, waits for the mark, reads the value and hands the
  slot to the next round. The model has one step for each access to shared memory: a thread is at one of the
  program points of \<^verbatim>\<open>push\<close> or \<^verbatim>\<open>pop\<close>, and a schedule says which thread moves next. The compare-exchange is
  the weak one and may fail for no reason. The ghost fields of the state record the claimed tickets and the
  values, and are never read by a step.
\<close>

section \<open>The operations as steps\<close>

record 'a cf_slot =
  cf_value :: 'a
  cf_epoch :: u64

record 'a concurrent_fifo =
  cf_buffer :: "'a cf_slot list"
  cf_head :: u64
  cf_tail :: u64
  cf_capacity :: u64

definition slot_to_epoch :: "u64 \<Rightarrow> bool \<Rightarrow> u64" where
  "slot_to_epoch index written = (index AND NOT (push_bit 63 1)) OR push_bit 63 (of_bool written)"

definition concurrent_fifo_new :: "'a::zero itself \<Rightarrow> u64 \<Rightarrow> (fifo_error + 'a concurrent_fifo) option" where
  "concurrent_fifo_new _ capacity = (case is_po2 capacity of
       None \<Rightarrow> None
     | Some False \<Rightarrow> Some (Inl Not_power_of_two)
     | Some True \<Rightarrow> Some (Inr
         \<lparr>cf_buffer = map (\<lambda>i. \<lparr>cf_value = 0, cf_epoch = slot_to_epoch (of_nat i) False\<rparr>) [0..<unat capacity],
          cf_head = 0, cf_tail = 0, cf_capacity = capacity\<rparr>))"

text \<open>The program points, each with the local variables that are live there.\<close>

datatype 'a cf_phase = Idle
  | Push_check 'a u64 | Push_cas 'a u64 | Push_wait 'a u64 | Push_store 'a u64 | Push_publish 'a u64
  | Pop_check u64 | Pop_cas u64 | Pop_wait u64 | Pop_read u64 | Pop_release u64 'a

record 'a cf_state =
  cf_queue :: "'a concurrent_fifo"
  cf_phase_of :: "nat \<Rightarrow> 'a cf_phase"
  cf_ret :: "(nat \<times> 'a fifo_res) list"
  cf_log :: "'a list"
  cf_pops :: nat
  cf_ticket :: "nat \<Rightarrow> nat"
  cf_gen :: "nat \<Rightarrow> nat \<times> bool"
  cf_out :: "(nat \<times> 'a) list"

definition cf_goto :: "nat \<Rightarrow> 'a cf_phase \<Rightarrow> 'a cf_state \<Rightarrow> 'a cf_state" where
  "cf_goto th p st = st\<lparr>cf_phase_of := (cf_phase_of st)(th := p)\<rparr>"

definition cf_return :: "nat \<Rightarrow> 'a fifo_res \<Rightarrow> 'a cf_state \<Rightarrow> 'a cf_state" where
  "cf_return th r st = cf_goto th Idle (st\<lparr>cf_ret := cf_ret st @ [(th, r)]\<rparr>)"

definition cf_index :: "u64 \<Rightarrow> 'a concurrent_fifo \<Rightarrow> nat" where
  "cf_index slot q = unat (modulo_po2 slot (cf_capacity q))"

definition cf_put :: "nat \<Rightarrow> 'a cf_slot \<Rightarrow> 'a cf_state \<Rightarrow> 'a cf_state" where
  "cf_put i s st = st\<lparr>cf_queue := (cf_queue st)\<lparr>cf_buffer := (cf_buffer (cf_queue st))[i := s]\<rparr>\<rparr>"

definition cf_step :: "bool \<Rightarrow> nat \<Rightarrow> 'a cf_state \<Rightarrow> 'a cf_state" where
  "cf_step spurious th st =
     (let q = cf_queue st in
      case cf_phase_of st th of
        Idle \<Rightarrow> st
      | Push_check t slot \<Rightarrow>
          if slot - cf_tail q \<ge> cf_capacity q then cf_return th (Pushed False) st else cf_goto th (Push_cas t slot) st
      | Push_cas t slot \<Rightarrow>
          if cf_head q = slot \<and> \<not> spurious
          then cf_goto th (Push_wait t slot)
                 (st\<lparr>cf_queue := q\<lparr>cf_head := slot + 1\<rparr>, cf_log := cf_log st @ [t], cf_ticket := (cf_ticket st)(th := length (cf_log st))\<rparr>)
          else cf_goto th (Push_check t (cf_head q)) st
      | Push_wait t slot \<Rightarrow>
          if cf_epoch (cf_buffer q ! cf_index slot q) \<noteq> slot_to_epoch slot False then st else cf_goto th (Push_store t slot) st
      | Push_store t slot \<Rightarrow>
          let i = cf_index slot q in cf_goto th (Push_publish t slot) (cf_put i ((cf_buffer q ! i)\<lparr>cf_value := t\<rparr>) st)
      | Push_publish t slot \<Rightarrow>
          let i = cf_index slot q
          in cf_return th (Pushed True) (cf_put i ((cf_buffer q ! i)\<lparr>cf_epoch := slot_to_epoch slot True\<rparr>)
               (st\<lparr>cf_gen := (cf_gen st)(i := (fst (cf_gen st i), True))\<rparr>))
      | Pop_check slot \<Rightarrow>
          if slot = cf_head q then cf_return th (Popped None) st else cf_goto th (Pop_cas slot) st
      | Pop_cas slot \<Rightarrow>
          if cf_tail q = slot \<and> \<not> spurious
          then cf_goto th (Pop_wait slot)
                 (st\<lparr>cf_queue := q\<lparr>cf_tail := slot + 1\<rparr>, cf_pops := Suc (cf_pops st), cf_ticket := (cf_ticket st)(th := cf_pops st)\<rparr>)
          else cf_goto th (Pop_check (cf_tail q)) st
      | Pop_wait slot \<Rightarrow>
          if cf_epoch (cf_buffer q ! cf_index slot q) \<noteq> slot_to_epoch slot True then st else cf_goto th (Pop_read slot) st
      | Pop_read slot \<Rightarrow> cf_goto th (Pop_release slot (cf_value (cf_buffer q ! cf_index slot q))) st
      | Pop_release slot v \<Rightarrow>
          let i = cf_index slot q
          in cf_return th (Popped (Some v)) (cf_put i ((cf_buffer q ! i)\<lparr>cf_epoch := slot_to_epoch (slot + cf_capacity q) False\<rparr>)
               (st\<lparr>cf_gen := (cf_gen st)(i := (fst (cf_gen st i) + unat (cf_capacity q), False)), cf_out := cf_out st @ [(cf_ticket st th, v)]\<rparr>)))"

text \<open>A schedule: an idle thread calls an operation, whose first access is a load, or a thread moves.\<close>

datatype 'a cf_action = Call_push nat 'a | Call_pop nat | Move nat bool

fun cf_act :: "'a cf_action \<Rightarrow> 'a cf_state \<Rightarrow> 'a cf_state" where
  "cf_act (Call_push th t) st =
     (if cf_phase_of st th = Idle then cf_goto th (Push_check t (cf_head (cf_queue st))) st else st)"
| "cf_act (Call_pop th) st =
     (if cf_phase_of st th = Idle then cf_goto th (Pop_check (cf_tail (cf_queue st))) st else st)"
| "cf_act (Move th spurious) st = cf_step spurious th st"

definition cf_init :: "'a concurrent_fifo \<Rightarrow> 'a cf_state" where
  "cf_init q = \<lparr>cf_queue = q, cf_phase_of = (\<lambda>th. Idle), cf_ret = [], cf_log = [], cf_pops = 0, cf_ticket = (\<lambda>th. 0),
     cf_gen = (\<lambda>i. (i, False)), cf_out = []\<rparr>"

fun cf_run :: "'a cf_action list \<Rightarrow> 'a cf_state \<Rightarrow> 'a cf_state" where
  "cf_run [] st = st"
| "cf_run (a # as) st = cf_run as (cf_act a st)"

section \<open>Epochs\<close>

lemma slot_to_epoch_bits:
  assumes "n < 64"
  shows "bit (slot_to_epoch w b) n = (if n = 63 then b else bit w n)"
proof -
  have top: "bit (push_bit 63 v :: u64) n \<longleftrightarrow> n = 63 \<and> bit v 0" for v
    unfolding bit_push_bit_iff using assms by (cases "n = 63") auto
  show ?thesis using assms unfolding slot_to_epoch_def bit_or_iff bit_and_iff bit_not_iff top by (cases "n = 63") auto
qed

lemma slot_to_epoch_eq:
  assumes "m < 2 ^ 63" and "n < 2 ^ 63"
  shows "slot_to_epoch (of_nat m) a = slot_to_epoch (of_nat n) b \<longleftrightarrow> m = n \<and> a = b"
proof
  assume eq: "slot_to_epoch (of_nat m) a = slot_to_epoch (of_nat n) b"
  have ab: "a = b" using arg_cong [OF eq, of "\<lambda>w. bit w 63"] by (simp add: slot_to_epoch_bits)
  have hi: "\<not> bit (of_nat k :: u64) 63" if "k < 2 ^ 63" for k
    unfolding bit_of_nat_iff using div_less [OF that] by (auto simp: bit_iff_odd simp del: div_less)
  have "(of_nat m :: u64) = of_nat n"
  proof (rule bit_word_eqI)
    fix i assume "i < LENGTH(64)"
    then show "bit (of_nat m :: u64) i = bit (of_nat n :: u64) i"
      using arg_cong [OF eq, of "\<lambda>w. bit w i"] hi [OF assms(1)] hi [OF assms(2)]
      by (cases "i = 63") (simp_all add: slot_to_epoch_bits)
  qed
  then have "unat (of_nat m :: u64) = unat (of_nat n :: u64)" by simp
  then have "m = n" using assms by (simp add: unat_of_nat take_bit_eq_mod)
  then show "m = n \<and> a = b" using ab by simp
qed simp


section \<open>The invariant\<close>

definition cap_of :: "'a cf_state \<Rightarrow> nat" where
  "cap_of st = unat (cf_capacity (cf_queue st))"

abbreviation pushed_of :: "'a cf_state \<Rightarrow> nat" where
  "pushed_of st \<equiv> length (cf_log st)"

definition ring_ok :: "'a cf_state \<Rightarrow> bool" where
  "ring_ok st \<longleftrightarrow> is_pow2 (cap_of st) \<and> length (cf_buffer (cf_queue st)) = cap_of st
     \<and> cf_head (cf_queue st) = of_nat (pushed_of st) \<and> cf_tail (cf_queue st) = of_nat (cf_pops st)
     \<and> cf_pops st \<le> pushed_of st \<and> pushed_of st \<le> cf_pops st + cap_of st \<and> pushed_of st + cap_of st \<le> 2 ^ 63"

text \<open>A slot is in the round of one ticket, and holds the value of that ticket once it is written.\<close>

definition slot_ok :: "'a cf_state \<Rightarrow> nat \<Rightarrow> bool" where
  "slot_ok st i \<longleftrightarrow> fst (cf_gen st i) mod cap_of st = i \<and> fst (cf_gen st i) < cf_pops st + cap_of st
     \<and> cf_epoch (cf_buffer (cf_queue st) ! i) = slot_to_epoch (of_nat (fst (cf_gen st i))) (snd (cf_gen st i))
     \<and> (snd (cf_gen st i) \<longrightarrow> fst (cf_gen st i) < pushed_of st \<and> cf_value (cf_buffer (cf_queue st) ! i) = cf_log st ! fst (cf_gen st i))"

fun pushing :: "'a cf_phase \<Rightarrow> bool" where
  "pushing (Push_wait t s) = True" | "pushing (Push_store t s) = True" | "pushing (Push_publish t s) = True" | "pushing _ = False"

fun popping :: "'a cf_phase \<Rightarrow> bool" where
  "popping (Pop_wait s) = True" | "popping (Pop_read s) = True" | "popping (Pop_release s v) = True" | "popping _ = False"

definition gen_of :: "'a cf_state \<Rightarrow> nat \<Rightarrow> nat \<times> bool" where
  "gen_of st k = cf_gen st (k mod cap_of st)"

definition push_at :: "'a cf_state \<Rightarrow> nat \<Rightarrow> 'a \<Rightarrow> u64 \<Rightarrow> bool" where
  "push_at st k t s \<longleftrightarrow> s = of_nat k \<and> k < pushed_of st \<and> t = cf_log st ! k"

definition pop_at :: "'a cf_state \<Rightarrow> nat \<Rightarrow> u64 \<Rightarrow> bool" where
  "pop_at st k s \<longleftrightarrow> s = of_nat k \<and> k < cf_pops st"

text \<open>What a thread with ticket \<open>k\<close> knows at each program point.\<close>

fun local_ok :: "'a cf_state \<Rightarrow> nat \<Rightarrow> 'a cf_phase \<Rightarrow> bool" where
  "local_ok st k Idle = True"
| "local_ok st k (Push_check t s) = (unat s \<le> pushed_of st)"
| "local_ok st k (Push_cas t s) = (unat s \<le> pushed_of st \<and> unat s < cf_pops st + cap_of st)"
| "local_ok st k (Push_wait t s) = (push_at st k t s \<and> fst (gen_of st k) \<le> k \<and> gen_of st k \<noteq> (k, True))"
| "local_ok st k (Push_store t s) = (push_at st k t s \<and> gen_of st k = (k, False))"
| "local_ok st k (Push_publish t s) = (push_at st k t s \<and> gen_of st k = (k, False) \<and> cf_value (cf_buffer (cf_queue st) ! (k mod cap_of st)) = t)"
| "local_ok st k (Pop_check s) = (unat s \<le> cf_pops st)"
| "local_ok st k (Pop_cas s) = (unat s \<le> cf_pops st \<and> unat s < pushed_of st)"
| "local_ok st k (Pop_wait s) = (pop_at st k s \<and> fst (gen_of st k) \<le> k)"
| "local_ok st k (Pop_read s) = (pop_at st k s \<and> gen_of st k = (k, True))"
| "local_ok st k (Pop_release s v) = (pop_at st k s \<and> gen_of st k = (k, True) \<and> v = cf_log st ! k)"

definition claims_ok :: "'a cf_state \<Rightarrow> bool" where
  "claims_ok st \<longleftrightarrow>
     (\<forall>th th'. cf_ticket st th = cf_ticket st th' \<longrightarrow> pushing (cf_phase_of st th) \<longrightarrow> pushing (cf_phase_of st th') \<longrightarrow> th = th')
   \<and> (\<forall>th th'. cf_ticket st th = cf_ticket st th' \<longrightarrow> popping (cf_phase_of st th) \<longrightarrow> popping (cf_phase_of st th') \<longrightarrow> th = th')
   \<and> (\<forall>k < pushed_of st. (\<exists>th. pushing (cf_phase_of st th) \<and> cf_ticket st th = k) \<or> k < fst (gen_of st k) \<or> gen_of st k = (k, True))
   \<and> (\<forall>k < cf_pops st. (\<exists>th. popping (cf_phase_of st th) \<and> cf_ticket st th = k) \<or> k \<in> fst ` set (cf_out st))"

definition out_ok :: "'a cf_state \<Rightarrow> bool" where
  "out_ok st \<longleftrightarrow> distinct (map fst (cf_out st))
     \<and> (\<forall>(k, v) \<in> set (cf_out st). k < cf_pops st \<and> v = cf_log st ! k \<and> k < fst (gen_of st k))"

definition cf_inv :: "'a cf_state \<Rightarrow> bool" where
  "cf_inv st \<longleftrightarrow> ring_ok st \<and> (\<forall>i < cap_of st. slot_ok st i) \<and> (\<forall>th. local_ok st (cf_ticket st th) (cf_phase_of st th))
     \<and> claims_ok st \<and> out_ok st"

lemmas cf_update_simps = cf_goto_def cf_return_def cf_put_def cap_of_def gen_of_def

lemma cf_inv_facts:
  assumes "cf_inv st"
  shows "ring_ok st" and "i < cap_of st \<Longrightarrow> slot_ok st i" and "local_ok st (cf_ticket st th) (cf_phase_of st th)"
    and "claims_ok st" and "out_ok st" and "0 < cap_of st"
  using assms unfolding cf_inv_def ring_ok_def by (blast dest: is_pow2_pos)+

lemma cf_index_of_nat:
  assumes "ring_ok st" and "k < 2 ^ 63"
  shows "cf_index (of_nat k) (cf_queue st) = k mod cap_of st"
proof -
  have "unat (of_nat k :: u64) = k" using assms(2) by (simp add: unat_of_nat take_bit_eq_mod)
  then show ?thesis using assms(1) modulo_po2_nat [of "cf_capacity (cf_queue st)" _ "of_nat k"]
    by (auto simp: cf_index_def ring_ok_def is_pow2_def cap_of_def)
qed

lemma pushed_small: "ring_ok st \<Longrightarrow> k < pushed_of st \<Longrightarrow> k < 2 ^ 63 \<and> k + cap_of st < 2 ^ 63"
  by (auto simp: ring_ok_def)

section \<open>Steps that only move a thread\<close>

lemma local_ok_goto [simp]: "local_ok (cf_goto th p st) k ph = local_ok st k ph"
  by (cases ph) (simp_all add: cf_update_simps push_at_def pop_at_def)

lemma goto_inv:
  assumes inv: "cf_inv st" and loc: "local_ok st (cf_ticket st th) p"
    and same: "pushing p = pushing (cf_phase_of st th)" "popping p = popping (cf_phase_of st th)"
  shows "cf_inv (cf_goto th p st)"
proof -
  have ph: "pushing (cf_phase_of (cf_goto th p st) u) = pushing (cf_phase_of st u)"
    "popping (cf_phase_of (cf_goto th p st) u) = popping (cf_phase_of st u)" for u
    using same by (simp_all add: cf_goto_def)
  have fields: "cf_ticket (cf_goto th p st) = cf_ticket st" "cf_log (cf_goto th p st) = cf_log st" "cf_pops (cf_goto th p st) = cf_pops st"
    "cf_out (cf_goto th p st) = cf_out st" "gen_of (cf_goto th p st) = gen_of st"
    by (auto simp: cf_goto_def gen_of_def cap_of_def)
  have "claims_ok (cf_goto th p st)"
    using cf_inv_facts(4) [OF inv] unfolding claims_ok_def ph fields .
  moreover have "local_ok st (cf_ticket st u) (cf_phase_of (cf_goto th p st) u)" for u
    using cf_inv_facts(3) [OF inv, of u] loc by (simp add: cf_goto_def)
  moreover have "cf_ticket (cf_goto th p st) = cf_ticket st" by (simp add: cf_goto_def)
  moreover have "ring_ok (cf_goto th p st)" using cf_inv_facts(1) [OF inv] by (simp add: ring_ok_def cf_goto_def cap_of_def)
  moreover have "out_ok (cf_goto th p st)" using cf_inv_facts(5) [OF inv] by (simp add: out_ok_def cf_goto_def gen_of_def cap_of_def)
  moreover have "cap_of (cf_goto th p st) = cap_of st" "slot_ok (cf_goto th p st) i = slot_ok st i" for i
    by (simp_all add: slot_ok_def cf_goto_def cap_of_def)
  ultimately show ?thesis using cf_inv_facts(2) [OF inv] by (simp add: cf_inv_def)
qed

lemma ret_inv: "cf_inv (st\<lparr>cf_ret := r\<rparr>) = cf_inv st"
proof -
  have "local_ok (st\<lparr>cf_ret := r\<rparr>) k p = local_ok st k p" for k p
    by (cases p) (simp_all add: cap_of_def gen_of_def push_at_def pop_at_def)
  moreover have "cap_of (st\<lparr>cf_ret := r\<rparr>) = cap_of st" "gen_of (st\<lparr>cf_ret := r\<rparr>) = gen_of st"
    by (auto simp: cap_of_def gen_of_def)
  moreover have "cf_ticket (st\<lparr>cf_ret := r\<rparr>) = cf_ticket st" "cf_log (st\<lparr>cf_ret := r\<rparr>) = cf_log st" "cf_pops (st\<lparr>cf_ret := r\<rparr>) = cf_pops st"
    "cf_out (st\<lparr>cf_ret := r\<rparr>) = cf_out st" "cf_gen (st\<lparr>cf_ret := r\<rparr>) = cf_gen st" "cf_queue (st\<lparr>cf_ret := r\<rparr>) = cf_queue st"
    "cf_phase_of (st\<lparr>cf_ret := r\<rparr>) = cf_phase_of st" by simp_all
  ultimately show ?thesis by (simp only: cf_inv_def ring_ok_def slot_ok_def claims_ok_def out_ok_def)
qed


section \<open>Claiming a ticket\<close>

lemma claims_unique:
  assumes "cf_inv st" and "cf_ticket st u = cf_ticket st u'"
  shows "pushing (cf_phase_of st u) \<Longrightarrow> pushing (cf_phase_of st u') \<Longrightarrow> u = u'"
    and "popping (cf_phase_of st u) \<Longrightarrow> popping (cf_phase_of st u') \<Longrightarrow> u = u'"
  using cf_inv_facts(4) [OF assms(1)] assms(2) unfolding claims_ok_def by blast+

lemma claims_cover:
  assumes "cf_inv st"
  shows "k < pushed_of st \<Longrightarrow> (\<exists>th. pushing (cf_phase_of st th) \<and> cf_ticket st th = k) \<or> k < fst (gen_of st k) \<or> gen_of st k = (k, True)"
    and "k < cf_pops st \<Longrightarrow> (\<exists>th. popping (cf_phase_of st th) \<and> cf_ticket st th = k) \<or> k \<in> fst ` set (cf_out st)"
  using cf_inv_facts(4) [OF assms] unfolding claims_ok_def by blast+

lemma local_ok_mono:
  assumes "local_ok st k p" and "cf_log st' = cf_log st @ ys" and "cf_pops st \<le> cf_pops st'" and "cf_gen st' = cf_gen st"
    and "cf_buffer (cf_queue st') = cf_buffer (cf_queue st)" and "cap_of st' = cap_of st" and "ring_ok st"
  shows "local_ok st' k p"
  using assms by (cases p) (auto simp: push_at_def pop_at_def gen_of_def nth_append ring_ok_def)

lemma next_round:
  assumes inv: "cf_inv st" and k: "k + cap_of st \<ge> cf_pops st + cap_of st"
  shows "fst (gen_of st k) \<le> k"
proof -
  have s: "slot_ok st (k mod cap_of st)" using cf_inv_facts(2,6) [OF inv] by simp
  show ?thesis
  proof (rule ccontr)
    assume "\<not> ?thesis"
    then have "k + cap_of st \<le> fst (gen_of st k)" using s by (intro mod_gap) (simp_all add: slot_ok_def gen_of_def)
    then show False using s k by (simp add: slot_ok_def gen_of_def)
  qed
qed

lemma claim_push_inv:
  assumes inv: "cf_inv st" and ph: "cf_phase_of st th = Push_cas t s" and hd: "cf_head (cf_queue st) = s"
    and small: "Suc (pushed_of st) + cap_of st \<le> 2 ^ 63"
  defines "st' \<equiv> cf_goto th (Push_wait t s)
    (st\<lparr>cf_queue := (cf_queue st)\<lparr>cf_head := s + 1\<rparr>, cf_log := cf_log st @ [t], cf_ticket := (cf_ticket st)(th := pushed_of st)\<rparr>)"
  shows "cf_inv st'"
proof -
  let ?H = "pushed_of st"
  note f = cf_inv_facts [OF inv]
  have s: "s = of_nat ?H" using f(1) hd by (simp add: ring_ok_def)
  have us: "unat s = ?H" unfolding s using small by (simp add: unat_of_nat take_bit_eq_mod)
  have room: "?H < cf_pops st + cap_of st" using f(3) [of th] ph us by simp
  have F: "cf_log st' = cf_log st @ [t]" "cf_pops st' = cf_pops st" "cf_gen st' = cf_gen st" "cf_out st' = cf_out st"
    "cf_buffer (cf_queue st') = cf_buffer (cf_queue st)" "cap_of st' = cap_of st" "gen_of st' = gen_of st"
    "cf_ticket st' = (cf_ticket st)(th := ?H)" "cf_phase_of st' = (cf_phase_of st)(th := Push_wait t s)"
    "cf_head (cf_queue st') = s + 1" "cf_tail (cf_queue st') = cf_tail (cf_queue st)"
    by (auto simp: st'_def cf_goto_def cap_of_def gen_of_def)
  have "ring_ok st'" unfolding ring_ok_def F using f(1) room small s by (auto simp: ring_ok_def)
  moreover have "slot_ok st' i" if "i < cap_of st" for i
    using f(2) [OF that] unfolding slot_ok_def F by (auto simp: nth_append)
  moreover have "local_ok st' (cf_ticket st' u) (cf_phase_of st' u)" for u
  proof (cases "u = th")
    case True
    have "slot_ok st (?H mod cap_of st)" using f(2,6) by simp
    then have "gen_of st ?H \<noteq> (?H, True)" by (auto simp: slot_ok_def gen_of_def)
    moreover have "fst (gen_of st ?H) \<le> ?H" using f(1) by (intro next_round [OF inv]) (simp add: ring_ok_def)
    ultimately show ?thesis using True s unfolding F by (simp add: push_at_def F)
  next
    case False
    then show ?thesis using local_ok_mono [OF f(3) [of u], of st' "[t]"] f(1) by (simp add: F)
  qed
  moreover have "claims_ok st'"
  proof -
    have old: "cf_ticket st u < ?H" if "pushing (cf_phase_of st u)" for u
      using f(3) [of u] that by (cases "cf_phase_of st u") (auto simp: push_at_def)
    have ph': "pushing (cf_phase_of st' u) \<longleftrightarrow> u = th \<or> pushing (cf_phase_of st u)" "popping (cf_phase_of st' u) = popping (cf_phase_of st u)" for u
      using ph by (simp_all add: F)
    note c = f(4) [unfolded claims_ok_def]
    have "u = u'" if "cf_ticket st' u = cf_ticket st' u'" "pushing (cf_phase_of st' u)" "pushing (cf_phase_of st' u')" for u u'
      using that claims_unique(1) [OF inv, of u u'] old [of u] old [of u'] unfolding ph' by (cases "u = th"; cases "u' = th") (simp_all add: F)
    moreover have "u = u'" if "cf_ticket st' u = cf_ticket st' u'" "popping (cf_phase_of st' u)" "popping (cf_phase_of st' u')" for u u'
      using that claims_unique(2) [OF inv, of u u'] ph unfolding ph' by (cases "u = th"; cases "u' = th") (simp_all add: F)
    moreover have "(\<exists>u. pushing (cf_phase_of st' u) \<and> cf_ticket st' u = k) \<or> k < fst (gen_of st' k) \<or> gen_of st' k = (k, True)"
      if "k < pushed_of st'" for k
    proof (cases "k = ?H")
      case True
      then show ?thesis by (auto simp: F)
    next
      case False
      then have "k < ?H" using that by (simp add: F)
      moreover have "pushing (cf_phase_of st' u) \<and> cf_ticket st' u = k" if "pushing (cf_phase_of st u)" "cf_ticket st u = k" for u
        using that ph by (auto simp: F)
      ultimately show ?thesis using c unfolding F(7) by blast
    qed
    moreover have "(\<exists>u. popping (cf_phase_of st' u) \<and> cf_ticket st' u = k) \<or> k \<in> fst ` set (cf_out st')" if "k < cf_pops st'" for k
    proof -
      have "popping (cf_phase_of st' u) \<and> cf_ticket st' u = k" if "popping (cf_phase_of st u)" "cf_ticket st u = k" for u
        using that ph by (auto simp: F)
      then show ?thesis using c that unfolding F(2,4) by blast
    qed
    ultimately show ?thesis unfolding claims_ok_def by blast
  qed
  moreover have "out_ok st'"
    using f(5) f(1) unfolding out_ok_def F by (auto simp: nth_append ring_ok_def)
  ultimately show ?thesis unfolding cf_inv_def F(6) by blast
qed

lemma claim_pop_inv:
  assumes inv: "cf_inv st" and ph: "cf_phase_of st th = Pop_cas s" and tl: "cf_tail (cf_queue st) = s"
  defines "st' \<equiv> cf_goto th (Pop_wait s)
    (st\<lparr>cf_queue := (cf_queue st)\<lparr>cf_tail := s + 1\<rparr>, cf_pops := Suc (cf_pops st), cf_ticket := (cf_ticket st)(th := cf_pops st)\<rparr>)"
  shows "cf_inv st'"
proof -
  let ?T = "cf_pops st"
  note f = cf_inv_facts [OF inv]
  have s: "s = of_nat ?T" using f(1) tl by (simp add: ring_ok_def)
  have us: "unat s = ?T" unfolding s using f(1) by (simp add: unat_of_nat take_bit_eq_mod ring_ok_def)
  have room: "?T < pushed_of st" using f(3) [of th] ph us by simp
  have F: "cf_log st' = cf_log st" "cf_pops st' = Suc ?T" "cf_gen st' = cf_gen st" "cf_out st' = cf_out st"
    "cf_buffer (cf_queue st') = cf_buffer (cf_queue st)" "cap_of st' = cap_of st" "gen_of st' = gen_of st"
    "cf_ticket st' = (cf_ticket st)(th := ?T)" "cf_phase_of st' = (cf_phase_of st)(th := Pop_wait s)"
    "cf_head (cf_queue st') = cf_head (cf_queue st)" "cf_tail (cf_queue st') = s + 1"
    by (auto simp: st'_def cf_goto_def cap_of_def gen_of_def)
  have "ring_ok st'" unfolding ring_ok_def F using f(1) room s by (auto simp: ring_ok_def)
  moreover have "slot_ok st' i" if "i < cap_of st" for i
    using f(2) [OF that] unfolding slot_ok_def F by auto
  moreover have "local_ok st' (cf_ticket st' u) (cf_phase_of st' u)" for u
  proof (cases "u = th")
    case True
    have "fst (gen_of st ?T) \<le> ?T" by (rule next_round [OF inv]) simp
    then show ?thesis using True s unfolding F by (simp add: pop_at_def F)
  next
    case False
    then show ?thesis using local_ok_mono [OF f(3) [of u], of st' "[]"] f(1) by (simp add: F)
  qed
  moreover have "claims_ok st'"
  proof -
    have old: "cf_ticket st u < ?T" if "popping (cf_phase_of st u)" for u
      using f(3) [of u] that by (cases "cf_phase_of st u") (auto simp: pop_at_def)
    have ph': "popping (cf_phase_of st' u) \<longleftrightarrow> u = th \<or> popping (cf_phase_of st u)" "pushing (cf_phase_of st' u) = pushing (cf_phase_of st u)" for u
      using ph by (simp_all add: F)
    note c = f(4) [unfolded claims_ok_def]
    have "u = u'" if "cf_ticket st' u = cf_ticket st' u'" "popping (cf_phase_of st' u)" "popping (cf_phase_of st' u')" for u u'
      using that claims_unique(2) [OF inv, of u u'] old [of u] old [of u'] unfolding ph' by (cases "u = th"; cases "u' = th") (simp_all add: F)
    moreover have "u = u'" if "cf_ticket st' u = cf_ticket st' u'" "pushing (cf_phase_of st' u)" "pushing (cf_phase_of st' u')" for u u'
      using that claims_unique(1) [OF inv, of u u'] ph unfolding ph' by (cases "u = th"; cases "u' = th") (simp_all add: F)
    moreover have "(\<exists>u. pushing (cf_phase_of st' u) \<and> cf_ticket st' u = k) \<or> k < fst (gen_of st' k) \<or> gen_of st' k = (k, True)"
      if "k < pushed_of st'" for k
    proof -
      have "pushing (cf_phase_of st' u) \<and> cf_ticket st' u = k" if "pushing (cf_phase_of st u)" "cf_ticket st u = k" for u
        using that ph by (auto simp: F)
      then show ?thesis using c that unfolding F(1,7) by blast
    qed
    moreover have "(\<exists>u. popping (cf_phase_of st' u) \<and> cf_ticket st' u = k) \<or> k \<in> fst ` set (cf_out st')" if "k < cf_pops st'" for k
    proof (cases "k = ?T")
      case True
      then show ?thesis by (auto simp: F)
    next
      case False
      then have "k < ?T" using that by (simp add: F)
      moreover have "popping (cf_phase_of st' u) \<and> cf_ticket st' u = k" if "popping (cf_phase_of st u)" "cf_ticket st u = k" for u
        using that ph by (auto simp: F)
      ultimately show ?thesis using c unfolding F(4) by blast
    qed
    ultimately show ?thesis unfolding claims_ok_def by blast
  qed
  moreover have "out_ok st'"
    using f(5) unfolding out_ok_def F by auto
  ultimately show ?thesis unfolding cf_inv_def F(6) by blast
qed


section \<open>Writing a slot\<close>

text \<open>
  A step of thread \<open>th\<close> that writes its slot \<open>i\<close>, may move the slot to another round, and may end the operation.
\<close>

lemma local_ok_elsewhere:
  assumes "local_ok st k p" and "cf_log st' = cf_log st" and "cf_pops st' = cf_pops st" and "cap_of st' = cap_of st"
    and "pushing p \<or> popping p \<Longrightarrow> gen_of st' k = gen_of st k \<and>
      cf_value (cf_buffer (cf_queue st') ! (k mod cap_of st)) = cf_value (cf_buffer (cf_queue st) ! (k mod cap_of st))"
  shows "local_ok st' k p"
  using assms by (cases p) (auto simp: push_at_def pop_at_def)

lemma slot_step_inv:
  assumes inv: "cf_inv st" and i: "i < cap_of st"
    and F: "cf_queue st' = (cf_queue st)\<lparr>cf_buffer := (cf_buffer (cf_queue st))[i := c]\<rparr>" "cf_log st' = cf_log st" "cf_pops st' = cf_pops st"
      "cf_ticket st' = cf_ticket st" "cf_phase_of st' = (cf_phase_of st)(th := p)" "cf_gen st' = (cf_gen st)(i := g)" "cf_out st' = cf_out st @ os"
    and slot: "slot_ok st' i" and loc: "local_ok st' (cf_ticket st th) p"
    and others: "\<And>u. u \<noteq> th \<Longrightarrow> pushing (cf_phase_of st u) \<or> popping (cf_phase_of st u) \<Longrightarrow> cf_ticket st u mod cap_of st = i \<Longrightarrow>
      local_ok st' (cf_ticket st u) (cf_phase_of st u)"
    and active: "pushing p \<Longrightarrow> pushing (cf_phase_of st th)" "popping p \<Longrightarrow> popping (cf_phase_of st th)"
    and ends: "pushing (cf_phase_of st th) \<Longrightarrow> \<not> pushing p \<Longrightarrow> gen_of st' (cf_ticket st th) = (cf_ticket st th, True)"
      "popping (cf_phase_of st th) \<Longrightarrow> \<not> popping p \<Longrightarrow> cf_ticket st th \<in> fst ` set os"
    and mono: "fst (cf_gen st i) \<le> fst g" "snd (cf_gen st i) \<Longrightarrow> fst (cf_gen st i) < fst g \<or> g = cf_gen st i"
    and out: "out_ok st'"
  shows "cf_inv st'"
proof -
  note f = cf_inv_facts [OF inv]
  have cap: "cap_of st' = cap_of st" by (simp add: cap_of_def F)
  have gen: "gen_of st' k = (if k mod cap_of st = i then g else gen_of st k)" for k by (simp add: gen_of_def cap F)
  have at: "gen_of st k = cf_gen st i" if "k mod cap_of st = i" for k using that by (simp add: gen_of_def)
  have "ring_ok st'" using f(1) unfolding ring_ok_def cap F by simp
  moreover have "slot_ok st' j" if "j < cap_of st" for j
    using f(2) [OF that] slot by (cases "j = i") (simp_all add: slot_ok_def cap F)
  moreover have "local_ok st' (cf_ticket st' u) (cf_phase_of st' u)" for u
  proof (cases "u = th")
    case True
    then show ?thesis using loc by (simp add: F)
  next
    case False
    have "local_ok st' (cf_ticket st u) (cf_phase_of st u)"
    proof (cases "(pushing (cf_phase_of st u) \<or> popping (cf_phase_of st u)) \<and> cf_ticket st u mod cap_of st = i")
      case True
      then show ?thesis using others False by blast
    next
      case out: False
      show ?thesis
      proof (rule local_ok_elsewhere [OF f(3)])
        assume "pushing (cf_phase_of st u) \<or> popping (cf_phase_of st u)"
        then have "cf_ticket st u mod cap_of st \<noteq> i" using out by blast
        then show "gen_of st' (cf_ticket st u) = gen_of st (cf_ticket st u)
            \<and> cf_value (cf_buffer (cf_queue st') ! (cf_ticket st u mod cap_of st)) = cf_value (cf_buffer (cf_queue st) ! (cf_ticket st u mod cap_of st))"
          by (simp add: gen F)
      qed (simp_all add: F cap)
    qed
    then show ?thesis using False by (simp add: F)
  qed
  moreover have "claims_ok st'"
  proof -
    note c = f(4) [unfolded claims_ok_def]
    have sub: "pushing (cf_phase_of st u)" if "pushing (cf_phase_of st' u)" for u using that active(1) by (cases "u = th") (simp_all add: F)
    have sub': "popping (cf_phase_of st u)" if "popping (cf_phase_of st' u)" for u using that active(2) by (cases "u = th") (simp_all add: F)
    have "u = u'" if "cf_ticket st' u = cf_ticket st' u'" "pushing (cf_phase_of st' u)" "pushing (cf_phase_of st' u')" for u u'
      using claims_unique(1) [OF inv, of u u'] that sub unfolding F(4) by blast
    moreover have "u = u'" if "cf_ticket st' u = cf_ticket st' u'" "popping (cf_phase_of st' u)" "popping (cf_phase_of st' u')" for u u'
      using claims_unique(2) [OF inv, of u u'] that sub' unfolding F(4) by blast
    moreover have "(\<exists>u. pushing (cf_phase_of st' u) \<and> cf_ticket st' u = k) \<or> k < fst (gen_of st' k) \<or> gen_of st' k = (k, True)"
      if k: "k < pushed_of st'" for k
    proof -
      consider (act) u where "pushing (cf_phase_of st u)" "cf_ticket st u = k" | (past) "k < fst (gen_of st k)" | (now) "gen_of st k = (k, True)"
        using c k unfolding F(2) by blast
      then show ?thesis
      proof cases
        case act
        show ?thesis
        proof (cases "u = th \<and> \<not> pushing p")
          case True
          then show ?thesis using act ends(1) by auto
        next
          case False
          then have "pushing (cf_phase_of st' u) \<and> cf_ticket st' u = k" using act by (auto simp: F)
          then show ?thesis by blast
        qed
      next
        case past
        then show ?thesis using mono(1) at by (auto simp: gen)
      next
        case now
        then show ?thesis using mono(2) at by (auto simp: gen)
      qed
    qed
    moreover have "(\<exists>u. popping (cf_phase_of st' u) \<and> cf_ticket st' u = k) \<or> k \<in> fst ` set (cf_out st')" if k: "k < cf_pops st'" for k
    proof -
      consider (act) u where "popping (cf_phase_of st u)" "cf_ticket st u = k" | (past) "k \<in> fst ` set (cf_out st)"
        using c k unfolding F(3) by blast
      then show ?thesis
      proof cases
        case act
        show ?thesis
        proof (cases "u = th \<and> \<not> popping p")
          case True
          then show ?thesis using act ends(2) by (auto simp: F)
        next
          case False
          then have "popping (cf_phase_of st' u) \<and> cf_ticket st' u = k" using act by (auto simp: F)
          then show ?thesis by blast
        qed
      qed (simp add: F image_Un)
    qed
    ultimately show ?thesis unfolding claims_ok_def by blast
  qed
  ultimately show ?thesis using out unfolding cf_inv_def cap by blast
qed

lemma out_ok_gen:
  assumes "out_ok st" and "cf_log st' = cf_log st" and "cf_pops st' = cf_pops st" and "cf_out st' = cf_out st"
    and "\<And>k. fst (gen_of st k) \<le> fst (gen_of st' k)"
  shows "out_ok st'"
  using assms unfolding out_ok_def by (force dest: order.strict_trans2)

text \<open>What the three writing steps have in common: the thread's ticket determines the slot.\<close>

lemma slot_of_ticket:
  assumes inv: "cf_inv st" and k: "push_at st (cf_ticket st th) t s \<or> pop_at st (cf_ticket st th) s"
  defines "i \<equiv> cf_ticket st th mod cap_of st"
  shows "i < cap_of st" and "cf_index s (cf_queue st) = i" and "i < length (cf_buffer (cf_queue st))"
    and "cf_ticket st th < pushed_of st" and "s = of_nat (cf_ticket st th)"
proof -
  note f = cf_inv_facts [OF inv]
  show "i < cap_of st" using f(6) by (simp add: i_def)
  then show "i < length (cf_buffer (cf_queue st))" using f(1) by (simp add: ring_ok_def)
  show k': "cf_ticket st th < pushed_of st" "s = of_nat (cf_ticket st th)" using k f(1) by (auto simp: push_at_def pop_at_def ring_ok_def)
  then show "cf_index s (cf_queue st) = i" using cf_index_of_nat [OF f(1)] pushed_small [OF f(1)] by (simp add: i_def)
qed

lemma store_inv:
  assumes inv: "cf_inv st" and ph: "cf_phase_of st th = Push_store t s"
  shows "cf_inv (cf_step b th st)"
proof -
  note f = cf_inv_facts [OF inv]
  define k where "k = cf_ticket st th"
  define i where "i = k mod cap_of st"
  have l: "push_at st k t s" "gen_of st k = (k, False)" using f(3) [of th] ph by (simp_all add: k_def)
  note o = slot_of_ticket [OF inv disjI1 [OF l(1) [unfolded k_def]], folded k_def, folded i_def]
  define st' where "st' = cf_step b th st"
  have F: "cf_queue st' = (cf_queue st)\<lparr>cf_buffer := (cf_buffer (cf_queue st))[i := (cf_buffer (cf_queue st) ! i)\<lparr>cf_value := t\<rparr>]\<rparr>"
    "cf_log st' = cf_log st" "cf_pops st' = cf_pops st" "cf_ticket st' = cf_ticket st" "cf_phase_of st' = (cf_phase_of st)(th := Push_publish t s)"
    "cf_gen st' = (cf_gen st)(i := cf_gen st i)" "cf_out st' = cf_out st @ []"
    using ph o(2) by (simp_all add: st'_def cf_step_def Let_def cf_goto_def cf_put_def)
  have cap: "cap_of st' = cap_of st" by (simp add: cap_of_def F)
  have gen: "gen_of st' j = gen_of st j" for j by (simp add: gen_of_def cap F)
  have g: "cf_gen st i = (k, False)" using l by (simp add: gen_of_def i_def)
  have slot: "slot_ok st' i" using f(2) [OF o(1)] g by (simp add: slot_ok_def cap F o(3))
  have loc: "local_ok st' (cf_ticket st th) (Push_publish t s)"
    using l o(3) by (simp add: push_at_def cap gen F k_def [symmetric] i_def [symmetric])
  have others: "local_ok st' (cf_ticket st u) (cf_phase_of st u)"
    if u: "u \<noteq> th" "cf_ticket st u mod cap_of st = i" for u
  proof -
    have "pushing (cf_phase_of st u) \<Longrightarrow> cf_ticket st u \<noteq> k" using claims_unique(1) [OF inv, of u th] u(1) ph by (auto simp: k_def)
    moreover have "gen_of st (cf_ticket st u) = (k, False)" using u(2) g by (simp add: gen_of_def)
    ultimately show ?thesis
      using f(3) [of u] by (cases "cf_phase_of st u") (auto simp: push_at_def pop_at_def cap gen F)
  qed
  have out: "out_ok st'" by (rule out_ok_gen [OF f(5)]) (simp_all add: F gen)
  have "cf_inv st'"
    by (rule slot_step_inv [OF inv o(1) F slot loc others _ _ _ _ _ _ out]) (simp_all add: ph)
  then show ?thesis by (simp only: st'_def)
qed

lemma publish_inv:
  assumes inv: "cf_inv st" and ph: "cf_phase_of st th = Push_publish t s"
  shows "cf_inv (cf_step b th st)"
proof -
  note f = cf_inv_facts [OF inv]
  define k where "k = cf_ticket st th"
  define i where "i = k mod cap_of st"
  have l: "push_at st k t s" "gen_of st k = (k, False)" "cf_value (cf_buffer (cf_queue st) ! i) = t"
    using f(3) [of th] ph by (simp_all add: k_def i_def)
  note o = slot_of_ticket [OF inv disjI1 [OF l(1) [unfolded k_def]], folded k_def, folded i_def]
  define st' where "st' = cf_step b th st"
  have g: "cf_gen st i = (k, False)" using l by (simp add: gen_of_def i_def)
  have F: "cf_queue st' = (cf_queue st)\<lparr>cf_buffer := (cf_buffer (cf_queue st))[i := (cf_buffer (cf_queue st) ! i)\<lparr>cf_epoch := slot_to_epoch s True\<rparr>]\<rparr>"
    "cf_log st' = cf_log st" "cf_pops st' = cf_pops st" "cf_ticket st' = cf_ticket st" "cf_phase_of st' = (cf_phase_of st)(th := Idle)"
    "cf_gen st' = (cf_gen st)(i := (k, True))" "cf_out st' = cf_out st @ []"
    using ph o(2) g by (simp_all add: st'_def cf_step_def Let_def cf_return_def cf_goto_def cf_put_def)
  have cap: "cap_of st' = cap_of st" by (simp add: cap_of_def F)
  have gen: "gen_of st' j = (if j mod cap_of st = i then (k, True) else gen_of st j)" for j by (simp add: gen_of_def cap F)
  have slot: "slot_ok st' i" using f(2) [OF o(1)] g l o(3,4,5) by (simp add: slot_ok_def push_at_def cap F)
  have others: "local_ok st' (cf_ticket st u) (cf_phase_of st u)"
    if u: "u \<noteq> th" "cf_ticket st u mod cap_of st = i" for u
  proof -
    have "pushing (cf_phase_of st u) \<Longrightarrow> cf_ticket st u \<noteq> k" using claims_unique(1) [OF inv, of u th] u(1) ph by (auto simp: k_def)
    moreover have "gen_of st (cf_ticket st u) = (k, False)" using u(2) g by (simp add: gen_of_def)
    ultimately show ?thesis
      using f(3) [of u] u(2) by (cases "cf_phase_of st u") (auto simp: push_at_def pop_at_def cap gen F)
  qed
  have out: "out_ok st'"
  proof (rule out_ok_gen [OF f(5)])
    show "fst (gen_of st j) \<le> fst (gen_of st' j)" for j using g by (auto simp: gen gen_of_def [of st])
  qed (simp_all add: F)
  have "cf_inv st'"
    by (rule slot_step_inv [OF inv o(1) F slot _ others _ _ _ _ _ _ out]) (simp_all add: ph g gen, simp_all add: k_def i_def)
  then show ?thesis by (simp only: st'_def)
qed

lemma release_inv:
  assumes inv: "cf_inv st" and ph: "cf_phase_of st th = Pop_release s v"
  shows "cf_inv (cf_step b th st)"
proof -
  note f = cf_inv_facts [OF inv]
  define k where "k = cf_ticket st th"
  define i where "i = k mod cap_of st"
  have l: "pop_at st k s" "gen_of st k = (k, True)" "v = cf_log st ! k" using f(3) [of th] ph by (simp_all add: k_def)
  note o = slot_of_ticket [OF inv disjI2 [OF l(1) [unfolded k_def]], folded k_def, folded i_def]
  define st' where "st' = cf_step b th st"
  have g: "cf_gen st i = (k, True)" using l by (simp add: gen_of_def i_def)
  have F: "cf_queue st' = (cf_queue st)\<lparr>cf_buffer := (cf_buffer (cf_queue st))[i := (cf_buffer (cf_queue st) ! i)\<lparr>cf_epoch := slot_to_epoch (s + cf_capacity (cf_queue st)) False\<rparr>]\<rparr>"
    "cf_log st' = cf_log st" "cf_pops st' = cf_pops st" "cf_ticket st' = cf_ticket st" "cf_phase_of st' = (cf_phase_of st)(th := Idle)"
    "cf_gen st' = (cf_gen st)(i := (k + cap_of st, False))" "cf_out st' = cf_out st @ [(k, v)]"
    using ph o(2) g by (simp_all add: st'_def cf_step_def Let_def cf_return_def cf_goto_def cf_put_def cap_of_def k_def)
  have cap: "cap_of st' = cap_of st" by (simp add: cap_of_def F)
  have gen: "gen_of st' j = (if j mod cap_of st = i then (k + cap_of st, False) else gen_of st j)" for j by (simp add: gen_of_def cap F)
  have "s + cf_capacity (cf_queue st) = of_nat (k + cap_of st)" using o(5) by (simp add: cap_of_def)
  then have slot: "slot_ok st' i" using f(2) [OF o(1)] l o(3) by (simp add: slot_ok_def pop_at_def cap F i_def)
  have others: "local_ok st' (cf_ticket st u) (cf_phase_of st u)"
    if u: "u \<noteq> th" "cf_ticket st u mod cap_of st = i" for u
  proof -
    have "popping (cf_phase_of st u) \<Longrightarrow> cf_ticket st u \<noteq> k" using claims_unique(2) [OF inv, of u th] u(1) ph by (auto simp: k_def)
    moreover have "gen_of st (cf_ticket st u) = (k, True)" using u(2) g by (simp add: gen_of_def)
    moreover have "k < cf_ticket st u \<Longrightarrow> k + cap_of st \<le> cf_ticket st u" using u(2) by (intro mod_gap) (simp_all add: i_def)
    ultimately show ?thesis
      using f(3) [of u] u(2) by (cases "cf_phase_of st u") (auto simp: push_at_def pop_at_def cap gen F)
  qed
  have out: "out_ok st'"
  proof -
    have old: "j < cf_pops st \<and> w = cf_log st ! j \<and> j < fst (gen_of st j)" if "(j, w) \<in> set (cf_out st)" for j w
      using f(5) that by (auto simp: out_ok_def)
    have "k \<notin> fst ` set (cf_out st)" using old l(2) by force
    moreover have "j < fst (gen_of st' j)" if "(j, w) \<in> set (cf_out st)" for j w
      using old [OF that] g by (auto simp: gen gen_of_def [of st])
    moreover have "k < fst (gen_of st' k)" using f(6) by (simp add: gen i_def)
    moreover have "distinct (map fst (cf_out st))" using f(5) by (simp add: out_ok_def)
    ultimately show ?thesis using old l unfolding out_ok_def F by (auto simp: pop_at_def)
  qed
  have "cf_inv st'"
    by (rule slot_step_inv [OF inv o(1) F slot _ others _ _ _ _ _ _ out]) (simp_all add: ph g f(6), simp_all add: k_def)
  then show ?thesis by (simp only: st'_def)
qed


section \<open>Every step keeps the invariant\<close>

lemma epoch_reads_gen:
  assumes inv: "cf_inv st" and k: "k < pushed_of st" and s: "s = of_nat k"
  shows "cf_epoch (cf_buffer (cf_queue st) ! cf_index s (cf_queue st)) = slot_to_epoch s w \<longleftrightarrow> gen_of st k = (k, w)"
proof -
  note f = cf_inv_facts [OF inv]
  have ix: "cf_index s (cf_queue st) = k mod cap_of st" using cf_index_of_nat [OF f(1)] pushed_small [OF f(1) k] s by simp
  have so: "slot_ok st (k mod cap_of st)" using f(2,6) by simp
  then have "fst (gen_of st k) < 2 ^ 63" using f(1) by (simp add: slot_ok_def gen_of_def ring_ok_def)
  then show ?thesis
    using so slot_to_epoch_eq [of "fst (gen_of st k)" k "snd (gen_of st k)" w] pushed_small [OF f(1) k] s
    unfolding ix by (auto simp: slot_ok_def gen_of_def prod_eq_iff)
qed

lemma room_when_checked:
  assumes "ring_ok st" and "unat s \<le> pushed_of st" and "\<not> s - cf_tail (cf_queue st) \<ge> cf_capacity (cf_queue st)"
  shows "unat s < cf_pops st + cap_of st"
proof (cases "cf_pops st \<le> unat s")
  case True
  have "unat (cf_tail (cf_queue st)) = cf_pops st" using assms(1) by (simp add: ring_ok_def unat_of_nat take_bit_eq_mod)
  then have "unat (s - cf_tail (cf_queue st)) = unat s - cf_pops st" using True by (simp add: unat_sub_le)
  then show ?thesis using assms(3) True by (simp add: word_le_nat_alt cap_of_def)
next
  case False
  then show ?thesis by simp
qed

lemma step_inv:
  assumes inv: "cf_inv st" and small: "pushed_of (cf_step b th st) + cap_of st \<le> 2 ^ 63"
  shows "cf_inv (cf_step b th st)"
proof -
  note f = cf_inv_facts [OF inv]
  note loc = f(3) [of th]
  have ends: "unat (cf_head (cf_queue st)) = pushed_of st" "unat (cf_tail (cf_queue st)) = cf_pops st"
    using f(1) by (simp_all add: ring_ok_def unat_of_nat take_bit_eq_mod)
  have ret: "cf_inv (cf_return th r st)" if "\<not> pushing (cf_phase_of st th)" "\<not> popping (cf_phase_of st th)" for r
    unfolding cf_return_def using that inv by (intro goto_inv) (simp_all add: ret_inv)
  show ?thesis
  proof (cases "cf_phase_of st th")
    case Idle
    then show ?thesis using inv by (simp add: cf_step_def)
  next
    case (Push_check t s)
    then show ?thesis
      using ret loc room_when_checked [OF f(1), of s] goto_inv [OF inv, of th "Push_cas t s"] by (auto simp: cf_step_def Let_def)
  next
    case (Push_cas t s)
    show ?thesis
    proof (cases "cf_head (cf_queue st) = s \<and> \<not> b")
      case True
      then show ?thesis
        using claim_push_inv [OF inv Push_cas] small Push_cas by (simp add: cf_step_def cf_goto_def)
    next
      case False
      then show ?thesis
        using goto_inv [OF inv, of th "Push_check t (cf_head (cf_queue st))"] Push_cas ends by (auto simp: cf_step_def Let_def)
    qed
  next
    case (Push_wait t s)
    then have l: "push_at st (cf_ticket st th) t s" using loc by simp
    then show ?thesis
      using Push_wait inv epoch_reads_gen [OF inv, of "cf_ticket st th" s False] goto_inv [OF inv, of th "Push_store t s"]
      by (auto simp: cf_step_def Let_def push_at_def)
  next
    case (Pop_check s)
    have "unat s \<noteq> pushed_of st" if "s \<noteq> cf_head (cf_queue st)" using that ends by (auto simp: word_eq_unat)
    moreover have "unat s \<le> cf_pops st" "cf_pops st \<le> pushed_of st" using loc Pop_check f(1) by (simp_all add: ring_ok_def)
    ultimately show ?thesis
      using Pop_check ret goto_inv [OF inv, of th "Pop_cas s"] by (auto simp: cf_step_def Let_def)
  next
    case (Pop_cas s)
    show ?thesis
    proof (cases "cf_tail (cf_queue st) = s \<and> \<not> b")
      case True
      then show ?thesis using claim_pop_inv [OF inv Pop_cas] Pop_cas by (simp add: cf_step_def)
    next
      case False
      then show ?thesis
        using goto_inv [OF inv, of th "Pop_check (cf_tail (cf_queue st))"] Pop_cas ends by (auto simp: cf_step_def Let_def)
    qed
  next
    case (Pop_wait s)
    then have l: "pop_at st (cf_ticket st th) s" "cf_ticket st th < pushed_of st" using loc f(1) by (auto simp: pop_at_def ring_ok_def)
    then show ?thesis
      using Pop_wait inv epoch_reads_gen [OF inv l(2), of s True] goto_inv [OF inv, of th "Pop_read s"]
      by (auto simp: cf_step_def Let_def pop_at_def)
  next
    case (Pop_read s)
    then have l: "pop_at st (cf_ticket st th) s" "gen_of st (cf_ticket st th) = (cf_ticket st th, True)" using loc by simp_all
    note o = slot_of_ticket [OF inv disjI2 [OF l(1)]]
    have "cf_value (cf_buffer (cf_queue st) ! cf_index s (cf_queue st)) = cf_log st ! cf_ticket st th"
      using f(2) [OF o(1)] l(2) unfolding o(2) by (simp add: slot_ok_def gen_of_def)
    then show ?thesis
      using Pop_read l goto_inv [OF inv, of th "Pop_release s (cf_log st ! cf_ticket st th)"] by (simp add: cf_step_def Let_def)
  next
    case (Push_store t s)
    then show ?thesis by (rule store_inv [OF inv])
  next
    case (Push_publish t s)
    then show ?thesis by (rule publish_inv [OF inv])
  next
    case (Pop_release s v)
    then show ?thesis by (rule release_inv [OF inv])
  qed
qed

lemma step_monotone: "pushed_of st \<le> pushed_of (cf_step b th st) \<and> cap_of (cf_step b th st) = cap_of st"
  by (cases "cf_phase_of st th") (simp_all add: cf_step_def Let_def cf_goto_def cf_return_def cf_put_def cap_of_def)

lemma act_monotone: "pushed_of st \<le> pushed_of (cf_act a st) \<and> cap_of (cf_act a st) = cap_of st"
  using step_monotone by (cases a) (auto simp: cf_goto_def cap_of_def)

lemma act_inv:
  assumes inv: "cf_inv st" and small: "pushed_of (cf_act a st) + cap_of st \<le> 2 ^ 63"
  shows "cf_inv (cf_act a st)"
proof (cases a)
  case (Call_push th t)
  then show ?thesis using inv cf_inv_facts(1) [OF inv] goto_inv [OF inv, of th "Push_check t (cf_head (cf_queue st))"]
    by (auto simp: ring_ok_def unat_of_nat take_bit_eq_mod)
next
  case (Call_pop th)
  then show ?thesis using inv cf_inv_facts(1) [OF inv] goto_inv [OF inv, of th "Pop_check (cf_tail (cf_queue st))"]
    by (auto simp: ring_ok_def unat_of_nat take_bit_eq_mod)
next
  case (Move th b)
  then show ?thesis using step_inv [OF inv] small by simp
qed

lemma run_monotone: "pushed_of st \<le> pushed_of (cf_run as st) \<and> cap_of (cf_run as st) = cap_of st"
proof (induction as arbitrary: st)
  case (Cons a as)
  show ?case using Cons [of "cf_act a st"] act_monotone [of st a] by simp
qed simp

lemma run_inv:
  "cf_inv st \<Longrightarrow> pushed_of (cf_run as st) + cap_of st \<le> 2 ^ 63 \<Longrightarrow> cf_inv (cf_run as st)"
proof (induction as arbitrary: st)
  case (Cons a as)
  have "cf_inv (cf_act a st)"
    using Cons.prems run_monotone [of "cf_act a st" as] by (intro act_inv) simp_all
  then show ?case using Cons.IH [of "cf_act a st"] Cons.prems act_monotone [of st a] by simp
qed simp

end
