(* ===== verification/Concurrent_Props.thy ===== *)
theory Concurrent_Props
  imports Concurrent_Fifo
begin

text \<open>
  The properties of \<^verbatim>\<open>concurrent_fifo\<close> under any schedule of its threads.
\<close>

lemma concurrent_fifo_new_inv:
  fixes q :: "'a::zero concurrent_fifo"
  assumes new: "concurrent_fifo_new TYPE('a) capacity = Some (Inr q)"
  shows "cf_inv (cf_init q)" and "cap_of (cf_init q) = unat capacity"
proof -
  have cap: "unat capacity \<le> 2 ^ 63" "is_pow2 (unat capacity)"
    and q: "q = \<lparr>cf_buffer = map (\<lambda>i. \<lparr>cf_value = 0, cf_epoch = slot_to_epoch (of_nat i) False\<rparr>) [0..<unat capacity],
        cf_head = 0, cf_tail = 0, cf_capacity = capacity\<rparr>"
    using new by (auto simp: concurrent_fifo_new_def is_po2_eq split: if_splits bool.splits)
  show cp: "cap_of (cf_init q) = unat capacity" by (simp add: cap_of_def cf_init_def q)
  have "ring_ok (cf_init q)" unfolding ring_ok_def cp using cap by (simp add: cf_init_def q)
  moreover have "slot_ok (cf_init q) i" if "i < unat capacity" for i
    unfolding slot_ok_def cp using that by (simp add: cf_init_def q)
  moreover have "claims_ok (cf_init q)" "out_ok (cf_init q)" by (simp_all add: claims_ok_def out_ok_def cf_init_def)
  moreover have "local_ok (cf_init q) k (cf_phase_of (cf_init q) th)" for k th by (simp add: cf_init_def)
  ultimately show "cf_inv (cf_init q)" unfolding cf_inv_def cp by blast
qed

text \<open>A thread that spins on an epoch that is not there yet.\<close>

definition spinning :: "'a cf_state \<Rightarrow> nat \<Rightarrow> bool" where
  "spinning st th = (let q = cf_queue st in case cf_phase_of st th of
       Push_wait t s \<Rightarrow> cf_epoch (cf_buffer q ! cf_index s q) \<noteq> slot_to_epoch s False
     | Pop_wait s \<Rightarrow> cf_epoch (cf_buffer q ! cf_index s q) \<noteq> slot_to_epoch s True
     | _ \<Rightarrow> False)"

lemma current_round_moves:
  assumes inv: "cf_inv st" and e: "gen_of st k = (e, w)" and k: "e < cf_pops st"
  shows "\<exists>th. cf_phase_of st th \<noteq> Idle \<and> \<not> spinning st th"
proof -
  note f = cf_inv_facts [OF inv]
  have "slot_ok st (k mod cap_of st)" using f(2,6) by simp
  then have "e mod cap_of st = k mod cap_of st" using e by (simp add: slot_ok_def gen_of_def)
  then have g: "gen_of st e = (e, w)" using e by (simp add: gen_of_def)
  have eH: "e < pushed_of st" using k f(1) by (simp add: ring_ok_def)
  show ?thesis
  proof (cases w)
    case True
    have "e \<notin> fst ` set (cf_out st)" using f(5) g by (force simp: out_ok_def)
    then obtain th where th: "popping (cf_phase_of st th)" "cf_ticket st th = e" using claims_cover(2) [OF inv k] by blast
    have "\<not> spinning st th"
      using f(3) [of th] th epoch_reads_gen [OF inv eH] g True
      by (cases "cf_phase_of st th") (auto simp: spinning_def Let_def pop_at_def)
    then show ?thesis using th(1) by (intro exI [of _ th]) auto
  next
    case False
    then obtain th where th: "pushing (cf_phase_of st th)" "cf_ticket st th = e"
      using claims_cover(1) [OF inv eH] g by auto
    have "\<not> spinning st th"
      using f(3) [of th] th epoch_reads_gen [OF inv eH] g False
      by (cases "cf_phase_of st th") (auto simp: spinning_def Let_def push_at_def)
    then show ?thesis using th(1) by (intro exI [of _ th]) auto
  qed
qed

lemma some_thread_moves:
  assumes inv: "cf_inv st" and active: "cf_phase_of st th \<noteq> Idle"
  shows "\<exists>th. cf_phase_of st th \<noteq> Idle \<and> \<not> spinning st th"
proof (cases "spinning st th")
  case False
  then show ?thesis using active by blast
next
  case True
  note f = cf_inv_facts [OF inv]
  let ?k = "cf_ticket st th"
  obtain e w where e: "gen_of st ?k = (e, w)" by fastforce
  have "slot_ok st (?k mod cap_of st)" using f(2,6) by simp
  then have eq: "e mod cap_of st = ?k mod cap_of st" using e by (simp add: slot_ok_def gen_of_def)
  have "e < cf_pops st"
  proof (cases "cf_phase_of st th")
    case (Push_wait t s)
    then have l: "push_at st ?k t s" "e \<le> ?k" "(e, w) \<noteq> (?k, True)" using f(3) [of th] e by simp_all
    then have "e \<noteq> ?k" using True Push_wait epoch_reads_gen [OF inv, of ?k s False] e by (auto simp: spinning_def Let_def push_at_def)
    then have "e + cap_of st \<le> ?k" using l(2) eq by (intro mod_gap) simp_all
    then show ?thesis using l(1) f(1) by (simp add: push_at_def ring_ok_def)
  next
    case (Pop_wait s)
    then show ?thesis using f(3) [of th] e by (auto simp: pop_at_def)
  qed (use True in \<open>simp_all add: spinning_def\<close>)
  then show ?thesis using current_round_moves [OF inv e] by blast
qed

lemma quiescent_conserves:
  assumes inv: "cf_inv st" and idle: "\<forall>th. cf_phase_of st th = Idle"
  shows "mset (map snd (cf_out st)) = mset (take (cf_pops st) (cf_log st))"
proof -
  note f = cf_inv_facts [OF inv]
  have out: "\<And>k v. (k, v) \<in> set (cf_out st) \<Longrightarrow> k < cf_pops st \<and> v = cf_log st ! k" and dist: "distinct (map fst (cf_out st))"
    using f(5) by (auto simp: out_ok_def)
  have "set (map fst (cf_out st)) = set [0..<cf_pops st]"
  proof
    show "set (map fst (cf_out st)) \<subseteq> set [0..<cf_pops st]" using out by auto
    show "set [0..<cf_pops st] \<subseteq> set (map fst (cf_out st))" using claims_cover(2) [OF inv] idle by auto
  qed
  then have perm: "mset (map fst (cf_out st)) = mset [0..<cf_pops st]" using dist set_eq_iff_mset_eq_distinct [of "map fst (cf_out st)" "[0..<cf_pops st]"] by simp
  have "map snd (cf_out st) = map (nth (cf_log st)) (map fst (cf_out st))" using out by auto
  then have "mset (map snd (cf_out st)) = image_mset (nth (cf_log st)) (mset (map fst (cf_out st)))" by (simp only: mset_map)
  also have "\<dots> = mset (map (nth (cf_log st)) [0..<cf_pops st])" unfolding perm by simp
  also have "map (nth (cf_log st)) [0..<cf_pops st] = take (cf_pops st) (cf_log st)"
    using f(1) by (intro nth_equalityI) (simp_all add: ring_ok_def)
  finally show ?thesis .
qed


text \<open>
  C39: under any schedule of any number of threads, as long as fewer than \<open>2 ^ 63\<close> pushes have claimed
  a ticket, every pop returns the value of the push with the same ticket, no ticket is returned twice, the
  claimed tickets never span more than the capacity, and when no operation is in progress the values
  returned are exactly the first ones pushed, in the order of the tickets. Whenever some operation is in
  progress, one of them does not spin: the waiting loops cannot block each other.
\<close>

theorem concurrent_fifo_interleaving:
  fixes q :: "'a::zero concurrent_fifo"
  assumes new: "concurrent_fifo_new TYPE('a) capacity = Some (Inr q)" and st: "st = cf_run acts (cf_init q)"
    and small: "length (cf_log st) + unat capacity \<le> 2 ^ 63"
  shows "distinct (map fst (cf_out st)) \<and> (\<forall>(k, v) \<in> set (cf_out st). k < cf_pops st \<and> v = cf_log st ! k)
    \<and> cf_pops st \<le> length (cf_log st) \<and> length (cf_log st) \<le> cf_pops st + unat capacity
    \<and> ((\<forall>th. cf_phase_of st th = Idle) \<longrightarrow> mset (map snd (cf_out st)) = mset (take (cf_pops st) (cf_log st)))
    \<and> ((\<exists>th. cf_phase_of st th \<noteq> Idle) \<longrightarrow> (\<exists>th. cf_phase_of st th \<noteq> Idle \<and> \<not> spinning st th))"
proof -
  note i = concurrent_fifo_new_inv [OF new]
  have inv: "cf_inv st" unfolding st by (rule run_inv [OF i(1)]) (use small in \<open>simp only: i(2) st\<close>)
  have cap: "cap_of st = unat capacity" using run_monotone [of "cf_init q" acts] i(2) st by simp
  have "cf_pops st \<le> length (cf_log st)" "length (cf_log st) \<le> cf_pops st + unat capacity"
    using cf_inv_facts(1) [OF inv] cap by (simp_all add: ring_ok_def)
  moreover have "distinct (map fst (cf_out st))" "\<forall>(k, v) \<in> set (cf_out st). k < cf_pops st \<and> v = cf_log st ! k"
    using cf_inv_facts(5) [OF inv] by (auto simp: out_ok_def)
  ultimately show ?thesis using quiescent_conserves [OF inv] some_thread_moves [OF inv] by blast
qed

text \<open>
  Two threads on a queue of two slots: thread 1 claims the first ticket and stops; the push of thread 0
  takes the second ticket, and its pop waits for thread 1.
\<close>

definition two_pushes :: "u64 cf_action list" where
  "two_pushes = [Call_push 0 5, Call_push 1 7, Move 1 False, Move 1 False] @ replicate 7 (Move 0 False)
     @ [Call_pop 0, Move 0 False, Move 0 True, Move 0 False, Move 0 False, Move 0 False]"

definition two_slots :: "u64 concurrent_fifo" where
  "two_slots = \<lparr>cf_buffer = [\<lparr>cf_value = 0, cf_epoch = slot_to_epoch 0 False\<rparr>, \<lparr>cf_value = 0, cf_epoch = slot_to_epoch 1 False\<rparr>],
     cf_head = 0, cf_tail = 0, cf_capacity = 2\<rparr>"

lemma two_slots_new: "concurrent_fifo_new TYPE(u64) 2 = Some (Inr two_slots)"
proof -
  have "is_pow2 2" using is_pow2_I [of 1] by simp
  then show ?thesis by (simp add: concurrent_fifo_new_def is_po2_eq two_slots_def upt_conv_Cons)
qed

theorem concurrent_fifo_interleaving_witness:
  "(\<lambda>st. cf_log st = [7, 5] \<and> spinning st 0 \<and> (\<exists>th. cf_phase_of st th \<noteq> Idle \<and> \<not> spinning st th)) (cf_run two_pushes (cf_init two_slots))"
proof -
  let ?st = "cf_run two_pushes (cf_init two_slots)"
  have log: "cf_log ?st = [7, 5]" by code_simp
  have spin: "spinning ?st 0" by code_simp
  then have "cf_phase_of ?st 0 \<noteq> Idle" by (auto simp: spinning_def)
  then have "\<exists>th. cf_phase_of ?st th \<noteq> Idle \<and> \<not> spinning ?st th"
    using concurrent_fifo_interleaving [OF two_slots_new refl, of two_pushes] log by auto
  then show ?thesis using log spin by simp
qed

text \<open>
  C40: a push that loaded the head before others pushed and popped computes a difference that wraps around,
  and reports a full queue although the queue is empty and nobody else uses it: for every capacity there is a
  schedule of two threads after which all threads are idle, all that was pushed has been popped, and a push
  has failed.
\<close>

definition overtaken_push :: "'a \<Rightarrow> 'a cf_action list" where
  "overtaken_push x = [Call_push 0 x, Call_push 1 x] @ replicate 5 (Move 1 False) @ [Call_pop 1] @ replicate 5 (Move 1 False) @ [Move 0 False]"

theorem push_fails_on_empty_queue:
  fixes q :: "'a::zero concurrent_fifo"
  assumes new: "concurrent_fifo_new TYPE('a) capacity = Some (Inr q)"
  shows "(\<lambda>st. (0, Pushed False) \<in> set (cf_ret st) \<and> cf_head (cf_queue st) = cf_tail (cf_queue st) \<and> (\<forall>th. cf_phase_of st th = Idle))
    (cf_run (overtaken_push x) (cf_init q))"
proof -
  have cap: "unat capacity \<le> 2 ^ 63" "is_pow2 (unat capacity)"
    and q: "q = \<lparr>cf_buffer = map (\<lambda>i. \<lparr>cf_value = 0, cf_epoch = slot_to_epoch (of_nat i) False\<rparr>) [0..<unat capacity],
        cf_head = 0, cf_tail = 0, cf_capacity = capacity\<rparr>"
    using new by (auto simp: concurrent_fifo_new_def is_po2_eq split: if_splits bool.splits)
  have pos: "0 < unat capacity" by (rule is_pow2_pos [OF cap(2)])
  then obtain cs where q': "q = \<lparr>cf_buffer = \<lparr>cf_value = 0, cf_epoch = slot_to_epoch 0 False\<rparr> # cs, cf_head = 0, cf_tail = 0, cf_capacity = capacity\<rparr>"
    unfolding q by (simp add: upt_conv_Cons)
  have c: "\<not> capacity \<le> 0" "capacity \<noteq> 0" using pos by auto
  have c': "capacity \<le> - 1" by (rule word_order.extremum)
  have ix: "cf_index 0 p = 0" for p :: "'a concurrent_fifo" by (simp add: cf_index_def modulo_po2_def)
  have five: "replicate 5 a = [a, a, a, a, a]" for a :: "'a cf_action" by (simp add: numeral_eq_Suc)
  let ?st = "cf_run (overtaken_push x) (cf_init q)"
  note run = overtaken_push_def five cf_step_def cf_goto_def cf_return_def cf_put_def cf_init_def q' c c' ix
  have "cf_phase_of ?st = ((\<lambda>th. Idle)(1 := Idle, 0 := Idle)) \<and> cf_ret ?st = [(1, Pushed True), (1, Popped (Some x)), (0, Pushed False)]
      \<and> cf_head (cf_queue ?st) = 1 \<and> cf_tail (cf_queue ?st) = 1"
    by (simp add: run)
  then show ?thesis by simp
qed

theorem push_fails_on_empty_queue_witness:
  "(\<lambda>st. (0, Pushed False) \<in> set (cf_ret st) \<and> cf_head (cf_queue st) = cf_tail (cf_queue st) \<and> (\<forall>th. cf_phase_of st th = Idle))
    (cf_run (overtaken_push (9 :: u64)) (cf_init two_slots))"
  by (rule push_fails_on_empty_queue [OF two_slots_new])

end
