(* ===== verification/Spec2Isabelle.thy ===== *)
theory Spec2Isabelle
  imports Basic_Props Block_Queue_Props Quality Multi_Props Kfifo_Props Linked_Props Concurrent_Props
begin

text \<open>
  Verification of the BlockFIFO and MultiFIFO repository: relaxed concurrent FIFO queues, the exact and
  relaxed queues they are compared with, and the replay that measures how relaxed they are. All paths below are
  relative to \<^verbatim>\<open>src/relaxed_concurrent_fifo\<close>.

  \<^bold>\<open>The parts and how they interact.\<close>
  A benchmark pushes and pops through the handles of one queue. \<^verbatim>\<open>fifo.h\<close> asks of a queue a handle with
  \<^verbatim>\<open>push\<close>, which says whether the element was taken, and \<^verbatim>\<open>pop\<close>, which returns an element or nothing. The
  queues are \<^verbatim>\<open>block_based_queue.h\<close> (BlockFIFO, over the bit sets \<^verbatim>\<open>atomic_bitset.h\<close> and
  \<^verbatim>\<open>atomic_bitset_no_epoch.h\<close>), \<^verbatim>\<open>contenders/multififo\<close> (MultiFifo, ring buffers behind try-locks and three modes
  of choosing among them), \<^verbatim>\<open>contenders/scal\<close> (k-FIFO), \<^verbatim>\<open>concurrent_fifo.h\<close>, \<^verbatim>\<open>lock_fifo.h\<close>, and the linked
  queues \<^verbatim>\<open>MichaelScottQueue.hpp\<close>, \<^verbatim>\<open>FAAArrayQueue.hpp\<close> and LCRQ (\<^verbatim>\<open>LinkedRingQueue.hpp\<close>, \<^verbatim>\<open>LCRQueue.hpp\<close>), which reclaim their nodes through
  \<^verbatim>\<open>contenders/common/HazardPointers.hpp\<close>. \<^verbatim>\<open>benchmarks/benchmark_quality.hpp\<close> replays a recorded run through the
  order-statistics tree \<^verbatim>\<open>replay_tree.hpp\<close>.

  \<^bold>\<open>Contracts.\<close> \<open>Fifo_Spec\<close> states what a queue promises: the locale \<open>pool\<close> for every queue (operations
  return, nothing is lost, duplicated or invented, an empty answer is right), \<open>strict_fifo\<close> for exact bounded
  ones. \<open>Linked_Heap\<close> states \<open>linked_fifo\<close> for the unbounded linked ones, \<open>Multi_Fifo_Laws\<close> states \<open>mf_mode\<close>, the
  interface of a mode of the MultiFifo. Each locale is interpreted on the models: \<open>bbq\<close>, \<open>kfifo\<close>, \<open>lock_fifo\<close>,
  \<open>ring_buffer\<close>, \<open>ms\<close>, \<open>faa\<close>, \<open>lcrq\<close>, \<open>stick_random\<close>, \<open>stick_symmetric\<close>, \<open>stick_swap\<close>; statements about whole runs are the
  locales' lemmas at these interpretations.

  \<^bold>\<open>Theories and sources.\<close>
  \<^item> \<open>Prelude\<close>: words as naturals, lists, rotations. \<open>Utility\<close>: \<^verbatim>\<open>utility.h\<close> and the functions of \<^verbatim>\<open><bit>\<close>.
    \<open>Ring\<close>: slices of a ring, shared by the array queues.
  \<^item> \<open>Atomic_Bitset\<close> and \<open>Bitset_Laws\<close>: both bit sets, on words; their retry loops run against a list of
    values that other threads may have stored.
  \<^item> \<open>Block_Queue\<close>: the BlockFIFO, one definition per function of \<^verbatim>\<open>block_based_queue.h\<close>. \<open>Block_Queue_Inv\<close> has the
    invariant, \<open>Block_Queue_Moves\<close>, \<open>Block_Queue_Write\<close>, \<open>Block_Queue_Read\<close> and \<open>Block_Queue_Pop\<close> the effect of the
    steps of its operations, \<open>Block_Queue_Laws\<close> the interpretation of \<open>pool\<close>, \<open>Block_Queue_Props\<close> the properties.
  \<^item> \<open>Lock_Fifo\<close>, \<open>Ring_Buffer\<close>: \<^verbatim>\<open>lock_fifo.h\<close> and \<^verbatim>\<open>contenders/multififo/ring_buffer.hpp\<close>. \<open>Basic_Props\<close> has
    their properties and those of the bit sets and of \<open>Utility\<close>.
  \<^item> \<open>Replay_Tree\<close>, \<open>Replay_Erase\<close>, \<open>Replay_Copy\<close>, \<open>Replay_Verify\<close>: \<^verbatim>\<open>replay_tree.hpp\<close>, the tree with its leaf
    chain, insertion, removal by iterator and by value with all merges and shifts, copies, and the self-check.
    The other \<open>Replay\<close> theories have the laws; \<open>Replay_Props\<close> the properties. \<open>Quality\<close>: the replay of
    \<^verbatim>\<open>benchmark_quality.hpp\<close>.
  \<^item> \<open>Multi_Fifo\<close>, \<open>Multi_Modes\<close>: \<^verbatim>\<open>multififo.hpp\<close>, \<^verbatim>\<open>handle.hpp\<close> and the modes \<^verbatim>\<open>stick_random.hpp\<close>,
    \<^verbatim>\<open>stick_random_symmetric.hpp\<close>, \<^verbatim>\<open>stick_swap.hpp\<close>. \<open>Multi_Conc\<close> and \<open>Multi_Swap_Conc\<close> restate the try-lock
    sections and the swap of StickSwap as step relations over atomic accesses. \<open>Multi_Props\<close> has the properties.
  \<^item> \<open>Kfifo\<close>, \<open>Kfifo_Laws\<close>, \<open>Kfifo_Props\<close>: the tagged values and the bounded-size k-FIFO of \<^verbatim>\<open>contenders/scal\<close>.
  \<^item> \<open>Hazard_Pointers\<close>, \<open>Linked_Heap\<close>, \<open>Michael_Scott\<close>, \<open>FAA_Array\<close>, \<open>Linked_Props\<close>: hazard pointers, the heap of
    linked nodes, and the linked queues. \<open>Lcrq\<close> models LCRQ, \<open>Lcrq_Laws\<close> has the laws of one ring and \<open>Lcrq_Queue\<close>
    those of the list of rings.
  \<^item> \<open>Concurrent_Fifo\<close>, \<open>Concurrent_Props\<close>: \<^verbatim>\<open>concurrent_fifo.h\<close> as interleaved accesses.

  \<^bold>\<open>Concurrency.\<close> Four protocols are modelled access by access under any interleaving: the claims of bits
  in the bit sets, the try-locks of the MultiFifo, the swap of StickSwap, and \<^verbatim>\<open>concurrent_fifo\<close> as a whole. The scan of
  \<^verbatim>\<open>HazardPointers::retire\<close> and the loads of \<^verbatim>\<open>protect\<close> take arbitrary interference as an argument. The operations of
  the other queues are whole functions: any number of handles take turns, and every test of the source
  against interference is kept, but two operations do not overlap. Accesses are sequentially consistent.

  \<^bold>\<open>What is shown.\<close>
  BlockFIFO (C1 to C7): operations return and conserve the elements, a pop takes from the two oldest windows, the
  constructor establishes the invariant, both sizes count the elements, runs conserve, a drain returns everything.
  Bit sets and exact queues (C8 to C12): exclusive claims, honest failures, epoch change at the last
  reset, FIFO order, the ring buffer across counter wrap-around.
  Replay tree and quality replay (C13 to C20): rank and delay of removed values, insertion, removal, the
  self-check on every reachable tree of fewer than \<open>2 ^ 32\<close> entries (and its failure on larger ones), ranks, equivalence of the searches, copies, and that the replay reports
  the true rank errors and delays.
  MultiFifo (C21 to C29): a pop takes the front of one queue, a push appends to one queue, runs conserve, ticks,
  two misbehaviours, and the two interleaved protocols.
  k-FIFO (C30 to C33): tagged values, segment order of both operations, lost wide items.
  Linked queues (C34 to C38): no held object is deleted, the retired lists are bounded while the slots do not change,
  and the three queues refine a list without touching freed memory, without an access outside the arrays of the hazard
  pointers and without leaks.
  \<^verbatim>\<open>concurrent_fifo\<close> (C39, C40): ticket order, conservation and absence of deadlock under every schedule, and a
  push that fails on an empty queue.

  \<^bold>\<open>Bounds and fuel.\<close> Loops without a bound in the source take fuel or a list of choices, and the
  theorems give an amount that suffices. BlockFIFO: the invariant is indexed by the number of operations that the
  finite epochs still allow, and the fuel is a multiple of the number of windows and blocks. MultiFifo: a
  handle carries the numbers it will draw; a run needs enough draws that reach every queue. k-FIFO: the
  number of slots plus two rounds. Linked queues: one round, or two where a drained node is left behind; the
  destructor needs one round per element. Hazard pointers: the arrays have 192 rows of 32 slots whatever the
  constructor is given, and an access outside is the value \<^term>\<open>None\<close>; the linked queues are therefore
  constructed for at most 192 threads and called by threads with numbers below 192. The self-check of the tree counts in 32 bits. \<^verbatim>\<open>concurrent_fifo\<close>: fewer than \<open>2 ^ 63\<close> pushes, since epochs have 63 bits;
  LCRQ: tickets below \<open>2 ^ 62\<close>, clear of bit 63.

  \<^bold>\<open>Not modelled.\<close> The contenders in C under \<^verbatim>\<open>contenders/2D\<close>: third-party code with its own allocator and
  assembly. The PCG random number
  library: its results are arguments. Timed benchmark threads, the graph benchmark with its termination
  detection, printing, command line, file input, clocks and floating-point averages: no state of a queue depends on them.
  Overlapping operations of BlockFIFO, of the k-FIFO and of the linked queues: their pieces that
  are claimed with one atomic access are covered, the whole operations are not. Weak memory orders: the model is
  sequentially consistent.
\<close>

end
